(* ===== verification/Prelude.thy ===== *)
theory Prelude
  imports Main "HOL-Library.Word" "HOL-Library.Monad_Syntax"
begin

unbundle bit_operations_syntax

text \<open>
  Shared vocabulary of the development: the machine integer types of the C code, the
  collections of rewrite rules, and lemmas on options, lists and words that several
  components use.  Nothing here models a line of the repository.
\<close>

section \<open>Machine integers\<close>

type_synonym byte = "8 word"
type_synonym u16 = "16 word"
type_synonym u32 = "32 word"
type_synonym u64 = "64 word"

text \<open>
  The build of \<^verbatim>\<open>src/src/Makefile\<close> is for \<^verbatim>\<open>__x86_64__\<close>: \<^verbatim>\<open>size_t\<close>,
  \<^verbatim>\<open>long\<close> and pointers have 64 bits, \<^verbatim>\<open>int\<close> and \<^verbatim>\<open>uint32_t\<close> have 32, and
  \<^verbatim>\<open>char\<close> is signed.
\<close>

section \<open>Collections\<close>

named_theorems fault_simps "rewriting of the fault monad: binds, guards and checked accesses"
named_theorems inv_intros "preservation of component invariants, one rule per operation"

section \<open>The fault monad\<close>

text \<open>
  A C operation is modelled by a function into an \<open>option\<close> type.  \<open>None\<close> means that
  the C code has no defined result there: it reads or writes outside an object, follows
  a NULL pointer, or does not return.  \<open>Some\<close> carries the result and the new state.
\<close>

definition check :: "bool \<Rightarrow> unit option" where
  "check b = (if b then Some () else None)"

lemma check_simps [simp, fault_simps]:
  "check True = Some ()" "check False = None"
  "(check b = Some u) \<longleftrightarrow> b" "(check b = None) \<longleftrightarrow> \<not> b"
  by (auto simp: check_def)

lemma bind_check [simp, fault_simps]:
  "Option.bind (check b) f = (if b then f () else None)"
  by (simp add: check_def)

lemma bind_Some_iff [fault_simps]:
  "Option.bind m f = Some y \<longleftrightarrow> (\<exists>x. m = Some x \<and> f x = Some y)"
  by (cases m) auto

text \<open>Reading and writing one cell of an array, with the bound written out.\<close>

definition cell_get :: "'a list \<Rightarrow> nat \<Rightarrow> 'a option" where
  "cell_get xs i = (if i < length xs then Some (xs ! i) else None)"

definition cell_set :: "'a list \<Rightarrow> nat \<Rightarrow> 'a \<Rightarrow> 'a list option" where
  "cell_set xs i x = (if i < length xs then Some (xs[i := x]) else None)"

lemma cell_get_in [simp, fault_simps]: "i < length xs \<Longrightarrow> cell_get xs i = Some (xs ! i)"
  by (simp add: cell_get_def)

lemma cell_set_in [simp, fault_simps]: "i < length xs \<Longrightarrow> cell_set xs i x = Some (xs[i := x])"
  by (simp add: cell_set_def)

lemma cell_get_SomeD [fault_simps]:
  "cell_get xs i = Some x \<longleftrightarrow> i < length xs \<and> x = xs ! i"
  by (auto simp: cell_get_def)

lemma cell_set_SomeD [fault_simps]:
  "cell_set xs i x = Some ys \<longleftrightarrow> i < length xs \<and> ys = xs[i := x]"
  by (auto simp: cell_set_def)

section \<open>Lists\<close>

lemma take_append_exact: "length xs = n \<Longrightarrow> take n (xs @ ys) = xs"
  by simp

lemma drop_one_left: "length xs = Suc n \<Longrightarrow> drop n xs = [xs ! n]"
  by (subst Cons_nth_drop_Suc [symmetric]) simp_all

lemma filter_map_update_irrelevant:
  assumes "i < length xs" "\<not> P (xs ! i)" "\<not> P x"
  shows "filter P (xs[i := x]) = filter P xs"
  using assms
proof (induction xs arbitrary: i)
  case (Cons y ys)
  then show ?case by (cases i) auto
qed simp

lemma length_filter_update:
  "i < length xs \<Longrightarrow>
     length (filter P (xs[i := x])) + (if P (xs ! i) then 1 else 0) =
     length (filter P xs) + (if P x then 1 else 0)"
proof (induction xs arbitrary: i)
  case (Cons y ys)
  then show ?case by (cases i) auto
qed simp

lemma distinct_bounded_length: "distinct xs \<Longrightarrow> set xs \<subseteq> {..<n} \<Longrightarrow> length xs \<le> n"
  by (metis card_lessThan card_mono distinct_card finite_lessThan)

section \<open>Words\<close>

lemma unat_less_64: "unat (x :: u64) < 2 ^ 64"
  by (rule order.strict_trans2 [OF unsigned_less]) simp

lemma unat_less_32: "unat (x :: u32) < 2 ^ 32"
  by (rule order.strict_trans2 [OF unsigned_less]) simp

lemma unat_of_nat_small:
  "n < 2 ^ LENGTH('a) \<Longrightarrow> unat (of_nat n :: 'a::len word) = n"
  by (simp add: unat_of_nat take_bit_eq_mod)

lemma unat_add_small:
  "unat (x :: 'a::len word) + unat y < 2 ^ LENGTH('a) \<Longrightarrow> unat (x + y) = unat x + unat y"
  by (simp add: unat_word_ariths)

lemma unat_Suc_small:
  "unat (x :: 'a::len word) + 1 < 2 ^ LENGTH('a) \<Longrightarrow> unat (x + 1) = Suc (unat x)"
  by (simp add: unat_word_ariths)

lemma sint_of_int_small:
  "- (2 ^ (LENGTH('a) - 1)) \<le> k \<Longrightarrow> k < 2 ^ (LENGTH('a) - 1) \<Longrightarrow> sint (of_int k :: 'a::len word) = k"
  by (simp add: signed_of_int signed_take_bit_int_eq_self)

lemma sint_negative_32: "bit (w :: u32) 31 \<Longrightarrow> sint w = uint w - 2 ^ 32"
proof -
  assume "bit w 31"
  then have "bit (uint w) 31" by (simp add: bit_unsigned_iff)
  moreover have "take_bit 32 (uint w) = uint w"
    using uint_bounded [of w] by (intro take_bit_int_eq_self) auto
  ultimately show ?thesis by (simp add: sint_uint signed_take_bit_eq_take_bit_minus)
qed

lemma unat_minus_small:
  "unat (y :: 'a::len word) \<le> unat x \<Longrightarrow> unat (x - y) = unat x - unat y"
  by (simp add: unat_sub_if_size)

lemma uint_below: "unat (x :: 'a::len word) < n \<Longrightarrow> uint x < int n"
  unfolding unat_eq_nat_uint by (simp only: nat_less_iff uint_ge_0)

end
