(* ===== verification/EfUtil.thy ===== *)
theory EfUtil
  imports Prelude
begin

text \<open>
  \<^verbatim>\<open>structure/util.h\<close>: \<open>ef_resize\<close>, the rounding of a capacity to a power of two by
  smearing the highest set bit to the right.  The same smearing, one step shorter, is
  \<^verbatim>\<open>hash_recap\<close> of the hash table, so it is a generic function on words here.
\<close>

section \<open>Smearing the highest bit\<close>

text \<open>
  The C code unrolls the loop: with \<open>k\<close> steps \<open>x |= x >> 1, x |= x >> 2, \<dots>\<close>, the shift
  doubling each time.
\<close>

fun smear :: "nat \<Rightarrow> 'a::len word \<Rightarrow> 'a word" where
  "smear 0 x = x"
| "smear (Suc k) x = (let y = smear k x in y OR drop_bit (2 ^ k) y)"

lemma smear_numeral:
  "smear (numeral n) x =
     (let y = smear (pred_numeral n) x in y OR drop_bit (2 ^ pred_numeral n) y)"
  by (simp add: numeral_eq_Suc)

lemma bit_smear: "bit (smear k x) n \<longleftrightarrow> (\<exists>j < 2 ^ k. bit x (n + j))"
proof (induction k arbitrary: n)
  case 0
  show ?case by simp
next
  case (Suc k)
  have "(\<exists>j < 2 ^ Suc k. bit x (n + j)) \<longleftrightarrow>
      (\<exists>j < 2 ^ k. bit x (n + j)) \<or> (\<exists>j < 2 ^ k. bit x (n + (2 ^ k + j)))" (is "?l = ?r")
  proof
    assume ?l
    then obtain j where j: "j < 2 ^ Suc k" "bit x (n + j)" by blast
    show ?r
    proof (cases "j < 2 ^ k")
      case True
      with j show ?thesis by blast
    next
      case False
      with j have "j - 2 ^ k < 2 ^ k" "bit x (n + (2 ^ k + (j - 2 ^ k)))" by auto
      then show ?thesis by blast
    qed
  next
    assume ?r
    then show ?l
    proof
      assume "\<exists>j<2 ^ k. bit x (n + j)"
      then obtain j where "j < 2 ^ k" "bit x (n + j)" by blast
      then show ?l by (intro exI [of _ j]) auto
    next
      assume "\<exists>j<2 ^ k. bit x (n + (2 ^ k + j))"
      then obtain j where "j < 2 ^ k" "bit x (n + (2 ^ k + j))" by blast
      then show ?l by (intro exI [of _ "2 ^ k + j"]) auto
    qed
  qed
  then show ?case
    by (simp add: Let_def bit_or_iff bit_drop_bit_eq Suc.IH ac_simps)
qed

lemma bit_smear_full:
  fixes x :: "'a::len word"
  assumes "LENGTH('a) \<le> 2 ^ k"
  shows "bit (smear k x) n \<longleftrightarrow> (\<exists>m \<ge> n. bit x m)"
proof
  assume "bit (smear k x) n"
  then obtain j where "bit x (n + j)" by (auto simp: bit_smear)
  then show "\<exists>m \<ge> n. bit x m" by (intro exI [of _ "n + j"]) simp
next
  assume "\<exists>m \<ge> n. bit x m"
  then obtain m where m: "n \<le> m" "bit x m" by blast
  from m(2) have "m < LENGTH('a)" by (rule bit_imp_le_length)
  with assms m show "bit (smear k x) n"
    by (auto simp: bit_smear intro!: exI [of _ "m - n"])
qed

text \<open>The highest set bit of a nonzero word and the interval it fixes.\<close>

lemma highest_bit:
  fixes x :: "'a::len word"
  assumes "x \<noteq> 0"
  obtains p where "p < LENGTH('a)" "bit x p" "\<And>m. bit x m \<Longrightarrow> m \<le> p"
proof -
  define S where "S = {m. bit x m}"
  have fin: "finite S"
    by (rule finite_subset [of _ "{..<LENGTH('a)}"]) (auto simp: S_def bit_imp_le_length)
  from assms obtain q where "bit x q" by (auto simp: bit_eq_iff)
  then have ne: "S \<noteq> {}" by (auto simp: S_def)
  have "bit x (Max S)" using Max_in [OF fin ne] by (simp add: S_def)
  moreover have "Max S < LENGTH('a)" using calculation by (rule bit_imp_le_length)
  moreover have "\<And>m. bit x m \<Longrightarrow> m \<le> Max S" using fin by (auto simp: S_def)
  ultimately show thesis using that by blast
qed

lemma highest_bit_bounds:
  fixes x :: "'a::len word"
  assumes "bit x p" and top: "\<And>m. bit x m \<Longrightarrow> m \<le> p"
  shows "2 ^ p \<le> unat x" and "unat x < 2 ^ Suc p"
proof -
  have b: "bit (unat x) p"
    using assms(1) by (simp add: bit_unsigned_iff)
  then have "odd (unat x div 2 ^ p)" by (simp add: bit_iff_odd)
  then have "unat x div 2 ^ p \<noteq> 0" by (metis even_zero)
  then show "2 ^ p \<le> unat x" by (simp add: div_eq_0_iff)
  have "take_bit (Suc p) x = x"
    by (rule bit_eqI) (auto simp: bit_take_bit_iff dest: top)
  then have "take_bit (Suc p) (unat x) = unat x"
    by (metis unsigned_take_bit_eq)
  then show "unat x < 2 ^ Suc p" by (simp add: take_bit_nat_eq_self_iff)
qed

lemma smear_eq_mask:
  fixes x :: "'a::len word"
  assumes "x \<noteq> 0" "LENGTH('a) \<le> 2 ^ k"
  obtains p where "p < LENGTH('a)" "smear k x = mask (Suc p)"
    "2 ^ p \<le> unat x" "unat x < 2 ^ Suc p"
proof -
  obtain p where p: "p < LENGTH('a)" "bit x p" "\<And>m. bit x m \<Longrightarrow> m \<le> p"
    using highest_bit [OF assms(1)] by blast
  have "(\<exists>m \<ge> n. bit x m) \<longleftrightarrow> n < Suc p" for n
    using p(2,3) by (meson le_trans less_Suc_eq_le)
  then have "smear k x = mask (Suc p)"
    by (intro bit_word_eqI) (simp add: bit_smear_full [OF assms(2)] bit_mask_iff)
  with p highest_bit_bounds [OF p(2,3)] show thesis by (intro that) auto
qed

lemma unat_smear_Suc:
  fixes s :: "'a::len word"
  assumes "2 \<le> unat s" "unat s \<le> 2 ^ (LENGTH('a) - 1)" "LENGTH('a) \<le> 2 ^ k"
  obtains p where "unat (smear k (s - 1) + 1) = 2 ^ p" "p < LENGTH('a)"
    "unat s \<le> 2 ^ p" "2 ^ p < 2 * unat s"
proof -
  have len: "unat (s - 1) = unat s - 1"
    using assms(1) by (simp add: unat_sub_if_size word_le_nat_alt unat_minus_small)
  then have "s - 1 \<noteq> 0" using assms(1) by (metis diff_is_0_eq not_less_eq_eq numeral_2_eq_2 unat_0 One_nat_def)
  then obtain p where p: "p < LENGTH('a)" "smear k (s - 1) = mask (Suc p)"
    "2 ^ p \<le> unat (s - 1)" "unat (s - 1) < 2 ^ Suc p"
    using smear_eq_mask assms(3) by blast
  have "(2::nat) ^ p < 2 ^ (LENGTH('a) - 1)" using p(3) len assms(1,2) by linarith
  then have "Suc p < LENGTH('a)" by (simp add: less_diff_conv)
  moreover have "smear k (s - 1) + 1 = 2 ^ Suc p"
    by (simp add: p(2) mask_eq_exp_minus_1)
  moreover have "unat (of_nat (2 ^ Suc p) :: 'a word) = 2 ^ Suc p"
    by (rule unat_of_nat_small) (rule power_strict_increasing, use calculation in auto)
  ultimately have "unat (smear k (s - 1) + 1) = 2 ^ Suc p"
    by (simp only: of_nat_power of_nat_numeral)
  moreover have "unat s \<le> 2 ^ Suc p" "2 ^ Suc p < 2 * unat s"
    using p(3,4) len assms(1) by auto
  ultimately show thesis using that \<open>Suc p < LENGTH('a)\<close> by blast
qed

section \<open>ef_resize\<close>

definition ef_resize :: "u64 \<Rightarrow> u64 \<Rightarrow> u64" where
  "ef_resize sz mn =
     (let sz = (if sz < mn then mn else sz);
          sz = sz - 1;
          sz = sz OR drop_bit 1 sz;
          sz = sz OR drop_bit 2 sz;
          sz = sz OR drop_bit 4 sz;
          sz = sz OR drop_bit 8 sz;
          sz = sz OR drop_bit 16 sz;
          sz = sz OR drop_bit 32 sz
      in sz + 1)"

lemma ef_resize_smear: "ef_resize sz mn = smear 6 (max sz mn - 1) + 1"
  by (auto simp: ef_resize_def Let_def max_def smear_numeral)

lemma ef_resize_zero: "ef_resize 0 0 = 0"
  by (simp add: ef_resize_def)

lemma ef_resize_one: "ef_resize 1 0 = 1"
  by (simp add: ef_resize_def)

lemma ef_resize_spec:
  assumes "0 < unat (max sz mn)" "unat (max sz mn) \<le> 2 ^ 63"
  obtains p where "unat (ef_resize sz mn) = 2 ^ p" "p < 64"
    "unat (max sz mn) \<le> 2 ^ p" "2 ^ p < 2 * unat (max sz mn)"
proof (cases "unat (max sz mn) = 1")
  case True
  then have "max sz mn = 1" by (metis unat_1 word_unat_eq_iff)
  then have "unat (ef_resize sz mn) = 2 ^ 0" by (simp add: ef_resize_smear smear_numeral)
  with True show thesis by (intro that [of 0]) auto
next
  case False
  with assms have "2 \<le> unat (max sz mn)" by linarith
  then obtain p where "unat (smear 6 (max sz mn - 1) + 1) = 2 ^ p" "p < 64"
    "unat (max sz mn) \<le> 2 ^ p" "2 ^ p < 2 * unat (max sz mn)"
    using unat_smear_Suc [of "max sz mn" 6] assms(2) by auto
  then show thesis by (intro that [of p]) (auto simp: ef_resize_smear)
qed

text \<open>Beyond \<open>2 ^ 63\<close> the rounded sz does not fit and wraps to 0.\<close>

lemma ef_resize_overflow:
  assumes "2 ^ 63 < unat (max sz mn)"
  shows "ef_resize sz mn = 0"
proof -
  define s where "s = max sz mn"
  have len: "unat (s - 1) = unat s - 1"
    using assms by (simp add: s_def unat_minus_small)
  then have ge: "2 ^ 63 \<le> unat (s - 1)" using assms by (simp add: s_def)
  then have "s - 1 \<noteq> 0" by auto
  then obtain p where p: "p < 64" "smear 6 (s - 1) = mask (Suc p)" "unat (s - 1) < 2 ^ Suc p"
    using smear_eq_mask [of "s - 1" 6] by auto
  have "(2::nat) ^ 63 < 2 ^ Suc p" using ge p(3) by linarith
  then have "63 < Suc p" by (metis one_less_numeral_iff power_less_imp_less_exp semiring_norm(76) power_strict_increasing_iff)
  with p(1) have "Suc p = 64" by linarith
  then have "smear 6 (s - 1) + 1 = 0" by (simp add: p(2) mask_eq_exp_minus_1)
  then show ?thesis by (simp add: ef_resize_smear s_def)
qed

section \<open>Property\<close>

text \<open>
  Where it fits a \<^verbatim>\<open>size_t\<close>, the rounded size is the least power of two that is not
  below the size and the minimum asked for, which callers rely on for amortised growth and, in the
  hash table, for masking; above \<open>2 ^ 63\<close> it is 0.
\<close>

theorem ef_resize_least_power:
  "(\<exists>p < 64. unat (ef_resize sz mn) = 2 ^ p \<and> unat (max sz mn) \<le> 2 ^ p \<and> 2 ^ p < 2 * unat (max sz mn)) \<or>
   ef_resize sz mn = 0 \<and> (max sz mn = 0 \<or> 2 ^ 63 < unat (max sz mn))"
proof -
  consider "max sz mn = 0" | "0 < unat (max sz mn)" "unat (max sz mn) \<le> 2 ^ 63" | "2 ^ 63 < unat (max sz mn)"
    by (metis leI unat_gt_0)
  then show ?thesis
  proof cases
    case 1
    then have "ef_resize sz mn = ef_resize 0 0" by (simp add: ef_resize_smear)
    with 1 show ?thesis by (simp add: ef_resize_zero)
  next
    case 2
    then show ?thesis by (rule ef_resize_spec) blast
  next
    case 3
    then show ?thesis using ef_resize_overflow by blast
  qed
qed

end
