(* ===== verification/CMemory.thy ===== *)
theory CMemory
  imports Prelude
begin

text \<open>
  The part of the C library the data structures rest on: \<^verbatim>\<open>malloc\<close>,
  \<^verbatim>\<open>realloc\<close>, \<^verbatim>\<open>memcpy\<close>, \<^verbatim>\<open>strlen\<close>.  An allocated block is the list of its
  bytes, a pointer to it an option (\<open>None\<close> is NULL).  Whether a request is granted, and
  what bytes a fresh block holds, is decided by a script: one entry for each coming
  request, and every request granted with zero bytes once the script is used up.  Every
  finite run of the allocator is one of these scripts, so a theorem for all scripts is a
  theorem for every pattern of failures and every content of fresh memory.
\<close>

section \<open>The allocator\<close>

datatype alloc = Refused | Granted "nat \<Rightarrow> byte"

type_synonym mem = "alloc list"

fun next_alloc :: "mem \<Rightarrow> alloc \<times> mem" where
  "next_alloc [] = (Granted (\<lambda>_. 0), [])"
| "next_alloc (a # m) = (a, m)"

text \<open>A struct: all its fields are written by the code after the allocation.\<close>

definition malloc_obj :: "mem \<Rightarrow> bool \<times> mem" where
  "malloc_obj m = (case next_alloc m of (Refused, m') \<Rightarrow> (False, m') | (Granted _, m') \<Rightarrow> (True, m'))"

text \<open>A block of \<open>n\<close> bytes.\<close>

definition malloc_bytes :: "mem \<Rightarrow> nat \<Rightarrow> byte list option \<times> mem" where
  "malloc_bytes m n =
     (case next_alloc m of
        (Refused, m') \<Rightarrow> (None, m')
      | (Granted junk, m') \<Rightarrow> (Some (map junk [0..<n]), m'))"

text \<open>
  \<^verbatim>\<open>realloc\<close> keeps the old bytes up to the smaller size.  Resizing a block to 0 bytes
  has no portable result (it may free the block and return NULL): the outer \<open>None\<close>.
\<close>

definition realloc_bytes :: "mem \<Rightarrow> byte list option \<Rightarrow> nat \<Rightarrow> (byte list option \<times> mem) option" where
  "realloc_bytes m p n =
     (case p of
        None \<Rightarrow> Some (malloc_bytes m n)
      | Some b \<Rightarrow>
          if n = 0 then None
          else (case next_alloc m of
                  (Refused, m') \<Rightarrow> Some (None, m')
                | (Granted junk, m') \<Rightarrow>
                    Some (Some (take n b @ map junk [length b..<n]), m')))"

lemma malloc_obj_Nil [simp]: "malloc_obj [] = (True, [])"
  by (simp add: malloc_obj_def)

lemma malloc_bytes_Nil [simp]: "malloc_bytes [] n = (Some (replicate n 0), [])"
  by (simp add: malloc_bytes_def map_replicate_const)

lemma malloc_bytes_length: "malloc_bytes m n = (Some b, m') \<Longrightarrow> length b = n"
  by (auto simp: malloc_bytes_def split: prod.splits alloc.splits)

lemma realloc_bytes_length:
  "realloc_bytes m p n = Some (Some b, m') \<Longrightarrow> length b = n"
  by (auto simp: realloc_bytes_def malloc_bytes_def split: option.splits prod.splits alloc.splits if_splits)

lemma realloc_bytes_keeps:
  "realloc_bytes m (Some old) n = Some (Some b, m') \<Longrightarrow> k \<le> n \<Longrightarrow> k \<le> length old \<Longrightarrow> take k b = take k old"
  by (auto simp: realloc_bytes_def min_def split: option.splits prod.splits alloc.splits if_splits)

lemma realloc_bytes_defined:
  "p = None \<or> 0 < n \<Longrightarrow> \<exists>r m'. realloc_bytes m p n = Some (r, m')"
  by (auto simp: realloc_bytes_def split: option.splits prod.splits alloc.splits)

section \<open>Copies between blocks\<close>

definition read_block :: "byte list \<Rightarrow> nat \<Rightarrow> nat \<Rightarrow> byte list option" where
  "read_block b off n = (if off + n \<le> length b then Some (take n (drop off b)) else None)"

definition write_block :: "byte list \<Rightarrow> nat \<Rightarrow> byte list \<Rightarrow> byte list option" where
  "write_block b off d =
     (if off + length d \<le> length b
      then Some (take off b @ d @ drop (off + length d) b) else None)"

text \<open>Copying nothing is harmless even to and from NULL.\<close>

definition read_ptr :: "byte list option \<Rightarrow> nat \<Rightarrow> nat \<Rightarrow> byte list option" where
  "read_ptr p off n =
     (if n = 0 then Some [] else (case p of None \<Rightarrow> None | Some b \<Rightarrow> read_block b off n))"

definition write_ptr :: "byte list option \<Rightarrow> nat \<Rightarrow> byte list \<Rightarrow> byte list option option" where
  "write_ptr p off d =
     (if d = [] then Some p
      else (case p of None \<Rightarrow> None | Some b \<Rightarrow> map_option Some (write_block b off d)))"

lemma read_block_Some [fault_simps]:
  "read_block b off n = Some d \<longleftrightarrow> off + n \<le> length b \<and> d = take n (drop off b)"
  by (auto simp: read_block_def)

lemma read_block_length: "read_block b off n = Some d \<Longrightarrow> length d = n"
  by (auto simp: read_block_def split: if_splits)

lemma write_block_Some [fault_simps]:
  "write_block b off d = Some b' \<longleftrightarrow>
     off + length d \<le> length b \<and> b' = take off b @ d @ drop (off + length d) b"
  by (auto simp: write_block_def)

lemma write_block_length: "write_block b off d = Some b' \<Longrightarrow> length b' = length b"
  by (auto simp: write_block_def split: if_splits)

lemma write_block_take:
  "write_block b off d = Some b' \<Longrightarrow> take (off + length d) b' = take off b @ d"
  by (auto simp: write_block_def split: if_splits)

section \<open>NUL-terminated strings\<close>

text \<open>\<open>None\<close> when the object holds no NUL: the scan runs past its end.\<close>

definition strlen :: "byte list \<Rightarrow> nat option" where
  "strlen s =
     (let n = length (takeWhile (\<lambda>c. c \<noteq> 0) s) in if n < length s then Some n else None)"

lemma takeWhile_NUL: "0 \<notin> set s \<Longrightarrow> takeWhile (\<lambda>c. c \<noteq> 0) (s @ 0 # t) = s"
  by (induction s) auto

lemma strlen_append_NUL: "0 \<notin> set s \<Longrightarrow> strlen (s @ 0 # t) = Some (length s)"
  by (simp add: strlen_def takeWhile_NUL)

lemma strlen_less: "strlen s = Some n \<Longrightarrow> n < length s"
  by (auto simp: strlen_def Let_def split: if_splits)

lemma strlen_nth: "strlen s = Some n \<Longrightarrow> s ! n = 0"
  by (auto simp: strlen_def Let_def dest: nth_length_takeWhile split: if_splits)

lemma strlen_Some_0 [simp]: "strlen (0 # s) = Some 0"
  by (simp add: strlen_def)

end
