(* ===== verification/EfBasic.thy ===== *)
theory EfBasic
  imports CMemory
begin

text \<open>
  \<^verbatim>\<open>basic/basic.c\<close>: conversions between numbers and digit strings, and lower-casing in
  place.  Characters are bytes; \<^verbatim>\<open>char\<close> is signed, so a byte widens with its sign.
\<close>

section \<open>int2str\<close>

text \<open>The counting loop \<^verbatim>\<open>while (m > 0) { len++; m /= 10; }\<close> on a C \<^verbatim>\<open>int\<close>.\<close>

function count_digits :: "int \<Rightarrow> nat" where
  "count_digits m = (if 0 < m then Suc (count_digits (m div 10)) else 0)"
  by pat_completeness auto
termination
  by (relation "measure nat") auto

declare count_digits.simps [simp del]

text \<open>
  The filling loop \<^verbatim>\<open>while (--len >= 0)\<close>, from the last digit to the first; its first
  argument is the number of turns left.
\<close>

fun fill_digits :: "nat \<Rightarrow> int \<Rightarrow> byte list \<Rightarrow> byte list option" where
  "fill_digits 0 n str = Some str"
| "fill_digits (Suc len) n str =
     do { str \<leftarrow> cell_set str len (48 + of_int (n mod 10));
          fill_digits len (n div 10) str }"

definition int2str :: "mem \<Rightarrow> int \<Rightarrow> (byte list \<times> mem) option" where
  "int2str m n =
     (if n = 0 then Some ([48, 0], m)
      else let len = count_digits n;
               (p, m) = malloc_bytes m (len + 1)
           in case p of
                None \<Rightarrow> Some ([0, 0], m)
              | Some str \<Rightarrow>
                  do { str \<leftarrow> cell_set str len 0;
                       str \<leftarrow> fill_digits len n str;
                       Some (str, m) })"

section \<open>str2int and hexstr2int\<close>

text \<open>
  \<^verbatim>\<open>while (s < end) { n = n * base + (*s - '0'); s++; }\<close> with \<open>i\<close> the offset of \<^verbatim>\<open>s\<close>
  and \<open>e\<close> that of \<^verbatim>\<open>end\<close>; the two C functions differ in the base only.
\<close>

function acc_digits :: "u64 \<Rightarrow> byte list \<Rightarrow> nat \<Rightarrow> nat \<Rightarrow> u64 \<Rightarrow> u64 option" where
  "acc_digits base s i e n =
     (if i < e
      then do { c \<leftarrow> cell_get s i; acc_digits base s (Suc i) e (n * base + (scast c - 48)) }
      else Some n)"
  by pat_completeness auto
termination
  by (relation "measure (\<lambda>(base, s, i, e, n). e - i)") auto

declare acc_digits.simps [simp del]

definition signed_digits :: "u64 \<Rightarrow> byte list \<Rightarrow> nat \<Rightarrow> u64 option" where
  "signed_digits base s len =
     do { c \<leftarrow> cell_get s 0;
          let (negative, i) = (if c = 45 then (True, 1) else (False, 0));
          n \<leftarrow> acc_digits base s i len 0;
          Some (if negative then - n else n) }"

definition str2int :: "byte list \<Rightarrow> nat \<Rightarrow> u64 option" where
  "str2int s len = signed_digits 10 s len"

definition hexstr2int :: "byte list \<Rightarrow> nat \<Rightarrow> u64 option" where
  "hexstr2int s len = signed_digits 16 s len"

section \<open>strtolower\<close>

definition lower_char :: "byte \<Rightarrow> byte" where
  "lower_char c = (if 65 \<le>s c \<and> c \<le>s 90 then 97 + (c - 65) else c)"

function lower_loop :: "nat \<Rightarrow> nat \<Rightarrow> byte list \<Rightarrow> byte list option" where
  "lower_loop i len s =
     (if i < len
      then do { c \<leftarrow> cell_get s i;
                s \<leftarrow> (if 65 \<le>s c \<and> c \<le>s 90 then cell_set s i (97 + (c - 65)) else Some s);
                lower_loop (Suc i) len s }
      else Some s)"
  by pat_completeness auto
termination
  by (relation "measure (\<lambda>(i, len, s). len - i)") auto

declare lower_loop.simps [simp del]

definition strtolower :: "byte list \<Rightarrow> nat \<Rightarrow> byte list option" where
  "strtolower s len = lower_loop 0 len s"

section \<open>The value of a digit string\<close>

text \<open>
  The reference: a digit is its byte less \<^verbatim>\<open>'0'\<close>, a string of digits the usual
  positional value, over the integers.
\<close>

definition digit_value :: "byte \<Rightarrow> int" where
  "digit_value c = sint c - 48"

definition digits_value :: "int \<Rightarrow> byte list \<Rightarrow> int" where
  "digits_value base ds = foldl (\<lambda>n c. n * base + digit_value c) 0 ds"

lemma digits_value_snoc [simp]:
  "digits_value b (ds @ [c]) = digits_value b ds * b + digit_value c"
  by (simp add: digits_value_def)

lemma digits_value_Nil [simp]: "digits_value b [] = 0"
  by (simp add: digits_value_def)

lemma acc_digits_foldl:
  assumes "i + length ds \<le> length s" "take (length ds) (drop i s) = ds"
  shows "acc_digits b s i (i + length ds) n = Some (foldl (\<lambda>n c. n * b + (scast c - 48)) n ds)"
  using assms
proof (induction ds arbitrary: i n)
  case Nil
  then show ?case by (simp add: acc_digits.simps)
next
  case (Cons d ds)
  from Cons.prems have i: "i < length s" by simp
  then have dr: "drop i s = s ! i # drop (Suc i) s" by (simp add: Cons_nth_drop_Suc)
  with Cons.prems have "s ! i = d" "take (length ds) (drop (Suc i) s) = ds" by auto
  with Cons.IH [of "Suc i"] Cons.prems i show ?case
    by (subst acc_digits.simps) simp
qed

lemma foldl_of_int:
  "foldl (\<lambda>n c. n * of_int b + (scast c - 48)) (of_int k) ds =
     (of_int (foldl (\<lambda>n c. n * b + digit_value c) k ds) :: u64)"
proof (induction ds arbitrary: k)
  case (Cons d ds)
  have "of_int k * of_int b + (scast d - 48) = (of_int (k * b + digit_value d) :: u64)"
    by (simp add: digit_value_def of_int_sint)
  then show ?case using Cons.IH [of "k * b + digit_value d"] by simp
qed simp

lemma acc_digits_value:
  assumes "i + length ds \<le> length s" "take (length ds) (drop i s) = ds"
  shows "acc_digits (of_int b) s i (i + length ds) 0 = Some (of_int (digits_value b ds))"
  using acc_digits_foldl [OF assms, of "of_int b" 0] foldl_of_int [of b 0 ds]
  by (simp add: digits_value_def)

lemma str2int_unsigned:
  assumes "ds \<noteq> []" "hd ds \<noteq> 45"
  shows "str2int (ds @ rest) (length ds) = Some (of_int (digits_value 10 ds))"
proof -
  from assms(1) obtain d ds' where "ds = d # ds'" by (cases ds) auto
  then show ?thesis
    using assms(2) acc_digits_value [of 0 ds "ds @ rest" 10]
    by (simp add: str2int_def signed_digits_def cell_get_def)
qed

lemma str2int_negative:
  "str2int (45 # ds @ rest) (Suc (length ds)) = Some (- of_int (digits_value 10 ds))"
  using acc_digits_value [of 1 ds "45 # ds @ rest" 10]
  by (simp add: str2int_def signed_digits_def cell_get_def)

lemma hexstr2int_unsigned:
  assumes "ds \<noteq> []" "hd ds \<noteq> 45"
  shows "hexstr2int (ds @ rest) (length ds) = Some (of_int (digits_value 16 ds))"
proof -
  from assms(1) obtain d ds' where "ds = d # ds'" by (cases ds) auto
  then show ?thesis
    using assms(2) acc_digits_value [of 0 ds "ds @ rest" 16]
    by (simp add: hexstr2int_def signed_digits_def cell_get_def)
qed

section \<open>The digits int2str writes\<close>

fun dec_digits :: "nat \<Rightarrow> int \<Rightarrow> byte list" where
  "dec_digits 0 n = []"
| "dec_digits (Suc k) n = dec_digits k (n div 10) @ [48 + of_int (n mod 10)]"

lemma length_dec_digits [simp]: "length (dec_digits k n) = k"
  by (induction k arbitrary: n) auto

lemma fill_digits_eq:
  "k \<le> length str \<Longrightarrow> fill_digits k n str = Some (dec_digits k n @ drop k str)"
proof (induction k arbitrary: n str)
  case (Suc k)
  then have "drop k (str[k := x]) = x # drop (Suc k) str" for x
    by (simp add: drop_update_swap flip: Cons_nth_drop_Suc)
  with Suc show ?case by simp
qed simp

lemma int2str_granted:
  assumes "0 < n" "next_alloc m = (Granted junk, m')"
  shows "int2str m n = Some (dec_digits (count_digits n) n @ [0], m')"
  using assms by (simp add: int2str_def malloc_bytes_def fill_digits_eq drop_update_swap)

lemma sint_digit: "0 \<le> d \<Longrightarrow> d < 10 \<Longrightarrow> sint (48 + of_int d :: byte) = 48 + d"
proof -
  assume d: "0 \<le> d" "d < 10"
  then have "48 + of_int d = (of_int (48 + d) :: byte)" by simp
  moreover have "sint (of_int (48 + d) :: byte) = 48 + d"
    using d by (intro sint_of_int_small) simp_all
  ultimately show ?thesis by simp
qed

lemma digit_value_dec: "digit_value (48 + of_int (n mod 10)) = n mod 10"
  by (simp add: digit_value_def sint_digit)

lemma digits_value_dec: "0 \<le> n \<Longrightarrow> digits_value 10 (dec_digits (count_digits n) n) = n"
proof (induction n rule: count_digits.induct)
  case (1 n)
  show ?case
  proof (cases "0 < n")
    case True
    with 1 have IH: "digits_value 10 (dec_digits (count_digits (n div 10)) (n div 10)) = n div 10"
      by (simp add: pos_imp_zdiv_nonneg_iff)
    from True have "count_digits n = Suc (count_digits (n div 10))"
      by (subst count_digits.simps) simp
    with IH show ?thesis by (simp add: digit_value_dec)
  next
    case False
    with 1 show ?thesis by (simp add: count_digits.simps)
  qed
qed

lemma dec_digits_range: "c \<in> set (dec_digits k n) \<Longrightarrow> 48 \<le> sint c \<and> sint c \<le> 57"
proof (induction k arbitrary: n)
  case (Suc k)
  have "n mod 10 < 10" "0 \<le> n mod 10" by auto
  then have "sint (48 + of_int (n mod 10) :: byte) = 48 + n mod 10" by (rule sint_digit [rotated])
  with Suc show ?case using \<open>n mod 10 < 10\<close> \<open>0 \<le> n mod 10\<close> by auto
qed simp

lemma count_digits_pos: "0 < n \<Longrightarrow> 0 < count_digits n"
  by (subst count_digits.simps) simp

text \<open>Every positive C \<^verbatim>\<open>int\<close> is read back from its digits.\<close>

lemma str2int_dec_digits:
  assumes "0 < n" "n < 2 ^ 63" "k = count_digits n"
  shows "\<exists>w. str2int (dec_digits k n @ [0]) k = Some w \<and> sint w = n"
proof -
  from assms have ne: "dec_digits k n \<noteq> []"
    using count_digits_pos [OF assms(1)] by (metis length_dec_digits length_greater_0_conv)
  then have "hd (dec_digits k n) \<noteq> 45"
    using dec_digits_range [of "hd (dec_digits k n)" k n] by auto
  with ne have "str2int (dec_digits k n @ [0]) (length (dec_digits k n)) =
      Some (of_int (digits_value 10 (dec_digits k n)))"
    by (rule str2int_unsigned)
  moreover have "sint (of_int n :: u64) = n"
    using assms by (intro sint_of_int_small) simp_all
  ultimately show ?thesis
    using assms by (simp add: digits_value_dec)
qed

section \<open>Lower-casing\<close>

lemma lower_loop_eq:
  assumes "len \<le> length s" "i \<le> len"
  shows "lower_loop i len s = Some (take i s @ map lower_char (take (len - i) (drop i s)) @ drop len s)"
  using assms
proof (induction i len s rule: lower_loop.induct)
  case (1 i len s)
  show ?case
  proof (cases "i < len")
    case True
    with "1.prems" have i: "i < length s" by simp
    define s' where "s' = s[i := lower_char (s ! i)]"
    have upd: "(if 65 \<le>s s ! i \<and> s ! i \<le>s 90 then cell_set s i (97 + (s ! i - 65)) else Some s) = Some s'"
      using i by (simp add: s'_def lower_char_def)
    have IH: "lower_loop (Suc i) len s' =
        Some (take (Suc i) s' @ map lower_char (take (len - Suc i) (drop (Suc i) s')) @ drop len s')"
      using "1.IH" [of "s ! i" s'] True i upd "1.prems" by (simp add: s'_def)
    have "take (len - i) (drop i s) = s ! i # take (len - Suc i) (drop (Suc i) s)"
      using True i by (metis Cons_nth_drop_Suc Suc_diff_Suc take_Suc_Cons)
    moreover have "take (Suc i) s' = take i s @ [lower_char (s ! i)]"
      using i by (simp add: s'_def take_Suc_conv_app_nth)
    moreover have "drop (Suc i) s' = drop (Suc i) s" "drop len s' = drop len s"
      using True by (simp_all add: s'_def)
    ultimately show ?thesis
      using True i upd IH by (subst lower_loop.simps) simp
  next
    case False
    with "1.prems" show ?thesis by (subst lower_loop.simps) simp
  qed
qed

lemma strtolower_eq:
  "len \<le> length s \<Longrightarrow> strtolower s len = Some (map lower_char (take len s) @ drop len s)"
  by (simp add: strtolower_def lower_loop_eq)

lemma lower_char_idem: "lower_char (lower_char c) = lower_char c"
proof (cases "65 \<le>s c \<and> c \<le>s 90")
  case True
  then have b: "65 \<le> sint c" "sint c \<le> 90" by (simp_all add: word_sle_eq)
  have "97 + (c - 65) = (of_int (sint c + 32) :: byte)" by simp
  then have "sint (97 + (c - 65)) = sint c + 32" using b sint_of_int_small [of "sint c + 32", where 'a = 8]
    by (simp add: add.commute)
  with b True show ?thesis by (simp add: lower_char_def word_sle_eq)
qed (simp add: lower_char_def)

section \<open>Properties\<close>

text \<open>
  Every C \<^verbatim>\<open>int\<close> that is not negative is written as decimal digits with a NUL behind
  them and read back by \<^verbatim>\<open>str2int\<close>; where the allocation is refused a positive number is
  written as the empty string, like every negative one.
\<close>

theorem int2str_round_trip:
  assumes "- (2 ^ 31) \<le> n" "n < 2 ^ 31"
  shows "\<exists>str m'. int2str m n = Some (str, m') \<and>
           ((\<exists>k w. 0 < k \<and> length str = k + 1 \<and> str ! k = 0 \<and> str2int str k = Some w \<and> sint w = n \<and>
                (\<forall>i < k. 48 \<le> sint (str ! i) \<and> sint (str ! i) \<le> 57)) \<or>
            str ! 0 = 0 \<and> (n < 0 \<or> 0 < n \<and> fst (next_alloc m) = Refused))"
proof -
  consider "n = 0" | "n < 0" | "0 < n" "fst (next_alloc m) = Refused"
    | junk m' where "0 < n" "next_alloc m = (Granted junk, m')"
    by (cases "next_alloc m"; cases "fst (next_alloc m)"; cases n "0 :: int" rule: linorder_cases) auto
  then show ?thesis
  proof cases
    case 1
    have "str2int [48, 0] 1 = Some 0" by code_simp
    with 1 show ?thesis by (intro exI [of _ "[48, 0]"] exI [of _ m])
        (auto simp: int2str_def intro!: exI [of _ 1] exI [of _ 0])
  next
    case 2
    then have "count_digits n = 0" by (subst count_digits.simps) simp
    with 2 show ?thesis
      by (cases "next_alloc m"; cases "fst (next_alloc m)")
        (auto simp: int2str_def malloc_bytes_def cell_set_def)
  next
    case 3
    then show ?thesis by (cases "next_alloc m") (auto simp: int2str_def malloc_bytes_def)
  next
    case 4
    define k where "k = count_digits n"
    define str where "str = dec_digits k n @ [0 :: byte]"
    obtain w where w: "str2int str k = Some w" "sint w = n"
      using str2int_dec_digits [OF 4(1) _ k_def] assms(2) by (auto simp: str_def)
    have "48 \<le> sint (str ! i) \<and> sint (str ! i) \<le> 57" if "i < k" for i
      using that dec_digits_range [OF nth_mem, of i k n] by (simp add: str_def nth_append)
    moreover have "length str = k + 1" "str ! k = 0" by (simp_all add: str_def nth_append)
    moreover have "int2str m n = Some (str, m')"
      using int2str_granted [OF 4] by (simp add: str_def k_def)
    moreover have "0 < k" using count_digits_pos [OF 4(1)] by (simp add: k_def)
    ultimately show ?thesis using w by blast
  qed
qed

theorem int2str_round_trip_witness:
  "\<exists>str m'. int2str [] 407 = Some (str, m') \<and>
     ((\<exists>k w. 0 < k \<and> length str = k + 1 \<and> str ! k = 0 \<and> str2int str k = Some w \<and> sint w = (407::int) \<and>
          (\<forall>i < k. 48 \<le> sint (str ! i) \<and> sint (str ! i) \<le> 57)) \<or>
      str ! 0 = 0 \<and> ((407::int) < 0 \<or> 0 < (407::int) \<and> fst (next_alloc []) = Refused))"
  using int2str_round_trip [of 407 "[]"] by simp

text \<open>
  \<^verbatim>\<open>str2int\<close> of a string of decimal digits, with or without a leading minus sign,
  is its value, whenever that fits 63 bits.
\<close>

theorem str2int_value:
  assumes "ds \<noteq> []" "\<forall>c \<in> set ds. 48 \<le> sint c \<and> sint c \<le> 57" "digits_value 10 ds < 2 ^ 63"
  shows "map_option sint (str2int (ds @ rest) (length ds)) = Some (digits_value 10 ds) \<and>
    map_option sint (str2int (45 # ds @ rest) (Suc (length ds))) = Some (- digits_value 10 ds)"
proof -
  have nonneg: "0 \<le> digits_value 10 xs" if "set xs \<subseteq> set ds" for xs
    using that assms(2) by (induction xs rule: rev_induct) (auto simp: digit_value_def)
  have "hd ds \<noteq> 45" using assms(1,2) by (cases ds) auto
  moreover have "sint (of_int (digits_value 10 ds) :: u64) = digits_value 10 ds"
    using assms(3) nonneg [of ds] by (intro sint_of_int_small) simp_all
  moreover have "sint (- of_int (digits_value 10 ds) :: u64) = - digits_value 10 ds"
  proof -
    have "sint (of_int (- digits_value 10 ds) :: u64) = - digits_value 10 ds"
      using assms(3) nonneg [of ds] by (intro sint_of_int_small) simp_all
    then show ?thesis by simp
  qed
  ultimately show ?thesis
    using str2int_unsigned [OF assms(1)] str2int_negative [of ds rest] by simp_all
qed

theorem str2int_value_witness:
  "map_option sint (str2int ([52, 50] @ [13]) (length [52, 50 :: byte])) = Some 42 \<and>
   map_option sint (str2int (45 # [52, 50] @ [13]) (Suc (length [52, 50 :: byte]))) = Some (- 42)"
proof -
  have v: "digits_value 10 [52, 50] = 42" by code_simp
  have d: "\<forall>c \<in> set [52, 50 :: byte]. 48 \<le> sint c \<and> sint c \<le> 57" by simp
  show ?thesis using str2int_value [OF _ d, of "[13]"] unfolding v by simp
qed

text \<open>
  \<^verbatim>\<open>hexstr2int\<close> gives the value of the digits 0 to 9 in base 16, but it takes every
  character for its code less that of \<^verbatim>\<open>'0'\<close>: the letters a to f stand for 49 to 54 instead
  of 10 to 15.
\<close>

theorem hexstr2int_letters:
  "(c \<noteq> 45 \<longleftrightarrow> hexstr2int [c] 1 = Some (scast c - 48)) \<and>
   hexstr2int [97] 1 = Some 49 \<and> hexstr2int [70] 1 = Some 22 \<and> hexstr2int [49, 48] 2 = Some 16"
proof (intro conjI)
  have "hexstr2int [45] 1 = Some 0" by code_simp
  then show "c \<noteq> 45 \<longleftrightarrow> hexstr2int [c] 1 = Some (scast c - 48)"
    using hexstr2int_unsigned [of "[c]" "[]"]
    by (auto simp: digits_value_def digit_value_def of_int_sint)
qed (code_simp, code_simp, code_simp)

end
