(* ===== verification/EfList.thy ===== *)
theory EfList
  imports Prelude
begin

text \<open>
  \<^verbatim>\<open>structure/list.h\<close>: the intrusive circular doubly linked list.  The entries live in
  a heap of links, \<open>prev\<close> and \<open>next\<close> as functions on the entries; every operation
  is the sequence of pointer assignments of the header, in its order.  \<open>ring L h xs\<close>
  says that from the head \<open>h\<close> the entries \<open>xs\<close> follow in this order and lead back to
  \<open>h\<close>, in both directions.
\<close>

section \<open>Entries and operations\<close>

record 'a links =
  prev_of :: "'a \<Rightarrow> 'a"
  next_of :: "'a \<Rightarrow> 'a"

definition set_prev :: "'a \<Rightarrow> 'a \<Rightarrow> 'a links \<Rightarrow> 'a links" where
  "set_prev e v L = L\<lparr>prev_of := (prev_of L)(e := v)\<rparr>"

definition set_next :: "'a \<Rightarrow> 'a \<Rightarrow> 'a links \<Rightarrow> 'a links" where
  "set_next e v L = L\<lparr>next_of := (next_of L)(e := v)\<rparr>"

definition ef_list_empty :: "'a links \<Rightarrow> 'a \<Rightarrow> bool" where
  "ef_list_empty L head = (next_of L head = head)"

definition ef_list_init :: "'a \<Rightarrow> 'a links \<Rightarrow> 'a links" where
  "ef_list_init head L =
     (let L = set_prev head head L in set_next head head L)"

definition ef_list_remove :: "'a \<Rightarrow> 'a links \<Rightarrow> 'a links" where
  "ef_list_remove entry L =
     (let L = set_prev (next_of L entry) (prev_of L entry) L
      in set_next (prev_of L entry) (next_of L entry) L)"

definition ef_list_insert_before :: "'a \<Rightarrow> 'a \<Rightarrow> 'a links \<Rightarrow> 'a links" where
  "ef_list_insert_before current entry L =
     (let L = set_next entry current L;
          L = set_next (prev_of L current) entry L;
          L = set_prev entry (prev_of L current) L
      in set_prev current entry L)"

definition ef_list_insert_after :: "'a \<Rightarrow> 'a \<Rightarrow> 'a links \<Rightarrow> 'a links" where
  "ef_list_insert_after current entry L =
     (let L = set_next entry (next_of L current) L;
          L = set_next current entry L;
          L = set_prev entry current L
      in set_prev (next_of L entry) entry L)"

definition ef_list_entry_before :: "'a links \<Rightarrow> 'a \<Rightarrow> 'a" where
  "ef_list_entry_before L current = prev_of L current"

definition ef_list_entry_after :: "'a links \<Rightarrow> 'a \<Rightarrow> 'a" where
  "ef_list_entry_after L current = next_of L current"

definition ef_list_remove_before :: "'a \<Rightarrow> 'a links \<Rightarrow> 'a option \<times> 'a links" where
  "ef_list_remove_before current L =
     (if ef_list_empty L current then (None, L)
      else let entry = prev_of L current;
               L = set_prev current (prev_of L entry) L;
               L = set_next (prev_of L current) current L
           in (Some entry, L))"

definition ef_list_remove_after :: "'a \<Rightarrow> 'a links \<Rightarrow> 'a option \<times> 'a links" where
  "ef_list_remove_after current L =
     (if ef_list_empty L current then (None, L)
      else let entry = next_of L current;
               L = set_next current (next_of L entry) L;
               L = set_prev (next_of L current) current L
           in (Some entry, L))"

lemmas list_ops_defs =
  ef_list_empty_def ef_list_init_def ef_list_remove_def ef_list_insert_before_def
  ef_list_insert_after_def ef_list_entry_before_def ef_list_entry_after_def
  ef_list_remove_before_def ef_list_remove_after_def set_prev_def set_next_def

section \<open>Doubly linked paths\<close>

fun dpath :: "'a links \<Rightarrow> 'a \<Rightarrow> 'a list \<Rightarrow> 'a \<Rightarrow> bool" where
  "dpath L a [] b \<longleftrightarrow> next_of L a = b \<and> prev_of L b = a"
| "dpath L a (x # xs) b \<longleftrightarrow> next_of L a = x \<and> prev_of L x = a \<and> dpath L x xs b"

definition ring :: "'a links \<Rightarrow> 'a \<Rightarrow> 'a list \<Rightarrow> bool" where
  "ring L h xs \<longleftrightarrow> distinct (h # xs) \<and> dpath L h xs h"

lemma dpath_append:
  "dpath L a (xs @ y # ys) b \<longleftrightarrow> dpath L a xs y \<and> dpath L y ys b"
  by (induction xs arbitrary: a) auto

text \<open>The path from \<open>a\<close> to \<open>b\<close> reads \<open>next\<close> of \<open>a # xs\<close> and \<open>prev\<close> of \<open>xs @ [b]\<close>.\<close>

lemma dpath_cong:
  assumes "\<And>e. e \<in> set (a # xs) \<Longrightarrow> next_of M e = next_of L e"
    and "\<And>e. e \<in> set (xs @ [b]) \<Longrightarrow> prev_of M e = prev_of L e"
  shows "dpath M a xs b = dpath L a xs b"
  using assms by (induction xs arbitrary: a) auto

lemma dpath_ends:
  assumes "dpath L a xs b"
  shows "next_of L a = hd (xs @ [b])" and "prev_of L b = last (a # xs)"
  using assms by (induction xs arbitrary: a) auto

lemma ring_cong:
  assumes "\<And>e. e \<in> set (h # xs) \<Longrightarrow> next_of M e = next_of L e \<and> prev_of M e = prev_of L e"
  shows "ring M h xs = ring L h xs"
  using assms by (auto simp: ring_def intro!: dpath_cong arg_cong2 [where f = "(\<and>)"])

text \<open>A ring may be read from any of its entries.\<close>

lemma ring_rotate: "ring L h (xs @ c # ys) \<longleftrightarrow> ring L c (ys @ h # xs)"
  by (auto simp: ring_def dpath_append)

lemma ring_Nil_iff: "ring L h [] \<longleftrightarrow> next_of L h = h \<and> prev_of L h = h"
  by (auto simp: ring_def)

lemma ring_empty: "ring L h xs \<Longrightarrow> ef_list_empty L h \<longleftrightarrow> xs = []"
  by (cases xs) (auto simp: ring_def ef_list_empty_def)

lemma ring_first: "ring L h xs \<Longrightarrow> ef_list_entry_after L h = hd (xs @ [h])"
  by (auto simp: ring_def ef_list_entry_after_def dest: dpath_ends)

lemma ring_last: "ring L h xs \<Longrightarrow> ef_list_entry_before L h = last (h # xs)"
  by (auto simp: ring_def ef_list_entry_before_def dest: dpath_ends)

section \<open>Each operation on a ring\<close>

lemma ring_init: "ring (ef_list_init h L) h []"
  by (simp add: ring_Nil_iff list_ops_defs)

lemma init_frame:
  "e \<noteq> h \<Longrightarrow> next_of (ef_list_init h L) e = next_of L e \<and> prev_of (ef_list_init h L) e = prev_of L e"
  by (simp add: list_ops_defs)

lemma ring_insert_after:
  assumes "ring L h xs" "e \<notin> set (h # xs)"
  shows "ring (ef_list_insert_after h e L) h (e # xs)"
proof -
  obtain y ys where y: "xs @ [h] = y # ys" by (cases "xs @ [h]") auto
  then have n: "next_of L h = y"
    using assms(1) dpath_ends(1) [of L h xs h] by (simp add: ring_def)
  show ?thesis
  proof (cases xs)
    case Nil
    with assms y n show ?thesis by (auto simp: ring_def list_ops_defs Let_def)
  next
    case (Cons x zs)
    with assms have p: "dpath L x zs h" "next_of L h = x" "prev_of L x = h" by (auto simp: ring_def)
    have "dpath (ef_list_insert_after h e L) x zs h"
      using p assms Cons by (subst dpath_cong [where L = L])
        (auto simp: ring_def list_ops_defs Let_def)
    with assms p Cons show ?thesis by (auto simp: ring_def list_ops_defs Let_def)
  qed
qed

lemma insert_before_as_after:
  assumes "prev_of L c = d" "next_of L d = c" "e \<noteq> c" "e \<noteq> d"
  shows "ef_list_insert_before c e L = ef_list_insert_after d e L"
  using assms by (auto simp: list_ops_defs Let_def fun_upd_twist)

lemma ring_insert_before:
  assumes "ring L h xs" "e \<notin> set (h # xs)"
  shows "ring (ef_list_insert_before h e L) h (xs @ [e])"
proof (cases xs rule: rev_cases)
  case Nil
  with assms show ?thesis by (auto simp: ring_def list_ops_defs Let_def)
next
  case (snoc ys d)
  with assms(1) have r: "ring L d (h # ys)" using ring_rotate [of L h ys d "[]"] by simp
  have link: "prev_of L h = d" "next_of L d = h" using r by (auto simp: ring_def)
  have "ring (ef_list_insert_after d e L) d (e # h # ys)"
    using ring_insert_after [OF r] assms(2) snoc by auto
  then have "ring (ef_list_insert_after d e L) h (ys @ d # [e])"
    using ring_rotate [of "ef_list_insert_after d e L" d "[e]" h ys] by simp
  moreover have "ef_list_insert_before h e L = ef_list_insert_after d e L"
    using link assms(2) snoc by (intro insert_before_as_after) auto
  ultimately show ?thesis by (simp add: snoc)
qed

lemma ring_remove_after:
  assumes "ring L h (x # xs)"
  shows "ef_list_remove_after h L = (Some x, ef_list_remove x L)"
    and "ring (ef_list_remove x L) h xs"
proof -
  from assms have p: "next_of L h = x" "prev_of L x = h" "dpath L x xs h" "x \<noteq> h"
    by (auto simp: ring_def)
  then show "ef_list_remove_after h L = (Some x, ef_list_remove x L)"
    by (auto simp: list_ops_defs Let_def fun_upd_twist)
  show "ring (ef_list_remove x L) h xs"
  proof (cases xs)
    case Nil
    with assms p show ?thesis by (auto simp: ring_def list_ops_defs Let_def)
  next
    case (Cons y ys)
    with p have q: "next_of L x = y" "prev_of L y = x" "dpath L y ys h" by auto
    have "dpath (ef_list_remove x L) y ys h"
      using q p assms Cons by (subst dpath_cong [where L = L])
        (auto simp: ring_def list_ops_defs Let_def)
    with assms p q Cons show ?thesis by (auto simp: ring_def list_ops_defs Let_def)
  qed
qed

lemma ring_remove_after_Nil: "ring L h [] \<Longrightarrow> ef_list_remove_after h L = (None, L)"
  by (simp add: ring_def list_ops_defs)

lemma ring_remove:
  assumes "ring L h (xs @ e # ys)"
  shows "ring (ef_list_remove e L) h (xs @ ys)"
proof (cases xs rule: rev_cases)
  case Nil
  with assms show ?thesis by (simp add: ring_remove_after(2))
next
  case (snoc zs d)
  with assms have "ring L d (e # ys @ h # zs)" using ring_rotate [of L h zs d "e # ys"] by simp
  then have "ring (ef_list_remove e L) d (ys @ h # zs)" by (rule ring_remove_after(2))
  then show ?thesis using ring_rotate [of "ef_list_remove e L" h zs d ys] snoc by simp
qed

lemma ring_remove_before:
  assumes "ring L h (xs @ [e])"
  shows "ef_list_remove_before h L = (Some e, ef_list_remove e L)"
proof -
  from assms have "ring L e (h # xs)" using ring_rotate [of L h xs e "[]"] by simp
  then have "prev_of L h = e" "next_of L e = h" "e \<noteq> h" "next_of L h \<noteq> h"
    by (cases xs; auto simp: ring_def)+
  then show ?thesis by (auto simp: list_ops_defs Let_def fun_upd_twist)
qed

lemma ring_remove_before_Nil: "ring L h [] \<Longrightarrow> ef_list_remove_before h L = (None, L)"
  by (simp add: ring_def list_ops_defs)

text \<open>
  Frames: an operation on one ring leaves any ring over other entries alone, so several
  rings share one heap of links.
\<close>

lemma ring_neighbours:
  assumes "ring L h xs" "e \<in> set (h # xs)"
  shows "next_of L e \<in> set (h # xs)" and "prev_of L e \<in> set (h # xs)"
proof -
  have *: "next_of L g \<in> set (g # zs) \<and> prev_of L g \<in> set (g # zs)" if "ring L g zs" for g zs
  proof -
    have "next_of L g = hd (zs @ [g])" "prev_of L g = last (g # zs)"
      using that dpath_ends [of L g zs g] by (simp_all only: ring_def)
    moreover have "hd (zs @ [g]) \<in> set (g # zs)" by (cases zs) simp_all
    moreover have "last (g # zs) \<in> set (g # zs)" by (rule last_in_set) simp
    ultimately show ?thesis by (simp only:)
  qed
  have "next_of L e \<in> set (h # xs) \<and> prev_of L e \<in> set (h # xs)"
  proof (cases "e = h")
    case True
    with * [OF assms(1)] show ?thesis by simp
  next
    case False
    with assms(2) obtain ys zs where s: "xs = ys @ e # zs" by (auto dest: split_list)
    with assms(1) have "ring L e (zs @ h # ys)" using ring_rotate by metis
    from * [OF this] show ?thesis unfolding s by simp blast
  qed
  then show "next_of L e \<in> set (h # xs)" "prev_of L e \<in> set (h # xs)" by auto
qed

lemma ring_insert_after_frame:
  assumes "ring L h xs" "ring L g ys" "set (g # ys) \<inter> set (e # h # xs) = {}"
  shows "ring (ef_list_insert_after h e L) g ys"
proof -
  have "next_of L h \<in> set (h # xs)" using ring_neighbours [OF assms(1)] by simp
  then have "x \<noteq> e \<and> x \<noteq> h \<and> x \<noteq> next_of L h" if "x \<in> set (g # ys)" for x
    using that assms(3) by auto
  then have "ring (ef_list_insert_after h e L) g ys = ring L g ys"
    by (intro ring_cong) (auto simp: list_ops_defs Let_def)
  with assms(2) show ?thesis by simp
qed

lemma ring_insert_before_frame:
  assumes "ring L h xs" "ring L g ys" "set (g # ys) \<inter> set (e # h # xs) = {}"
  shows "ring (ef_list_insert_before h e L) g ys"
proof -
  have "prev_of L h \<in> set (h # xs)" using ring_neighbours [OF assms(1)] by simp
  then have "x \<noteq> e \<and> x \<noteq> h \<and> x \<noteq> prev_of L h" if "x \<in> set (g # ys)" for x
    using that assms(3) by auto
  then have "ring (ef_list_insert_before h e L) g ys = ring L g ys"
    by (intro ring_cong) (auto simp: list_ops_defs Let_def)
  with assms(2) show ?thesis by simp
qed

lemma ring_remove_frame:
  assumes "ring L h xs" "e \<in> set xs" "ring L g ys" "set (g # ys) \<inter> set (h # xs) = {}"
  shows "ring (ef_list_remove e L) g ys"
proof -
  have "next_of L e \<in> set (h # xs)" "prev_of L e \<in> set (h # xs)"
    using ring_neighbours [OF assms(1)] assms(2) by simp_all
  then have "x \<noteq> next_of L e \<and> x \<noteq> prev_of L e" if "x \<in> set (g # ys)" for x
    using that assms(4) by auto
  then have "ring (ef_list_remove e L) g ys = ring L g ys"
    by (intro ring_cong) (auto simp: list_ops_defs Let_def)
  with assms(3) show ?thesis by simp
qed

lemma ring_init_frame:
  assumes "ring L g ys" "h \<notin> set (g # ys)"
  shows "ring (ef_list_init h L) g ys"
  using assms by (subst ring_cong [where L = L]) (auto simp: list_ops_defs Let_def)

section \<open>A ring is a double-ended queue\<close>

text \<open>The calls the framework makes on a list, and the list of entries they stand for.\<close>

datatype 'a list_call = Insert_after 'a | Insert_before 'a | Remove 'a | Remove_after | Remove_before

fun do_call :: "'a \<Rightarrow> 'a list_call \<Rightarrow> 'a links \<Rightarrow> 'a option \<times> 'a links" where
  "do_call h (Insert_after e) L = (None, ef_list_insert_after h e L)"
| "do_call h (Insert_before e) L = (None, ef_list_insert_before h e L)"
| "do_call h (Remove e) L = (None, ef_list_remove e L)"
| "do_call h Remove_after L = ef_list_remove_after h L"
| "do_call h Remove_before L = ef_list_remove_before h L"

fun deque_call :: "'a list_call \<Rightarrow> 'a list \<Rightarrow> 'a option \<times> 'a list" where
  "deque_call (Insert_after e) xs = (None, e # xs)"
| "deque_call (Insert_before e) xs = (None, xs @ [e])"
| "deque_call (Remove e) xs = (None, remove1 e xs)"
| "deque_call Remove_after xs = (if xs = [] then (None, []) else (Some (hd xs), tl xs))"
| "deque_call Remove_before xs = (if xs = [] then (None, []) else (Some (last xs), butlast xs))"

text \<open>An entry that comes in is in no list, one that is taken out by name is in this one.\<close>

fun list_call_ok :: "'a \<Rightarrow> 'a list \<Rightarrow> 'a list_call \<Rightarrow> bool" where
  "list_call_ok h xs (Insert_after e) = (e \<notin> set (h # xs))"
| "list_call_ok h xs (Insert_before e) = (e \<notin> set (h # xs))"
| "list_call_ok h xs (Remove e) = (e \<in> set xs)"
| "list_call_ok h xs _ = True"

fun list_calls :: "'a \<Rightarrow> 'a list_call list \<Rightarrow> 'a links \<Rightarrow> 'a option list \<times> 'a links" where
  "list_calls h [] L = ([], L)"
| "list_calls h (c # cs) L =
     (let (r, L) = do_call h c L; (rs, L) = list_calls h cs L in (r # rs, L))"

fun deque_calls :: "'a list_call list \<Rightarrow> 'a list \<Rightarrow> 'a option list \<times> 'a list" where
  "deque_calls [] xs = ([], xs)"
| "deque_calls (c # cs) xs =
     (let (r, xs) = deque_call c xs; (rs, xs) = deque_calls cs xs in (r # rs, xs))"

fun list_calls_ok :: "'a \<Rightarrow> 'a list \<Rightarrow> 'a list_call list \<Rightarrow> bool" where
  "list_calls_ok h xs [] = True"
| "list_calls_ok h xs (c # cs) = (list_call_ok h xs c \<and> list_calls_ok h (snd (deque_call c xs)) cs)"

lemma list_call_refines:
  assumes "ring L h xs" "list_call_ok h xs c"
  shows "fst (do_call h c L) = fst (deque_call c xs) \<and> ring (snd (do_call h c L)) h (snd (deque_call c xs))"
proof (cases c)
  case (Remove e)
  with assms(2) obtain ys zs where "xs = ys @ e # zs" "e \<notin> set ys" by (auto dest: split_list_first)
  with assms(1) Remove show ?thesis by (simp add: ring_remove remove1_append)
next
  case Remove_after
  with assms(1) show ?thesis by (cases xs) (simp_all add: ring_remove_after_Nil ring_remove_after)
next
  case Remove_before
  with assms(1) show ?thesis
  proof (cases xs rule: rev_cases)
    case (snoc ys e)
    with assms(1) Remove_before ring_remove [of L h ys e "[]"] show ?thesis by (simp add: ring_remove_before)
  qed (simp add: ring_remove_before_Nil)
qed (use assms in \<open>simp_all add: ring_insert_after ring_insert_before\<close>)

text \<open>What another list sharing the heap needs not to notice: its entries are not this list's.\<close>

fun call_entry :: "'a list_call \<Rightarrow> 'a set" where
  "call_entry (Insert_after e) = {e}"
| "call_entry (Insert_before e) = {e}"
| "call_entry _ = {}"

lemma list_call_frame:
  assumes "ring L h xs" "list_call_ok h xs c" "ring L g ys" "set (g # ys) \<inter> (set (h # xs) \<union> call_entry c) = {}"
  shows "ring (snd (do_call h c L)) g ys"
proof (cases c)
  case Remove_after
  show ?thesis
  proof (cases xs)
    case (Cons x zs)
    with assms(1) have "do_call h c L = (Some x, ef_list_remove x L)"
      using Remove_after ring_remove_after(1) by simp
    with ring_remove_frame [OF assms(1) _ assms(3), of x] Cons assms(4) show ?thesis by auto
  qed (use assms Remove_after in \<open>simp add: ring_remove_after_Nil\<close>)
next
  case Remove_before
  show ?thesis
  proof (cases xs rule: rev_cases)
    case (snoc zs x)
    with assms(1) have "do_call h c L = (Some x, ef_list_remove x L)"
      using Remove_before ring_remove_before by simp
    with ring_remove_frame [OF assms(1) _ assms(3), of x] snoc assms(4) show ?thesis by auto
  qed (use assms Remove_before in \<open>simp add: ring_remove_before_Nil\<close>)
qed (use assms ring_insert_after_frame [OF assms(1,3)] ring_insert_before_frame [OF assms(1,3)]
      ring_remove_frame [OF assms(1) _ assms(3)] in auto)

text \<open>
  C35. On a well-formed list every sequence of the header's operations returns what the same
  sequence returns on a double-ended queue and ends in a well-formed list of the queue's
  entries, linked in both directions; a list of other entries in the same heap stays as it is.
\<close>

theorem list_is_a_deque:
  assumes "ring L h xs" "list_calls_ok h xs cs"
    and "ring L g ys" "set (g # ys) \<inter> (set (h # xs) \<union> \<Union> (set (map call_entry cs))) = {}"
  shows "fst (list_calls h cs L) = fst (deque_calls cs xs) \<and>
         ring (snd (list_calls h cs L)) h (snd (deque_calls cs xs)) \<and>
         ring (snd (list_calls h cs L)) g ys"
  using assms
proof (induction cs arbitrary: L xs)
  case (Cons c cs)
  from Cons.prems have ok: "list_call_ok h xs c" by simp
  note one = list_call_refines [OF Cons.prems(1) ok]
  have g: "ring (snd (do_call h c L)) g ys"
    using list_call_frame [OF Cons.prems(1) ok Cons.prems(3)] Cons.prems(4) by auto
  have "set (snd (deque_call c xs)) \<subseteq> set xs \<union> call_entry c"
    by (cases c) (auto dest: in_set_butlastD list.set_sel(2) set_remove1_subset [THEN subsetD])
  then have "set (g # ys) \<inter> (set (h # snd (deque_call c xs)) \<union> \<Union> (set (map call_entry cs))) = {}"
    using Cons.prems(4) by fastforce
  with Cons.IH [of "snd (do_call h c L)" "snd (deque_call c xs)"] one g Cons.prems(2)
  show ?case by (simp add: case_prod_beta Let_def)
qed simp

definition sample_links :: "nat links" where
  "sample_links = ef_list_insert_before 0 1 (ef_list_init 10 (ef_list_init 0 \<lparr>prev_of = id, next_of = id\<rparr>))"

lemma sample_rings: "ring sample_links 0 [1]" "ring sample_links 10 []"
  by (simp_all add: sample_links_def ring_def list_ops_defs)

theorem list_is_a_deque_witness:
  "fst (list_calls 0 [Insert_after 2, Insert_before 3, Remove 1, Remove_before, Remove_after, Remove_after] sample_links)
     = [None, None, None, Some 3, Some 2, None] \<and>
   ring (snd (list_calls 0 [Insert_after 2, Insert_before 3] sample_links)) 0 [2, 1, 3]"
  using list_is_a_deque [OF sample_rings(1) _ sample_rings(2),
      of "[Insert_after 2, Insert_before 3, Remove 1, Remove_before, Remove_after, Remove_after]"]
    list_is_a_deque [OF sample_rings(1) _ sample_rings(2), of "[Insert_after 2, Insert_before 3]"]
  by simp

end
