(* ===== verification/EfString.thy ===== *)
theory EfString
  imports CMemory
begin

text \<open>
  \<^verbatim>\<open>structure/string.c\<close>: heap strings with an explicit length and a terminating NUL.
\<close>

section \<open>State and operations\<close>

record ef_string =
  es_str :: "byte list option"
  es_len :: nat

text \<open>The length argument: 0 asks for \<^verbatim>\<open>strlen(sz)\<close>, or 0 where \<^verbatim>\<open>sz\<close> is NULL.\<close>

definition arg_len :: "byte list option \<Rightarrow> nat \<Rightarrow> nat option" where
  "arg_len sz n = (if n = 0 then (case sz of None \<Rightarrow> Some 0 | Some s \<Rightarrow> strlen s) else Some n)"

definition ef_string_new :: "mem \<Rightarrow> byte list option \<Rightarrow> nat \<Rightarrow> (ef_string option \<times> mem) option" where
  "ef_string_new m sz n =
     (let (ok, m) = malloc_obj m
      in if \<not> ok then Some (None, m)
         else do {
           n \<leftarrow> arg_len sz n;
           let (p, m) = malloc_bytes m (n + 1);
           (case p of
              None \<Rightarrow> Some (None, m)
            | Some b \<Rightarrow>
                do { d \<leftarrow> read_ptr sz 0 n;
                     b \<leftarrow> write_block b 0 d;
                     b \<leftarrow> cell_set b n 0;
                     Some (Some \<lparr>es_str = Some b, es_len = n\<rparr>, m) }) })"

definition ef_string_append ::
    "mem \<Rightarrow> ef_string \<Rightarrow> byte list option \<Rightarrow> nat \<Rightarrow> (int \<times> ef_string \<times> mem) option" where
  "ef_string_append m s sz n =
     do { n \<leftarrow> arg_len sz n;
          if n = 0 then Some (0, s, m)
          else do {
            (p, m) \<leftarrow> (case es_str s of
                          Some b \<Rightarrow> realloc_bytes m (Some b) (es_len s + n + 1)
                        | None \<Rightarrow> Some (malloc_bytes m (n + 1)));
            (case p of
               None \<Rightarrow> Some (- 1, s, m)
             | Some b \<Rightarrow>
                 do { d \<leftarrow> read_ptr sz 0 n;
                      b \<leftarrow> write_block b (es_len s) d;
                      b \<leftarrow> cell_set b (es_len s + n) 0;
                      Some (0, \<lparr>es_str = Some b, es_len = es_len s + n\<rparr>, m) }) } }"

text \<open>
  \<^verbatim>\<open>ef_string_free\<close> reads \<^verbatim>\<open>str->str\<close> first, so NULL has no defined result.  The struct
  itself is gone when \<^verbatim>\<open>destroy\<close> is set, otherwise it is left empty.
\<close>

definition ef_string_free :: "ef_string option \<Rightarrow> bool \<Rightarrow> ef_string option option" where
  "ef_string_free s destroy =
     (case s of
        None \<Rightarrow> None
      | Some _ \<Rightarrow> Some (if destroy then None else Some \<lparr>es_str = None, es_len = 0\<rparr>))"

section \<open>What a string holds\<close>

definition es_bytes :: "ef_string \<Rightarrow> byte list" where
  "es_bytes s = (case es_str s of None \<Rightarrow> [] | Some b \<Rightarrow> take (es_len s) b)"

text \<open>Well-formed: an unallocated empty string, or \<open>es_len\<close> bytes and a NUL behind them.\<close>

definition es_inv :: "ef_string \<Rightarrow> bool" where
  "es_inv s = (case es_str s of None \<Rightarrow> es_len s = 0 | Some b \<Rightarrow> es_len s < length b \<and> b ! es_len s = 0)"

text \<open>The bytes a pair \<open>(sz, n)\<close> of arguments denotes, where the C code may read them.\<close>

definition arg_bytes :: "byte list option \<Rightarrow> nat \<Rightarrow> byte list" where
  "arg_bytes sz n = (case sz of None \<Rightarrow> [] | Some s \<Rightarrow> take (case arg_len sz n of Some k \<Rightarrow> k | None \<Rightarrow> 0) s)"

definition arg_ok :: "byte list option \<Rightarrow> nat \<Rightarrow> bool" where
  "arg_ok sz n = (case sz of None \<Rightarrow> n = 0 | Some s \<Rightarrow> if n = 0 then strlen s \<noteq> None else n \<le> length s)"

lemma arg_len_ok: "arg_ok sz n \<Longrightarrow> arg_len sz n = Some (length (arg_bytes sz n))"
  by (auto simp: arg_ok_def arg_len_def arg_bytes_def dest: strlen_less split: option.splits if_splits)

lemma read_arg: "arg_ok sz n \<Longrightarrow> read_ptr sz 0 (length (arg_bytes sz n)) = Some (arg_bytes sz n)"
  by (auto simp: arg_ok_def arg_len_def arg_bytes_def read_ptr_def read_block_def
      dest: strlen_less split: option.splits if_splits)

lemma arg_bytes_pos: "0 < n \<Longrightarrow> arg_bytes (Some s) n = take n s"
  by (simp add: arg_bytes_def arg_len_def)

section \<open>Correctness\<close>

lemma es_of_bytes [simp]:
  "es_inv \<lparr>es_str = Some (d @ [0]), es_len = length d\<rparr>"
  "es_bytes \<lparr>es_str = Some (d @ [0]), es_len = length d\<rparr> = d"
  by (simp_all add: es_inv_def es_bytes_def)

lemma write_block_fresh:
  assumes "length b = Suc (length d)"
  shows "write_block b 0 d = Some (d @ drop (length d) b)"
  using assms by (simp add: write_block_def)

lemma ef_string_new_cases:
  assumes "arg_ok sz n"
  obtains (fail) m' where "ef_string_new m sz n = Some (None, m')" "m \<noteq> []"
  | (ok) s m' where "ef_string_new m sz n = Some (Some s, m')" "es_inv s"
      "es_bytes s = arg_bytes sz n" "es_len s = length (arg_bytes sz n)" "es_str s \<noteq> None"
proof -
  let ?d = "arg_bytes sz n"
  obtain g m1 where g: "malloc_obj m = (g, m1)" by (cases "malloc_obj m") auto
  show thesis
  proof (cases g)
    case False
    with g have "ef_string_new m sz n = Some (None, m1)" by (simp add: ef_string_new_def)
    moreover have "m \<noteq> []" using g False by auto
    ultimately show thesis by (rule fail)
  next
    case True
    obtain p m2 where p: "malloc_bytes m1 (Suc (length ?d)) = (p, m2)"
      by (cases "malloc_bytes m1 (Suc (length ?d))") auto
    show thesis
    proof (cases p)
      case None
      with g True p arg_len_ok [OF assms] have "ef_string_new m sz n = Some (None, m2)"
        by (simp add: ef_string_new_def)
      moreover have "m \<noteq> []" using g p None by auto
      ultimately show thesis by (rule fail)
    next
      case (Some b)
      with p have len: "length b = Suc (length ?d)" by (simp add: malloc_bytes_length)
      then obtain x where x: "drop (length ?d) b = [x]" using drop_one_left by blast
      have "ef_string_new m sz n =
          Some (Some \<lparr>es_str = Some (?d @ [0]), es_len = length ?d\<rparr>, m2)"
        using g True p Some arg_len_ok [OF assms] read_arg [OF assms] write_block_fresh [OF len] x
        by (simp add: ef_string_new_def list_update_append)
      then show thesis by (rule ok) simp_all
    qed
  qed
qed

lemma ef_string_append_cases:
  assumes "es_inv s" "arg_ok sz n"
  obtains (fail) m' where "ef_string_append m s sz n = Some (- 1, s, m')" "m \<noteq> []"
  | (ok) s' m' where "ef_string_append m s sz n = Some (0, s', m')" "es_inv s'"
      "es_bytes s' = es_bytes s @ arg_bytes sz n"
proof -
  let ?d = "arg_bytes sz n"
  note al = arg_len_ok [OF assms(2)]
  show thesis
  proof (cases "?d = []")
    case True
    with al have "ef_string_append m s sz n = Some (0, s, m)" by (simp add: ef_string_append_def)
    with assms(1) True show thesis by (intro ok) simp_all
  next
    case False
    let ?n = "es_len s + length ?d + 1"
    define r where "r = (case es_str s of Some b \<Rightarrow> realloc_bytes m (Some b) ?n
                         | None \<Rightarrow> Some (malloc_bytes m (length ?d + 1)))"
    have "\<exists>q. r = Some q" using realloc_bytes_defined [of "es_str s" ?n m]
      by (auto simp: r_def split: option.splits)
    then obtain p m' where r: "r = Some (p, m')" by auto
    have step: "ef_string_append m s sz n =
        (case p of None \<Rightarrow> Some (- 1, s, m')
         | Some b \<Rightarrow> do { b \<leftarrow> write_block b (es_len s) ?d; b \<leftarrow> cell_set b (es_len s + length ?d) 0;
              Some (0, \<lparr>es_str = Some b, es_len = es_len s + length ?d\<rparr>, m') })"
      using al read_arg [OF assms(2)] False r
      by (simp add: ef_string_append_def r_def split: option.splits)
    show thesis
    proof (cases p)
      case None
      with r have "m \<noteq> []"
        by (auto simp: r_def realloc_bytes_def malloc_bytes_def split: option.splits if_splits)
      with None step show thesis by (intro fail) simp_all
    next
      case (Some b)
      have keep: "take (es_len s) b = es_bytes s"
        using r Some assms(1) realloc_bytes_keeps [of m _ ?n b m' "es_len s"]
        by (cases "es_str s") (auto simp: r_def es_inv_def es_bytes_def)
      have len: "length b = ?n"
        using r Some assms(1)
        by (cases "es_str s")
          (auto simp: r_def es_inv_def dest: realloc_bytes_length malloc_bytes_length)
      then obtain x where x: "drop (es_len s + length ?d) b = [x]" using drop_one_left by force
      have l: "length (es_bytes s) = es_len s" using keep len by (metis length_take min.absorb2 le_add1 add.assoc)
      have "ef_string_append m s sz n =
          Some (0, \<lparr>es_str = Some ((es_bytes s @ ?d) @ [0]), es_len = length (es_bytes s @ ?d)\<rparr>, m')"
        using Some step len keep x l by (simp add: write_block_def list_update_append)
      then show thesis by (rule ok) (simp_all only: es_of_bytes)
    qed
  qed
qed

end
