(* ===== verification/EfBuffer.thy ===== *)
theory EfBuffer
  imports CMemory EfUtil
begin

text \<open>
  \<^verbatim>\<open>structure/buffer.c\<close>: the growing byte buffer.  \<open>eb_bytes\<close> is what it holds, the
  invariant \<open>eb_inv\<close> ties the block to the two counters.
\<close>

section \<open>State and operations\<close>

record ef_buffer =
  eb_ptr :: "byte list option"
  eb_cap :: u64
  eb_len :: u64

definition ef_buffer_new :: "mem \<Rightarrow> u64 \<Rightarrow> ef_buffer option \<times> mem" where
  "ef_buffer_new m cap =
     (let (ok, m) = malloc_obj m
      in if \<not> ok then (None, m)
         else let cap = (if cap \<noteq> 0 then ef_resize cap 0 else cap);
                  (p, m) = (if cap \<noteq> 0 then malloc_bytes m (unat cap) else (None, m))
              in if cap \<noteq> 0 \<and> p = None then (None, m)
                 else (Some \<lparr>eb_ptr = p, eb_cap = cap, eb_len = 0\<rparr>, m))"

definition ef_buffer_expand :: "mem \<Rightarrow> ef_buffer \<Rightarrow> u64 \<Rightarrow> (int \<times> ef_buffer \<times> mem) option" where
  "ef_buffer_expand m buf n =
     (if n \<le> eb_cap buf - eb_len buf then Some (0, buf, m)
      else let cap = ef_resize (eb_len buf + n) 0
           in do {
             (p, m) \<leftarrow> (case eb_ptr buf of
                           Some b \<Rightarrow> realloc_bytes m (Some b) (unat cap)
                         | None \<Rightarrow> Some (malloc_bytes m (unat cap)));
             (case p of
                Some b \<Rightarrow> Some (0, buf\<lparr>eb_ptr := Some b, eb_cap := cap\<rparr>, m)
              | None \<Rightarrow> Some (- 1, buf, m)) })"

text \<open>
  \<^verbatim>\<open>goto copy_data\<close> after a successful expansion: the fuel counts the passes through the
  label.  \<open>data\<close> are the \<^verbatim>\<open>len\<close> bytes behind the argument pointer.
\<close>

fun append_loop :: "nat \<Rightarrow> mem \<Rightarrow> ef_buffer \<Rightarrow> byte list \<Rightarrow> (int \<times> ef_buffer \<times> mem) option" where
  "append_loop 0 m buf data = None"
| "append_loop (Suc k) m buf data =
     (let n = of_nat (length data)
      in if n \<le> eb_cap buf - eb_len buf
         then do { p \<leftarrow> write_ptr (eb_ptr buf) (unat (eb_len buf)) data;
                   Some (0, buf\<lparr>eb_ptr := p, eb_len := eb_len buf + n\<rparr>, m) }
         else do { (r, buf, m) \<leftarrow> ef_buffer_expand m buf n;
                   if r < 0 then Some (- 1, buf, m) else append_loop k m buf data })"

definition ef_buffer_append :: "mem \<Rightarrow> ef_buffer \<Rightarrow> byte list \<Rightarrow> (int \<times> ef_buffer \<times> mem) option" where
  "ef_buffer_append m buf data = append_loop 2 m buf data"

definition ef_buffer_free :: "ef_buffer \<Rightarrow> bool \<Rightarrow> ef_buffer option" where
  "ef_buffer_free buf destroy =
     (if destroy then None else Some \<lparr>eb_ptr = None, eb_cap = 0, eb_len = 0\<rparr>)"

section \<open>Contents and invariant\<close>

definition eb_block :: "ef_buffer \<Rightarrow> byte list" where
  "eb_block buf = (case eb_ptr buf of None \<Rightarrow> [] | Some b \<Rightarrow> b)"

definition eb_bytes :: "ef_buffer \<Rightarrow> byte list" where
  "eb_bytes buf = take (unat (eb_len buf)) (eb_block buf)"

definition eb_inv :: "ef_buffer \<Rightarrow> bool" where
  "eb_inv buf \<longleftrightarrow> length (eb_block buf) = unat (eb_cap buf) \<and> eb_len buf \<le> eb_cap buf"

lemma eb_inv_len: "eb_inv buf \<Longrightarrow> length (eb_bytes buf) = unat (eb_len buf)"
  by (simp add: eb_inv_def eb_bytes_def word_le_nat_alt)

text \<open>The room test of the code, on natural numbers.\<close>

lemma eb_room:
  assumes "eb_inv buf"
  shows "n \<le> eb_cap buf - eb_len buf \<longleftrightarrow> unat (eb_len buf) + unat n \<le> unat (eb_cap buf)"
  using assms by (auto simp: eb_inv_def word_le_nat_alt unat_minus_small)

section \<open>Correctness\<close>

lemma ef_buffer_new_inv: "ef_buffer_new m cap = (Some buf, m') \<Longrightarrow> eb_inv buf \<and> eb_bytes buf = []"
  by (auto simp: ef_buffer_new_def Let_def eb_inv_def eb_bytes_def eb_block_def
      dest!: malloc_bytes_length split: prod.splits if_splits option.splits)

lemma ef_buffer_new_granted: "\<exists>buf. ef_buffer_new [] cap = (Some buf, []) \<and> eb_inv buf \<and> eb_bytes buf = []"
  using ef_buffer_new_inv [of "[]" cap] by (auto simp: ef_buffer_new_def Let_def)

lemma resize_fits:
  assumes "0 < unat n" "unat n \<le> 2 ^ 63"
  shows "unat n \<le> unat (ef_resize n 0)" and "unat (ef_resize n 0) < 2 * unat n"
    and "ef_resize n 0 \<noteq> 0"
proof -
  obtain p where p: "unat (ef_resize n 0) = 2 ^ p" "unat n \<le> 2 ^ p" "2 ^ p < 2 * unat n"
    using ef_resize_spec [of n 0] assms by (auto simp: max_def)
  then show "unat n \<le> unat (ef_resize n 0)" "unat (ef_resize n 0) < 2 * unat n" by simp_all
  with assms(1) show "ef_resize n 0 \<noteq> 0" by (metis not_less unat_0)
qed

lemma ef_buffer_expand_cases:
  assumes "eb_inv buf" "unat (eb_len buf) + unat n \<le> 2 ^ 63"
  obtains (fail) m' where "ef_buffer_expand m buf n = Some (- 1, buf, m')" "m \<noteq> []"
  | (ok) buf' m' where "ef_buffer_expand m buf n = Some (0, buf', m')" "eb_inv buf'"
      "eb_bytes buf' = eb_bytes buf" "eb_len buf' = eb_len buf"
      "unat (eb_len buf) + unat n \<le> unat (eb_cap buf')" "eb_cap buf \<le> eb_cap buf'"
      "eb_cap buf' = eb_cap buf \<or> unat (eb_cap buf') < 2 * (unat (eb_len buf) + unat n)"
proof (cases "n \<le> eb_cap buf - eb_len buf")
  case True
  with eb_room [OF assms(1)] have "unat (eb_len buf) + unat n \<le> unat (eb_cap buf)" by blast
  with True assms(1) show thesis by (intro ok [of buf m]) (auto simp: ef_buffer_expand_def)
next
  case False
  define cap where "cap = ef_resize (eb_len buf + n) 0"
  have sum: "unat (eb_len buf + n) = unat (eb_len buf) + unat n"
    using assms(2) by (intro unat_add_small) simp
  have pos: "0 < unat (eb_len buf + n)"
    using False eb_room [OF assms(1), of n] unfolding sum by linarith
  have cap: "unat (eb_len buf) + unat n \<le> unat cap" "unat cap < 2 * (unat (eb_len buf) + unat n)"
    "0 < unat cap"
    using resize_fits [OF pos] assms(2) sum by (auto simp: cap_def unat_gt_0)
  define r where "r = (case eb_ptr buf of Some b \<Rightarrow> realloc_bytes m (Some b) (unat cap)
                       | None \<Rightarrow> Some (malloc_bytes m (unat cap)))"
  have "\<exists>q. r = Some q" using realloc_bytes_defined [of "eb_ptr buf" "unat cap" m] cap(3)
    by (auto simp: r_def split: option.splits)
  then obtain p m' where r: "r = Some (p, m')" by auto
  have step: "ef_buffer_expand m buf n =
      (case p of Some b \<Rightarrow> Some (0, buf\<lparr>eb_ptr := Some b, eb_cap := cap\<rparr>, m')
       | None \<Rightarrow> Some (- 1, buf, m'))"
    using False r by (simp add: ef_buffer_expand_def cap_def r_def Let_def split: option.splits)
  show thesis
  proof (cases p)
    case None
    with r have "m \<noteq> []"
      by (auto simp: r_def realloc_bytes_def malloc_bytes_def split: option.splits if_splits)
    with step None show thesis by (intro fail) simp_all
  next
    case (Some b)
    have grow: "unat (eb_cap buf) \<le> unat cap"
      using cap(1) False eb_room [OF assms(1), of n] by linarith
    have len: "length b = unat cap"
      using r Some by (cases "eb_ptr buf")
        (auto simp: r_def dest: realloc_bytes_length malloc_bytes_length)
    have keep: "take (unat (eb_len buf)) b = eb_bytes buf"
      using r Some assms(1) grow realloc_bytes_keeps [of m _ "unat cap" b m' "unat (eb_len buf)"]
      by (cases "eb_ptr buf")
        (auto simp: r_def eb_inv_def eb_bytes_def eb_block_def word_le_nat_alt)
    have "ef_buffer_expand m buf n = Some (0, buf\<lparr>eb_ptr := Some b, eb_cap := cap\<rparr>, m')"
      using step Some by simp
    then show thesis
      by (rule ok) (use len keep cap grow in \<open>auto simp: eb_inv_def eb_bytes_def eb_block_def word_le_nat_alt\<close>)
  qed
qed

lemma append_room:
  assumes "eb_inv buf" "unat (eb_len buf) + length data \<le> unat (eb_cap buf)"
  shows "\<exists>buf'. append_loop (Suc k) m buf data = Some (0, buf', m) \<and> eb_inv buf' \<and>
           eb_bytes buf' = eb_bytes buf @ data \<and> eb_cap buf' = eb_cap buf"
proof -
  have lt: "length data < 2 ^ 64"
    using assms(2) unat_less_64 [of "eb_cap buf"] by linarith
  then have n: "unat (of_nat (length data) :: u64) = length data"
    by (intro unat_of_nat_small) simp
  have room: "of_nat (length data) \<le> eb_cap buf - eb_len buf"
    using eb_room [OF assms(1)] assms(2) n by metis
  have sum: "unat (eb_len buf + of_nat (length data)) = unat (eb_len buf) + length data"
    using assms(2) n unat_less_64 [of "eb_cap buf"] by (subst unat_add_small) auto
  show ?thesis
  proof (cases "data = []")
    case True
    with assms(1) show ?thesis by (simp add: write_ptr_def eb_inv_def)
  next
    case False
    with assms obtain b where b: "eb_ptr buf = Some b"
      by (cases "eb_ptr buf") (auto simp: eb_inv_def eb_block_def)
    with assms have len: "length b = unat (eb_cap buf)" by (simp add: eb_inv_def eb_block_def)
    with assms(2) obtain b' where w: "write_block b (unat (eb_len buf)) data = Some b'"
      by (auto simp: write_block_def)
    have "take (unat (eb_len buf) + length data) b' = take (unat (eb_len buf)) b @ data"
      and "length b' = length b"
      using w by (auto intro: write_block_take write_block_length)
    with False b w room sum assms len show ?thesis
      by (auto simp: write_ptr_def eb_inv_def eb_bytes_def eb_block_def word_le_nat_alt)
  qed
qed

lemma ef_buffer_append_cases:
  assumes "eb_inv buf" "unat (eb_len buf) + length data \<le> 2 ^ 63"
  obtains (fail) m' where "ef_buffer_append m buf data = Some (- 1, buf, m')" "m \<noteq> []"
  | (ok) buf' m' where "ef_buffer_append m buf data = Some (0, buf', m')" "eb_inv buf'"
      "eb_bytes buf' = eb_bytes buf @ data"
proof (cases "unat (eb_len buf) + length data \<le> unat (eb_cap buf)")
  case True
  with append_room [OF assms(1), of data 1 m] show thesis
    using ok by (auto simp: ef_buffer_append_def numeral_2_eq_2)
next
  case False
  have n: "unat (of_nat (length data) :: u64) = length data"
    using assms(2) by (intro unat_of_nat_small) simp
  have room: "\<not> of_nat (length data) \<le> eb_cap buf - eb_len buf"
    using eb_room [OF assms(1), of "of_nat (length data)"] False n by simp
  from assms(2) n have "unat (eb_len buf) + unat (of_nat (length data) :: u64) \<le> 2 ^ 63" by simp
  then show thesis
  proof (rule ef_buffer_expand_cases [OF assms(1), where m = m])
    fix m'
    assume "ef_buffer_expand m buf (of_nat (length data)) = Some (- 1, buf, m')" "m \<noteq> []"
    with room show thesis by (intro fail [of m']) (simp_all add: ef_buffer_append_def numeral_2_eq_2)
  next
    fix buf' m'
    assume e: "ef_buffer_expand m buf (of_nat (length data)) = Some (0, buf', m')" "eb_inv buf'"
      "eb_bytes buf' = eb_bytes buf" "eb_len buf' = eb_len buf"
      "unat (eb_len buf) + unat (of_nat (length data) :: u64) \<le> unat (eb_cap buf')"
    then obtain buf'' where "append_loop 1 m' buf' data = Some (0, buf'', m')" "eb_inv buf''"
      "eb_bytes buf'' = eb_bytes buf' @ data"
      using append_room [of buf' data 0 m'] n by auto
    with room e show thesis
      by (intro ok [of buf'' m']) (simp_all add: ef_buffer_append_def numeral_2_eq_2)
  qed
qed

lemma ef_buffer_free_inv: "ef_buffer_free buf False = Some buf' \<Longrightarrow> eb_inv buf' \<and> eb_bytes buf' = []"
  by (auto simp: ef_buffer_free_def eb_inv_def eb_bytes_def eb_block_def)

end
