(* ===== verification/ByteSink.thy ===== *)
theory ByteSink
  imports EfString EfBuffer
begin

text \<open>
  The contract \<^verbatim>\<open>ef_buffer_append\<close> and \<^verbatim>\<open>ef_string_append\<close> share: an append
  either adds all its bytes behind those held, or fails for want of memory and loses nothing.
  The locale \<open>byte_sink\<close> states it, its client is a sequence of appends.
\<close>

section \<open>Sequences of appends\<close>

text \<open>The successes of the appends, in order, and the state they end in.\<close>

fun append_each :: "(mem \<Rightarrow> 's \<Rightarrow> byte list \<Rightarrow> (int \<times> 's \<times> mem) option) \<Rightarrow>
    mem \<Rightarrow> 's \<Rightarrow> byte list list \<Rightarrow> (bool list \<times> 's \<times> mem) option" where
  "append_each f m s [] = Some ([], s, m)"
| "append_each f m s (d # ds) =
     do { (r, s, m) \<leftarrow> f m s d;
          (oks, s, m) \<leftarrow> append_each f m s ds;
          Some ((r = 0) # oks, s, m) }"

text \<open>The data of the appends that succeeded.\<close>

definition accepted :: "bool list \<Rightarrow> byte list list \<Rightarrow> byte list" where
  "accepted oks ds = concat (map snd (filter fst (zip oks ds)))"

lemma accepted_simps [simp]:
  "accepted [] [] = []"
  "accepted (b # oks) (d # ds) = (if b then d else []) @ accepted oks ds"
  by (simp_all add: accepted_def)

lemma accepted_all: "accepted (replicate (length ds) True) ds = concat ds"
  by (induction ds) simp_all

section \<open>The contract\<close>

locale byte_sink =
  fixes put :: "mem \<Rightarrow> 's \<Rightarrow> byte list \<Rightarrow> (int \<times> 's \<times> mem) option"
    and inv :: "'s \<Rightarrow> bool" and bytes :: "'s \<Rightarrow> byte list" and limit :: nat
  assumes put_defined: "inv s \<Longrightarrow> length (bytes s) + length d \<le> limit \<Longrightarrow>
      \<exists>r s' m'. put m s d = Some (r, s', m')"
    and put_result: "inv s \<Longrightarrow> length (bytes s) + length d \<le> limit \<Longrightarrow> put m s d = Some (r, s', m') \<Longrightarrow>
      inv s' \<and> (if r = 0 then bytes s' = bytes s @ d else r = - 1 \<and> s' = s \<and> m \<noteq> [])"
    and put_granted: "put [] s d = Some (r, s', m') \<Longrightarrow> m' = []"
begin

lemma append_each_keeps:
  assumes "inv s" "length (bytes s) + length (concat ds) \<le> limit"
  shows "\<exists>oks s' m'. append_each put m s ds = Some (oks, s', m') \<and> inv s' \<and> length oks = length ds \<and>
           bytes s' = bytes s @ accepted oks ds \<and> (m = [] \<longrightarrow> oks = replicate (length ds) True)"
  using assms
proof (induction ds arbitrary: m s)
  case (Cons d ds)
  from Cons.prems have room: "length (bytes s) + length d \<le> limit" by simp
  obtain r s1 m1 where p: "put m s d = Some (r, s1, m1)"
    using put_defined [OF Cons.prems(1) room] by metis
  note res = put_result [OF Cons.prems(1) room p]
  have "length (bytes s1) + length (concat ds) \<le> limit"
    using res Cons.prems(2) by (cases "r = 0") simp_all
  with res Cons.IH [of s1 m1] obtain oks s' m' where
    q: "append_each put m1 s1 ds = Some (oks, s', m')" "inv s'" "length oks = length ds"
      "bytes s' = bytes s1 @ accepted oks ds" "m1 = [] \<longrightarrow> oks = replicate (length ds) True" by blast
  have "append_each put m s (d # ds) = Some ((r = 0) # oks, s', m')" using p q(1) by simp
  moreover have "bytes s' = bytes s @ accepted ((r = 0) # oks) (d # ds)"
    using res q(4) by (cases "r = 0") simp_all
  moreover have "m = [] \<longrightarrow> (r = 0) # oks = replicate (length (d # ds)) True"
    using res q(5) put_granted [of s d r s1 m1] p by (cases "r = 0") auto
  ultimately show ?case using q(2,3) by (metis length_Cons)
qed simp

end

section \<open>Its two providers\<close>

lemma ef_buffer_append_granted: "ef_buffer_append [] buf d = Some (r, buf', m') \<Longrightarrow> m' = []"
  by (auto simp: ef_buffer_append_def numeral_2_eq_2 Let_def ef_buffer_expand_def realloc_bytes_def
      fault_simps split: if_splits option.splits prod.splits)

lemma ef_string_append_granted: "ef_string_append [] s sz n = Some (r, s', m') \<Longrightarrow> m' = []"
  by (auto simp: ef_string_append_def Let_def realloc_bytes_def
      fault_simps split: if_splits option.splits prod.splits)

interpretation buffer_sink: byte_sink ef_buffer_append eb_inv eb_bytes "2 ^ 63"
proof
  fix buf and d :: "byte list" and m :: mem
  assume inv: "eb_inv buf" and room: "length (eb_bytes buf) + length d \<le> 2 ^ 63"
  then have room': "unat (eb_len buf) + length d \<le> 2 ^ 63" by (simp add: eb_inv_len)
  from inv room' show "\<exists>r s' m'. ef_buffer_append m buf d = Some (r, s', m')"
    by (rule ef_buffer_append_cases [where m = m]) auto
  from inv room' show "eb_inv s' \<and> (if r = 0 then eb_bytes s' = eb_bytes buf @ d else r = - 1 \<and> s' = buf \<and> m \<noteq> [])"
    if "ef_buffer_append m buf d = Some (r, s', m')" for r s' m'
    by (rule ef_buffer_append_cases [where m = m]) (use that inv in auto)
qed (rule ef_buffer_append_granted)

text \<open>A string takes an empty argument as \<^verbatim>\<open>strlen\<close> asks: here the bytes have no NUL.\<close>

definition append_text :: "mem \<Rightarrow> ef_string \<Rightarrow> byte list \<Rightarrow> (int \<times> ef_string \<times> mem) option" where
  "append_text m s d = ef_string_append m s (Some (d @ [0])) (length d)"

lemma text_arg: "arg_ok (Some (d @ [0])) (length d)" "arg_bytes (Some (d @ [0])) (length d) = d"
  by (cases "d = []"; simp add: arg_ok_def arg_bytes_def arg_len_def)+

interpretation string_sink: byte_sink append_text es_inv es_bytes limit for limit
proof
  fix s d and m :: mem
  assume inv: "es_inv s"
  show "\<exists>r s' m'. append_text m s d = Some (r, s', m')"
    by (rule ef_string_append_cases [OF inv text_arg(1) [of d], of m]) (auto simp: append_text_def)
  show "es_inv s' \<and> (if r = 0 then es_bytes s' = es_bytes s @ d else r = - 1 \<and> s' = s \<and> m \<noteq> [])"
    if "append_text m s d = Some (r, s', m')" for r s' m'
    by (rule ef_string_append_cases [OF inv text_arg(1) [of d], of m])
      (use that inv text_arg(2) [of d] in \<open>auto simp: append_text_def\<close>)
qed (auto simp: append_text_def dest: ef_string_append_granted)

section \<open>Properties\<close>

text \<open>
  C33. A buffer created with any capacity and any answers of the allocator, then appended to any
  number of times (up to \<open>2 ^ 63\<close> bytes in all), stays well formed and holds exactly the data of
  the appends that returned 0, in their order; while no allocation is refused, every append
  returns 0.
\<close>

theorem buffer_appends_in_order:
  assumes "ef_buffer_new m cap = (Some buf, m')" "length (concat ds) \<le> 2 ^ 63"
  shows "\<exists>oks buf' m''. append_each ef_buffer_append m' buf ds = Some (oks, buf', m'') \<and>
           eb_inv buf' \<and> eb_bytes buf' = accepted oks ds \<and> length oks = length ds \<and>
           (m' = [] \<longrightarrow> eb_bytes buf' = concat ds)"
proof -
  from ef_buffer_new_inv [OF assms(1)] have b: "eb_inv buf" "eb_bytes buf = []" by auto
  with buffer_sink.append_each_keeps [OF b(1), of ds m'] assms(2) show ?thesis
    by (auto simp: accepted_all)
qed

theorem buffer_appends_in_order_witness:
  "\<exists>oks buf' m''. append_each ef_buffer_append [Refused]
       \<lparr>eb_ptr = Some [0, 0], eb_cap = 2, eb_len = 0\<rparr> [[1, 2], [3], [4, 5]] = Some (oks, buf', m'') \<and>
     eb_inv buf' \<and> eb_bytes buf' = accepted oks [[1, 2], [3], [4, 5]] \<and> length oks = length [[1::byte, 2], [3], [4, 5]]"
proof -
  have "ef_buffer_new [Granted (\<lambda>_. 0), Granted (\<lambda>_. 0), Refused] 2 =
      (Some \<lparr>eb_ptr = Some [0, 0], eb_cap = 2, eb_len = 0\<rparr>, [Refused])"
    by (simp add: ef_buffer_new_def malloc_obj_def malloc_bytes_def ef_resize_def upt_rec)
  moreover have "length (concat [[1, 2], [3], [4, 5 :: byte]]) \<le> 2 ^ 63" by simp
  ultimately show ?thesis using buffer_appends_in_order by blast
qed

text \<open>
  A string created from any C string and appended to any number of times holds the bytes of
  the appends that returned 0 behind those it started with, with a NUL behind them; an append
  that fails leaves it as it was.
\<close>

theorem string_appends_in_order:
  assumes "0 \<notin> set text" "ef_string_new m (Some (text @ [0])) 0 = Some (Some s, m')"
  shows "\<exists>oks s' m''. append_each append_text m' s ds = Some (oks, s', m'') \<and>
           es_inv s' \<and> es_bytes s' = text @ accepted oks ds \<and>
           (m' = [] \<longrightarrow> es_bytes s' = text @ concat ds)"
proof -
  have arg: "arg_ok (Some (text @ [0])) 0" "arg_bytes (Some (text @ [0])) 0 = text"
    using assms(1) by (simp_all add: arg_ok_def arg_bytes_def arg_len_def strlen_append_NUL)
  from assms(2) have s: "es_inv s" "es_bytes s = text"
    by (auto intro: ef_string_new_cases [OF arg(1), of m] simp: arg(2))
  with string_sink.append_each_keeps [OF s(1) order.refl, of m' ds] show ?thesis
    by (auto simp: accepted_all)
qed

theorem string_appends_in_order_witness:
  "\<exists>oks s' m''. append_each append_text [] \<lparr>es_str = Some [104, 105, 0], es_len = 2\<rparr> [[33], [63]] =
       Some (oks, s', m'') \<and> es_inv s' \<and> es_bytes s' = [104, 105] @ concat [[33], [63]]"
proof -
  have "ef_string_new [] (Some ([104, 105] @ [0])) 0 = Some (Some \<lparr>es_str = Some [104, 105, 0], es_len = 2\<rparr>, [])"
    by (simp add: ef_string_new_def arg_len_def strlen_def read_ptr_def read_block_def write_block_def malloc_bytes_def)
  from string_appends_in_order [OF _ this, of "[[33], [63]]"] show ?thesis by auto
qed

end
