(* ===== verification/EfVector.thy ===== *)
theory EfVector
  imports CMemory EfUtil
begin

text \<open>
  \<^verbatim>\<open>structure/vector.c\<close>: the vector of pointers.  A block of \<open>n\<close> bytes has room for
  \<open>n div 8\<close> pointers; a cell not written yet is \<open>Uninit\<close>.  The bytes asked for are those the
  code asks for, so an append that reaches behind its block has no defined result.
\<close>

section \<open>State and operations\<close>

datatype 'a slot = Uninit | Null | Ptr 'a

record 'a ef_vector =
  ev_ptr :: "'a slot list option"
  ev_cap :: u64
  ev_len :: u64
  ev_dtor :: bool

definition malloc_slots :: "mem \<Rightarrow> nat \<Rightarrow> 'a slot list option \<times> mem" where
  "malloc_slots m n = (let (ok, m) = malloc_obj m in (if ok then Some (replicate (n div 8) Uninit) else None, m))"

definition realloc_slots :: "mem \<Rightarrow> 'a slot list \<Rightarrow> nat \<Rightarrow> 'a slot list option \<times> mem" where
  "realloc_slots m b n =
     (let (ok, m) = malloc_obj m
      in (if ok then Some (take (n div 8) b @ replicate (n div 8 - length b) Uninit) else None, m))"

definition VECTOR_GROW_SIZE :: u64 where
  "VECTOR_GROW_SIZE = 8"

definition ef_vector_new :: "mem \<Rightarrow> u64 \<Rightarrow> bool \<Rightarrow> 'a ef_vector option \<times> mem" where
  "ef_vector_new m cap val_dtor =
     (let (ok, m) = malloc_obj m
      in if \<not> ok then (None, m)
         else let cap = (if cap \<noteq> 0 then ef_resize cap VECTOR_GROW_SIZE else cap);
                  (p, m) = (if cap \<noteq> 0 then malloc_slots m (unat (cap * 8)) else (None, m))
              in if cap \<noteq> 0 \<and> p = None then (None, m)
                 else (Some \<lparr>ev_ptr = p, ev_cap = cap, ev_len = 0, ev_dtor = val_dtor\<rparr>, m))"

text \<open>The index is a \<^verbatim>\<open>size_t\<close> returned as \<^verbatim>\<open>int\<close>.\<close>

definition int_of_size :: "u64 \<Rightarrow> int" where
  "int_of_size n = sint (ucast n :: u32)"

definition ef_vector_append :: "mem \<Rightarrow> 'a ef_vector \<Rightarrow> 'a slot \<Rightarrow> (int \<times> 'a ef_vector \<times> mem) option" where
  "ef_vector_append m vec x =
     (let idx = ev_len vec
      in if ev_len vec < ev_cap vec
         then do { b \<leftarrow> ev_ptr vec;
                   b \<leftarrow> cell_set b (unat idx) x;
                   Some (int_of_size idx, vec\<lparr>ev_len := ev_len vec + 1, ev_ptr := Some b\<rparr>, m) }
         else let vec = vec\<lparr>ev_cap := ev_cap vec + VECTOR_GROW_SIZE\<rparr>;
                  (p, m) = (case ev_ptr vec of
                              Some b \<Rightarrow> realloc_slots m b (unat (ev_cap vec))
                            | None \<Rightarrow> malloc_slots m (unat (ev_cap vec)))
              in case p of
                   Some b \<Rightarrow>
                     do { b \<leftarrow> cell_set b (unat idx) x;
                          Some (int_of_size idx, vec\<lparr>ev_len := ev_len vec + 1, ev_ptr := Some b\<rparr>, m) }
                 | None \<Rightarrow> Some (- 1, vec, m))"

text \<open>The destructor loop of \<^verbatim>\<open>ef_vector_free\<close>, with the values it is called on in order.\<close>

fun dtor_slots :: "'a slot list \<Rightarrow> 'a list option" where
  "dtor_slots [] = Some []"
| "dtor_slots (Null # xs) = dtor_slots xs"
| "dtor_slots (Ptr a # xs) = map_option ((#) a) (dtor_slots xs)"
| "dtor_slots (Uninit # xs) = None"

definition ef_vector_free :: "'a ef_vector option \<Rightarrow> bool \<Rightarrow> ('a ef_vector option \<times> 'a list) option" where
  "ef_vector_free v destroy =
     (case v of
        None \<Rightarrow> Some (None, [])
      | Some vec \<Rightarrow>
          do { dead \<leftarrow> (case ev_ptr vec of
                          Some b \<Rightarrow> if ev_dtor vec
                                   then (if unat (ev_len vec) \<le> length b
                                         then dtor_slots (take (unat (ev_len vec)) b) else None)
                                   else Some []
                        | None \<Rightarrow> Some []);
               Some (if destroy then None else Some (vec\<lparr>ev_ptr := None, ev_cap := 0, ev_len := 0\<rparr>), dead) })"

section \<open>Contents\<close>

definition ev_items :: "'a ef_vector \<Rightarrow> 'a slot list" where
  "ev_items vec = (case ev_ptr vec of None \<Rightarrow> [] | Some b \<Rightarrow> take (unat (ev_len vec)) b)"

text \<open>The block really has the capacity the counter claims.\<close>

definition ev_room :: "'a ef_vector \<Rightarrow> bool" where
  "ev_room vec \<longleftrightarrow>
     (case ev_ptr vec of None \<Rightarrow> ev_cap vec = 0 \<and> ev_len vec = 0
      | Some b \<Rightarrow> length b = unat (ev_cap vec) \<and> ev_len vec \<le> ev_cap vec)"

section \<open>Correctness\<close>

lemma ef_vector_new_room:
  assumes "ef_vector_new m cap d = (Some vec, m')" "unat cap \<le> 2 ^ 60"
  shows "ev_room vec \<and> ev_items vec = [] \<and> ev_len vec = 0"
proof (cases "cap = 0")
  case True
  with assms(1) show ?thesis
    by (auto simp: ef_vector_new_def Let_def ev_room_def ev_items_def split: prod.splits if_splits)
next
  case False
  then have pos: "0 < unat (max cap 8)" by (auto simp: unat_gt_0 max_def)
  have le: "unat (max cap (8::u64)) \<le> 2 ^ 60" using assms(2) by (simp add: max_def)
  then obtain p where p: "unat (ef_resize cap VECTOR_GROW_SIZE) = 2 ^ p"
    "(2::nat) ^ p < 2 * unat (max cap 8)"
    using ef_resize_spec [of cap 8] pos by (auto simp: VECTOR_GROW_SIZE_def)
  then have "unat (ef_resize cap VECTOR_GROW_SIZE) * 8 < 2 ^ 64" using le by simp
  then have mul: "unat (ef_resize cap VECTOR_GROW_SIZE * 8) = unat (ef_resize cap VECTOR_GROW_SIZE) * 8"
    by (simp add: unat_word_ariths)
  from False assms(1) show ?thesis
    by (auto simp: ef_vector_new_def Let_def ev_room_def ev_items_def malloc_slots_def mul
        split: prod.splits if_splits)
qed

lemma ef_vector_append_room:
  assumes "ev_room vec" "ev_len vec < ev_cap vec"
  shows "\<exists>vec'. ef_vector_append m vec x = Some (int_of_size (ev_len vec), vec', m) \<and>
           ev_room vec' \<and> ev_items vec' = ev_items vec @ [x] \<and> ev_cap vec' = ev_cap vec \<and>
           ev_len vec' = ev_len vec + 1"
proof -
  from assms obtain b where b: "ev_ptr vec = Some b" "length b = unat (ev_cap vec)"
    by (auto simp: ev_room_def split: option.splits)
  have lt: "unat (ev_len vec) < unat (ev_cap vec)" using assms(2) by (simp add: word_less_nat_alt)
  then have s: "unat (ev_len vec + 1) = Suc (unat (ev_len vec))"
    using unat_less_64 [of "ev_cap vec"] by (intro unat_Suc_small) simp
  with assms b lt show ?thesis
    by (simp add: ef_vector_append_def Let_def ev_room_def ev_items_def word_le_nat_alt
        take_Suc_conv_app_nth)
qed

text \<open>A vector that was just emptied, or created with capacity 0, takes one element.\<close>

lemma ef_vector_append_first:
  assumes "ev_ptr vec = None" "ev_cap vec = 0" "ev_len vec = 0"
  shows "ef_vector_append m vec x =
     (let (ok, m') = malloc_obj m
      in if ok then Some (0, vec\<lparr>ev_cap := 8, ev_len := 1, ev_ptr := Some [x]\<rparr>, m')
         else Some (- 1, vec\<lparr>ev_cap := 8\<rparr>, m'))"
  using assms
  by (auto simp: ef_vector_append_def Let_def VECTOR_GROW_SIZE_def malloc_slots_def int_of_size_def
      cell_set_def split: prod.splits)

text \<open>
  Growing asks \<^verbatim>\<open>realloc\<close> for \<^verbatim>\<open>vec->cap\<close> bytes, not for \<^verbatim>\<open>vec->cap\<close> pointers: a full
  vector that is granted its new block is written behind the end of it.
\<close>

lemma ef_vector_append_grow_faults:
  assumes "ev_room vec" "ev_ptr vec = Some b" "ev_len vec = ev_cap vec" "2 \<le> unat (ev_cap vec)"
    "unat (ev_cap vec) + 8 < 2 ^ 64" "malloc_obj m = (True, m')"
  shows "ef_vector_append m vec x = None"
proof -
  have "unat (ev_cap vec + 8) = unat (ev_cap vec) + 8"
    using assms(5) by (subst unat_add_small) simp_all
  with assms show ?thesis
    by (simp add: ef_vector_append_def Let_def VECTOR_GROW_SIZE_def realloc_slots_def cell_set_def
        ev_room_def)
qed

text \<open>So the second element of a vector created empty is always out of bounds.\<close>

lemma ef_vector_append_second_faults:
  "ef_vector_append m (vec\<lparr>ev_cap := 8, ev_len := 1, ev_ptr := Some [x]\<rparr>) y = None"
  by (simp add: ef_vector_append_def Let_def cell_set_def)

lemma dtor_slots_Ptr: "dtor_slots (map Ptr xs) = Some xs"
  by (induction xs) auto

section \<open>Properties\<close>

text \<open>Appending a list of pointers: the indices returned, and the vector.\<close>

fun append_ptrs :: "mem \<Rightarrow> 'a ef_vector \<Rightarrow> 'a list \<Rightarrow> (int list \<times> 'a ef_vector \<times> mem) option" where
  "append_ptrs m vec [] = Some ([], vec, m)"
| "append_ptrs m vec (x # xs) =
     do { (i, vec, m) \<leftarrow> ef_vector_append m vec (Ptr x);
          (is, vec, m) \<leftarrow> append_ptrs m vec xs;
          Some (i # is, vec, m) }"

lemma append_ptrs_room:
  assumes "ev_room vec" "unat (ev_len vec) + length xs \<le> unat (ev_cap vec)" "unat (ev_cap vec) < 2 ^ 31"
  shows "\<exists>vec'. append_ptrs m vec xs = Some (map int [unat (ev_len vec) ..< unat (ev_len vec) + length xs], vec', m) \<and>
           ev_room vec' \<and> ev_items vec' = ev_items vec @ map Ptr xs \<and> ev_cap vec' = ev_cap vec \<and>
           ev_dtor vec' = ev_dtor vec \<and> unat (ev_len vec') = unat (ev_len vec) + length xs"
  using assms
proof (induction xs arbitrary: vec)
  case (Cons x xs)
  from Cons.prems have lt: "ev_len vec < ev_cap vec" by (simp add: word_less_nat_alt)
  obtain v1 where v1: "ef_vector_append m vec (Ptr x) = Some (int_of_size (ev_len vec), v1, m)" "ev_room v1"
    "ev_items v1 = ev_items vec @ [Ptr x]" "ev_cap v1 = ev_cap vec" "ev_len v1 = ev_len vec + 1"
    using ef_vector_append_room [OF Cons.prems(1) lt] by blast
  have dt: "ev_dtor v1 = ev_dtor vec"
    using v1(1) lt by (auto simp: ef_vector_append_def Let_def bind_Some_iff)
  have small: "unat (ev_len vec) < 2 ^ 31" using Cons.prems by simp
  have u: "uint (ev_len vec) = int (unat (ev_len vec))" by (rule uint_nat)
  have "- (2 ^ (LENGTH(32) - 1)) \<le> uint (ev_len vec)"
    by (rule order.trans [OF _ uint_ge_0]) simp
  moreover have "uint (ev_len vec) < 2 ^ (LENGTH(32) - 1)"
    using uint_below [OF small] by simp
  ultimately have "sint (of_int (uint (ev_len vec)) :: u32) = uint (ev_len vec)"
    by (rule sint_of_int_small)
  then have idx: "int_of_size (ev_len vec) = int (unat (ev_len vec))"
    unfolding int_of_size_def ucast_eq u .
  have s: "unat (ev_len v1) = Suc (unat (ev_len vec))"
    unfolding v1(5) using small by (intro unat_Suc_small) simp
  have "unat (ev_len v1) + length xs \<le> unat (ev_cap v1)" "unat (ev_cap v1) < 2 ^ 31"
    using Cons.prems(2,3) s v1(4) by simp_all
  from Cons.IH [OF v1(2) this] obtain v2 where v2:
    "append_ptrs m v1 xs = Some (map int [unat (ev_len v1) ..< unat (ev_len v1) + length xs], v2, m)" "ev_room v2"
    "ev_items v2 = ev_items v1 @ map Ptr xs" "ev_cap v2 = ev_cap v1" "ev_dtor v2 = ev_dtor v1"
    "unat (ev_len v2) = unat (ev_len v1) + length xs" by blast
  have "int_of_size (ev_len vec) # map int [unat (ev_len v1) ..< unat (ev_len v1) + length xs] =
      map int [unat (ev_len vec) ..< unat (ev_len vec) + length (x # xs)]"
    unfolding idx s by (subst (2) upt_rec) simp
  with v1 v2 dt s show ?case by (simp del: upt_Suc)
qed simp

text \<open>
  A vector created with a capacity takes that many pointers without another allocation:
  each append returns the next index from 0, the pointers stay in order, and freeing the vector
  calls the destructor on each of them once, in order.
\<close>

theorem vector_fill_and_free:
  assumes "ef_vector_new m cap True = (Some vec, m')" "unat cap \<le> 2 ^ 30" "length xs \<le> unat (ev_cap vec)"
  shows "\<exists>vec'. append_ptrs m' vec xs = Some (map int [0 ..< length xs], vec', m') \<and>
           ev_items vec' = map Ptr xs \<and> ef_vector_free (Some vec') True = Some (None, xs)"
proof -
  have new: "ev_room vec" "ev_items vec = []" "ev_len vec = 0"
    using ef_vector_new_room [OF assms(1)] assms(2) by simp_all
  have dt: "ev_dtor vec" using assms(1) by (auto simp: ef_vector_new_def Let_def split: prod.splits if_splits)
  have "unat (ev_cap vec) < 2 ^ 31"
  proof (cases "cap = 0")
    case True
    with assms(1) show ?thesis by (auto simp: ef_vector_new_def Let_def split: prod.splits if_splits)
  next
    case False
    then have mx: "0 < unat (max cap 8)" "unat (max cap 8) \<le> 2 ^ 30"
      using assms(2) by (auto simp: unat_gt_0 max_def)
    then obtain p where p: "unat (ef_resize cap 8) = 2 ^ p" "2 ^ p < 2 * unat (max cap 8)"
      using ef_resize_spec [of cap 8] by auto
    from False assms(1) have "ev_cap vec = ef_resize cap 8"
      by (auto simp: ef_vector_new_def VECTOR_GROW_SIZE_def Let_def split: prod.splits if_splits)
    with p mx show ?thesis by simp
  qed
  with append_ptrs_room [OF new(1), of xs m'] new assms(3) obtain vec' where v:
    "append_ptrs m' vec xs = Some (map int [0 ..< length xs], vec', m')" "ev_room vec'"
    "ev_items vec' = map Ptr xs" "ev_dtor vec' = ev_dtor vec" "unat (ev_len vec') = length xs" by auto
  have "ef_vector_free (Some vec') True = Some (None, xs)"
    using v(2-5) dt
    by (cases "ev_ptr vec'") (auto simp: ef_vector_free_def ev_items_def ev_room_def word_le_nat_alt dtor_slots_Ptr)
  with v show ?thesis by blast
qed

definition sample_vector :: "nat ef_vector" where
  "sample_vector = \<lparr>ev_ptr = Some (replicate 8 Uninit), ev_cap = 8, ev_len = 0, ev_dtor = True\<rparr>"

lemma new_vector: "ef_vector_new [] 3 True = (Some sample_vector, [])"
  by (simp add: sample_vector_def ef_vector_new_def malloc_slots_def VECTOR_GROW_SIZE_def ef_resize_def)

theorem vector_fill_and_free_witness:
  "\<exists>vec'. append_ptrs [] sample_vector [5, 6, 7] = Some (map int [0 ..< length [5, 6, 7 :: nat]], vec', []) \<and>
     ev_items vec' = map Ptr [5, 6, 7] \<and> ef_vector_free (Some vec') True = Some (None, [5, 6, 7])"
  by (rule vector_fill_and_free [OF new_vector]) (simp_all add: sample_vector_def)

text \<open>
  C36. Growth asks for \<^verbatim>\<open>vec->cap\<close> bytes where \<^verbatim>\<open>vec->cap\<close> pointers are stored: once a
  vector created with a capacity is full, the next append, if its \<^verbatim>\<open>realloc\<close> is granted, writes
  outside the block; a vector created empty takes one pointer, and its second append does.
\<close>

theorem vector_growth_out_of_bounds:
  "(ev_room vec \<and> ev_ptr vec \<noteq> None \<and> ev_len vec = ev_cap vec \<and> 2 \<le> unat (ev_cap vec) \<and>
      unat (ev_cap vec) + 8 < 2 ^ 64 \<and> fst (malloc_obj m) \<longrightarrow> ef_vector_append m vec x = None) \<and>
   (ef_vector_new [] 0 d = (Some vec, []) \<longrightarrow>
      (\<exists>vec'. ef_vector_append [] vec y = Some (0, vec', []) \<and> ef_vector_append m vec' x = None))"
proof (intro conjI impI)
  assume a: "ev_room vec \<and> ev_ptr vec \<noteq> None \<and> ev_len vec = ev_cap vec \<and> 2 \<le> unat (ev_cap vec) \<and>
      unat (ev_cap vec) + 8 < 2 ^ 64 \<and> fst (malloc_obj m)"
  then obtain b where b: "ev_ptr vec = Some b" by auto
  from a have "malloc_obj m = (True, snd (malloc_obj m))" by (cases "malloc_obj m") simp
  with a b show "ef_vector_append m vec x = None"
    using ef_vector_append_grow_faults [of vec b m "snd (malloc_obj m)" x] by simp
next
  assume "ef_vector_new [] 0 d = (Some vec, [])"
  then have vec: "ev_ptr vec = None" "ev_cap vec = 0" "ev_len vec = 0"
    by (auto simp: ef_vector_new_def)
  show "\<exists>vec'. ef_vector_append [] vec y = Some (0, vec', []) \<and> ef_vector_append m vec' x = None"
    using ef_vector_append_first [OF vec, of "[]" y] by (simp add: ef_vector_append_second_faults)
qed

theorem vector_growth_out_of_bounds_witness:
  "ef_vector_append [] (\<lparr>ev_ptr = Some (map Ptr [1, 2, 3, 4, 5, 6, 7, 8 :: nat]), ev_cap = 8, ev_len = 8, ev_dtor = True\<rparr>)
     (Ptr 9) = None"
  using vector_growth_out_of_bounds
    [of "\<lparr>ev_ptr = Some (map Ptr [1, 2, 3, 4, 5, 6, 7, 8 :: nat]), ev_cap = 8, ev_len = 8, ev_dtor = True\<rparr>"
      "[]" "Ptr 9" True Null]
  by (simp add: ev_room_def)

end
