(* ===== verification/EfHashtable.thy ===== *)
theory EfHashtable
  imports EfString EfUtil
begin

text \<open>
  \<^verbatim>\<open>structure/hashtable.c\<close>: a hash table with chaining inside one array of buckets.  The
  allocation behind \<^verbatim>\<open>arrData\<close> is two arrays: \<open>ht_hash\<close>, the \<^verbatim>\<open>uint32_t\<close> heads of the
  chains, which lie below the pointer and are addressed with negative offsets, and
  \<open>ht_data\<close>, the buckets.  Chains and the list of removed buckets are linked through
  \<open>bk_next\<close>, with \<open>- 1\<close> as the end mark.
\<close>

section \<open>State\<close>

record 'v ef_bucket =
  bk_h :: u64
  bk_key :: "ef_string option"
  bk_val :: "'v option"
  bk_next :: u32

record 'v ef_hashtable =
  ht_cap :: u32
  ht_sizemask :: u32
  ht_used :: u32
  ht_next :: u32
  ht_removed :: u32
  ht_dtor :: bool
  ht_hash :: "u32 list"
  ht_data :: "'v ef_bucket list"

definition HASH_TABLE_INIT_CAP :: u32 where
  "HASH_TABLE_INIT_CAP = 8"

definition zero_bucket :: "'v ef_bucket" where
  "zero_bucket = \<lparr>bk_h = 0, bk_key = None, bk_val = None, bk_next = 0\<rparr>"

text \<open>The \<^verbatim>\<open>memset\<close>s of \<^verbatim>\<open>alloc_hash_data\<close>: heads to \<open>- 1\<close>, buckets to zero.\<close>

definition alloc_hash_data :: "mem \<Rightarrow> u32 \<Rightarrow> (u32 list \<times> 'v ef_bucket list) option \<times> mem" where
  "alloc_hash_data m cap =
     (let (ok, m) = malloc_obj m
      in (if ok then Some (replicate (unat cap) (- 1), replicate (unat cap) zero_bucket) else None, m))"

section \<open>Hashing\<close>

definition hash_step :: "u64 \<Rightarrow> byte \<Rightarrow> u64" where
  "hash_step hash c = (push_bit 5 hash + hash) + scast c"

text \<open>The loop unrolled eight times and the fall-through switch on the rest.\<close>

fun hash_loop :: "u64 \<Rightarrow> byte list \<Rightarrow> u64" where
  "hash_loop hash (c1 # c2 # c3 # c4 # c5 # c6 # c7 # c8 # str) =
     (let hash = hash_step hash c1; hash = hash_step hash c2;
          hash = hash_step hash c3; hash = hash_step hash c4;
          hash = hash_step hash c5; hash = hash_step hash c6;
          hash = hash_step hash c7; hash = hash_step hash c8
      in hash_loop hash str)"
| "hash_loop hash str = foldl hash_step hash str"

definition hash_bytes :: "byte list \<Rightarrow> u64" where
  "hash_bytes d = hash_loop 5381 d OR 0x8000000000000000"

definition hash_func :: "byte list \<Rightarrow> nat \<Rightarrow> u64 option" where
  "hash_func str n = do { d \<leftarrow> read_block str 0 n; Some (hash_bytes d) }"

definition hash_recap :: "u32 \<Rightarrow> u32" where
  "hash_recap cap =
     (if cap \<le> HASH_TABLE_INIT_CAP then HASH_TABLE_INIT_CAP
      else let cap = cap - 1;
               cap = cap OR drop_bit 1 cap;
               cap = cap OR drop_bit 2 cap;
               cap = cap OR drop_bit 4 cap;
               cap = cap OR drop_bit 8 cap;
               cap = cap OR drop_bit 16 cap
           in cap + 1)"

text \<open>\<^verbatim>\<open>HASH_SIZEMASK\<close>, \<^verbatim>\<open>HASH_OFFSET\<close> and the position \<^verbatim>\<open>HASH_ENTRY\<close> addresses.\<close>

definition HASH_SIZEMASK :: "u32 \<Rightarrow> u32" where
  "HASH_SIZEMASK cap = - cap"

definition HASH_OFFSET :: "u32 \<Rightarrow> u64 \<Rightarrow> int" where
  "HASH_OFFSET sizemask h = sint ((ucast h :: u32) OR sizemask)"

definition entry_pos :: "'v ef_hashtable \<Rightarrow> u64 \<Rightarrow> nat option" where
  "entry_pos ht h =
     (let p = int (length (ht_hash ht)) + HASH_OFFSET (ht_sizemask ht) h
      in if 0 \<le> p \<and> p < int (length (ht_hash ht)) then Some (nat p) else None)"

section \<open>Buckets\<close>

definition ef_hashtable_free_bucket :: "'v ef_hashtable \<Rightarrow> nat \<Rightarrow> ('v ef_hashtable \<times> 'v list) option" where
  "ef_hashtable_free_bucket ht i =
     do { pb \<leftarrow> cell_get (ht_data ht) i;
          if bk_h pb = 0 \<and> bk_key pb = None then Some (ht, [])
          else
            let pb = pb\<lparr>bk_h := 0\<rparr>;
                pb = pb\<lparr>bk_key := None\<rparr>;
                (pb, dead) = (case bk_val pb of
                                Some v \<Rightarrow> if ht_dtor ht then (pb\<lparr>bk_val := None\<rparr>, [v]) else (pb, [])
                              | None \<Rightarrow> (pb, []));
                pb = pb\<lparr>bk_next := ht_removed ht\<rparr>
            in Some (ht\<lparr>ht_data := (ht_data ht)[i := pb], ht_removed := of_nat i,
                        ht_used := ht_used ht - 1\<rparr>, dead) }"

text \<open>The test at each bucket of a chain.\<close>

definition key_matches :: "'v ef_bucket \<Rightarrow> u64 \<Rightarrow> byte list \<Rightarrow> nat \<Rightarrow> bool option" where
  "key_matches pb h key n =
     (if bk_h pb \<noteq> h then Some False
      else case bk_key pb of
             None \<Rightarrow> Some False
           | Some s \<Rightarrow>
               if es_len s \<noteq> n then Some False
               else do { a \<leftarrow> read_ptr (es_str s) 0 n; b \<leftarrow> read_block key 0 n; Some (a = b) })"

text \<open>
  The \<^verbatim>\<open>while (1)\<close> of \<^verbatim>\<open>ef_hashtable_find_key\<close> at bucket \<open>i\<close>.  Nothing changes along the
  loop, so a walk longer than the number of buckets has met one of them twice and does not
  return: one turn more than there are buckets is all the fuel the loop can use.
\<close>

fun find_loop :: "nat \<Rightarrow> 'v ef_bucket list \<Rightarrow> u32 \<Rightarrow> u64 \<Rightarrow> byte list \<Rightarrow> nat \<Rightarrow> nat option option" where
  "find_loop 0 bks i h key n = None"
| "find_loop (Suc fuel) bks i h key n =
     do { pb \<leftarrow> cell_get bks (unat i);
          hit \<leftarrow> key_matches pb h key n;
          if hit then Some (Some (unat i))
          else if bk_next pb = - 1 then Some None
          else find_loop fuel bks (bk_next pb) h key n }"

definition ef_hashtable_find_key :: "'v ef_hashtable \<Rightarrow> byte list \<Rightarrow> nat \<Rightarrow> nat option option" where
  "ef_hashtable_find_key ht key n =
     do { h \<leftarrow> hash_func key n;
          p \<leftarrow> entry_pos ht h;
          let index = ht_hash ht ! p;
          if index = - 1 then Some None
          else find_loop (Suc (length (ht_data ht))) (ht_data ht) index h key n }"

section \<open>Construction and resizing\<close>

definition ef_hashtable_new :: "mem \<Rightarrow> u32 \<Rightarrow> bool \<Rightarrow> 'v ef_hashtable option \<times> mem" where
  "ef_hashtable_new m cap val_dtor =
     (let cap = hash_recap cap;
          (bks, m) = alloc_hash_data m cap
      in case bks of
           None \<Rightarrow> (None, m)
         | Some (hs, data) \<Rightarrow>
             let (ok, m) = malloc_obj m
             in if \<not> ok then (None, m)
                else (Some \<lparr>ht_cap = cap, ht_sizemask = HASH_SIZEMASK cap, ht_used = 0, ht_next = 0,
                            ht_removed = - 1, ht_dtor = val_dtor, ht_hash = hs, ht_data = data\<rparr>, m))"

text \<open>
  The copying loop of \<^verbatim>\<open>ef_hashtable_resize\<close> over the old buckets; \<open>j\<close> is \<^verbatim>\<open>newptr - newbks\<close>.
\<close>

fun rehash :: "'v ef_bucket list \<Rightarrow> nat \<Rightarrow> 'v ef_hashtable \<Rightarrow> 'v ef_hashtable option" where
  "rehash [] j ht = Some ht"
| "rehash (pb # old) j ht =
     (if bk_h pb = 0 \<and> bk_key pb = None then rehash old j ht
      else do { p \<leftarrow> entry_pos ht (bk_h pb);
                data \<leftarrow> cell_set (ht_data ht) j (pb\<lparr>bk_next := ht_hash ht ! p\<rparr>);
                rehash old (Suc j) (ht\<lparr>ht_data := data, ht_hash := (ht_hash ht)[p := of_nat j]\<rparr>) })"

definition ef_hashtable_resize :: "mem \<Rightarrow> 'v ef_hashtable \<Rightarrow> u32 \<Rightarrow> (int \<times> 'v ef_hashtable \<times> mem) option" where
  "ef_hashtable_resize m ht cap =
     (let cap = hash_recap cap
      in if cap < ht_used ht then Some (- 1, ht, m)
         else let (newbks, m) = alloc_hash_data m cap
              in case newbks of
                   None \<Rightarrow> Some (- 1, ht, m)
                 | Some (hs, data) \<Rightarrow>
                     do { ht \<leftarrow> rehash (ht_data ht) 0
                            (ht\<lparr>ht_data := data, ht_hash := hs, ht_cap := cap,
                                ht_sizemask := HASH_SIZEMASK cap, ht_removed := - 1,
                                ht_next := ht_used ht\<rparr>);
                          Some (0, ht, m) })"

section \<open>Insertion\<close>

text \<open>
  The label \<^verbatim>\<open>alloc_bucket\<close>: the fuel counts the passes through it.  The result is the index
  of the bucket taken, \<open>None\<close> where the C code returns NULL.
\<close>

fun alloc_bucket :: "nat \<Rightarrow> mem \<Rightarrow> 'v ef_hashtable \<Rightarrow> (nat option \<times> 'v ef_hashtable \<times> mem) option" where
  "alloc_bucket 0 m ht = None"
| "alloc_bucket (Suc fuel) m ht =
     (if ht_next ht < ht_cap ht
      then Some (Some (unat (ht_next ht)), ht\<lparr>ht_next := ht_next ht + 1\<rparr>, m)
      else if ht_removed ht \<noteq> - 1
      then do { pb \<leftarrow> cell_get (ht_data ht) (unat (ht_removed ht));
                Some (Some (unat (ht_removed ht)), ht\<lparr>ht_removed := bk_next pb\<rparr>, m) }
      else do { (r, ht, m) \<leftarrow> ef_hashtable_resize m ht (push_bit 1 (ht_cap ht));
                if r = 0 then alloc_bucket fuel m ht else Some (None, ht, m) })"

definition ef_hashtable_set_key_value ::
    "mem \<Rightarrow> 'v ef_hashtable \<Rightarrow> byte list \<Rightarrow> nat \<Rightarrow> 'v option \<Rightarrow>
     (nat option \<times> 'v ef_hashtable \<times> 'v list \<times> mem) option" where
  "ef_hashtable_set_key_value m ht key klen val =
     do { found \<leftarrow> ef_hashtable_find_key ht key klen;
          case found of
            Some i \<Rightarrow>
              do { pb \<leftarrow> cell_get (ht_data ht) i;
                   let dead = (if ht_dtor ht then (case bk_val pb of Some v \<Rightarrow> [v] | None \<Rightarrow> []) else []);
                   Some (Some i, ht\<lparr>ht_data := (ht_data ht)[i := pb\<lparr>bk_val := val\<rparr>]\<rparr>, dead, m) }
          | None \<Rightarrow>
              do { (slot, ht, m) \<leftarrow> alloc_bucket 2 m ht;
                   case slot of
                     None \<Rightarrow> Some (None, ht, [], m)
                   | Some i \<Rightarrow>
                       let ht = ht\<lparr>ht_used := ht_used ht + 1\<rparr>
                       in do { (k, m) \<leftarrow> ef_string_new m (Some key) klen;
                               pb \<leftarrow> cell_get (ht_data ht) i;
                               case k of
                                 None \<Rightarrow>
                                   let pb = pb\<lparr>bk_key := None, bk_next := ht_removed ht\<rparr>
                                   in Some (None, ht\<lparr>ht_data := (ht_data ht)[i := pb],
                                                     ht_removed := of_nat i,
                                                     ht_used := ht_used ht - 1\<rparr>, [], m)
                               | Some s \<Rightarrow>
                                   do { h \<leftarrow> hash_func key klen;
                                        p \<leftarrow> entry_pos ht h;
                                        let pb = pb\<lparr>bk_key := Some s, bk_h := h, bk_val := val,
                                                    bk_next := ht_hash ht ! p\<rparr>;
                                        Some (Some i, ht\<lparr>ht_data := (ht_data ht)[i := pb],
                                                         ht_hash := (ht_hash ht)[p := of_nat i]\<rparr>, [], m) } } } }"

section \<open>Removal and disposal\<close>

text \<open>\<^verbatim>\<open>uint32_t *pidx\<close>: the head of a chain or the \<open>next\<close> field of a bucket.\<close>

datatype link = At_entry nat | At_bucket nat

fun write_link :: "'v ef_hashtable \<Rightarrow> link \<Rightarrow> u32 \<Rightarrow> 'v ef_hashtable" where
  "write_link ht (At_entry p) v = ht\<lparr>ht_hash := (ht_hash ht)[p := v]\<rparr>"
| "write_link ht (At_bucket j) v =
     ht\<lparr>ht_data := (ht_data ht)[j := (ht_data ht ! j)\<lparr>bk_next := v\<rparr>]\<rparr>"

fun remove_loop ::
    "nat \<Rightarrow> 'v ef_hashtable \<Rightarrow> link \<Rightarrow> u32 \<Rightarrow> u64 \<Rightarrow> byte list \<Rightarrow> nat \<Rightarrow> ('v ef_hashtable \<times> 'v list) option" where
  "remove_loop 0 ht pidx i h key n = None"
| "remove_loop (Suc fuel) ht pidx i h key n =
     do { pb \<leftarrow> cell_get (ht_data ht) (unat i);
          hit \<leftarrow> key_matches pb h key n;
          if hit then ef_hashtable_free_bucket (write_link ht pidx (bk_next pb)) (unat i)
          else if bk_next pb = - 1 then Some (ht, [])
          else remove_loop fuel ht (At_bucket (unat i)) (bk_next pb) h key n }"

definition ef_hashtable_remove_key ::
    "'v ef_hashtable \<Rightarrow> byte list \<Rightarrow> nat \<Rightarrow> (int \<times> 'v ef_hashtable \<times> 'v list) option" where
  "ef_hashtable_remove_key ht key n =
     do { h \<leftarrow> hash_func key n;
          p \<leftarrow> entry_pos ht h;
          let i = ht_hash ht ! p;
          if i = - 1 then Some (0, ht, [])
          else do { (ht, dead) \<leftarrow> remove_loop (Suc (length (ht_data ht))) ht (At_entry p) i h key n;
                    Some (0, ht, dead) } }"

text \<open>The loop of \<^verbatim>\<open>ef_hashtable_free\<close>; the values handed to the destructor, in order.\<close>

fun free_buckets :: "nat list \<Rightarrow> 'v ef_hashtable \<Rightarrow> ('v ef_hashtable \<times> 'v list) option" where
  "free_buckets [] ht = Some (ht, [])"
| "free_buckets (idx # is) ht =
     do { (ht, d) \<leftarrow> ef_hashtable_free_bucket ht idx;
          (ht, ds) \<leftarrow> free_buckets is ht;
          Some (ht, d @ ds) }"

definition ef_hashtable_free :: "'v ef_hashtable \<Rightarrow> 'v list option" where
  "ef_hashtable_free ht =
     map_option snd (free_buckets [0..<unat (ht_cap ht)] ht)"

end
