(* ===== verification/HashtableInv.thy ===== *)
theory HashtableInv
  imports EfHashtable "HOL-Library.Multiset"
begin

text \<open>
  The representation invariant of the hash table and its abstraction to a map from byte
  strings.  A chain is the list of bucket indices a walk along \<open>bk_next\<close> visits; each chain
  head owns one, the removed buckets form another, and the three kinds of buckets (live,
  removed, not yet used) partition the array.
\<close>

section \<open>Hashing\<close>

text \<open>The unrolled loop is the plain fold.\<close>

lemma hash_loop_foldl: "hash_loop h d = foldl hash_step h d"
  by (induction h d rule: hash_loop.induct) (simp_all add: Let_def)

lemma hash_bytes_nonzero: "hash_bytes d \<noteq> 0"
proof
  assume "hash_bytes d = 0"
  then have "bit (hash_bytes d) 63 = bit (0::u64) 63" by simp
  moreover have "(0x8000000000000000 :: u64) = 2 ^ 63" by simp
  then have "bit (0x8000000000000000 :: u64) 63" by (simp only: bit_exp_iff) simp
  ultimately show False by (simp add: hash_bytes_def bit_or_iff)
qed

lemma hash_func_eq: "n \<le> length str \<Longrightarrow> hash_func str n = Some (hash_bytes (take n str))"
  by (simp add: hash_func_def read_block_def)

section \<open>Capacities and chain heads\<close>

definition good_cap :: "u32 \<Rightarrow> bool" where
  "good_cap c \<longleftrightarrow> (\<exists>k. 3 \<le> k \<and> k \<le> 31 \<and> c = 2 ^ k)"

lemma unat_good_cap: "k \<le> 31 \<Longrightarrow> unat (2 ^ k :: u32) = 2 ^ k"
proof -
  assume "k \<le> 31"
  then have "(2::nat) ^ k < 2 ^ 32" by (intro power_strict_increasing) auto
  then show ?thesis using unat_of_nat_small [of "2 ^ k", where 'a = 32] by simp
qed

lemma good_cap_bounds: "good_cap c \<Longrightarrow> 8 \<le> unat c \<and> unat c \<le> 2 ^ 31"
proof -
  assume "good_cap c"
  then obtain k where k: "3 \<le> k" "k \<le> 31" "c = 2 ^ k" by (auto simp: good_cap_def)
  have "(8::nat) \<le> 2 ^ k" by (rule order.trans [OF _ power_increasing [of 3 k]]) (use k in simp_all)
  moreover have "(2::nat) ^ k \<le> 2 ^ 31" by (rule power_increasing) (use k in simp_all)
  ultimately show ?thesis using unat_good_cap [OF k(2)] by (simp only: k(3) simp_thms)
qed

lemma hash_recap_smear: "8 < cap \<Longrightarrow> hash_recap cap = smear 5 (cap - 1) + 1"
  by (auto simp: hash_recap_def HASH_TABLE_INIT_CAP_def Let_def smear_numeral)

lemma hash_recap_spec:
  assumes "unat cap \<le> 2 ^ 31"
  shows "good_cap (hash_recap cap)" and "unat cap \<le> unat (hash_recap cap)"
    and "8 < unat cap \<Longrightarrow> unat (hash_recap cap) < 2 * unat cap"
proof -
  have "good_cap (hash_recap cap) \<and> unat cap \<le> unat (hash_recap cap) \<and>
      (8 < unat cap \<longrightarrow> unat (hash_recap cap) < 2 * unat cap)"
  proof (cases "cap \<le> 8")
    case True
    then have "unat cap \<le> 8" by (simp add: word_le_nat_alt)
    with True show ?thesis
      by (auto simp: hash_recap_def HASH_TABLE_INIT_CAP_def good_cap_def intro: exI [of _ 3])
  next
    case False
    then have c: "8 < unat cap" "8 < cap" by (auto simp: word_le_nat_alt not_le word_less_nat_alt)
    have two: "2 \<le> unat cap" "unat cap \<le> 2 ^ (LENGTH(32) - 1)" using c(1) assms by simp_all
    obtain p where p: "unat (smear 5 (cap - 1) + 1) = 2 ^ p" "p < 32"
      "unat cap \<le> 2 ^ p" "2 ^ p < 2 * unat cap"
      using unat_smear_Suc [OF two, of 5] by auto
    have "(2::nat) ^ 3 < 2 ^ p" using p(3) c(1) by simp
    then have "3 < p" by (rule power_less_imp_less_exp [rotated]) simp
    moreover have "hash_recap cap = 2 ^ p"
      using p(1,2) unat_good_cap [of p] hash_recap_smear [OF c(2)] by (simp add: word_unat_eq_iff)
    ultimately show ?thesis
      using p unat_good_cap [of p] by (auto simp: good_cap_def intro!: exI [of _ p])
  qed
  then show "good_cap (hash_recap cap)" "unat cap \<le> unat (hash_recap cap)"
    "8 < unat cap \<Longrightarrow> unat (hash_recap cap) < 2 * unat cap" by auto
qed

text \<open>The offset is negative and stays within the heads.\<close>

lemma HASH_OFFSET_range:
  assumes "good_cap c"
  shows "- int (unat c) \<le> HASH_OFFSET (HASH_SIZEMASK c) h" and "HASH_OFFSET (HASH_SIZEMASK c) h < 0"
proof -
  from assms obtain k where k: "3 \<le> k" "k \<le> 31" "c = 2 ^ k" by (auto simp: good_cap_def)
  let ?w = "(ucast h :: u32) OR (- c)"
  have m: "- c = NOT (mask k)" by (simp add: k(3) minus_exp_eq_not_mask)
  have b: "bit ?w 31" using k(2) by (simp add: m bit_or_iff bit_not_iff bit_mask_iff)
  have sint: "sint ?w = uint ?w - 2 ^ 32"
    using b by (rule sint_negative_32)
  then have "sint ?w < 0" using uint_bounded [of ?w] by simp
  then show "HASH_OFFSET (HASH_SIZEMASK c) h < 0" by (simp add: HASH_OFFSET_def HASH_SIZEMASK_def)
  have "- c \<le> ?w" by (metis le_word_or1 or.commute)
  then have "uint (- c) \<le> uint ?w" by (simp add: word_le_def)
  moreover have "uint (- c) = 2 ^ 32 - uint c"
  proof -
    have "c \<noteq> 0" using good_cap_bounds [OF assms] by auto
    then have "0 < uint c" using uint_ge_0 [of c] by (metis le_less uint_0_iff)
    moreover have "uint c < 2 ^ 32" using uint_bounded [of c] by simp
    ultimately show ?thesis by (simp add: uint_word_ariths zmod_zminus1_eq_if)
  qed
  ultimately have "- uint c \<le> sint ?w" using sint by simp
  then show "- int (unat c) \<le> HASH_OFFSET (HASH_SIZEMASK c) h"
    by (simp add: HASH_OFFSET_def HASH_SIZEMASK_def)
qed

definition hslot :: "u32 \<Rightarrow> u64 \<Rightarrow> nat" where
  "hslot c h = nat (int (unat c) + HASH_OFFSET (HASH_SIZEMASK c) h)"

lemma hslot_less: "good_cap c \<Longrightarrow> hslot c h < unat c"
  using HASH_OFFSET_range [of c h] good_cap_bounds [of c] unfolding hslot_def by arith

lemma entry_pos_eq:
  assumes "good_cap c" "length (ht_hash ht) = unat c" "ht_sizemask ht = HASH_SIZEMASK c"
  shows "entry_pos ht h = Some (hslot c h)"
  using HASH_OFFSET_range [OF assms(1), of h] assms(2,3) by (simp add: entry_pos_def hslot_def Let_def)

section \<open>Chains\<close>

fun chain :: "'v ef_bucket list \<Rightarrow> u32 \<Rightarrow> nat list \<Rightarrow> bool" where
  "chain bks i [] \<longleftrightarrow> i = - 1"
| "chain bks i (x # xs) \<longleftrightarrow> i \<noteq> - 1 \<and> unat i = x \<and> x < length bks \<and> chain bks (bk_next (bks ! x)) xs"

lemma chain_unique: "chain bks i xs \<Longrightarrow> chain bks i ys \<Longrightarrow> xs = ys"
proof (induction xs arbitrary: i ys)
  case Nil
  then show ?case by (cases ys) auto
next
  case (Cons x xs)
  then show ?case by (cases ys) auto
qed

lemma chain_append: "chain bks i (xs @ y # ys) \<Longrightarrow> chain bks (of_nat y) (y # ys)"
  by (induction xs arbitrary: i) auto

lemma chain_bounded: "chain bks i xs \<Longrightarrow> set xs \<subseteq> {..<length bks}"
  by (induction xs arbitrary: i) auto

text \<open>A chain that ends meets no bucket twice.\<close>

lemma chain_distinct: "chain bks i xs \<Longrightarrow> distinct xs"
proof (induction xs arbitrary: i)
  case (Cons x xs)
  have "x \<notin> set xs"
  proof
    assume "x \<in> set xs"
    then obtain ys zs where s: "xs = ys @ x # zs" by (auto dest: split_list)
    from Cons.prems have c: "chain bks i (x # xs)" "i = of_nat x" by auto
    then have "chain bks (of_nat x) (x # zs)" using chain_append [of bks i "x # ys" x zs] s by simp
    with c have "x # xs = x # zs" by (metis chain_unique)
    with s show False by simp
  qed
  with Cons show ?case by auto
qed simp

lemma chain_length: "chain bks i xs \<Longrightarrow> length xs \<le> length bks"
  by (rule distinct_bounded_length) (auto dest: chain_distinct chain_bounded)

lemma chain_cong:
  assumes "\<And>x. x \<in> set xs \<Longrightarrow> bk_next (bks' ! x) = bk_next (bks ! x)" "length bks' = length bks"
  shows "chain bks' i xs = chain bks i xs"
  using assms by (induction xs arbitrary: i) auto

lemma chain_update: "b \<notin> set xs \<Longrightarrow> chain (bks[b := pb]) i xs = chain bks i xs"
  by (rule chain_cong) (metis nth_list_update_neq, simp)

lemma unat_of_index: "i < n \<Longrightarrow> n \<le> 2 ^ 31 \<Longrightarrow> unat (of_nat i :: u32) = i \<and> (of_nat i :: u32) \<noteq> - 1"
proof -
  assume "i < n" "n \<le> 2 ^ 31"
  then have i: "i < 2 ^ 31" by linarith
  then have u: "unat (of_nat i :: u32) = i" by (intro unat_of_nat_small) simp
  have "unat (- 1 :: u32) = 2 ^ 32 - 1" by (simp add: unsigned_minus_1_eq_mask mask_eq_exp_minus_1)
  with u i show ?thesis by auto
qed

text \<open>Cutting the bucket \<open>x\<close> out of a chain, at its head or behind its predecessor \<open>u\<close>.\<close>

lemma chain_cut:
  assumes "chain bks i (ys @ u # x # zs)"
  shows "chain (bks[u := (bks ! u)\<lparr>bk_next := bk_next (bks ! x)\<rparr>]) i (ys @ u # zs)"
proof -
  from chain_distinct [OF assms] have d: "u \<notin> set ys" "u \<notin> set zs" "x \<noteq> u" by auto
  from assms d show ?thesis
  proof (induction ys arbitrary: i)
    case Nil
    then show ?case by (auto simp: chain_update)
  next
    case (Cons y ys)
    then show ?case by auto
  qed
qed

section \<open>The linked part of the invariant\<close>

definition live :: "'v ef_bucket \<Rightarrow> bool" where
  "live pb \<longleftrightarrow> bk_key pb \<noteq> None"

definition bkey :: "'v ef_bucket \<Rightarrow> byte list" where
  "bkey pb = (case bk_key pb of Some s \<Rightarrow> es_bytes s | None \<Rightarrow> [])"

text \<open>A live bucket holds its key as a string and the hash of it; any other has hash 0.\<close>

definition bucket_ok :: "'v ef_bucket \<Rightarrow> bool" where
  "bucket_ok pb \<longleftrightarrow>
     (case bk_key pb of
        None \<Rightarrow> bk_h pb = 0
      | Some s \<Rightarrow> es_inv s \<and> es_str s \<noteq> None \<and> bk_h pb = hash_bytes (es_bytes s))"

text \<open>
  \<open>linked bks hs c n ch\<close>: each head \<open>s\<close> of \<open>hs\<close> starts the chain \<open>ch s\<close>, and the chains hold
  exactly the live buckets below \<open>n\<close>, each at the head its hash selects.
\<close>

definition linked :: "'v ef_bucket list \<Rightarrow> u32 list \<Rightarrow> u32 \<Rightarrow> nat \<Rightarrow> (nat \<Rightarrow> nat list) \<Rightarrow> bool" where
  "linked bks hs c n ch \<longleftrightarrow>
     (\<forall>s < unat c. chain bks (hs ! s) (ch s)) \<and>
     (\<forall>s < unat c. \<forall>i \<in> set (ch s). i < n \<and> live (bks ! i) \<and> hslot c (bk_h (bks ! i)) = s) \<and>
     (\<forall>i < n. live (bks ! i) \<longrightarrow> i \<in> set (ch (hslot c (bk_h (bks ! i)))))"

lemma linked_chain: "linked bks hs c n ch \<Longrightarrow> s < unat c \<Longrightarrow> chain bks (hs ! s) (ch s)"
  by (simp add: linked_def)

lemma linked_mem:
  "linked bks hs c n ch \<Longrightarrow> s < unat c \<Longrightarrow>
     i \<in> set (ch s) \<longleftrightarrow> i < n \<and> live (bks ! i) \<and> hslot c (bk_h (bks ! i)) = s"
  by (auto simp: linked_def)

lemma linkedI:
  assumes "\<And>s. s < unat c \<Longrightarrow> chain bks (hs ! s) (ch s)"
    and "\<And>s i. s < unat c \<Longrightarrow> i \<in> set (ch s) \<longleftrightarrow> i < n \<and> live (bks ! i) \<and> hslot c (bk_h (bks ! i)) = s"
    and "good_cap c"
  shows "linked bks hs c n ch"
  using assms hslot_less [OF assms(3)] by (auto simp: linked_def)

lemma linked_empty:
  "good_cap c \<Longrightarrow> linked bks (replicate (unat c) (- 1)) c 0 (\<lambda>_. [])"
  by (rule linkedI) auto

text \<open>A new live bucket goes to the front of its chain.\<close>

lemma linked_insert:
  assumes L: "linked bks hs c n ch" and g: "good_cap c" "length bks = unat c" "length hs = unat c"
    and b: "b \<le> n" "b < unat c" "b < n \<Longrightarrow> \<not> live (bks ! b)"
    and pb: "live pb" "bk_next pb = hs ! hslot c (bk_h pb)"
  shows "linked (bks[b := pb]) (hs[hslot c (bk_h pb) := of_nat b]) c (max n (Suc b))
           (ch(hslot c (bk_h pb) := b # ch (hslot c (bk_h pb))))"
proof (rule linkedI)
  let ?s0 = "hslot c (bk_h pb)"
  have s0: "?s0 < unat c" using g(1) by (rule hslot_less)
  have out: "b \<notin> set (ch s)" if "s < unat c" for s
    using linked_mem [OF L that] b(3) by auto
  fix s assume s: "s < unat c"
  have old: "chain (bks[b := pb]) (hs ! s) (ch s)"
    using linked_chain [OF L s] out [OF s] by (simp add: chain_update)
  have "unat (of_nat b :: u32) = b \<and> (of_nat b :: u32) \<noteq> - 1"
    using b(2) good_cap_bounds [OF g(1)] by (intro unat_of_index [of b "unat c"]) auto
  with old s b(2) g pb show "chain (bks[b := pb]) (hs[?s0 := of_nat b] ! s) ((ch(?s0 := b # ch ?s0)) s)"
    by (cases "s = ?s0") (auto simp: nth_list_update)
  fix i
  show "i \<in> set ((ch(?s0 := b # ch ?s0)) s) \<longleftrightarrow>
      i < max n (Suc b) \<and> live (bks[b := pb] ! i) \<and> hslot c (bk_h (bks[b := pb] ! i)) = s"
    using linked_mem [OF L s, of i] b g(2) pb(1)
    by (cases "i = b"; cases "s = ?s0") (auto simp: nth_list_update less_Suc_eq max_def)
qed (rule g)

text \<open>A bucket that is cut out and no longer live leaves its chain.\<close>

lemma linked_cut_entry:
  assumes L: "linked bks hs c n ch" and g: "good_cap c" "length hs = unat c"
    and s: "s < unat c" "ch s = x # zs" and pb: "\<not> live pb"
  shows "linked (bks[x := pb]) (hs[s := bk_next (bks ! x)]) c n (ch(s := zs))"
proof (rule linkedI)
  have cs: "chain bks (hs ! s) (x # zs)" using linked_chain [OF L s(1)] s(2) by simp
  then have x: "x \<notin> set zs" "x < length bks" using chain_distinct [OF cs] by auto
  fix t assume t: "t < unat c"
  have "x \<notin> set (ch t)" if "t \<noteq> s"
    using that linked_mem [OF L s(1), of x] linked_mem [OF L t, of x] s(2) by auto
  then show "chain (bks[x := pb]) (hs[s := bk_next (bks ! x)] ! t) ((ch(s := zs)) t)"
    using cs x linked_chain [OF L t] s(1) g(2) by (cases "t = s") (auto simp: chain_update)
  fix i
  show "i \<in> set ((ch(s := zs)) t) \<longleftrightarrow>
      i < n \<and> live (bks[x := pb] ! i) \<and> hslot c (bk_h (bks[x := pb] ! i)) = t"
    using linked_mem [OF L t, of i] linked_mem [OF L s(1), of x] s(2) x pb
    by (cases "i = x"; cases "t = s") (auto simp: nth_list_update)
qed (rule g)

lemma linked_relink:
  assumes L: "linked bks hs c n ch" and s: "s < unat c" "ch s = ys @ u # x # zs"
    and t: "t < unat c"
  defines "b1 \<equiv> bks[u := (bks ! u)\<lparr>bk_next := bk_next (bks ! x)\<rparr>]"
  shows "chain b1 (hs ! t) ((ch(s := ys @ u # zs)) t)"
    and "live (b1 ! i) = live (bks ! i)" and "bk_h (b1 ! i) = bk_h (bks ! i)"
proof -
  have cs: "chain bks (hs ! s) (ys @ u # x # zs)" using linked_chain [OF L s(1)] s(2) by simp
  then have u: "u < length bks" using chain_bounded [OF cs] by simp
  have "u \<notin> set (ch t)" if "t \<noteq> s"
    using that linked_mem [OF L s(1), of u] linked_mem [OF L t, of u] s(2) by auto
  then show "chain b1 (hs ! t) ((ch(s := ys @ u # zs)) t)"
    using chain_cut [OF cs] linked_chain [OF L t]
    by (cases "t = s") (auto simp: chain_update b1_def)
  show "live (b1 ! i) = live (bks ! i)" "bk_h (b1 ! i) = bk_h (bks ! i)"
    using u by (auto simp: b1_def nth_list_update live_def)
qed

lemma linked_cut_bucket:
  assumes L: "linked bks hs c n ch" and g: "good_cap c"
    and s: "s < unat c" "ch s = ys @ u # x # zs" and pb: "\<not> live pb"
  shows "linked (bks[u := (bks ! u)\<lparr>bk_next := bk_next (bks ! x)\<rparr>, x := pb]) hs c n (ch(s := ys @ u # zs))"
proof (rule linkedI)
  let ?b1 = "bks[u := (bks ! u)\<lparr>bk_next := bk_next (bks ! x)\<rparr>]"
  have cs: "chain bks (hs ! s) (ys @ u # x # zs)" using linked_chain [OF L s(1)] s(2) by simp
  then have x: "x \<notin> set (ys @ u # zs)" "x < length bks"
    using chain_distinct [OF cs] chain_bounded [OF cs] by auto
  fix t assume t: "t < unat c"
  have "x \<notin> set (ch t)" if "t \<noteq> s"
    using that linked_mem [OF L s(1), of x] linked_mem [OF L t, of x] s(2) by auto
  then show "chain (?b1[x := pb]) (hs ! t) ((ch(s := ys @ u # zs)) t)"
    using linked_relink(1) [OF L s t] x by (cases "t = s") (auto simp: chain_update)
  fix i
  show "i \<in> set ((ch(s := ys @ u # zs)) t) \<longleftrightarrow>
      i < n \<and> live (?b1[x := pb] ! i) \<and> hslot c (bk_h (?b1[x := pb] ! i)) = t"
    using linked_mem [OF L t, of i] linked_mem [OF L s(1), of x] s(2) x pb
      linked_relink(2,3) [OF L s t, of i]
    by (cases "i = x"; cases "t = s") (auto simp: nth_list_update)
qed (rule g)

text \<open>Fields of live buckets other than key, hash and link do not matter.\<close>

lemma linked_cong:
  assumes "linked bks hs c n ch" "length bks' = length bks" "good_cap c"
    and "\<And>i. i < length bks \<Longrightarrow> bk_next (bks' ! i) = bk_next (bks ! i) \<and> live (bks' ! i) = live (bks ! i) \<and>
           bk_h (bks' ! i) = bk_h (bks ! i)"
    and "n \<le> length bks"
  shows "linked bks' hs c n ch"
proof (rule linkedI)
  fix t assume t: "t < unat c"
  have b: "set (ch t) \<subseteq> {..<length bks}" by (rule chain_bounded [OF linked_chain [OF assms(1) t]])
  then show "chain bks' (hs ! t) (ch t)"
    using linked_chain [OF assms(1) t] assms(2,4) chain_cong [of "ch t" bks' bks "hs ! t"] by auto
  fix i show "i \<in> set (ch t) \<longleftrightarrow> i < n \<and> live (bks' ! i) \<and> hslot c (bk_h (bks' ! i)) = t"
    using linked_mem [OF assms(1) t, of i] assms(4) [of i] assms(5) by auto
qed (rule assms)

section \<open>The invariant and the abstraction\<close>

text \<open>The map a list of buckets denotes; a value may be the NULL pointer.\<close>

definition ht_find :: "'v ef_bucket list \<Rightarrow> byte list \<Rightarrow> 'v option option" where
  "ht_find bks k = map_option bk_val (List.find (\<lambda>b. live b \<and> bkey b = k) bks)"

definition ht_map :: "'v ef_hashtable \<Rightarrow> byte list \<Rightarrow> 'v option option" where
  "ht_map ht = ht_find (ht_data ht)"

definition uniq :: "'v ef_bucket list \<Rightarrow> bool" where
  "uniq bks \<longleftrightarrow> (\<forall>i < length bks. \<forall>j < length bks.
     live (bks ! i) \<and> live (bks ! j) \<and> bkey (bks ! i) = bkey (bks ! j) \<longrightarrow> i = j)"

text \<open>
  \<open>X\<close> are the buckets an insertion has taken and not yet filled: below \<open>ht_next\<close>, not live,
  and on no list.
\<close>

definition ht_repr :: "nat set \<Rightarrow> 'v ef_hashtable \<Rightarrow> (nat \<Rightarrow> nat list) \<Rightarrow> nat list \<Rightarrow> bool" where
  "ht_repr X ht ch rs \<longleftrightarrow>
     (good_cap (ht_cap ht) \<and> ht_sizemask ht = HASH_SIZEMASK (ht_cap ht) \<and>
      length (ht_data ht) = unat (ht_cap ht) \<and> length (ht_hash ht) = unat (ht_cap ht) \<and>
      unat (ht_next ht) \<le> unat (ht_cap ht)) \<and>
     linked (ht_data ht) (ht_hash ht) (ht_cap ht) (unat (ht_next ht)) ch \<and>
     chain (ht_data ht) (ht_removed ht) rs \<and>
     (\<forall>i. i \<in> set rs \<longleftrightarrow> i < unat (ht_next ht) \<and> \<not> live (ht_data ht ! i) \<and> i \<notin> X) \<and>
     (\<forall>i \<in> X. i < unat (ht_next ht) \<and> \<not> live (ht_data ht ! i)) \<and>
     (\<forall>pb \<in> set (ht_data ht). bucket_ok pb) \<and>
     (\<forall>i < unat (ht_cap ht). unat (ht_next ht) \<le> i \<longrightarrow> \<not> live (ht_data ht ! i)) \<and>
     unat (ht_used ht) = length (filter live (ht_data ht)) \<and>
     uniq (ht_data ht)"

definition ht_inv :: "'v ef_hashtable \<Rightarrow> bool" where
  "ht_inv ht \<longleftrightarrow> (\<exists>ch rs. ht_repr {} ht ch rs)"

lemma ht_repr_shape:
  assumes "ht_repr X ht ch rs"
  shows "good_cap (ht_cap ht)" "ht_sizemask ht = HASH_SIZEMASK (ht_cap ht)"
    "length (ht_data ht) = unat (ht_cap ht)" "length (ht_hash ht) = unat (ht_cap ht)"
    "unat (ht_next ht) \<le> unat (ht_cap ht)"
  using assms by (simp_all add: ht_repr_def)

lemma ht_repr_parts:
  assumes "ht_repr X ht ch rs"
  shows "linked (ht_data ht) (ht_hash ht) (ht_cap ht) (unat (ht_next ht)) ch"
    "chain (ht_data ht) (ht_removed ht) rs"
    "i \<in> set rs \<longleftrightarrow> i < unat (ht_next ht) \<and> \<not> live (ht_data ht ! i) \<and> i \<notin> X"
    "i \<in> X \<Longrightarrow> i < unat (ht_next ht) \<and> \<not> live (ht_data ht ! i)"
    "pb \<in> set (ht_data ht) \<Longrightarrow> bucket_ok pb"
    "i < unat (ht_cap ht) \<Longrightarrow> unat (ht_next ht) \<le> i \<Longrightarrow> \<not> live (ht_data ht ! i)"
    "unat (ht_used ht) = length (filter live (ht_data ht))"
    "uniq (ht_data ht)"
  using assms by (simp_all add: ht_repr_def)

lemma ht_repr_live_below:
  assumes "ht_repr X ht ch rs" "i < unat (ht_cap ht)" "live (ht_data ht ! i)"
  shows "i < unat (ht_next ht)"
  using assms(2,3) ht_repr_parts(6) [OF assms(1), of i] by (meson not_le)

lemma ht_find_Some:
  assumes "uniq bks" "i < length bks" "live (bks ! i)" "bkey (bks ! i) = k"
  shows "ht_find bks k = Some (bk_val (bks ! i))"
proof -
  have "\<not> (live (bks ! j) \<and> bkey (bks ! j) = k)" if "j < i" for j
    using assms that unfolding uniq_def by (metis less_trans nat_neq_iff)
  then have "List.find (\<lambda>b. live b \<and> bkey b = k) bks = Some (bks ! i)"
    unfolding find_Some_iff using assms(2-4) by (intro exI [of _ i]) simp
  then show ?thesis by (simp add: ht_find_def)
qed

lemma ht_find_None: "(\<And>i. i < length bks \<Longrightarrow> live (bks ! i) \<Longrightarrow> bkey (bks ! i) \<noteq> k) \<Longrightarrow> ht_find bks k = None"
  by (auto simp: ht_find_def find_None_iff in_set_conv_nth)

lemma ht_find_NoneD: "ht_find bks k = None \<Longrightarrow> i < length bks \<Longrightarrow> live (bks ! i) \<Longrightarrow> bkey (bks ! i) \<noteq> k"
  by (auto simp: ht_find_def find_None_iff in_set_conv_nth)

lemma ht_find_SomeE:
  assumes "ht_find bks k = Some v"
  obtains i where "i < length bks" "live (bks ! i)" "bkey (bks ! i) = k" "v = bk_val (bks ! i)"
  using assms by (auto simp: ht_find_def find_Some_iff)

text \<open>Updating one bucket of a duplicate-free table updates the map at one key.\<close>

lemma uniq_update:
  assumes "uniq bks" "b < length bks"
    and "live pb \<Longrightarrow> (\<And>i. i < length bks \<Longrightarrow> i \<noteq> b \<Longrightarrow> live (bks ! i) \<Longrightarrow> bkey (bks ! i) \<noteq> bkey pb)"
  shows "uniq (bks[b := pb])"
  unfolding uniq_def
proof (intro allI impI)
  fix i j assume h: "i < length (bks[b := pb])" "j < length (bks[b := pb])"
    "live (bks[b := pb] ! i) \<and> live (bks[b := pb] ! j) \<and> bkey (bks[b := pb] ! i) = bkey (bks[b := pb] ! j)"
  show "i = j"
    using assms h by (cases "i = b"; cases "j = b") (auto simp: uniq_def nth_list_update)
qed

lemma ht_find_update_live:
  assumes u: "uniq bks" "uniq (bks[b := pb])" and b: "b < length bks" "live pb"
    and old: "live (bks ! b) \<Longrightarrow> bkey (bks ! b) = bkey pb"
  shows "ht_find (bks[b := pb]) = (ht_find bks)(bkey pb \<mapsto> bk_val pb)"
proof
  fix k
  show "ht_find (bks[b := pb]) k = ((ht_find bks)(bkey pb \<mapsto> bk_val pb)) k"
  proof (cases "k = bkey pb")
    case True
    then show ?thesis using ht_find_Some [OF u(2), of b] b by simp
  next
    case False
    show ?thesis
    proof (cases "ht_find bks k")
      case None
      then have "ht_find (bks[b := pb]) k = None"
        using False b by (intro ht_find_None) (auto simp: nth_list_update dest: ht_find_NoneD)
      with None False show ?thesis by simp
    next
      case (Some v)
      then obtain i where i: "i < length bks" "live (bks ! i)" "bkey (bks ! i) = k" "v = bk_val (bks ! i)"
        by (rule ht_find_SomeE)
      with False old have "i \<noteq> b" by auto
      with i have "ht_find (bks[b := pb]) k = Some v" using ht_find_Some [OF u(2), of i k] by simp
      with Some False show ?thesis by simp
    qed
  qed
qed

lemma ht_find_update_dead:
  assumes u: "uniq bks" and b: "b < length bks" "live (bks ! b)" "\<not> live pb"
  shows "ht_find (bks[b := pb]) = (ht_find bks)(bkey (bks ! b) := None)"
proof
  fix k
  have u2: "uniq (bks[b := pb])" using u b by (intro uniq_update) auto
  show "ht_find (bks[b := pb]) k = ((ht_find bks)(bkey (bks ! b) := None)) k"
  proof (cases "k = bkey (bks ! b)")
    case True
    then have "ht_find (bks[b := pb]) k = None"
      using u b by (intro ht_find_None) (auto simp: nth_list_update uniq_def split: if_splits)
    with True show ?thesis by simp
  next
    case False
    show ?thesis
    proof (cases "ht_find bks k")
      case None
      then have "ht_find (bks[b := pb]) k = None"
        using b by (intro ht_find_None) (auto simp: nth_list_update dest: ht_find_NoneD split: if_splits)
      with None False show ?thesis by simp
    next
      case (Some v)
      then obtain i where i: "i < length bks" "live (bks ! i)" "bkey (bks ! i) = k" "v = bk_val (bks ! i)"
        by (rule ht_find_SomeE)
      with False have "i \<noteq> b" by auto
      with i have "ht_find (bks[b := pb]) k = Some v" using ht_find_Some [OF u2, of i k] by simp
      with Some False show ?thesis by simp
    qed
  qed
qed

text \<open>Relinking a bucket changes neither the map nor what is live.\<close>

definition core :: "'v ef_bucket \<Rightarrow> 'v ef_bucket" where
  "core pb = pb\<lparr>bk_next := 0\<rparr>"

lemma core_simps [simp]:
  "live (core pb) = live pb" "bkey (core pb) = bkey pb" "bk_val (core pb) = bk_val pb"
  "bk_h (core pb) = bk_h pb" "bucket_ok (core pb) = bucket_ok pb"
  "core (pb\<lparr>bk_next := n\<rparr>) = core pb" "core (core pb) = core pb"
  by (simp_all add: core_def live_def bkey_def bucket_ok_def split: option.splits)

lemma ht_find_core: "ht_find (map core bks) = ht_find bks"
proof
  fix k show "ht_find (map core bks) k = ht_find bks k"
    by (induction bks) (auto simp: ht_find_def)
qed

lemma ht_find_filter: "ht_find (filter live bks) = ht_find bks"
proof
  fix k show "ht_find (filter live bks) k = ht_find bks k"
    by (induction bks) (auto simp: ht_find_def)
qed

lemma uniq_Cons: "uniq (b # bks) \<longleftrightarrow>
   uniq bks \<and> (live b \<longrightarrow> (\<forall>x \<in> set bks. live x \<longrightarrow> bkey x \<noteq> bkey b))"
proof -
  have "uniq (b # bks) \<longleftrightarrow> uniq bks \<and>
      (\<forall>i < length bks. live b \<and> live (bks ! i) \<longrightarrow> bkey (bks ! i) \<noteq> bkey b)"
    unfolding uniq_def length_Cons All_less_Suc2 nth_Cons_0 nth_Cons_Suc
    by (simp only: nat.inject nat.distinct simp_thms eq_commute [of "bkey b"]) blast
  then show ?thesis unfolding all_set_conv_all_nth by blast
qed

lemma uniq_core: "uniq (map core bks) = uniq bks"
  by (induction bks) (auto simp: uniq_Cons)

lemma uniq_filter: "uniq (filter live bks) = uniq bks"
  by (induction bks) (auto simp: uniq_Cons)

section \<open>The values in the table\<close>

text \<open>The values the table owns: those of its live buckets that are not NULL.\<close>

definition opt_mset :: "'v option \<Rightarrow> 'v multiset" where
  "opt_mset x = (case x of Some v \<Rightarrow> {#v#} | None \<Rightarrow> {#})"

lemma opt_mset_simps [simp]: "opt_mset None = {#}" "opt_mset (Some v) = {#v#}"
  by (simp_all add: opt_mset_def)

definition val_of :: "'v ef_bucket \<Rightarrow> 'v multiset" where
  "val_of b = (if live b then opt_mset (bk_val b) else {#})"

definition bvals :: "'v ef_bucket list \<Rightarrow> 'v multiset" where
  "bvals bks = sum_list (map val_of bks)"

definition ht_vals :: "'v ef_hashtable \<Rightarrow> 'v multiset" where
  "ht_vals ht = bvals (ht_data ht)"

lemma bvals_update:
  "i < length bks \<Longrightarrow> bvals (bks[i := b]) + val_of (bks ! i) = bvals bks + val_of b"
proof (induction bks arbitrary: i)
  case (Cons y ys)
  then show ?case by (cases i) (auto simp: bvals_def ac_simps)
qed simp

lemma bvals_core: "bvals (map core bks) = bvals bks"
  by (induction bks) (auto simp: bvals_def val_of_def)

lemma bvals_filter: "bvals (filter live bks) = bvals bks"
  by (induction bks) (auto simp: bvals_def val_of_def)

end
