(* ===== verification/HashtableOps.thy ===== *)
theory HashtableOps
  imports HashtableInv
begin

text \<open>
  Every operation of the hash table against the invariant and the map it denotes.
\<close>

section \<open>Lookup\<close>

lemma key_matches_eq:
  assumes "bucket_ok pb" "n \<le> length key"
  shows "key_matches pb (hash_bytes (take n key)) key n = Some (live pb \<and> bkey pb = take n key)"
proof (cases "bk_key pb")
  case None
  with assms(1) have "bk_h pb \<noteq> hash_bytes (take n key)"
    using hash_bytes_nonzero [of "take n key"] by (auto simp: bucket_ok_def)
  with None show ?thesis by (simp add: key_matches_def live_def)
next
  case (Some s)
  with assms(1) obtain b where s: "es_str s = Some b" "es_len s < length b"
    "bk_h pb = hash_bytes (es_bytes s)"
    by (auto simp: bucket_ok_def es_inv_def)
  then have k: "live pb" "bkey pb = es_bytes s" "es_bytes s = take (es_len s) b"
    using Some by (simp_all add: live_def bkey_def es_bytes_def)
  show ?thesis
  proof (cases "bk_h pb = hash_bytes (take n key) \<and> es_len s = n")
    case True
    with Some s k assms(2) show ?thesis
      by (auto simp: key_matches_def read_ptr_def read_block_def)
  next
    case False
    moreover have "bkey pb \<noteq> take n key"
    proof
      assume "bkey pb = take n key"
      then have "es_bytes s = take n key" using k by simp
      moreover from this have "es_len s = n" using k(3) s(2) assms(2)
        by (metis length_take less_imp_le min.absorb2)
      ultimately show False using False s(3) by simp
    qed
    ultimately show ?thesis using Some by (simp add: key_matches_def)
  qed
qed

lemma find_loop_eq:
  assumes "chain bks i xs" "i \<noteq> - 1" "length xs \<le> fuel" "n \<le> length key"
    and "\<forall>pb \<in> set bks. bucket_ok pb" "\<forall>x \<in> set xs. live (bks ! x)"
  shows "find_loop fuel bks i (hash_bytes (take n key)) key n =
           Some (List.find (\<lambda>x. bkey (bks ! x) = take n key) xs)"
  using assms
proof (induction xs arbitrary: i fuel)
  case (Cons x xs)
  then obtain f where f: "fuel = Suc f" by (cases fuel) auto
  from Cons.prems have x: "unat i = x" "x < length bks" "live (bks ! x)" "bucket_ok (bks ! x)" by auto
  show ?case
  proof (cases "bkey (bks ! x) = take n key \<or> xs = []")
    case True
    with f x Cons.prems show ?thesis by (auto simp: key_matches_eq)
  next
    case False
    then have "bk_next (bks ! x) \<noteq> - 1" using Cons.prems by (cases xs) auto
    with False f x Cons show ?thesis by (simp add: key_matches_eq)
  qed
qed simp

lemma find_key_eq:
  assumes "ht_repr X ht ch rs" "n \<le> length key"
  shows "ef_hashtable_find_key ht key n =
           Some (List.find (\<lambda>x. bkey (ht_data ht ! x) = take n key)
                   (ch (hslot (ht_cap ht) (hash_bytes (take n key)))))"
proof -
  let ?h = "hash_bytes (take n key)" and ?s = "hslot (ht_cap ht) (hash_bytes (take n key))"
  note g = ht_repr_shape [OF assms(1)]
  have s: "?s < unat (ht_cap ht)" using g(1) by (rule hslot_less)
  have c: "chain (ht_data ht) (ht_hash ht ! ?s) (ch ?s)"
    using linked_chain [OF ht_repr_parts(1) [OF assms(1)] s] .
  have p: "entry_pos ht ?h = Some ?s" using g by (intro entry_pos_eq)
  show ?thesis
  proof (cases "ht_hash ht ! ?s = - 1")
    case True
    with c have "ch ?s = []" by (cases "ch ?s") auto
    with True p assms(2) show ?thesis by (simp add: ef_hashtable_find_key_def hash_func_eq)
  next
    case False
    have "\<forall>x \<in> set (ch ?s). live (ht_data ht ! x)"
      using linked_mem [OF ht_repr_parts(1) [OF assms(1)] s] by auto
    then have "find_loop (Suc (length (ht_data ht))) (ht_data ht) (ht_hash ht ! ?s) ?h key n =
        Some (List.find (\<lambda>x. bkey (ht_data ht ! x) = take n key) (ch ?s))"
      using c False assms(2) ht_repr_parts(5) [OF assms(1)] chain_length [OF c]
      by (intro find_loop_eq) auto
    with False p assms(2) show ?thesis
      by (simp add: ef_hashtable_find_key_def hash_func_eq del: find_loop.simps)
  qed
qed

lemma bucket_hash: "bucket_ok pb \<Longrightarrow> live pb \<Longrightarrow> bk_h pb = hash_bytes (bkey pb)"
  by (auto simp: bucket_ok_def live_def bkey_def)

text \<open>The lookup returns the bucket that holds the key, exactly when the map has it.\<close>

lemma find_key_cases:
  assumes "ht_repr X ht ch rs" "n \<le> length key"
  obtains (none) "ef_hashtable_find_key ht key n = Some None" "ht_map ht (take n key) = None"
  | (some) i where "ef_hashtable_find_key ht key n = Some (Some i)" "i < unat (ht_cap ht)"
      "live (ht_data ht ! i)" "bkey (ht_data ht ! i) = take n key"
      "ht_map ht (take n key) = Some (bk_val (ht_data ht ! i))"
      "i \<in> set (ch (hslot (ht_cap ht) (hash_bytes (take n key))))"
proof -
  let ?k = "take n key"
  let ?s = "hslot (ht_cap ht) (hash_bytes ?k)"
  note g = ht_repr_shape [OF assms(1)]
  have s: "?s < unat (ht_cap ht)" using g(1) by (rule hslot_less)
  note mem = linked_mem [OF ht_repr_parts(1) [OF assms(1)] s]
  have len: "x < length (ht_data ht)" if "x \<in> set (ch ?s)" for x
    using that mem [of x] g by simp
  show thesis
  proof (cases "List.find (\<lambda>x. bkey (ht_data ht ! x) = ?k) (ch ?s)")
    case None
    have "bkey (ht_data ht ! i) \<noteq> ?k" if "i < length (ht_data ht)" "live (ht_data ht ! i)" for i
    proof
      assume k: "bkey (ht_data ht ! i) = ?k"
      have "bucket_ok (ht_data ht ! i)" using that(1) ht_repr_parts(5) [OF assms(1)] by simp
      then have "bk_h (ht_data ht ! i) = hash_bytes ?k" using bucket_hash that(2) k by metis
      moreover have "i < unat (ht_next ht)" using ht_repr_live_below [OF assms(1)] that g by simp
      ultimately have "i \<in> set (ch ?s)" using mem that(2) by simp
      with None k show False by (auto simp: find_None_iff)
    qed
    then have "ht_map ht ?k = None" unfolding ht_map_def by (rule ht_find_None)
    with None find_key_eq [OF assms] show thesis by (intro none) simp_all
  next
    case (Some i)
    then have i: "i \<in> set (ch ?s)" "bkey (ht_data ht ! i) = ?k"
      by (auto simp: find_Some_iff)
    with mem len have l: "live (ht_data ht ! i)" "i < length (ht_data ht)" by auto
    then have "ht_map ht ?k = Some (bk_val (ht_data ht ! i))"
      unfolding ht_map_def using i(2) ht_repr_parts(8) [OF assms(1)] by (intro ht_find_Some) auto
    with Some find_key_eq [OF assms] i l g show thesis by (intro some [of i]) simp_all
  qed
qed

section \<open>Construction\<close>

lemma zero_bucket_simps [simp]: "\<not> live zero_bucket" "bucket_ok zero_bucket"
  by (simp_all add: zero_bucket_def live_def bucket_ok_def)

lemma ht_find_replicate_zero: "ht_find (replicate n zero_bucket) = (\<lambda>_. None)"
  by (rule ext, rule ht_find_None) simp

lemma uniq_no_live: "(\<And>i. i < length bks \<Longrightarrow> \<not> live (bks ! i)) \<Longrightarrow> uniq bks"
  by (auto simp: uniq_def)

lemma ef_hashtable_new_repr:
  assumes "ef_hashtable_new m cap d = (Some ht, m')" "unat cap \<le> 2 ^ 31"
  shows "ht_repr {} ht (\<lambda>_. []) []" and "ht_map ht = (\<lambda>_. None)" and "ht_dtor ht = d"
    and "ht_used ht = 0" and "ht_vals ht = {#}"
proof -
  from assms(1) have ht: "ht = \<lparr>ht_cap = hash_recap cap, ht_sizemask = HASH_SIZEMASK (hash_recap cap),
      ht_used = 0, ht_next = 0, ht_removed = - 1, ht_dtor = d,
      ht_hash = replicate (unat (hash_recap cap)) (- 1),
      ht_data = replicate (unat (hash_recap cap)) zero_bucket\<rparr>"
    by (auto simp: ef_hashtable_new_def alloc_hash_data_def Let_def split: prod.splits if_splits)
  show "ht_repr {} ht (\<lambda>_. []) []"
    using hash_recap_spec(1) [OF assms(2)]
    by (auto simp: ht ht_repr_def linked_empty intro!: uniq_no_live)
  show "ht_map ht = (\<lambda>_. None)" by (simp add: ht ht_map_def ht_find_replicate_zero)
  show "ht_dtor ht = d" "ht_used ht = 0" by (simp_all add: ht)
  have "bvals (replicate n zero_bucket) = {#}" for n
    by (induction n) (simp_all add: bvals_def val_of_def)
  then show "ht_vals ht = {#}" by (simp add: ht ht_vals_def)
qed

section \<open>Resizing\<close>

lemma rehash_correct:
  assumes "good_cap c" "ht_sizemask ht = HASH_SIZEMASK c" "length (ht_data ht) = unat c"
    "length (ht_hash ht) = unat c" "linked (ht_data ht) (ht_hash ht) c j ch"
    "j + length (filter live old) \<le> unat c" "\<forall>pb \<in> set old. bucket_ok pb"
    "\<And>i. j \<le> i \<Longrightarrow> i < unat c \<Longrightarrow> ht_data ht ! i = zero_bucket"
  shows "\<exists>d hs ch'. rehash old j ht = Some (ht\<lparr>ht_data := d, ht_hash := hs\<rparr>) \<and>
           length d = unat c \<and> length hs = unat c \<and>
           linked d hs c (j + length (filter live old)) ch' \<and>
           map core (take (j + length (filter live old)) d) =
             map core (take j (ht_data ht)) @ map core (filter live old) \<and>
           (\<forall>i. j + length (filter live old) \<le> i \<longrightarrow> i < unat c \<longrightarrow> d ! i = zero_bucket)"
  using assms
proof (induction old arbitrary: j ht ch)
  case Nil
  then show ?case by (intro exI [of _ "ht_data ht"] exI [of _ "ht_hash ht"] exI [of _ ch]) simp
next
  case (Cons pb old)
  show ?case
  proof (cases "live pb")
    case False
    then have "bk_h pb = 0 \<and> bk_key pb = None" using Cons.prems(7) by (auto simp: live_def bucket_ok_def)
    with False Cons.IH [OF Cons.prems(1-5)] Cons.prems show ?thesis by simp
  next
    case True
    let ?s = "hslot c (bk_h pb)"
    let ?pb = "pb\<lparr>bk_next := ht_hash ht ! ?s\<rparr>"
    let ?d = "(ht_data ht)[j := ?pb]" and ?hs = "(ht_hash ht)[?s := of_nat j]"
    have nz: "\<not> (bk_h pb = 0 \<and> bk_key pb = None)" using True by (simp add: live_def)
    have s: "?s < unat c" using Cons.prems(1) by (rule hslot_less)
    have j: "j < unat c" using Cons.prems(6) True by simp
    have p: "entry_pos ht (bk_h pb) = Some ?s" using Cons.prems(1,2,4) by (intro entry_pos_eq)
    define ch1 where "ch1 = ch(?s := j # ch ?s)"
    have L: "linked ?d ?hs c (Suc j) ch1"
      using linked_insert [OF Cons.prems(5,1,3,4), of j ?pb] j True
      by (simp add: live_def max_def ch1_def)
    have step: "rehash (pb # old) j ht = rehash old (Suc j) (ht\<lparr>ht_data := ?d, ht_hash := ?hs\<rparr>)"
      unfolding rehash.simps if_not_P [OF nz] using p j Cons.prems(3) by simp
    define ht1 where "ht1 = ht\<lparr>ht_data := ?d, ht_hash := ?hs\<rparr>"
    have "\<exists>d hs ch'. rehash old (Suc j) ht1 = Some (ht1\<lparr>ht_data := d, ht_hash := hs\<rparr>) \<and>
           length d = unat c \<and> length hs = unat c \<and>
           linked d hs c (Suc j + length (filter live old)) ch' \<and>
           map core (take (Suc j + length (filter live old)) d) =
             map core (take (Suc j) (ht_data ht1)) @ map core (filter live old) \<and>
           (\<forall>i. Suc j + length (filter live old) \<le> i \<longrightarrow> i < unat c \<longrightarrow> d ! i = zero_bucket)"
      by (rule Cons.IH [where ch = ch1]) (use Cons.prems True L in \<open>simp_all add: ht1_def\<close>)
    then obtain d hs ch' where r: "rehash old (Suc j) (ht\<lparr>ht_data := ?d, ht_hash := ?hs\<rparr>) =
           Some (ht\<lparr>ht_data := d, ht_hash := hs\<rparr>)"
        "length d = unat c" "length hs = unat c"
        "linked d hs c (Suc j + length (filter live old)) ch'"
        "map core (take (Suc j + length (filter live old)) d) =
           map core (take (Suc j) ?d) @ map core (filter live old)"
        "\<forall>i. Suc j + length (filter live old) \<le> i \<longrightarrow> i < unat c \<longrightarrow> d ! i = zero_bucket"
      unfolding ht1_def by auto
    have "map core (take (Suc j) ?d) = map core (take j (ht_data ht)) @ [core pb]"
      using j Cons.prems(3) by (simp add: take_Suc_conv_app_nth)
    with r True step show ?thesis
      by (intro exI [of _ d] exI [of _ hs] exI [of _ ch']) simp
  qed
qed

text \<open>The bucket array after moving the live buckets to its front.\<close>

lemma rehashed_buckets:
  fixes bs d :: "'v ef_bucket list"
  defines "n \<equiv> length (filter live bs)"
  assumes moved: "map core (take n d) = map core (filter live bs)" and n: "n \<le> length d"
    and zero: "\<And>i. n \<le> i \<Longrightarrow> i < length d \<Longrightarrow> d ! i = zero_bucket"
    and bs: "\<And>b. b \<in> set bs \<Longrightarrow> bucket_ok b" "uniq bs"
  shows "filter live d = take n d" and "\<forall>b \<in> set d. bucket_ok b" and "i < length d \<Longrightarrow> live (d ! i) \<longleftrightarrow> i < n"
    and "ht_find d = ht_find bs" and "bvals d = bvals bs" and "uniq d"
proof -
  have rest: "drop n d = replicate (length d - n) zero_bucket"
    using zero n by (intro nth_equalityI) auto
  have dec: "map core d = map core (filter live bs) @ replicate (length d - n) (core zero_bucket)"
    using moved rest by (metis append_take_drop_id map_append map_replicate)
  have live_n: "filter live (take n d) = take n d"
  proof -
    have "live b" if b: "b \<in> set (take n d)" for b
    proof -
      have "core b \<in> core ` set (filter live bs)" using b moved by (metis image_eqI list.set_map)
      then obtain b' where "core b = core b'" "live b'" by auto
      then show ?thesis by (metis core_simps(1))
    qed
    then show ?thesis unfolding filter_id_conv by blast
  qed
  then show fl: "filter live d = take n d"
    using rest by (metis append_Nil2 append_take_drop_id filter_append filter_False in_set_replicate zero_bucket_simps(1))
  show "ht_find d = ht_find bs" using fl moved by (metis ht_find_core ht_find_filter)
  show "bvals d = bvals bs" using fl moved by (metis bvals_core bvals_filter)
  show "uniq d" using fl moved bs(2) by (metis uniq_core uniq_filter)
  show "\<forall>b \<in> set d. bucket_ok b"
  proof
    fix b assume "b \<in> set d"
    then have "core b \<in> core ` set (filter live bs) \<or> core b = core zero_bucket"
      using dec by (metis (no_types, lifting) Un_iff in_set_replicate list.set_map set_append image_eqI)
    then show "bucket_ok b"
    proof
      assume "core b \<in> core ` set (filter live bs)"
      then obtain b' where "core b = core b'" "b' \<in> set bs" by auto
      then show ?thesis using bs(1) by (metis core_simps(5))
    qed (metis core_simps(5) zero_bucket_simps(2))
  qed
  show "live (d ! i) \<longleftrightarrow> i < n" if "i < length d"
  proof (cases "i < n")
    case True
    then have "take n d ! i \<in> set (take n d)" using n by (intro nth_mem) simp
    then have "live (take n d ! i)" using live_n by (metis filter_id_conv)
    with True show ?thesis by simp
  next
    case False
    with that zero show ?thesis by (simp add: not_less)
  qed
qed

lemma resize_repr:
  assumes R: "ht_repr {} ht ch rs" and cap: "unat cap \<le> 2 ^ 31"
  obtains (fail) m' where "ef_hashtable_resize m ht cap = Some (- 1, ht, m')"
      "hash_recap cap < ht_used ht \<or> m \<noteq> []"
  | (ok) ht' ch' m' where "ef_hashtable_resize m ht cap = Some (0, ht', m')"
      "ht_repr {} ht' ch' []" "ht_map ht' = ht_map ht" "ht_used ht' = ht_used ht"
      "ht_dtor ht' = ht_dtor ht" "ht_cap ht' = hash_recap cap" "ht_next ht' = ht_used ht"
      "ht_vals ht' = ht_vals ht"
proof (cases "hash_recap cap < ht_used ht")
  case True
  then show thesis by (intro fail [of m]) (simp_all add: ef_hashtable_resize_def)
next
  case False
  note small = this
  let ?c = "hash_recap cap"
  obtain g m' where g: "malloc_obj m = (g, m')" by (cases "malloc_obj m") auto
  show thesis
  proof (cases g)
    case False
    then show thesis using g small
      by (intro fail [of m']) (auto simp: ef_hashtable_resize_def alloc_hash_data_def)
  next
    case True
    define ht0 where "ht0 = ht\<lparr>ht_data := replicate (unat ?c) zero_bucket, ht_hash := replicate (unat ?c) (- 1),
        ht_cap := ?c, ht_sizemask := HASH_SIZEMASK ?c, ht_removed := - 1, ht_next := ht_used ht\<rparr>"
    let ?n = "length (filter live (ht_data ht))"
    have c: "good_cap ?c" using hash_recap_spec(1) [OF cap] .
    have used: "unat (ht_used ht) = ?n" using ht_repr_parts(7) [OF R] .
    then have n: "?n \<le> unat ?c" using small by (simp add: word_less_nat_alt)
    have "\<exists>d hs ch'. rehash (ht_data ht) 0 ht0 = Some (ht0\<lparr>ht_data := d, ht_hash := hs\<rparr>) \<and>
           length d = unat ?c \<and> length hs = unat ?c \<and> linked d hs ?c (0 + ?n) ch' \<and>
           map core (take (0 + ?n) d) = map core (take 0 (ht_data ht0)) @ map core (filter live (ht_data ht)) \<and>
           (\<forall>i. 0 + ?n \<le> i \<longrightarrow> i < unat ?c \<longrightarrow> d ! i = zero_bucket)"
      using c n ht_repr_parts(5) [OF R]
      by (intro rehash_correct [where ch = "\<lambda>_. []"]) (auto simp: ht0_def linked_empty)
    then obtain d hs ch' where r: "rehash (ht_data ht) 0 ht0 = Some (ht0\<lparr>ht_data := d, ht_hash := hs\<rparr>)"
      "length d = unat ?c" "length hs = unat ?c" "linked d hs ?c ?n ch'"
      "map core (take ?n d) = map core (filter live (ht_data ht))"
      "\<And>i. ?n \<le> i \<Longrightarrow> i < unat ?c \<Longrightarrow> d ! i = zero_bucket"
      by auto
    note d = rehashed_buckets [of "ht_data ht" d, OF r(5) _ _ ht_repr_parts(5,8) [OF R], unfolded r(2)]
    have fl: "filter live d = take ?n d" "length (take ?n d) = ?n" and ok_b: "\<forall>b \<in> set d. bucket_ok b" and un: "uniq d"
      and map_eq: "ht_find d = ht_find (ht_data ht)" and vals_eq: "bvals d = bvals (ht_data ht)"
      and live_iff: "\<And>i. i < unat ?c \<Longrightarrow> live (d ! i) \<longleftrightarrow> i < ?n"
      using d n r(2,6) by simp_all
    define ht' where "ht' = ht0\<lparr>ht_data := d, ht_hash := hs\<rparr>"
    have a: "\<not> (i < ?n \<and> \<not> live (d ! i))" for i
      using live_iff [of i] n by (meson order.strict_trans2)
    have b: "\<not> live (d ! i)" if "i < unat ?c" "?n \<le> i" for i
      using live_iff that by (simp add: not_less)
    have "ht_repr {} ht' ch' []"
      using c r(2-4) n un ok_b b
      by (simp add: ht_repr_def ht'_def ht0_def used fl a)
    moreover have "ef_hashtable_resize m ht cap = Some (0, ht', m')"
      using small True g r(1) by (simp add: ef_hashtable_resize_def alloc_hash_data_def ht0_def ht'_def Let_def)
    ultimately show thesis
      using map_eq vals_eq
      by (intro ok [of ht' m' ch']) (auto simp: ht'_def ht0_def ht_map_def ht_vals_def)
  qed
qed

end
