(* ===== verification/HashtableUpdate.thy ===== *)
theory HashtableUpdate
  imports HashtableOps
begin

text \<open>
  Insertion, removal and disposal of the hash table: how they take buckets and give them
  back, and what they do to the map.
\<close>

section \<open>Taking and giving back buckets\<close>

lemma linked_extend: "linked bks hs c n ch \<Longrightarrow> \<not> live (bks ! n) \<Longrightarrow> linked bks hs c (Suc n) ch"
  by (auto simp: linked_def less_Suc_eq)

lemma linked_update_dead:
  assumes L: "linked bks hs c n ch" and g: "good_cap c" and d: "\<not> live (bks ! i)" "\<not> live pb" "i < length bks"
  shows "linked (bks[i := pb]) hs c n ch"
proof (rule linkedI)
  fix t assume t: "t < unat c"
  have "i \<notin> set (ch t)" using linked_mem [OF L t, of i] d(1) by auto
  then show "chain (bks[i := pb]) (hs ! t) (ch t)" using linked_chain [OF L t] by (simp add: chain_update)
  fix x show "x \<in> set (ch t) \<longleftrightarrow> x < n \<and> live (bks[i := pb] ! x) \<and> hslot c (bk_h (bks[i := pb] ! x)) = t"
    using linked_mem [OF L t, of x] d by (cases "x = i") auto
qed (rule g)

lemma filter_live_update_dead:
  "\<not> live (bks ! i) \<Longrightarrow> \<not> live pb \<Longrightarrow> filter live (bks[i := pb]) = filter live bks"
  by (cases "i < length bks") (auto simp: filter_map_update_irrelevant list_update_beyond)

lemma take_next_repr:
  assumes R: "ht_repr {} ht ch rs" and n: "ht_next ht < ht_cap ht"
  shows "ht_repr {unat (ht_next ht)} (ht\<lparr>ht_next := ht_next ht + 1\<rparr>) ch rs"
proof -
  have lt: "unat (ht_next ht) < unat (ht_cap ht)" using n by (simp add: word_less_nat_alt)
  have nx: "unat (ht_next ht + 1) = Suc (unat (ht_next ht))"
    by (rule unat_Suc_small) (use lt unat_less_32 [of "ht_cap ht"] in simp)
  have dead: "\<not> live (ht_data ht ! unat (ht_next ht))"
    using ht_repr_parts(6) [OF R lt] by simp
  have "linked (ht_data ht) (ht_hash ht) (ht_cap ht) (Suc (unat (ht_next ht))) ch"
    using linked_extend ht_repr_parts(1) [OF R] dead by blast
  then show ?thesis
    using ht_repr_shape [OF R] ht_repr_parts [OF R] lt dead unfolding ht_repr_def
    by (auto simp: nx less_Suc_eq)
qed

lemma take_removed_repr:
  assumes R: "ht_repr {} ht ch rs" and r: "ht_removed ht \<noteq> - 1"
  shows "unat (ht_removed ht) < length (ht_data ht)"
    and "ht_repr {unat (ht_removed ht)} (ht\<lparr>ht_removed := bk_next (ht_data ht ! unat (ht_removed ht))\<rparr>) ch (tl rs)"
proof -
  note c = ht_repr_parts(2) [OF R]
  obtain rs' where rs: "rs = unat (ht_removed ht) # rs'" using c r by (cases rs) auto
  then show "unat (ht_removed ht) < length (ht_data ht)" using c by simp
  have d: "unat (ht_removed ht) \<notin> set rs'" using chain_distinct [OF c] rs by simp
  have mem: "i \<in> set rs \<longleftrightarrow> i < unat (ht_next ht) \<and> \<not> live (ht_data ht ! i)" for i
    using ht_repr_parts(3) [OF R] by simp
  have mem': "i \<in> set rs' \<longleftrightarrow> i < unat (ht_next ht) \<and> \<not> live (ht_data ht ! i) \<and> i \<noteq> unat (ht_removed ht)" for i
    using mem [of i] d rs by auto
  show "ht_repr {unat (ht_removed ht)} (ht\<lparr>ht_removed := bk_next (ht_data ht ! unat (ht_removed ht))\<rparr>) ch (tl rs)"
    using ht_repr_shape [OF R] ht_repr_parts [OF R] c mem [of "unat (ht_removed ht)"] unfolding ht_repr_def
    by (simp add: rs mem')
qed

text \<open>The step that takes a bucket without resizing.\<close>

lemma alloc_bucket_step:
  assumes R: "ht_repr {} ht ch rs" and free: "ht_next ht < ht_cap ht \<or> ht_removed ht \<noteq> - 1"
  obtains i ht1 rs' where "alloc_bucket (Suc f) m ht = Some (Some i, ht1, m)" "ht_repr {i} ht1 ch rs'"
    "ht_map ht1 = ht_map ht" "ht_used ht1 = ht_used ht" "ht_dtor ht1 = ht_dtor ht" "ht_cap ht1 = ht_cap ht"
    "ht_vals ht1 = ht_vals ht"
proof (cases "ht_next ht < ht_cap ht")
  case True
  then show thesis using take_next_repr [OF R True]
    by (intro that [of "unat (ht_next ht)" "ht\<lparr>ht_next := ht_next ht + 1\<rparr>" rs]) (auto simp: ht_map_def ht_vals_def)
next
  case False
  with free have r: "ht_removed ht \<noteq> - 1" by simp
  show thesis using take_removed_repr [OF R r] False r
    by (intro that [of "unat (ht_removed ht)"
          "ht\<lparr>ht_removed := bk_next (ht_data ht ! unat (ht_removed ht))\<rparr>" "tl rs"]) (auto simp: ht_map_def ht_vals_def)
qed

lemma all_live_used:
  assumes R: "ht_repr {} ht ch rs" and "\<not> ht_next ht < ht_cap ht" "ht_removed ht = - 1"
  shows "ht_used ht = ht_cap ht"
proof -
  have "rs = []" using ht_repr_parts(2) [OF R] assms(3) by (cases rs) auto
  moreover have "unat (ht_next ht) = unat (ht_cap ht)"
    using assms(2) ht_repr_shape(5) [OF R] by (simp add: word_less_nat_alt)
  ultimately have "live pb" if "pb \<in> set (ht_data ht)" for pb
    using that ht_repr_parts(3) [OF R] ht_repr_shape(3) [OF R] by (fastforce simp: in_set_conv_nth)
  then have "filter live (ht_data ht) = ht_data ht" by simp
  then show ?thesis using ht_repr_parts(7) [OF R] ht_repr_shape(3) [OF R] by (simp add: word_unat_eq_iff)
qed

lemma double_cap:
  assumes "good_cap c"
  shows "unat c = 2 ^ 31 \<and> push_bit 1 c = 0 \<or>
         unat c < 2 ^ 31 \<and> unat (push_bit 1 c) = 2 * unat c \<and> 2 * unat c \<le> 2 ^ 31"
proof -
  from assms obtain k where k: "3 \<le> k" "k \<le> 31" "c = 2 ^ k" by (auto simp: good_cap_def)
  have p: "push_bit 1 c = 2 ^ Suc k" by (simp add: k(3) push_bit_eq_mult)
  show ?thesis
  proof (cases "k = 31")
    case True
    then show ?thesis using k p unat_good_cap [of 31] by simp
  next
    case False
    then have "Suc k \<le> 31" using k by simp
    moreover from this have "(2::nat) ^ Suc k \<le> 2 ^ 31" by (rule power_increasing) simp
    ultimately show ?thesis
      using k(3) p unat_good_cap [of "Suc k"] unat_good_cap [OF k(2)] by (simp add: mult.commute)
  qed
qed

lemma alloc_bucket_cases:
  assumes R: "ht_repr {} ht ch rs"
  obtains (fail) m' where "alloc_bucket 2 m ht = Some (None, ht, m')" "m \<noteq> [] \<or> unat (ht_cap ht) = 2 ^ 31"
  | (ok) i ht1 ch' rs' m' where "alloc_bucket 2 m ht = Some (Some i, ht1, m')" "ht_repr {i} ht1 ch' rs'"
    "ht_map ht1 = ht_map ht" "ht_used ht1 = ht_used ht" "ht_dtor ht1 = ht_dtor ht" "ht_vals ht1 = ht_vals ht"
proof (cases "ht_next ht < ht_cap ht \<or> ht_removed ht \<noteq> - 1")
  case True
  show thesis
    by (rule alloc_bucket_step [OF R True, of "Suc 0" m]) (auto intro: ok simp: numeral_2_eq_2)
next
  case False
  let ?cap = "push_bit 1 (ht_cap ht)"
  have used: "ht_used ht = ht_cap ht" using all_live_used [OF R] False by simp
  have step: "alloc_bucket 2 m ht =
      do { (r, ht, m) \<leftarrow> ef_hashtable_resize m ht ?cap;
           if r = 0 then alloc_bucket (Suc 0) m ht else Some (None, ht, m) }"
    using False by (simp add: numeral_2_eq_2)
  note g = ht_repr_shape(1) [OF R]
  have small: "unat ?cap \<le> 2 ^ 31" using double_cap [OF g] by auto
  show thesis
  proof (rule resize_repr [OF R small, of m])
    fix m' assume f: "ef_hashtable_resize m ht ?cap = Some (- 1, ht, m')"
      "hash_recap ?cap < ht_used ht \<or> m \<noteq> []"
    have "m \<noteq> [] \<or> unat (ht_cap ht) = 2 ^ 31"
      using double_cap [OF g] hash_recap_spec(2) [OF small] f(2) used by (auto simp: word_less_nat_alt)
    with f(1) step show thesis by (intro fail) simp_all
  next
    fix ht' ch' m'
    assume o: "ef_hashtable_resize m ht ?cap = Some (0, ht', m')" "ht_repr {} ht' ch' []"
      "ht_map ht' = ht_map ht" "ht_used ht' = ht_used ht" "ht_dtor ht' = ht_dtor ht"
      "ht_cap ht' = hash_recap ?cap" "ht_next ht' = ht_used ht" "ht_vals ht' = ht_vals ht"
    have "\<not> unat (ht_cap ht) = 2 ^ 31"
    proof
      assume "unat (ht_cap ht) = 2 ^ 31"
      then have "hash_recap ?cap = 8" using double_cap [OF g] by (simp add: hash_recap_def HASH_TABLE_INIT_CAP_def)
      then have "unat (ht_used ht) \<le> 8"
        using o(4,6) ht_repr_parts(7) [OF o(2)] ht_repr_shape(3) [OF o(2)] length_filter_le [of live "ht_data ht'"]
        by simp
      with \<open>unat (ht_cap ht) = 2 ^ 31\<close> used show False by simp
    qed
    then have "unat (ht_next ht') < unat (ht_cap ht')"
      using double_cap [OF g] hash_recap_spec(2) [OF small] o(6,7) used good_cap_bounds [OF g] by auto
    then have nx: "ht_next ht' < ht_cap ht' \<or> ht_removed ht' \<noteq> - 1" by (simp add: word_less_nat_alt)
    show thesis
      by (rule alloc_bucket_step [OF o(2) nx, of 0 m']) (use o step in \<open>auto intro: ok\<close>)
  qed
qed

section \<open>Insertion\<close>

text \<open>Filling the bucket that was taken puts the key into the map.\<close>

lemma fill_repr:
  assumes R: "ht_repr {i} ht ch rs"
    and pb: "live pb" "bucket_ok pb" "bk_next pb = ht_hash ht ! hslot (ht_cap ht) (bk_h pb)"
    and new: "ht_map ht (bkey pb) = None"
  defines "ht' \<equiv> ht\<lparr>ht_data := (ht_data ht)[i := pb],
      ht_hash := (ht_hash ht)[hslot (ht_cap ht) (bk_h pb) := of_nat i], ht_used := ht_used ht + 1\<rparr>"
  shows "ht_inv ht'" and "ht_map ht' = (ht_map ht)(bkey pb \<mapsto> bk_val pb)"
    and "ht_vals ht' = ht_vals ht + val_of pb" and "unat (ht_used ht') = Suc (unat (ht_used ht))"
proof -
  let ?s = "hslot (ht_cap ht) (bk_h pb)"
  note g = ht_repr_shape [OF R]
  have i: "i < unat (ht_next ht)" "\<not> live (ht_data ht ! i)" using ht_repr_parts(4) [OF R, of i] by auto
  then have il: "i < length (ht_data ht)" "i < unat (ht_cap ht)" using g by auto
  have irs: "i \<notin> set rs" using ht_repr_parts(3) [OF R] by simp
  define ch1 where "ch1 = ch(?s := i # ch ?s)"
  have mx: "max (unat (ht_next ht)) (Suc i) = unat (ht_next ht)" using i(1) by simp
  have L: "linked ((ht_data ht)[i := pb]) ((ht_hash ht)[?s := of_nat i]) (ht_cap ht) (unat (ht_next ht)) ch1"
    using linked_insert [OF ht_repr_parts(1) [OF R] g(1,3,4), of i pb] i il pb unfolding mx ch1_def by simp
  have u: "uniq ((ht_data ht)[i := pb])"
    using ht_repr_parts(8) [OF R] il(1) new by (intro uniq_update) (auto simp: ht_map_def dest: ht_find_NoneD)
  have cnt: "length (filter live ((ht_data ht)[i := pb])) = Suc (length (filter live (ht_data ht)))"
    using length_filter_update [OF il(1), of live pb] i(2) pb(1) by simp
  have "length (filter live ((ht_data ht)[i := pb])) \<le> unat (ht_cap ht)"
    using length_filter_le [of live "(ht_data ht)[i := pb]"] g(3) by simp
  then have used: "unat (ht_used ht + 1) = Suc (unat (ht_used ht))"
    using cnt ht_repr_parts(7) [OF R] unat_less_32 [of "ht_cap ht"] by (intro unat_Suc_small) simp
  then show "unat (ht_used ht') = Suc (unat (ht_used ht))" by (simp add: ht'_def)
  have rs: "x \<in> set rs \<longleftrightarrow> x < unat (ht_next ht) \<and> \<not> live ((ht_data ht)[i := pb] ! x)" for x
    using ht_repr_parts(3) [OF R, of x] il pb(1) by (cases "x = i") auto
  have dead: "\<not> live ((ht_data ht)[i := pb] ! x)" if "x < unat (ht_cap ht)" "unat (ht_next ht) \<le> x" for x
    using ht_repr_parts(6) [OF R that] that i(1) by (cases "x = i") auto
  have ok: "bucket_ok b" if "b \<in> set ((ht_data ht)[i := pb])" for b
    using that set_update_subset_insert [of "ht_data ht" i pb] ht_repr_parts(5) [OF R] pb(2) by auto
  have "ht_repr {} ht' ch1 rs"
    using g L u cnt used rs dead ok ht_repr_parts(2,7) [OF R] irs unfolding ht_repr_def ht'_def
    by (simp add: chain_update)
  then show "ht_inv ht'" by (auto simp: ht_inv_def)
  show "ht_vals ht' = ht_vals ht + val_of pb"
    using bvals_update [OF il(1), of pb] i(2) by (simp add: ht_vals_def ht'_def val_of_def)
  show "ht_map ht' = (ht_map ht)(bkey pb \<mapsto> bk_val pb)"
    unfolding ht_map_def ht'_def
    using ht_find_update_live [OF ht_repr_parts(8) [OF R] u il(1) pb(1)] i(2) by simp
qed

text \<open>A bucket whose key could not be allocated goes to the removed list.\<close>

lemma give_back_repr:
  assumes R: "ht_repr {i} ht ch rs" and pb: "\<not> live pb" "bucket_ok pb" "bk_next pb = ht_removed ht"
  defines "ht' \<equiv> ht\<lparr>ht_data := (ht_data ht)[i := pb], ht_removed := of_nat i\<rparr>"
  shows "ht_inv ht'" and "ht_map ht' = ht_map ht" and "ht_vals ht' = ht_vals ht"
proof -
  note g = ht_repr_shape [OF R]
  have i: "i < unat (ht_next ht)" "\<not> live (ht_data ht ! i)" using ht_repr_parts(4) [OF R, of i] by auto
  then have il: "i < length (ht_data ht)" "i < unat (ht_cap ht)" using g by auto
  have irs: "i \<notin> set rs" using ht_repr_parts(3) [OF R] by simp
  have L: "linked ((ht_data ht)[i := pb]) (ht_hash ht) (ht_cap ht) (unat (ht_next ht)) ch"
    by (rule linked_update_dead [OF ht_repr_parts(1) [OF R] g(1) i(2) pb(1) il(1)])
  have fl: "filter live ((ht_data ht)[i := pb]) = filter live (ht_data ht)"
    using i(2) pb(1) by (rule filter_live_update_dead)
  have "unat (of_nat i :: u32) = i \<and> (of_nat i :: u32) \<noteq> - 1"
    using il(2) good_cap_bounds [OF g(1)] by (intro unat_of_index [of i "unat (ht_cap ht)"]) auto
  then have C: "chain ((ht_data ht)[i := pb]) (of_nat i) (i # rs)"
    using ht_repr_parts(2) [OF R] il(1) irs pb(3) by (simp add: chain_update)
  have rs: "x \<in> set (i # rs) \<longleftrightarrow> x < unat (ht_next ht) \<and> \<not> live ((ht_data ht)[i := pb] ! x)" for x
    using ht_repr_parts(3) [OF R, of x] il pb(1) i by (cases "x = i") auto
  have dead: "\<not> live ((ht_data ht)[i := pb] ! x)" if "x < unat (ht_cap ht)" "unat (ht_next ht) \<le> x" for x
    using ht_repr_parts(6) [OF R that] that i(1) by (cases "x = i") auto
  have ok: "bucket_ok b" if "b \<in> set ((ht_data ht)[i := pb])" for b
    using that set_update_subset_insert [of "ht_data ht" i pb] ht_repr_parts(5) [OF R] pb(2) by auto
  have u: "uniq ((ht_data ht)[i := pb])"
    using uniq_filter [of "(ht_data ht)[i := pb]"] uniq_filter [of "ht_data ht"] fl ht_repr_parts(8) [OF R] by simp
  have "ht_repr {} ht' ch (i # rs)"
    using g L u fl C rs dead ok il(1) ht_repr_parts(7) [OF R] unfolding ht_repr_def ht'_def by simp
  then show "ht_inv ht'" by (auto simp: ht_inv_def)
  show "ht_vals ht' = ht_vals ht"
    using bvals_update [OF il(1), of pb] i(2) pb(1) by (simp add: ht_vals_def ht'_def val_of_def)
  show "ht_map ht' = ht_map ht"
    unfolding ht_map_def ht'_def
    using ht_find_filter [of "(ht_data ht)[i := pb]"] ht_find_filter [of "ht_data ht"] fl by simp
qed

text \<open>
  A length of 0 must mean the empty key to both \<^verbatim>\<open>hash_func\<close>, which reads no byte then, and
  \<^verbatim>\<open>ef_string_new\<close>, which takes it as a request for \<^verbatim>\<open>strlen\<close>.
\<close>

definition key_ok :: "byte list \<Rightarrow> nat \<Rightarrow> bool" where
  "key_ok key klen \<longleftrightarrow> klen \<le> length key \<and> (klen = 0 \<longrightarrow> strlen key = Some 0)"

lemma key_ok_arg: "key_ok key klen \<Longrightarrow> arg_ok (Some key) klen \<and> arg_bytes (Some key) klen = take klen key"
  by (auto simp: key_ok_def arg_ok_def arg_bytes_def arg_len_def)

definition dead_val :: "'v ef_hashtable \<Rightarrow> byte list \<Rightarrow> 'v list" where
  "dead_val ht k = (if ht_dtor ht then (case ht_map ht k of Some (Some v) \<Rightarrow> [v] | _ \<Rightarrow> []) else [])"

text \<open>Overwriting the value of a key that is there.\<close>

lemma overwrite_repr:
  fixes ht :: "'v ef_hashtable" and v :: "'v option"
  assumes R: "ht_repr {} ht ch rs" and i: "i < unat (ht_cap ht)" "live (ht_data ht ! i)"
  defines "ht' \<equiv> ht\<lparr>ht_data := (ht_data ht)[i := (ht_data ht ! i)\<lparr>bk_val := v\<rparr>]\<rparr>"
  shows "ht_inv ht'" and "ht_map ht' = (ht_map ht)(bkey (ht_data ht ! i) \<mapsto> v)"
    and "ht_vals ht' + opt_mset (bk_val (ht_data ht ! i)) = ht_vals ht + opt_mset v"
proof -
  let ?pb = "(ht_data ht ! i)\<lparr>bk_val := v\<rparr>" and ?d = "ht_data ht"
  note g = ht_repr_shape [OF R]
  have il: "i < length ?d" using i g by simp
  have pb: "live ?pb = live (?d ! i)" "bkey ?pb = bkey (?d ! i)" "bk_h ?pb = bk_h (?d ! i)"
    "bk_next ?pb = bk_next (?d ! i)" "bucket_ok ?pb = bucket_ok (?d ! i)"
    by (simp_all add: live_def bkey_def bucket_ok_def split: option.splits)
  have lv: "live (?d[i := ?pb] ! x) = live (?d ! x)" for x
    using il pb(1) by (cases "x = i") auto
  have L: "linked (?d[i := ?pb]) (ht_hash ht) (ht_cap ht) (unat (ht_next ht)) ch"
    by (rule linked_cong [OF ht_repr_parts(1) [OF R]]) (use g il pb in \<open>auto simp: nth_list_update\<close>)
  have u: "uniq (?d[i := ?pb])"
    using ht_repr_parts(8) [OF R] il i(2) pb(2) by (intro uniq_update) (auto simp: uniq_def)
  have cnt: "length (filter live (?d[i := ?pb])) = length (filter live ?d)"
    using length_filter_update [OF il, of live ?pb] pb(1) by simp
  have C: "chain (?d[i := ?pb]) (ht_removed ht) rs"
    using ht_repr_parts(2) [OF R] chain_cong [of rs "?d[i := ?pb]" ?d] il pb(4)
    by (simp add: nth_list_update)
  have ok: "bucket_ok b" if "b \<in> set (?d[i := ?pb])" for b
    using that set_update_subset_insert [of ?d i ?pb] ht_repr_parts(5) [OF R] pb(5) il by auto
  have "ht_repr {} ht' ch rs"
    using g L u cnt C ok ht_repr_parts(3,6,7) [OF R] unfolding ht_repr_def ht'_def by (simp add: lv)
  then show "ht_inv ht'" by (auto simp: ht_inv_def)
  show "ht_vals ht' + opt_mset (bk_val (ht_data ht ! i)) = ht_vals ht + opt_mset v"
    using bvals_update [OF il, of ?pb] i(2) pb(1) by (simp add: ht_vals_def ht'_def val_of_def)
  show "ht_map ht' = (ht_map ht)(bkey (ht_data ht ! i) \<mapsto> v)"
    unfolding ht_map_def ht'_def
    using ht_find_update_live [OF ht_repr_parts(8) [OF R] u il] i(2) pb by simp
qed

lemma set_cases:
  assumes inv: "ht_inv ht" and key: "key_ok key n"
  obtains (fail) ht' m' where "ef_hashtable_set_key_value m ht key n val = Some (None, ht', [], m')"
      "ht_inv ht'" "ht_map ht' = ht_map ht" "ht_dtor ht' = ht_dtor ht" "ht_vals ht' = ht_vals ht"
      "ht_map ht (take n key) = None" "m \<noteq> [] \<or> unat (ht_cap ht) = 2 ^ 31"
  | (ok) i ht' m' where
      "ef_hashtable_set_key_value m ht key n val = Some (Some i, ht', dead_val ht (take n key), m')"
      "ht_inv ht'" "ht_map ht' = (ht_map ht)(take n key \<mapsto> val)" "ht_dtor ht' = ht_dtor ht"
      "ht_vals ht' + opt_mset (Option.bind (ht_map ht (take n key)) id) = ht_vals ht + opt_mset val"
proof -
  let ?k = "take n key"
  obtain ch rs where R: "ht_repr {} ht ch rs" using inv by (auto simp: ht_inv_def)
  have n: "n \<le> length key" using key by (simp add: key_ok_def)
  show thesis
  proof (rule find_key_cases [OF R n])
    fix i assume f: "ef_hashtable_find_key ht key n = Some (Some i)" "i < unat (ht_cap ht)"
      "live (ht_data ht ! i)" "bkey (ht_data ht ! i) = ?k" "ht_map ht ?k = Some (bk_val (ht_data ht ! i))"
    let ?ht = "ht\<lparr>ht_data := (ht_data ht)[i := (ht_data ht ! i)\<lparr>bk_val := val\<rparr>]\<rparr>"
    have eq: "ef_hashtable_set_key_value m ht key n val = Some (Some i, ?ht, dead_val ht ?k, m)"
      using f ht_repr_shape(3) [OF R]
      by (simp add: ef_hashtable_set_key_value_def dead_val_def)
    show thesis by (rule ok [OF eq]) (use overwrite_repr [OF R f(2,3), of val] f in simp_all)
  next
    assume f: "ef_hashtable_find_key ht key n = Some None" "ht_map ht ?k = None"
    show thesis
    proof (rule alloc_bucket_cases [OF R, of m])
      fix m' assume a: "alloc_bucket 2 m ht = Some (None, ht, m')" "m \<noteq> [] \<or> unat (ht_cap ht) = 2 ^ 31"
      then have eq: "ef_hashtable_set_key_value m ht key n val = Some (None, ht, [], m')"
        using f by (simp add: ef_hashtable_set_key_value_def)
      show thesis by (rule fail [OF eq]) (use f inv a in simp_all)
    next
      fix i ht1 ch' rs' m1
      assume a: "alloc_bucket 2 m ht = Some (Some i, ht1, m1)" "ht_repr {i} ht1 ch' rs'"
        "ht_map ht1 = ht_map ht" "ht_used ht1 = ht_used ht" "ht_dtor ht1 = ht_dtor ht" "ht_vals ht1 = ht_vals ht"
      have i: "i < length (ht_data ht1)" "\<not> live (ht_data ht1 ! i)"
        using ht_repr_parts(4) [OF a(2), of i] ht_repr_shape [OF a(2)] by auto
      then have ib: "bucket_ok (ht_data ht1 ! i)" using ht_repr_parts(5) [OF a(2)] by simp
      show thesis
      proof (rule ef_string_new_cases [of "Some key" n m1])
        show "arg_ok (Some key) n" using key_ok_arg [OF key] by simp
      next
        fix m2 assume s: "ef_string_new m1 (Some key) n = Some (None, m2)" "m1 \<noteq> []"
        have "m \<noteq> []"
          using a(1) s(2) by (auto simp: numeral_2_eq_2 ef_hashtable_resize_def alloc_hash_data_def Let_def
              bind_Some_iff split: if_splits option.splits prod.splits)
        let ?pb = "(ht_data ht1 ! i)\<lparr>bk_key := None, bk_next := ht_removed ht1\<rparr>"
        have "\<not> live ?pb" "bucket_ok ?pb" "bk_next ?pb = ht_removed ht1"
          using i ib by (simp_all add: live_def bucket_ok_def)
        note gb = give_back_repr [OF a(2) this]
        have eq: "ef_hashtable_set_key_value m ht key n val =
            Some (None, ht1\<lparr>ht_data := (ht_data ht1)[i := ?pb], ht_removed := of_nat i\<rparr>, [], m2)"
          using f a s(1) i by (simp add: ef_hashtable_set_key_value_def)
        show thesis by (rule fail [OF eq]) (use gb f a \<open>m \<noteq> []\<close> in simp_all)
      next
        fix s m2 assume s: "ef_string_new m1 (Some key) n = Some (Some s, m2)" "es_inv s"
          "es_bytes s = arg_bytes (Some key) n" "es_str s \<noteq> None"
        have sb: "es_bytes s = ?k" using s(3) key_ok_arg [OF key] by simp
        let ?h = "hash_bytes ?k" and ?p = "hslot (ht_cap ht1) (hash_bytes ?k)"
        let ?pb = "(ht_data ht1 ! i)\<lparr>bk_key := Some s, bk_h := ?h, bk_val := val, bk_next := ht_hash ht1 ! ?p\<rparr>"
        have pb: "live ?pb" "bucket_ok ?pb" "bk_next ?pb = ht_hash ht1 ! hslot (ht_cap ht1) (bk_h ?pb)"
          "bkey ?pb = ?k" "bk_h ?pb = ?h" "bk_val ?pb = val"
          using s(2,4) sb by (simp_all add: live_def bucket_ok_def bkey_def)
        have new: "ht_map ht1 (bkey ?pb) = None" using f(2) a(3) pb(4) by simp
        note fr = fill_repr [OF a(2) pb(1-3) new]
        have ep: "entry_pos (ht1\<lparr>ht_used := ht_used ht1 + 1\<rparr>) ?h = Some ?p"
          using ht_repr_shape [OF a(2)] by (simp add: entry_pos_eq)
        have eq: "ef_hashtable_set_key_value m ht key n val =
            Some (Some i, ht1\<lparr>ht_data := (ht_data ht1)[i := ?pb], ht_hash := (ht_hash ht1)[?p := of_nat i],
              ht_used := ht_used ht1 + 1\<rparr>, dead_val ht ?k, m2)"
          using f a s(1) i n ep by (simp add: ef_hashtable_set_key_value_def hash_func_eq dead_val_def)
        show thesis by (rule ok [OF eq]) (use fr pb a f in \<open>simp_all add: val_of_def\<close>)
      qed
    qed
  qed
qed

end
