(* ===== verification/HashtableRemove.thy ===== *)
theory HashtableRemove
  imports HashtableUpdate
begin

text \<open>
  Removal of a key and disposal of the whole hash table.
\<close>

section \<open>The walk of a removal\<close>

text \<open>The link that leads to the bucket behind \<open>us\<close>.\<close>

definition link_after :: "link \<Rightarrow> nat list \<Rightarrow> link" where
  "link_after l us = (if us = [] then l else At_bucket (last us))"

lemma remove_loop_eq:
  assumes "chain (ht_data ht) i xs" "i \<noteq> - 1" "length xs \<le> fuel" "n \<le> length key"
    and "\<forall>pb \<in> set (ht_data ht). bucket_ok pb" "\<forall>x \<in> set xs. live (ht_data ht ! x)"
  shows "(\<forall>x \<in> set xs. bkey (ht_data ht ! x) \<noteq> take n key) \<and>
           remove_loop fuel ht l i (hash_bytes (take n key)) key n = Some (ht, []) \<or>
         (\<exists>us x zs. xs = us @ x # zs \<and> bkey (ht_data ht ! x) = take n key \<and>
           remove_loop fuel ht l i (hash_bytes (take n key)) key n =
             ef_hashtable_free_bucket (write_link ht (link_after l us) (bk_next (ht_data ht ! x))) x)"
  using assms
proof (induction xs arbitrary: i fuel l)
  case (Cons x xs)
  then obtain f where f: "fuel = Suc f" by (cases fuel) auto
  from Cons.prems have x: "unat i = x" "x < length (ht_data ht)" "live (ht_data ht ! x)"
    "bucket_ok (ht_data ht ! x)" by auto
  show ?case
  proof (cases "bkey (ht_data ht ! x) = take n key")
    case True
    with f x Cons.prems(4) show ?thesis
      by (intro disjI2 exI [of _ "[]"] exI [of _ x] exI [of _ xs]) (simp add: key_matches_eq link_after_def)
  next
    case miss: False
    show ?thesis
    proof (cases "xs = []")
      case True
      with miss f x Cons.prems show ?thesis by (simp add: key_matches_eq)
    next
      case False
      then have nx: "bk_next (ht_data ht ! x) \<noteq> - 1" using Cons.prems(1) by (cases xs) auto
      have step: "remove_loop fuel ht l i (hash_bytes (take n key)) key n =
          remove_loop f ht (At_bucket x) (bk_next (ht_data ht ! x)) (hash_bytes (take n key)) key n"
        using miss nx f x Cons.prems(4) by (simp add: key_matches_eq)
      have IH: "(\<forall>y \<in> set xs. bkey (ht_data ht ! y) \<noteq> take n key) \<and>
           remove_loop f ht (At_bucket x) (bk_next (ht_data ht ! x)) (hash_bytes (take n key)) key n = Some (ht, []) \<or>
         (\<exists>us y zs. xs = us @ y # zs \<and> bkey (ht_data ht ! y) = take n key \<and>
           remove_loop f ht (At_bucket x) (bk_next (ht_data ht ! x)) (hash_bytes (take n key)) key n =
             ef_hashtable_free_bucket (write_link ht (link_after (At_bucket x) us) (bk_next (ht_data ht ! y))) y)"
        using Cons.prems f nx by (intro Cons.IH) auto
      then show ?thesis
      proof
        assume "(\<forall>y \<in> set xs. bkey (ht_data ht ! y) \<noteq> take n key) \<and>
           remove_loop f ht (At_bucket x) (bk_next (ht_data ht ! x)) (hash_bytes (take n key)) key n = Some (ht, [])"
        with miss step show ?thesis by simp
      next
        assume "\<exists>us y zs. xs = us @ y # zs \<and> bkey (ht_data ht ! y) = take n key \<and>
           remove_loop f ht (At_bucket x) (bk_next (ht_data ht ! x)) (hash_bytes (take n key)) key n =
             ef_hashtable_free_bucket (write_link ht (link_after (At_bucket x) us) (bk_next (ht_data ht ! y))) y"
        then obtain us y zs where "xs = us @ y # zs" "bkey (ht_data ht ! y) = take n key"
          "remove_loop f ht (At_bucket x) (bk_next (ht_data ht ! x)) (hash_bytes (take n key)) key n =
             ef_hashtable_free_bucket (write_link ht (link_after (At_bucket x) us) (bk_next (ht_data ht ! y))) y"
          by blast
        with step show ?thesis
          by (intro disjI2 exI [of _ "x # us"] exI [of _ y] exI [of _ zs]) (simp add: link_after_def)
      qed
    qed
  qed
qed simp

section \<open>Releasing a bucket\<close>

definition freed :: "'v ef_hashtable \<Rightarrow> nat \<Rightarrow> 'v ef_bucket" where
  "freed ht i =
     (ht_data ht ! i)\<lparr>bk_h := 0, bk_key := None,
       bk_val := (if ht_dtor ht then None else bk_val (ht_data ht ! i)), bk_next := ht_removed ht\<rparr>"

lemma freed_simps [simp]: "\<not> live (freed ht i)" "bucket_ok (freed ht i)" "bk_next (freed ht i) = ht_removed ht"
  by (simp_all add: freed_def live_def bucket_ok_def)

definition bucket_dead :: "'v ef_hashtable \<Rightarrow> nat \<Rightarrow> 'v list" where
  "bucket_dead ht i = (if ht_dtor ht then (case bk_val (ht_data ht ! i) of Some v \<Rightarrow> [v] | None \<Rightarrow> []) else [])"

lemma free_bucket_live:
  assumes "i < length (ht_data ht)" "live (ht_data ht ! i)"
  shows "ef_hashtable_free_bucket ht i =
     Some (ht\<lparr>ht_data := (ht_data ht)[i := freed ht i], ht_removed := of_nat i, ht_used := ht_used ht - 1\<rparr>,
           bucket_dead ht i)"
  using assms
  by (cases "ht_data ht ! i")
    (auto simp: ef_hashtable_free_bucket_def freed_def bucket_dead_def live_def Let_def split: option.splits)

lemma map_core_relink: "map core (bks[j := (bks ! j)\<lparr>bk_next := v\<rparr>]) = map core bks"
  by (cases "j < length bks") (auto simp: map_update list_update_beyond list_update_same_conv)

lemma free_bucket_dead:
  "i < length (ht_data ht) \<Longrightarrow> bucket_ok (ht_data ht ! i) \<Longrightarrow> \<not> live (ht_data ht ! i) \<Longrightarrow>
     ef_hashtable_free_bucket ht i = Some (ht, [])"
  by (auto simp: ef_hashtable_free_bucket_def live_def bucket_ok_def split: option.splits)

text \<open>Unlinking the bucket \<open>x\<close> of the chain at \<open>s\<close> and releasing it.\<close>

lemma unlink_repr:
  assumes R: "ht_repr {} ht ch rs" and s: "s < unat (ht_cap ht)" "ch s = us @ x # zs"
  defines "ht1 \<equiv> write_link ht (link_after (At_entry s) us) (bk_next (ht_data ht ! x))"
  defines "ht' \<equiv> ht1\<lparr>ht_data := (ht_data ht1)[x := freed ht1 x], ht_removed := of_nat x, ht_used := ht_used ht1 - 1\<rparr>"
  shows "ht_inv ht'" and "ht_map ht' = (ht_map ht)(bkey (ht_data ht ! x) := None)"
    and "ef_hashtable_free_bucket ht1 x = Some (ht', bucket_dead ht x)"
    and "ht_vals ht' + opt_mset (bk_val (ht_data ht ! x)) = ht_vals ht"
    and "ht_dtor ht' = ht_dtor ht"
proof -
  note g = ht_repr_shape [OF R] and P = ht_repr_parts [OF R]
  have cs: "chain (ht_data ht) (ht_hash ht ! s) (us @ x # zs)" using linked_chain [OF P(1) s(1)] s(2) by simp
  have d: "distinct (us @ x # zs)" by (rule chain_distinct [OF cs])
  have mem: "y < unat (ht_next ht) \<and> live (ht_data ht ! y)" if "y \<in> set (us @ x # zs)" for y
    using linked_mem [OF P(1) s(1), of y] s(2) that by auto
  have x: "x < length (ht_data ht)" "x < unat (ht_cap ht)" "live (ht_data ht ! x)" "x < unat (ht_next ht)"
    using mem [of x] g by auto
  define b1 where "b1 = (if us = [] then ht_data ht
     else (ht_data ht)[last us := (ht_data ht ! last us)\<lparr>bk_next := bk_next (ht_data ht ! x)\<rparr>])"
  define hs1 where "hs1 = (if us = [] then (ht_hash ht)[s := bk_next (ht_data ht ! x)] else ht_hash ht)"
  have ht1: "ht1 = ht\<lparr>ht_data := b1, ht_hash := hs1\<rparr>"
    by (simp add: ht1_def b1_def hs1_def link_after_def)
  have lastx: "us \<noteq> [] \<Longrightarrow> last us \<noteq> x" using d by auto
  have lx: "us \<noteq> [] \<Longrightarrow> last us < unat (ht_next ht) \<and> live (ht_data ht ! last us)" using mem [of "last us"] by auto
  have bx: "b1 ! x = ht_data ht ! x" "length b1 = length (ht_data ht)" using lastx by (auto simp: b1_def)
  have core1: "map core b1 = map core (ht_data ht)"
    by (simp add: b1_def map_core_relink)
  have live1: "live (b1 ! y) = live (ht_data ht ! y)" if "y < length (ht_data ht)" for y
    using core1 that by (metis core_simps(1) bx(2) nth_map)
  have xrs: "x \<notin> set rs" "us \<noteq> [] \<Longrightarrow> last us \<notin> set rs" using P(3) x(3) lx by auto
  have L: "linked (b1[x := freed ht1 x]) hs1 (ht_cap ht) (unat (ht_next ht)) (ch(s := us @ zs))"
  proof (cases "us = []")
    case True
    then show ?thesis using linked_cut_entry [OF P(1) g(1,4) s(1), of x zs] s(2) by (simp add: b1_def hs1_def)
  next
    case False
    then have bl: "butlast us @ last us # ys = us @ ys" for ys
      by (metis append_butlast_last_id append.assoc append_Cons append_Nil)
    then have "ch s = butlast us @ last us # x # zs" using s(2) by simp
    from linked_cut_bucket [OF P(1) g(1) s(1) this, of "freed ht1 x"] False show ?thesis
      by (simp add: b1_def hs1_def bl)
  qed
  have u1: "uniq b1" using uniq_core [of b1] uniq_core [of "ht_data ht"] core1 P(8) by simp
  have u: "uniq (b1[x := freed ht1 x])" using u1 x bx by (intro uniq_update) auto
  have cnt: "Suc (length (filter live (b1[x := freed ht1 x]))) = unat (ht_used ht)"
  proof -
    have "length (filter live b1) = length (filter live (map core b1))" by (simp add: filter_map o_def)
    also have "\<dots> = length (filter live (ht_data ht))" unfolding core1 by (simp add: filter_map o_def)
    finally show ?thesis using length_filter_update [of x b1 live "freed ht1 x"] x bx P(7) by simp
  qed
  then have used: "unat (ht_used ht - 1) = length (filter live (b1[x := freed ht1 x]))"
    by (subst unat_minus_small) simp_all
  have "chain b1 (ht_removed ht) rs" using P(2) xrs by (auto simp: b1_def chain_update)
  moreover have "unat (of_nat x :: u32) = x \<and> (of_nat x :: u32) \<noteq> - 1"
    using x(2) good_cap_bounds [OF g(1)] by (intro unat_of_index [of x "unat (ht_cap ht)"]) auto
  ultimately have C: "chain (b1[x := freed ht1 x]) (of_nat x) (x # rs)"
    using x(1) bx xrs(1) by (simp add: chain_update ht1)
  have rs: "y \<in> set (x # rs) \<longleftrightarrow> y < unat (ht_next ht) \<and> \<not> live (b1[x := freed ht1 x] ! y)" for y
    using P(3) [of y] x bx live1 [of y] g(3,5) by (cases "y = x") auto
  have dead: "\<not> live (b1[x := freed ht1 x] ! y)" if "y < unat (ht_cap ht)" "unat (ht_next ht) \<le> y" for y
    using P(6) [OF that] that x(4) live1 [of y] g(3) by (cases "y = x") auto
  have ok1: "bucket_ok b" if "b \<in> set b1" for b
  proof -
    have "core b \<in> core ` set (ht_data ht)" using that core1 by (metis image_eqI list.set_map)
    then show ?thesis using P(5) by (metis core_simps(5) imageE)
  qed
  have ok: "bucket_ok b" if "b \<in> set (b1[x := freed ht1 x])" for b
    using that set_update_subset_insert [of b1 x "freed ht1 x"] ok1 by auto
  have ht': "ht' = ht\<lparr>ht_data := b1[x := freed ht1 x], ht_hash := hs1, ht_removed := of_nat x, ht_used := ht_used ht - 1\<rparr>"
    by (simp add: ht'_def ht1)
  have h1: "length hs1 = length (ht_hash ht)" by (simp add: hs1_def)
  have "ht_repr {} ht' (ch(s := us @ zs)) (x # rs)"
    unfolding ht_repr_def ht' using g L u used C rs dead ok bx h1 x(1) by (simp del: fun_upd_apply)
  then show "ht_inv ht'" by (auto simp: ht_inv_def)
  have "ht_find b1 = ht_find (ht_data ht)" by (metis core1 ht_find_core)
  moreover have k: "bkey (b1 ! x) = bkey (ht_data ht ! x)" by (simp add: bx)
  ultimately show "ht_map ht' = (ht_map ht)(bkey (ht_data ht ! x) := None)"
    using ht_find_update_dead [OF u1, of x "freed ht1 x"] x bx by (simp add: ht_map_def ht')
  show "ef_hashtable_free_bucket ht1 x = Some (ht', bucket_dead ht x)"
    using free_bucket_live [of x ht1] x bx by (simp add: ht1 ht'_def bucket_dead_def)
  have "bvals b1 = bvals (ht_data ht)" by (metis core1 bvals_core)
  then show "ht_vals ht' + opt_mset (bk_val (ht_data ht ! x)) = ht_vals ht"
    using bvals_update [of x b1 "freed ht1 x"] x bx by (simp add: ht_vals_def ht' val_of_def)
  show "ht_dtor ht' = ht_dtor ht" by (simp add: ht')
qed

text \<open>Removal deletes the key from the map and destroys the value it had.\<close>

lemma remove_cases:
  assumes inv: "ht_inv ht" and n: "n \<le> length key"
  obtains ht' where "ef_hashtable_remove_key ht key n = Some (0, ht', dead_val ht (take n key))"
    "ht_inv ht'" "ht_map ht' = (ht_map ht)(take n key := None)" "ht_dtor ht' = ht_dtor ht"
    "ht_vals ht' + opt_mset (Option.bind (ht_map ht (take n key)) id) = ht_vals ht"
proof -
  let ?k = "take n key" and ?h = "hash_bytes (take n key)"
  obtain ch rs where R: "ht_repr {} ht ch rs" using inv by (auto simp: ht_inv_def)
  let ?s = "hslot (ht_cap ht) ?h"
  note g = ht_repr_shape [OF R] and P = ht_repr_parts [OF R]
  have s: "?s < unat (ht_cap ht)" using g(1) by (rule hslot_less)
  have c: "chain (ht_data ht) (ht_hash ht ! ?s) (ch ?s)" using linked_chain [OF P(1) s] .
  have p: "entry_pos ht ?h = Some ?s" using g by (intro entry_pos_eq)
  have lv: "\<forall>x \<in> set (ch ?s). live (ht_data ht ! x)" using linked_mem [OF P(1) s] by auto
  note result = that
  have absent: thesis if "\<forall>x \<in> set (ch ?s). bkey (ht_data ht ! x) \<noteq> ?k"
    "ef_hashtable_remove_key ht key n = Some (0, ht, [])"
  proof -
    have "List.find (\<lambda>x. bkey (ht_data ht ! x) = ?k) (ch ?s) = None" using that(1) by (simp add: find_None_iff)
    then have "ef_hashtable_find_key ht key n = Some None" using find_key_eq [OF R n] by simp
    then have none: "ht_map ht ?k = None" by (rule_tac find_key_cases [OF R n]) auto
    then have "(ht_map ht)(?k := None) = ht_map ht" by auto
    with that(2) inv none show thesis by (intro result [of ht]) (simp_all add: dead_val_def)
  qed
  show thesis
  proof (cases "ht_hash ht ! ?s = - 1")
    case True
    then have "ch ?s = []" using c by (cases "ch ?s") auto
    with True p n show thesis by (intro absent) (simp_all add: ef_hashtable_remove_key_def hash_func_eq)
  next
    case False
    then have step: "ef_hashtable_remove_key ht key n =
        map_option (\<lambda>(ht, d). (0, ht, d))
          (remove_loop (Suc (length (ht_data ht))) ht (At_entry ?s) (ht_hash ht ! ?s) ?h key n)"
      using p n by (cases "remove_loop (Suc (length (ht_data ht))) ht (At_entry ?s) (ht_hash ht ! ?s) ?h key n")
        (auto simp: ef_hashtable_remove_key_def hash_func_eq Let_def simp del: remove_loop.simps)
    have walk: "(\<forall>x \<in> set (ch ?s). bkey (ht_data ht ! x) \<noteq> ?k) \<and>
         remove_loop (Suc (length (ht_data ht))) ht (At_entry ?s) (ht_hash ht ! ?s) ?h key n = Some (ht, []) \<or>
       (\<exists>us x zs. ch ?s = us @ x # zs \<and> bkey (ht_data ht ! x) = ?k \<and>
         remove_loop (Suc (length (ht_data ht))) ht (At_entry ?s) (ht_hash ht ! ?s) ?h key n =
           ef_hashtable_free_bucket (write_link ht (link_after (At_entry ?s) us) (bk_next (ht_data ht ! x))) x)"
      by (rule remove_loop_eq [OF c False]) (use chain_length [OF c] n P(5) lv in auto)
    then show thesis
    proof
      assume "(\<forall>x \<in> set (ch ?s). bkey (ht_data ht ! x) \<noteq> ?k) \<and>
         remove_loop (Suc (length (ht_data ht))) ht (At_entry ?s) (ht_hash ht ! ?s) ?h key n = Some (ht, [])"
      then show thesis using step by (intro absent) simp_all
    next
      assume "\<exists>us x zs. ch ?s = us @ x # zs \<and> bkey (ht_data ht ! x) = ?k \<and>
         remove_loop (Suc (length (ht_data ht))) ht (At_entry ?s) (ht_hash ht ! ?s) ?h key n =
           ef_hashtable_free_bucket (write_link ht (link_after (At_entry ?s) us) (bk_next (ht_data ht ! x))) x"
      then obtain us x zs where w: "ch ?s = us @ x # zs" "bkey (ht_data ht ! x) = ?k"
        "remove_loop (Suc (length (ht_data ht))) ht (At_entry ?s) (ht_hash ht ! ?s) ?h key n =
           ef_hashtable_free_bucket (write_link ht (link_after (At_entry ?s) us) (bk_next (ht_data ht ! x))) x"
        by blast
      note ul = unlink_repr [OF R s w(1)]
      have x: "x < length (ht_data ht)" "live (ht_data ht ! x)"
        using linked_mem [OF P(1) s, of x] w(1) g by auto
      have val: "ht_map ht ?k = Some (bk_val (ht_data ht ! x))"
        unfolding ht_map_def by (rule ht_find_Some [OF P(8) x w(2)])
      then have "bucket_dead ht x = dead_val ht ?k" by (simp add: bucket_dead_def dead_val_def)
      with step w(3) ul(3) have "\<exists>ht'. ef_hashtable_remove_key ht key n = Some (0, ht', dead_val ht ?k) \<and>
          ht_inv ht' \<and> ht_map ht' = (ht_map ht)(?k := None) \<and> ht_dtor ht' = ht_dtor ht \<and>
          ht_vals ht' + opt_mset (bk_val (ht_data ht ! x)) = ht_vals ht"
        using ul(1,2,4,5) w(2) by (intro exI conjI) (assumption | simp del: remove_loop.simps)+
      then show thesis using val result by auto
    qed
  qed
qed

end
