(* ===== verification/HashtableDict.thy ===== *)
theory HashtableDict
  imports HashtableRemove
begin

text \<open>
  Disposal of the hash table, and the interface its clients rely on: a dictionary from byte
  strings to values the table owns.  What holds of whole histories of operations is proved
  once from the laws of the interface and then read off for the hash table.
\<close>

section \<open>Disposal\<close>

lemma free_buckets_eq:
  assumes "distinct is" "\<forall>i \<in> set is. i < length (ht_data ht)" "\<forall>pb \<in> set (ht_data ht). bucket_ok pb"
  shows "\<exists>ht'. free_buckets is ht =
    Some (ht', concat (map (bucket_dead ht) (filter (\<lambda>i. live (ht_data ht ! i)) is)))"
  using assms
proof (induction "is" arbitrary: ht)
  case (Cons i "is")
  from Cons.prems have i: "i < length (ht_data ht)" "i \<notin> set is" "bucket_ok (ht_data ht ! i)" by auto
  show ?case
  proof (cases "live (ht_data ht ! i)")
    case False
    then show ?thesis using Cons i by (auto simp: free_bucket_dead)
  next
    case True
    define ht1 where "ht1 = ht\<lparr>ht_data := (ht_data ht)[i := freed ht i], ht_removed := of_nat i,
      ht_used := ht_used ht - 1\<rparr>"
    have same: "ht_data ht1 ! j = ht_data ht ! j" if "j \<in> set is" for j
      using that i(2) by (cases "j = i") (simp_all add: ht1_def)
    then have eqs: "filter (\<lambda>i. live (ht_data ht1 ! i)) is = filter (\<lambda>i. live (ht_data ht ! i)) is"
      "map (bucket_dead ht1) (filter (\<lambda>i. live (ht_data ht ! i)) is) =
         map (bucket_dead ht) (filter (\<lambda>i. live (ht_data ht ! i)) is)"
      by (auto intro!: filter_cong simp: bucket_dead_def ht1_def)
    have "\<forall>pb \<in> set (ht_data ht1). bucket_ok pb"
      using set_update_subset_insert [of "ht_data ht" i "freed ht i"] Cons.prems(3) by (auto simp: ht1_def)
    then have "\<exists>ht'. free_buckets is ht1 =
        Some (ht', concat (map (bucket_dead ht1) (filter (\<lambda>i. live (ht_data ht1 ! i)) is)))"
      using Cons.prems by (intro Cons.IH) (auto simp: ht1_def)
    then show ?thesis using True free_bucket_live [OF i(1) True] by (auto simp: ht1_def [symmetric] eqs)
  qed
qed simp

lemma mset_concat_map: "mset (concat (map f xs)) = sum_list (map (\<lambda>x. mset (f x)) xs)"
  by (induction xs) auto

lemma bvals_dead:
  assumes "ht_dtor ht"
  shows "mset (concat (map (bucket_dead ht) (filter (\<lambda>i. live (ht_data ht ! i)) [0..<length (ht_data ht)]))) =
    ht_vals ht"
proof -
  let ?bs = "ht_data ht" and ?is = "[0..<length (ht_data ht)]"
  have "ht_vals ht = sum_list (map val_of (map (nth ?bs) ?is))"
    by (simp add: ht_vals_def bvals_def map_nth)
  also have "\<dots> = sum_list (map (\<lambda>i. val_of (?bs ! i)) ?is)" by (simp add: o_def)
  also have "\<dots> = sum_list (map (\<lambda>i. mset (bucket_dead ht i)) (filter (\<lambda>i. live (?bs ! i)) ?is))"
    by (induction ?is) (auto simp: sum_list_map_filter' val_of_def bucket_dead_def assms opt_mset_def
        intro!: arg_cong [where f = sum_list] split: option.splits)
  finally show ?thesis by (simp add: mset_concat_map)
qed

lemma free_eq:
  assumes "ht_inv ht"
  obtains dead where "ef_hashtable_free ht = Some dead" "ht_dtor ht \<Longrightarrow> mset dead = ht_vals ht"
    "\<not> ht_dtor ht \<Longrightarrow> dead = []"
proof -
  from assms obtain ch rs where R: "ht_repr {} ht ch rs" by (auto simp: ht_inv_def)
  have len: "unat (ht_cap ht) = length (ht_data ht)" using ht_repr_shape(3) [OF R] by simp
  have "\<exists>ht'. free_buckets [0..<length (ht_data ht)] ht =
      Some (ht', concat (map (bucket_dead ht) (filter (\<lambda>i. live (ht_data ht ! i)) [0..<length (ht_data ht)])))"
    using ht_repr_parts(5) [OF R] by (intro free_buckets_eq) auto
  then have "ef_hashtable_free ht =
      Some (concat (map (bucket_dead ht) (filter (\<lambda>i. live (ht_data ht ! i)) [0..<length (ht_data ht)])))"
    by (auto simp: ef_hashtable_free_def len)
  then show thesis using bvals_dead by (rule that) (simp_all add: bucket_dead_def)
qed

section \<open>The interface\<close>

text \<open>What a caller reads through the bucket: no bucket, or the value in it.\<close>

definition ht_get :: "'v ef_hashtable \<Rightarrow> byte list \<Rightarrow> nat \<Rightarrow> 'v option option option" where
  "ht_get ht key n =
     do { found \<leftarrow> ef_hashtable_find_key ht key n;
          case found of
            None \<Rightarrow> Some None
          | Some i \<Rightarrow> do { pb \<leftarrow> cell_get (ht_data ht) i; Some (Some (bk_val pb)) } }"

lemma ht_get_eq: "ht_inv ht \<Longrightarrow> n \<le> length key \<Longrightarrow> ht_get ht key n = Some (ht_map ht (take n key))"
proof -
  assume "ht_inv ht" and n: "n \<le> length key"
  then obtain ch rs where R: "ht_repr {} ht ch rs" by (auto simp: ht_inv_def)
  from ht_repr_shape(3) [OF R] show ?thesis
    by (rule_tac find_key_cases [OF R n]) (simp_all add: ht_get_def)
qed

text \<open>Histories: sequences of insertions and removals, with what was accepted and destroyed.\<close>

datatype 'v dict_op = Put "byte list" nat "'v option" | Del "byte list" nat

fun run_ops ::
    "(mem \<Rightarrow> 's \<Rightarrow> byte list \<Rightarrow> nat \<Rightarrow> 'v option \<Rightarrow> (nat option \<times> 's \<times> 'v list \<times> mem) option) \<Rightarrow>
     ('s \<Rightarrow> byte list \<Rightarrow> nat \<Rightarrow> (int \<times> 's \<times> 'v list) option) \<Rightarrow>
     mem \<Rightarrow> 's \<Rightarrow> 'v dict_op list \<Rightarrow> ('s \<times> bool list \<times> 'v list) option" where
  "run_ops put del m s [] = Some (s, [], [])"
| "run_ops put del m s (Put key n v # ops) =
     do { (r, s, d, m) \<leftarrow> put m s key n v;
          (s, rs, ds) \<leftarrow> run_ops put del m s ops;
          Some (s, (r \<noteq> None) # rs, d @ ds) }"
| "run_ops put del m s (Del key n # ops) =
     do { (r, s, d) \<leftarrow> del s key n;
          (s, rs, ds) \<leftarrow> run_ops put del m s ops;
          Some (s, True # rs, d @ ds) }"

text \<open>The map a history leads to, and the values the table took over in it.\<close>

fun map_after :: "(byte list \<Rightarrow> 'v option option) \<Rightarrow> ('v dict_op \<times> bool) list \<Rightarrow> byte list \<Rightarrow> 'v option option" where
  "map_after f [] = f"
| "map_after f ((Put key n v, r) # h) = map_after (if r then f(take n key \<mapsto> v) else f) h"
| "map_after f ((Del key n, r) # h) = map_after (f(take n key := None)) h"

fun taken_over :: "('v dict_op \<times> bool) list \<Rightarrow> 'v multiset" where
  "taken_over [] = {#}"
| "taken_over ((Put key n v, r) # h) = (if r then opt_mset v else {#}) + taken_over h"
| "taken_over ((Del key n, r) # h) = taken_over h"

fun op_ok :: "'v dict_op \<Rightarrow> bool" where
  "op_ok (Put key n v) = key_ok key n"
| "op_ok (Del key n) = (n \<le> length key)"

lemma mset_step:
  fixes a b c d e f g :: "'v multiset"
  assumes "a + b = c + d" "e + f = a + g"
  shows "e + (b + f) = c + (d + g)"
proof -
  have "e + (b + f) = (e + f) + b" by (simp add: ac_simps)
  also have "\<dots> = (a + b) + g" unfolding assms(2) by (simp add: ac_simps)
  finally show ?thesis unfolding assms(1) by (simp add: ac_simps)
qed

locale dict =
  fixes inv :: "'s \<Rightarrow> bool" and abs :: "'s \<Rightarrow> byte list \<Rightarrow> 'v option option"
    and vals :: "'s \<Rightarrow> 'v multiset" and owns :: "'s \<Rightarrow> bool"
    and get :: "'s \<Rightarrow> byte list \<Rightarrow> nat \<Rightarrow> 'v option option option"
    and put :: "mem \<Rightarrow> 's \<Rightarrow> byte list \<Rightarrow> nat \<Rightarrow> 'v option \<Rightarrow> (nat option \<times> 's \<times> 'v list \<times> mem) option"
    and del :: "'s \<Rightarrow> byte list \<Rightarrow> nat \<Rightarrow> (int \<times> 's \<times> 'v list) option"
    and dispose :: "'s \<Rightarrow> 'v list option"
  assumes get_law: "inv s \<Longrightarrow> n \<le> length key \<Longrightarrow> get s key n = Some (abs s (take n key))"
    and put_law: "inv s \<Longrightarrow> key_ok key n \<Longrightarrow>
      \<exists>r s' d m'. put m s key n v = Some (r, s', d, m') \<and> inv s' \<and> owns s' = owns s \<and>
        (case r of None \<Rightarrow> abs s' = abs s \<and> vals s' = vals s \<and> d = []
         | Some _ \<Rightarrow> abs s' = (abs s)(take n key \<mapsto> v) \<and> (owns s \<longrightarrow> vals s' + mset d = vals s + opt_mset v))"
    and del_law: "inv s \<Longrightarrow> n \<le> length key \<Longrightarrow>
      \<exists>s' d. del s key n = Some (0, s', d) \<and> inv s' \<and> owns s' = owns s \<and>
        abs s' = (abs s)(take n key := None) \<and> (owns s \<longrightarrow> vals s' + mset d = vals s)"
    and dispose_law: "inv s \<Longrightarrow> \<exists>d. dispose s = Some d \<and> (owns s \<longrightarrow> mset d = vals s)"
begin

lemma history:
  assumes "inv s" "\<forall>p \<in> set ops. op_ok p"
  shows "\<exists>s' rs ds. run_ops put del m s ops = Some (s', rs, ds) \<and> inv s' \<and> owns s' = owns s \<and>
     length rs = length ops \<and> abs s' = map_after (abs s) (zip ops rs) \<and>
     (owns s \<longrightarrow> vals s' + mset ds = vals s + taken_over (zip ops rs))"
  using assms
proof (induction ops arbitrary: s m)
  case (Cons p ops)
  show ?case
  proof (cases p)
    case (Put key n v)
    then have "key_ok key n" using Cons.prems by simp
    then obtain r s1 d m1 where p1: "put m s key n v = Some (r, s1, d, m1)" "inv s1" "owns s1 = owns s"
      "case r of None \<Rightarrow> abs s1 = abs s \<and> vals s1 = vals s \<and> d = []
       | Some _ \<Rightarrow> abs s1 = (abs s)(take n key \<mapsto> v) \<and> (owns s \<longrightarrow> vals s1 + mset d = vals s + opt_mset v)"
      using put_law [OF Cons.prems(1)] by blast
    obtain s2 rs ds where s2: "run_ops put del m1 s1 ops = Some (s2, rs, ds)" "inv s2" "owns s2 = owns s1"
      "length rs = length ops" "abs s2 = map_after (abs s1) (zip ops rs)"
      "owns s1 \<longrightarrow> vals s2 + mset ds = vals s1 + taken_over (zip ops rs)"
      using Cons.IH [OF p1(2)] Cons.prems(2) by (metis list.set_intros(2))
    have "owns s \<longrightarrow> vals s2 + (mset d + mset ds) = vals s + ((if r \<noteq> None then opt_mset v else {#}) + taken_over (zip ops rs))"
      using p1(3,4) s2(6) mset_step [of "vals s1" "mset d" "vals s" "opt_mset v"] by (cases r) auto
    with p1 s2 Put show ?thesis by (cases r) auto
  next
    case (Del key n)
    then have "n \<le> length key" using Cons.prems by simp
    then obtain s1 d where p1: "del s key n = Some (0, s1, d)" "inv s1" "owns s1 = owns s"
      "abs s1 = (abs s)(take n key := None)" "owns s \<longrightarrow> vals s1 + mset d = vals s"
      using del_law [OF Cons.prems(1)] by blast
    obtain s2 rs ds where s2: "run_ops put del m s1 ops = Some (s2, rs, ds)" "inv s2" "owns s2 = owns s1"
      "length rs = length ops" "abs s2 = map_after (abs s1) (zip ops rs)"
      "owns s1 \<longrightarrow> vals s2 + mset ds = vals s1 + taken_over (zip ops rs)"
      using Cons.IH [OF p1(2)] Cons.prems(2) by (metis list.set_intros(2))
    have "owns s \<longrightarrow> vals s2 + (mset d + mset ds) = vals s + taken_over (zip ops rs)"
      using p1(3,5) s2(6) mset_step [of "vals s1" "mset d" "vals s" "{#}"] by auto
    with p1 s2 Del show ?thesis by auto
  qed
qed simp

lemma history_get:
  assumes "inv s" "\<forall>p \<in> set ops. op_ok p" "n \<le> length key"
  obtains s' rs ds where "run_ops put del m s ops = Some (s', rs, ds)"
    "get s' key n = Some (map_after (abs s) (zip ops rs) (take n key))"
  using history [OF assms(1,2), of m] get_law [OF _ assms(3)] by metis

text \<open>Every value taken over is destroyed exactly once, by an operation or by the disposal.\<close>

lemma history_disposed:
  assumes "inv s" "owns s" "vals s = {#}" "\<forall>p \<in> set ops. op_ok p"
  obtains s' rs ds d where "run_ops put del m s ops = Some (s', rs, ds)" "dispose s' = Some d"
    "mset (ds @ d) = taken_over (zip ops rs)"
proof -
  obtain s' rs ds where r: "run_ops put del m s ops = Some (s', rs, ds)" "inv s'" "owns s' = owns s"
    "vals s' + mset ds = taken_over (zip ops rs)"
    using history [OF assms(1,4), of m] assms(2,3) by auto
  obtain d where d: "dispose s' = Some d" "mset d = vals s'" using dispose_law [OF r(2)] r(3) assms(2) by auto
  show thesis by (rule that [OF r(1) d(1)]) (use r(4) d(2) in \<open>simp add: add.commute\<close>)
qed

end

text \<open>The hash table is a dictionary.\<close>

lemma opt_dead_val: "ht_dtor ht \<Longrightarrow> mset (dead_val ht k) = opt_mset (Option.bind (ht_map ht k) id)"
  by (auto simp: dead_val_def split: option.splits)

interpretation hashtable: dict ht_inv ht_map ht_vals ht_dtor ht_get
  ef_hashtable_set_key_value ef_hashtable_remove_key ef_hashtable_free
proof
  fix s :: "'v ef_hashtable" and n key and m v
  assume inv: "ht_inv s"
  show "n \<le> length key \<Longrightarrow> ht_get s key n = Some (ht_map s (take n key))" by (rule ht_get_eq [OF inv])
  show "\<exists>r s' d m'. ef_hashtable_set_key_value m s key n v = Some (r, s', d, m') \<and> ht_inv s' \<and>
      ht_dtor s' = ht_dtor s \<and>
      (case r of None \<Rightarrow> ht_map s' = ht_map s \<and> ht_vals s' = ht_vals s \<and> d = []
       | Some _ \<Rightarrow> ht_map s' = (ht_map s)(take n key \<mapsto> v) \<and>
           (ht_dtor s \<longrightarrow> ht_vals s' + mset d = ht_vals s + opt_mset v))" if k: "key_ok key n"
    by (rule set_cases [OF inv k, of m v]) (auto simp: opt_dead_val)
  show "\<exists>s' d. ef_hashtable_remove_key s key n = Some (0, s', d) \<and> ht_inv s' \<and> ht_dtor s' = ht_dtor s \<and>
      ht_map s' = (ht_map s)(take n key := None) \<and> (ht_dtor s \<longrightarrow> ht_vals s' + mset d = ht_vals s)"
    if k: "n \<le> length key"
    by (rule remove_cases [OF inv k]) (auto simp: opt_dead_val)
  show "\<exists>d. ef_hashtable_free s = Some d \<and> (ht_dtor s \<longrightarrow> mset d = ht_vals s)"
    by (rule free_eq [OF inv]) auto
qed

section \<open>Properties\<close>

text \<open>A table for the examples.\<close>

definition sample_table :: "nat ef_hashtable" where
  "sample_table = the (fst (ef_hashtable_new [] 8 True))"

text \<open>
  C6. Every history of insertions and removals on a new table runs without a fault, whatever
  allocations fail in it, and afterwards a lookup of any key finds exactly what the history of
  the accepted operations leaves in an ideal map.
\<close>

theorem hashtable_history_lookup:
  assumes "ef_hashtable_new m0 cap dtor = (Some ht, m1)" "unat cap \<le> 2 ^ 31" "\<forall>p \<in> set ops. op_ok p"
    and "n \<le> length key"
  shows "\<exists>ht' rs ds. run_ops ef_hashtable_set_key_value ef_hashtable_remove_key m ht ops = Some (ht', rs, ds) \<and>
    length rs = length ops \<and> ht_get ht' key n = Some (map_after (\<lambda>_. None) (zip ops rs) (take n key))"
proof -
  have inv: "ht_inv ht" and map: "ht_map ht = (\<lambda>_. None)"
    using ef_hashtable_new_repr [OF assms(1,2)] by (auto simp: ht_inv_def)
  show ?thesis by (rule hashtable.history_get [OF inv assms(3,4), of m]) (use hashtable.history [OF inv assms(3), of m] map in auto)
qed

lemma new_table: "ef_hashtable_new [] 8 True = (Some sample_table, [])"
  by (simp add: sample_table_def ef_hashtable_new_def alloc_hash_data_def Let_def)

theorem hashtable_history_lookup_witness:
  "\<exists>ht' rs ds. run_ops ef_hashtable_set_key_value ef_hashtable_remove_key []
      sample_table [Put [97] 1 (Some (5 :: nat)), Del [98, 99] 2] = Some (ht', rs, ds) \<and>
    length rs = length [Put [97 :: byte] 1 (Some (5 :: nat)), Del [98, 99] 2] \<and>
    ht_get ht' [97] 1 = Some (map_after (\<lambda>_. None) (zip [Put [97] 1 (Some 5), Del [98, 99] 2] rs) (take 1 [97]))"
  by (rule hashtable_history_lookup [OF new_table]) (simp_all add: key_ok_def)

text \<open>
  C7. A table that owns its values destroys each value it took over exactly once: the values
  handed to the destructor during any history and by the final disposal are, as a multiset,
  the values of the accepted insertions.
\<close>

theorem hashtable_destroys_once:
  assumes "ef_hashtable_new m0 cap True = (Some ht, m1)" "unat cap \<le> 2 ^ 31" "\<forall>p \<in> set ops. op_ok p"
  shows "\<exists>ht' rs ds d. run_ops ef_hashtable_set_key_value ef_hashtable_remove_key m ht ops = Some (ht', rs, ds) \<and>
    ef_hashtable_free ht' = Some d \<and> mset (ds @ d) = taken_over (zip ops rs)"
proof -
  note n = ef_hashtable_new_repr [OF assms(1,2)]
  have "ht_inv ht" using n(1) by (auto simp: ht_inv_def)
  moreover have "ht_dtor ht" using n(3) by simp
  ultimately show ?thesis using hashtable.history_disposed [OF _ _ n(5) assms(3), of m] by metis
qed

theorem hashtable_destroys_once_witness:
  "\<exists>ht' rs ds d. run_ops ef_hashtable_set_key_value ef_hashtable_remove_key []
      sample_table [Put [97] 1 (Some (5 :: nat)), Put [97] 1 (Some 6)] = Some (ht', rs, ds) \<and>
    ef_hashtable_free ht' = Some d \<and>
    mset (ds @ d) = taken_over (zip [Put [97] 1 (Some 5), Put [97] 1 (Some 6)] rs)"
  by (rule hashtable_destroys_once [OF new_table]) (simp_all add: key_ok_def)

text \<open>
  Insertion either stores the value under the key, returning its bucket, keeping the
  invariant and destroying the value that was there; or it returns NULL and leaves the map as
  it was, which happens only when an allocation failed or the table is at its maximum size.
\<close>

theorem set_key_value_outcome:
  assumes "ht_inv ht" "key_ok key n"
  shows "\<exists>r ht' dead m'. ef_hashtable_set_key_value m ht key n val = Some (r, ht', dead, m') \<and> ht_inv ht' \<and>
    (case r of
       Some _ \<Rightarrow> ht_map ht' = (ht_map ht)(take n key \<mapsto> val) \<and> dead = dead_val ht (take n key)
     | None \<Rightarrow> ht_map ht' = ht_map ht \<and> dead = [] \<and> (m \<noteq> [] \<or> unat (ht_cap ht) = 2 ^ 31))"
  by (rule set_cases [OF assms, of m val]) auto

lemma new_table_inv: "ht_inv sample_table"
  using ef_hashtable_new_repr(1) [OF new_table] by (auto simp: ht_inv_def)

theorem set_key_value_outcome_witness:
  "\<exists>r ht' dead m'. ef_hashtable_set_key_value [Refused] sample_table [97] 1 (Some (5 :: nat)) =
      Some (r, ht', dead, m') \<and> ht_inv ht' \<and>
    (case r of
       Some _ \<Rightarrow> ht_map ht' = (ht_map sample_table)(take 1 [97] \<mapsto> Some 5) \<and>
         dead = dead_val sample_table (take 1 [97])
     | None \<Rightarrow> ht_map ht' = ht_map sample_table \<and> dead = [] \<and>
         ([Refused] \<noteq> [] \<or> unat (ht_cap sample_table) = 2 ^ 31))"
  by (rule set_key_value_outcome [OF new_table_inv]) (simp add: key_ok_def)

text \<open>
  Resizing moves every live bucket: it fails only without memory or when the live buckets
  do not fit, and otherwise the map and its values are the same in a table with the capacity
  rounded up to a power of two.
\<close>

theorem resize_preserves_map:
  assumes "ht_inv ht" "unat cap \<le> 2 ^ 31"
  shows "\<exists>r ht' m'. ef_hashtable_resize m ht cap = Some (r, ht', m') \<and> ht_inv ht' \<and> ht_map ht' = ht_map ht \<and>
    ht_vals ht' = ht_vals ht \<and>
    (r = 0 \<and> ht_cap ht' = hash_recap cap \<or> r = - 1 \<and> ht' = ht \<and> (hash_recap cap < ht_used ht \<or> m \<noteq> []))"
proof -
  obtain ch rs where R: "ht_repr {} ht ch rs" using assms(1) by (auto simp: ht_inv_def)
  show ?thesis by (rule resize_repr [OF R assms(2), of m]) (use assms(1) in \<open>auto simp: ht_inv_def\<close>)
qed

theorem resize_preserves_map_witness:
  "\<exists>r ht' m'. ef_hashtable_resize [] sample_table 20 = Some (r, ht', m') \<and>
    ht_inv ht' \<and> ht_map ht' = ht_map sample_table \<and>
    ht_vals ht' = ht_vals sample_table \<and>
    (r = 0 \<and> ht_cap ht' = hash_recap 20 \<or>
     r = - 1 \<and> ht' = sample_table \<and>
     (hash_recap 20 < ht_used sample_table \<or> [] \<noteq> ([] :: mem)))"
  by (rule resize_preserves_map [OF new_table_inv]) simp

text \<open>
  The capacity is rounded up to a power of two of at least 8 that is less than twice what
  was asked for; beyond \<open>2 ^ 31\<close> the addition wraps and the capacity is 0.
\<close>

theorem hash_recap_power:
  "(unat cap \<le> 2 ^ 31 \<longrightarrow> (\<exists>k. 3 \<le> k \<and> k \<le> 31 \<and> hash_recap cap = 2 ^ k) \<and> unat cap \<le> unat (hash_recap cap) \<and>
      (8 < unat cap \<longrightarrow> unat (hash_recap cap) < 2 * unat cap)) \<and>
   hash_recap 0x80000001 = 0"
proof -
  have "hash_recap 0x80000001 = 0" by code_simp
  then show ?thesis using hash_recap_spec [of cap] by (auto simp: good_cap_def)
qed

theorem hash_recap_power_witness:
  "(\<exists>k. 3 \<le> k \<and> k \<le> 31 \<and> hash_recap 100 = 2 ^ k) \<and> unat (100 :: u32) \<le> unat (hash_recap 100) \<and>
    unat (hash_recap 100) < 2 * unat (100 :: u32)"
  using hash_recap_power [of 100] by simp

end
