(* ===== verification/EfStringtab.thy ===== *)
theory EfStringtab
  imports HashtableDict
begin

text \<open>
  \<^verbatim>\<open>structure/stringtab.c\<close>: the hash table with heap strings as values, destroyed by
  \<^verbatim>\<open>ef_string_free\<close>.
\<close>

section \<open>Operations\<close>

type_synonym ef_stringtab = "ef_string ef_hashtable"

definition ef_stringtab_new :: "mem \<Rightarrow> u32 \<Rightarrow> ef_stringtab option \<times> mem" where
  "ef_stringtab_new m cap = ef_hashtable_new m cap True"

definition ef_stringtab_find :: "ef_stringtab \<Rightarrow> byte list \<Rightarrow> nat \<Rightarrow> ef_string option option" where
  "ef_stringtab_find tb key n =
     do { found \<leftarrow> ef_hashtable_find_key tb key n;
          case found of
            None \<Rightarrow> Some None
          | Some i \<Rightarrow> do { pb \<leftarrow> cell_get (ht_data tb) i; Some (bk_val pb) } }"

definition ef_stringtab_set ::
    "mem \<Rightarrow> ef_stringtab \<Rightarrow> byte list \<Rightarrow> nat \<Rightarrow> byte list option \<Rightarrow> nat \<Rightarrow>
     (ef_string option \<times> ef_stringtab \<times> ef_string list \<times> mem) option" where
  "ef_stringtab_set m tb key klen val vlen =
     do { (str, m) \<leftarrow> (if val \<noteq> None then ef_string_new m val vlen else Some (None, m));
          if str = None \<and> val \<noteq> None then Some (None, tb, [], m)
          else do {
            (pb, tb, dead, m) \<leftarrow> ef_hashtable_set_key_value m tb key klen str;
            case pb of
              None \<Rightarrow> do { _ \<leftarrow> ef_string_free str True; Some (None, tb, dead, m) }
            | Some i \<Rightarrow> do { b \<leftarrow> cell_get (ht_data tb) i; Some (bk_val b, tb, dead, m) } } }"

definition ef_stringtab_remove :: "ef_stringtab \<Rightarrow> byte list \<Rightarrow> nat \<Rightarrow> (int \<times> ef_stringtab \<times> ef_string list) option" where
  "ef_stringtab_remove tb key n = ef_hashtable_remove_key tb key n"

definition ef_stringtab_free :: "ef_stringtab \<Rightarrow> ef_string list option" where
  "ef_stringtab_free tb = ef_hashtable_free tb"

section \<open>The map of byte strings it holds\<close>

definition st_map :: "ef_stringtab \<Rightarrow> byte list \<Rightarrow> byte list option" where
  "st_map tb k = map_option es_bytes (Option.bind (ht_map tb k) id)"

definition st_inv :: "ef_stringtab \<Rightarrow> bool" where
  "st_inv tb \<longleftrightarrow> ht_inv tb \<and> ht_dtor tb \<and> (\<forall>k s. ht_map tb k = Some (Some s) \<longrightarrow> es_inv s)"

lemma ef_stringtab_find_eq:
  "ht_inv tb \<Longrightarrow> n \<le> length key \<Longrightarrow> ef_stringtab_find tb key n = Some (Option.bind (ht_map tb (take n key)) id)"
  using hashtable.get_law [of tb n key]
  by (cases "ef_hashtable_find_key tb key n")
    (auto simp: ef_stringtab_find_def ht_get_def bind_Some_iff cell_get_SomeD
      dest!: sym [of "Some _" "ht_map _ _"] sym [of None "ht_map _ _"] split: option.splits)

lemma ef_stringtab_new_inv:
  "ef_stringtab_new m cap = (Some tb, m') \<Longrightarrow> unat cap \<le> 2 ^ 31 \<Longrightarrow> st_inv tb \<and> st_map tb = (\<lambda>_. None)"
  using ef_hashtable_new_repr [of m cap True tb m']
  by (auto simp: ef_stringtab_new_def st_inv_def ht_inv_def st_map_def)

text \<open>The bucket a successful insertion returns holds the value.\<close>

lemma set_result:
  assumes "ht_inv ht" "key_ok key n" "ef_hashtable_set_key_value m ht key n v = Some (Some i, ht', d, m')"
  shows "i < length (ht_data ht')" and "bk_val (ht_data ht' ! i) = v"
proof -
  obtain ch rs where R: "ht_repr {} ht ch rs" using assms(1) by (auto simp: ht_inv_def)
  have n: "n \<le> length key" using assms(2) by (simp add: key_ok_def)
  have "i < length (ht_data ht') \<and> bk_val (ht_data ht' ! i) = v"
  proof (rule find_key_cases [OF R n])
    fix j assume "ef_hashtable_find_key ht key n = Some (Some j)" "j < unat (ht_cap ht)"
    then show ?thesis using assms(3) ht_repr_shape(3) [OF R] by (auto simp: ef_hashtable_set_key_value_def)
  next
    assume f: "ef_hashtable_find_key ht key n = Some None"
    show ?thesis
    proof (rule alloc_bucket_cases [OF R, of m])
      fix i1 ht1 ch' rs' m1 assume "alloc_bucket 2 m ht = Some (Some i1, ht1, m1)"
      then show ?thesis using assms(3) f
        by (auto simp: ef_hashtable_set_key_value_def Let_def bind_Some_iff cell_get_SomeD split: option.splits)
    qed (use assms(3) f in \<open>simp add: ef_hashtable_set_key_value_def\<close>)
  qed
  then show "i < length (ht_data ht')" "bk_val (ht_data ht' ! i) = v" by auto
qed

lemma ef_stringtab_set_cases:
  assumes inv: "st_inv tb" and key: "key_ok key klen" and val: "arg_ok (Some val) vlen"
  obtains (fail) tb' m' where "ef_stringtab_set m tb key klen (Some val) vlen = Some (None, tb', [], m')"
      "st_inv tb'" "st_map tb' = st_map tb" "m \<noteq> [] \<or> unat (ht_cap tb) = 2 ^ 31"
  | (ok) s tb' m' where
      "ef_stringtab_set m tb key klen (Some val) vlen = Some (Some s, tb', dead_val tb (take klen key), m')"
      "st_inv tb'" "es_bytes s = arg_bytes (Some val) vlen"
      "st_map tb' = (st_map tb)(take klen key \<mapsto> arg_bytes (Some val) vlen)"
proof (rule ef_string_new_cases [OF val, of m])
  fix m1 assume s: "ef_string_new m (Some val) vlen = Some (None, m1)" "m \<noteq> []"
  then have eq: "ef_stringtab_set m tb key klen (Some val) vlen = Some (None, tb, [], m1)"
    by (simp add: ef_stringtab_set_def)
  show thesis by (rule fail [OF eq]) (use inv s in simp_all)
next
  fix s m1 assume s: "ef_string_new m (Some val) vlen = Some (Some s, m1)" "es_inv s"
    "es_bytes s = arg_bytes (Some val) vlen"
  from inv have hi: "ht_inv tb" by (simp add: st_inv_def)
  show thesis
  proof (rule set_cases [OF hi key, of m1 "Some s"])
    fix tb' m2 assume f: "ef_hashtable_set_key_value m1 tb key klen (Some s) = Some (None, tb', [], m2)"
      "ht_inv tb'" "ht_map tb' = ht_map tb" "ht_dtor tb' = ht_dtor tb" "m1 \<noteq> [] \<or> unat (ht_cap tb) = 2 ^ 31"
    have eq: "ef_stringtab_set m tb key klen (Some val) vlen = Some (None, tb', [], m2)"
      using s(1) f(1) by (simp add: ef_stringtab_set_def ef_string_free_def)
    have "m1 \<noteq> [] \<Longrightarrow> m \<noteq> []"
      using s(1) by (auto simp: ef_string_new_def bind_Some_iff split: prod.splits option.splits)
    then show thesis by (intro fail [OF eq]) (use f inv in \<open>auto simp: st_inv_def st_map_def fun_eq_iff\<close>)
  next
    fix i tb' m2 assume o: "ef_hashtable_set_key_value m1 tb key klen (Some s) =
        Some (Some i, tb', dead_val tb (take klen key), m2)"
      "ht_inv tb'" "ht_map tb' = (ht_map tb)(take klen key \<mapsto> Some s)" "ht_dtor tb' = ht_dtor tb"
    have eq: "ef_stringtab_set m tb key klen (Some val) vlen = Some (Some s, tb', dead_val tb (take klen key), m2)"
      using s(1) o(1) set_result [OF hi key o(1)] by (simp add: ef_stringtab_set_def)
    show thesis by (rule ok [OF eq]) (use o s inv in \<open>auto simp: st_inv_def st_map_def fun_eq_iff\<close>)
  qed
qed

text \<open>
  Storing NULL works, but when the insertion fails the string to release is NULL, which
  \<^verbatim>\<open>ef_string_free\<close> dereferences.
\<close>

lemma ef_stringtab_set_NULL:
  assumes inv: "st_inv tb" and key: "key_ok key klen"
  obtains (fault) "ef_stringtab_set m tb key klen None vlen = None" "st_map tb (take klen key) = None"
      "m \<noteq> [] \<or> unat (ht_cap tb) = 2 ^ 31"
  | (ok) tb' m' where
      "ef_stringtab_set m tb key klen None vlen = Some (None, tb', dead_val tb (take klen key), m')"
      "st_inv tb'" "st_map tb' = (st_map tb)(take klen key := None)"
proof -
  from inv have hi: "ht_inv tb" by (simp add: st_inv_def)
  show thesis
  proof (rule set_cases [OF hi key, of m None])
    fix tb' m2 assume f: "ef_hashtable_set_key_value m tb key klen None = Some (None, tb', [], m2)"
      "ht_map tb (take klen key) = None" "m \<noteq> [] \<or> unat (ht_cap tb) = 2 ^ 31"
    then show thesis by (intro fault) (simp_all add: ef_stringtab_set_def ef_string_free_def st_map_def)
  next
    fix i tb' m2 assume o: "ef_hashtable_set_key_value m tb key klen None =
        Some (Some i, tb', dead_val tb (take klen key), m2)"
      "ht_inv tb'" "ht_map tb' = (ht_map tb)(take klen key \<mapsto> None)" "ht_dtor tb' = ht_dtor tb"
    have eq: "ef_stringtab_set m tb key klen None vlen = Some (None, tb', dead_val tb (take klen key), m2)"
      using o(1) set_result [OF hi key o(1)] by (simp add: ef_stringtab_set_def)
    show thesis by (rule ok [OF eq]) (use o inv in \<open>auto simp: st_inv_def st_map_def fun_eq_iff\<close>)
  qed
qed

section \<open>Properties\<close>

text \<open>
  C8. Setting a key to a C string either fails, with the table as it was and nothing destroyed, or
  returns the stored string and changes the map of byte strings at that key only, destroying the
  string it replaces; a later find returns exactly the bytes that were set.
\<close>

theorem stringtab_set_then_find:
  assumes "st_inv tb" "key_ok key klen" "arg_ok (Some val) vlen"
  shows "\<exists>r tb' dead m'. ef_stringtab_set m tb key klen (Some val) vlen = Some (r, tb', dead, m') \<and> st_inv tb' \<and>
           (case r of
              None \<Rightarrow> st_map tb' = st_map tb \<and> dead = [] \<and> (m \<noteq> [] \<or> unat (ht_cap tb) = 2 ^ 31)
            | Some s \<Rightarrow> st_map tb' = (st_map tb)(take klen key \<mapsto> arg_bytes (Some val) vlen) \<and>
                dead = dead_val tb (take klen key) \<and>
                (\<forall>k n. n \<le> length k \<longrightarrow> map_option (map_option es_bytes) (ef_stringtab_find tb' k n) =
                   Some (if take n k = take klen key then Some (arg_bytes (Some val) vlen) else st_map tb (take n k))))"
proof (rule ef_stringtab_set_cases [OF assms, where m = m])
  fix tb' m' assume "ef_stringtab_set m tb key klen (Some val) vlen = Some (None, tb', [], m')"
    "st_inv tb'" "st_map tb' = st_map tb" "m \<noteq> [] \<or> unat (ht_cap tb) = 2 ^ 31"
  then show ?thesis by simp
next
  fix s tb' m' assume s: "ef_stringtab_set m tb key klen (Some val) vlen =
      Some (Some s, tb', dead_val tb (take klen key), m')" "st_inv tb'"
    "st_map tb' = (st_map tb)(take klen key \<mapsto> arg_bytes (Some val) vlen)"
  have "map_option (map_option es_bytes) (ef_stringtab_find tb' k n) = Some (st_map tb' (take n k))"
    if "n \<le> length k" for k n
    using s(2) that by (simp add: ef_stringtab_find_eq st_inv_def st_map_def)
  with s show ?thesis by (auto simp del: fun_upd_apply simp: fun_upd_def)
qed

definition sample_stringtab :: ef_stringtab where
  "sample_stringtab = the (fst (ef_stringtab_new [] 8))"

lemma sample_stringtab_inv: "st_inv sample_stringtab"
proof -
  have "ef_stringtab_new [] 8 = (Some sample_stringtab, [])"
    by (simp add: sample_stringtab_def ef_stringtab_new_def ef_hashtable_new_def alloc_hash_data_def Let_def)
  then show ?thesis using ef_stringtab_new_inv by force
qed

theorem stringtab_set_then_find_witness:
  "\<exists>r tb' dead m'. ef_stringtab_set [] sample_stringtab [97] 1 (Some [98, 0]) 0 = Some (r, tb', dead, m') \<and> st_inv tb'"
proof -
  have "arg_ok (Some [98, 0]) 0" by (simp add: arg_ok_def strlen_def)
  from stringtab_set_then_find [OF sample_stringtab_inv _ this, of "[97]" 1 "[]"] show ?thesis
    by (auto simp: key_ok_def)
qed

text \<open>
  Storing NULL under a key that has no string yet has no defined result when the insertion
  fails, as there is then no string to release; otherwise it removes the string, and the value
  returned does not tell the two apart.
\<close>

theorem stringtab_set_NULL_outcome:
  assumes "st_inv tb" "key_ok key klen"
  shows "(case ef_stringtab_set m tb key klen None vlen of
            None \<Rightarrow> st_map tb (take klen key) = None \<and> (m \<noteq> [] \<or> unat (ht_cap tb) = 2 ^ 31)
          | Some (r, tb', dead, m') \<Rightarrow> r = None \<and> st_inv tb' \<and> st_map tb' = (st_map tb)(take klen key := None) \<and>
              dead = dead_val tb (take klen key))"
  by (rule ef_stringtab_set_NULL [OF assms, of m vlen]) simp_all

theorem stringtab_set_NULL_outcome_witness:
  "(case ef_stringtab_set [Refused] sample_stringtab [97] 1 None 0 of
      None \<Rightarrow> st_map sample_stringtab (take 1 [97]) = None \<and> ([Refused] \<noteq> [] \<or> unat (ht_cap sample_stringtab) = 2 ^ 31)
    | Some (r, tb', dead, m') \<Rightarrow> r = None \<and> st_inv tb' \<and> st_map tb' = (st_map sample_stringtab)(take 1 [97] := None) \<and>
        dead = dead_val sample_stringtab (take 1 [97]))"
  by (rule stringtab_set_NULL_outcome [OF sample_stringtab_inv]) (simp add: key_ok_def)

end
