(* ===== verification/EfHeadertab.thy ===== *)
theory EfHeadertab
  imports EfStringtab EfVector
begin

text \<open>
  \<^verbatim>\<open>structure/headertab.c\<close>: the hash table from header names to vectors of strings.  A
  vector is reached only through its bucket, so it is kept there by value and written back
  after an operation on it.
\<close>

section \<open>Operations\<close>

type_synonym ef_headertab = "ef_string ef_vector ef_hashtable"

definition ef_headertab_new :: "mem \<Rightarrow> u32 \<Rightarrow> ef_headertab option \<times> mem" where
  "ef_headertab_new m cap = ef_hashtable_new m cap True"

text \<open>The vector, with the bucket it lives in.\<close>

definition ef_headertab_find :: "ef_headertab \<Rightarrow> byte list \<Rightarrow> nat \<Rightarrow> (nat \<times> ef_string ef_vector) option option" where
  "ef_headertab_find tb key n =
     do { found \<leftarrow> ef_hashtable_find_key tb key n;
          case found of
            None \<Rightarrow> Some None
          | Some i \<Rightarrow> do { pb \<leftarrow> cell_get (ht_data tb) i; Some (map_option (Pair i) (bk_val pb)) } }"

definition put_vec :: "ef_headertab \<Rightarrow> nat \<Rightarrow> ef_string ef_vector \<Rightarrow> ef_headertab" where
  "put_vec tb i vec = tb\<lparr>ht_data := (ht_data tb)[i := (ht_data tb ! i)\<lparr>bk_val := Some vec\<rparr>]\<rparr>"

text \<open>The element \<^verbatim>\<open>vec->ptr[idx]\<close> that is returned.\<close>

definition vec_at :: "ef_string ef_vector \<Rightarrow> int \<Rightarrow> ef_string option option" where
  "vec_at vec idx =
     do { b \<leftarrow> ev_ptr vec;
          x \<leftarrow> cell_get b (nat idx);
          case x of Uninit \<Rightarrow> None | Null \<Rightarrow> Some None | Ptr s \<Rightarrow> Some (Some s) }"

text \<open>\<^verbatim>\<open>vec_dtor\<close> on the vectors the table drops: the strings destroyed.\<close>

fun vec_dtors :: "ef_string ef_vector list \<Rightarrow> ef_string list option" where
  "vec_dtors [] = Some []"
| "vec_dtors (v # vs) =
     do { (_, d) \<leftarrow> ef_vector_free (Some v) True; ds \<leftarrow> vec_dtors vs; Some (d @ ds) }"

text \<open>The second half of both operations: a new vector with the string in it.\<close>

definition headertab_insert ::
    "mem \<Rightarrow> ef_headertab \<Rightarrow> byte list \<Rightarrow> nat \<Rightarrow> ef_string \<Rightarrow>
     (ef_string option \<times> ef_headertab \<times> ef_string list \<times> mem) option" where
  "headertab_insert m tb key klen str =
     (let (vec, m) = ef_vector_new m 0 True
      in case vec of
           None \<Rightarrow> Some (None, tb, [], m)
         | Some vec \<Rightarrow>
             do { (idx, vec, m) \<leftarrow> ef_vector_append m vec (Ptr str);
                  if idx < 0
                  then do { (_, dead) \<leftarrow> ef_vector_free (Some vec) True; Some (None, tb, dead, m) }
                  else do {
                    (pb, tb, old, m) \<leftarrow> ef_hashtable_set_key_value m tb key klen (Some vec);
                    case pb of
                      None \<Rightarrow> do { (_, dead) \<leftarrow> ef_vector_free (Some vec) True; Some (None, tb, dead, m) }
                    | Some _ \<Rightarrow> do { dead \<leftarrow> vec_dtors old; r \<leftarrow> vec_at vec idx; Some (r, tb, dead, m) } } })"

definition ef_headertab_set ::
    "mem \<Rightarrow> ef_headertab \<Rightarrow> byte list \<Rightarrow> nat \<Rightarrow> byte list option \<Rightarrow> nat \<Rightarrow>
     (ef_string option \<times> ef_headertab \<times> ef_string list \<times> mem) option" where
  "ef_headertab_set m tb key klen val vlen =
     do { (str, m) \<leftarrow> ef_string_new m val vlen;
          case str of
            None \<Rightarrow> Some (None, tb, [], m)
          | Some str \<Rightarrow>
              do { found \<leftarrow> ef_headertab_find tb key klen;
                   case found of
                     Some (i, vec) \<Rightarrow>
                       do { (vec, dead) \<leftarrow> ef_vector_free (Some vec) False;
                            vec \<leftarrow> vec;
                            (idx, vec, m) \<leftarrow> ef_vector_append m vec (Ptr str);
                            if idx < 0 then Some (None, put_vec tb i vec, dead, m)
                            else do { r \<leftarrow> vec_at vec idx; Some (r, put_vec tb i vec, dead, m) } }
                   | None \<Rightarrow> headertab_insert m tb key klen str } }"

definition ef_headertab_add ::
    "mem \<Rightarrow> ef_headertab \<Rightarrow> byte list \<Rightarrow> nat \<Rightarrow> byte list option \<Rightarrow> nat \<Rightarrow>
     (ef_string option \<times> ef_headertab \<times> ef_string list \<times> mem) option" where
  "ef_headertab_add m tb key klen val vlen =
     do { (str, m) \<leftarrow> ef_string_new m val vlen;
          case str of
            None \<Rightarrow> Some (None, tb, [], m)
          | Some str \<Rightarrow>
              do { found \<leftarrow> ef_headertab_find tb key klen;
                   case found of
                     Some (i, vec) \<Rightarrow>
                       do { (idx, vec, m) \<leftarrow> ef_vector_append m vec (Ptr str);
                            if idx < 0 then Some (None, put_vec tb i vec, [], m)
                            else do { r \<leftarrow> vec_at vec idx; Some (r, put_vec tb i vec, [], m) } }
                   | None \<Rightarrow> headertab_insert m tb key klen str } }"

text \<open>The two macros of the header; destroyed vectors destroy their strings.\<close>

definition ef_headertab_remove :: "ef_headertab \<Rightarrow> byte list \<Rightarrow> nat \<Rightarrow> (int \<times> ef_headertab \<times> ef_string list) option" where
  "ef_headertab_remove tb key n =
     do { (r, tb, vecs) \<leftarrow> ef_hashtable_remove_key tb key n; dead \<leftarrow> vec_dtors vecs; Some (r, tb, dead) }"

definition ef_headertab_free :: "ef_headertab \<Rightarrow> ef_string list option" where
  "ef_headertab_free tb = do { vecs \<leftarrow> ef_hashtable_free tb; vec_dtors vecs }"

section \<open>What it holds\<close>

text \<open>
  A stored vector has the one string it was given, in a block of 8 bytes, or it was emptied
  by \<^verbatim>\<open>ef_headertab_set\<close> and its new block could not be allocated.
\<close>

definition one_string :: "ef_string ef_vector \<Rightarrow> ef_string \<Rightarrow> bool" where
  "one_string vec s \<longleftrightarrow> ev_ptr vec = Some [Ptr s] \<and> ev_len vec = 1 \<and> ev_cap vec = 8 \<and> ev_dtor vec \<and> es_inv s"

definition vec_ok :: "ef_string ef_vector \<Rightarrow> bool" where
  "vec_ok vec \<longleftrightarrow> (\<exists>s. one_string vec s) \<or> ev_ptr vec = None \<and> ev_len vec = 0 \<and> ev_dtor vec"

definition strings_of :: "ef_string ef_vector \<Rightarrow> byte list list" where
  "strings_of vec = map (\<lambda>x. case x of Ptr s \<Rightarrow> es_bytes s | _ \<Rightarrow> []) (ev_items vec)"

definition hd_map :: "ef_headertab \<Rightarrow> byte list \<Rightarrow> byte list list option" where
  "hd_map tb k = map_option strings_of (Option.bind (ht_map tb k) id)"

definition hd_inv :: "ef_headertab \<Rightarrow> bool" where
  "hd_inv tb \<longleftrightarrow> ht_inv tb \<and> ht_dtor tb \<and> (\<forall>k v. ht_map tb k = Some v \<longrightarrow> (\<exists>vec. v = Some vec \<and> vec_ok vec))"

lemma one_string_simps: "one_string vec s \<Longrightarrow> strings_of vec = [es_bytes s]"
  by (simp add: one_string_def strings_of_def ev_items_def)

text \<open>Freeing a stored vector destroys its string and leaves it empty.\<close>

lemma vec_ok_free:
  assumes "vec_ok vec"
  obtains dead where "ef_vector_free (Some vec) d =
      Some (if d then None else Some (vec\<lparr>ev_ptr := None, ev_cap := 0, ev_len := 0\<rparr>), dead)"
    "map es_bytes dead = strings_of vec"
  using assms by (auto simp: vec_ok_def one_string_def ef_vector_free_def strings_of_def ev_items_def)

lemma headertab_find_cases:
  assumes "hd_inv tb" "n \<le> length key"
  obtains (none) "ef_headertab_find tb key n = Some None" "ht_map tb (take n key) = None"
  | (some) i vec ch rs where "ef_headertab_find tb key n = Some (Some (i, vec))" "vec_ok vec"
      "ht_map tb (take n key) = Some (Some vec)" "ht_repr {} tb ch rs" "i < unat (ht_cap tb)"
      "live (ht_data tb ! i)" "bkey (ht_data tb ! i) = take n key" "bk_val (ht_data tb ! i) = Some vec"
proof -
  from assms(1) obtain ch rs where R: "ht_repr {} tb ch rs" by (auto simp: hd_inv_def ht_inv_def)
  note len = ht_repr_shape(3) [OF R]
  show thesis
  proof (rule find_key_cases [OF R assms(2)])
    assume "ef_hashtable_find_key tb key n = Some None" "ht_map tb (take n key) = None"
    then show thesis by (intro none) (simp_all add: ef_headertab_find_def)
  next
    fix i assume f: "ef_hashtable_find_key tb key n = Some (Some i)" "i < unat (ht_cap tb)"
      "live (ht_data tb ! i)" "bkey (ht_data tb ! i) = take n key"
      "ht_map tb (take n key) = Some (bk_val (ht_data tb ! i))"
    then obtain vec where v: "bk_val (ht_data tb ! i) = Some vec" "vec_ok vec"
      using assms(1) by (auto simp: hd_inv_def)
    then have "ef_headertab_find tb key n = Some (Some (i, vec))"
      using f len by (simp add: ef_headertab_find_def)
    with f v R show thesis by (intro some) simp_all
  qed
qed

lemma put_vec_correct:
  assumes "hd_inv tb" "ht_repr {} tb ch rs" "i < unat (ht_cap tb)" "live (ht_data tb ! i)"
    "bkey (ht_data tb ! i) = k" "vec_ok vec"
  shows "hd_inv (put_vec tb i vec)" and "hd_map (put_vec tb i vec) = (hd_map tb)(k \<mapsto> strings_of vec)"
proof -
  note o = overwrite_repr [OF assms(2-4), of "Some vec"]
  show "hd_inv (put_vec tb i vec)" using o(1,2) assms by (simp add: hd_inv_def put_vec_def)
  show "hd_map (put_vec tb i vec) = (hd_map tb)(k \<mapsto> strings_of vec)"
    using o(2) assms(5) by (simp add: hd_map_def put_vec_def fun_eq_iff)
qed

section \<open>Correctness\<close>

lemma headertab_insert_cases:
  assumes inv: "hd_inv tb" and key: "key_ok key klen" and new: "ht_map tb (take klen key) = None"
    and s: "es_inv str"
  obtains (fail) tb' dead m' where "headertab_insert m tb key klen str = Some (None, tb', dead, m')"
      "hd_inv tb'" "hd_map tb' = hd_map tb"
  | (ok) tb' m' where "headertab_insert m tb key klen str = Some (Some str, tb', [], m')"
      "hd_inv tb'" "hd_map tb' = (hd_map tb)(take klen key \<mapsto> [es_bytes str])"
proof -
  obtain v :: "ef_string ef_vector option" and m1 where v: "ef_vector_new m 0 True = (v, m1)" by fastforce
  show thesis
  proof (cases v)
    case None
    with v inv show thesis by (intro fail) (simp_all add: headertab_insert_def)
  next
    case (Some vec0)
    with v have vec0: "vec0 = \<lparr>ev_ptr = None, ev_cap = 0, ev_len = 0, ev_dtor = True\<rparr>"
      by (auto simp: ef_vector_new_def split: prod.splits if_splits)
    obtain g m2 where g: "malloc_obj m1 = (g, m2)" by fastforce
    note app = ef_vector_append_first [of vec0 m1 "Ptr str"]
    show thesis
    proof (cases g)
      case False
      with app vec0 g have "ef_vector_append m1 vec0 (Ptr str) = Some (- 1, vec0\<lparr>ev_cap := 8\<rparr>, m2)" by simp
      with v Some vec0 inv show thesis
        by (intro fail) (simp_all add: headertab_insert_def ef_vector_free_def)
    next
      case True
      define vec where "vec = vec0\<lparr>ev_cap := 8, ev_len := 1, ev_ptr := Some [Ptr str]\<rparr>"
      have a: "ef_vector_append m1 vec0 (Ptr str) = Some (0, vec, m2)"
        using app vec0 g True by (simp add: vec_def)
      have one: "one_string vec str" using s by (simp add: vec_def vec0 one_string_def)
      from inv have hi: "ht_inv tb" by (simp add: hd_inv_def)
      show thesis
      proof (rule set_cases [OF hi key, of m2 "Some vec"])
        fix tb' m3 assume f: "ef_hashtable_set_key_value m2 tb key klen (Some vec) = Some (None, tb', [], m3)"
          "ht_inv tb'" "ht_map tb' = ht_map tb" "ht_dtor tb' = ht_dtor tb"
        obtain dead where "ef_vector_free (Some vec) True = Some (None, dead)"
          using vec_ok_free [of vec True] one by (auto simp: vec_ok_def)
        with v Some a f(1) have eq: "headertab_insert m tb key klen str = Some (None, tb', dead, m3)"
          by (simp add: headertab_insert_def)
        show thesis by (rule fail [OF eq]) (use f inv in \<open>auto simp: hd_inv_def hd_map_def fun_eq_iff\<close>)
      next
        fix i tb' m3 assume o: "ef_hashtable_set_key_value m2 tb key klen (Some vec) =
            Some (Some i, tb', dead_val tb (take klen key), m3)"
          "ht_inv tb'" "ht_map tb' = (ht_map tb)(take klen key \<mapsto> Some vec)" "ht_dtor tb' = ht_dtor tb"
        have "dead_val tb (take klen key) = []" using new by (simp add: dead_val_def)
        with v Some a o(1) have eq: "headertab_insert m tb key klen str = Some (Some str, tb', [], m3)"
          by (simp add: headertab_insert_def vec_at_def vec_def)
        show thesis
          by (rule ok [OF eq])
            (use o inv one one_string_simps [OF one] in \<open>auto simp: hd_inv_def hd_map_def fun_eq_iff vec_ok_def\<close>)
      qed
    qed
  qed
qed

text \<open>
  Setting a header leaves exactly the new value under the name, destroys the old one, and
  never faults; adding does the same for a name that is not there.
\<close>

lemma ef_headertab_set_cases:
  assumes inv: "hd_inv tb" and key: "key_ok key klen" and val: "arg_ok val vlen"
  obtains (fail) tb' dead m' where "ef_headertab_set m tb key klen val vlen = Some (None, tb', dead, m')"
      "hd_inv tb'" "hd_map tb' = hd_map tb \<or> hd_map tb' = (hd_map tb)(take klen key \<mapsto> [])"
  | (ok) s tb' dead m' where "ef_headertab_set m tb key klen val vlen = Some (Some s, tb', dead, m')"
      "hd_inv tb'" "hd_map tb' = (hd_map tb)(take klen key \<mapsto> [arg_bytes val vlen])"
      "es_bytes s = arg_bytes val vlen"
      "map es_bytes dead = (case hd_map tb (take klen key) of None \<Rightarrow> [] | Some old \<Rightarrow> old)"
proof -
  let ?k = "take klen key"
  have n: "klen \<le> length key" using key by (simp add: key_ok_def)
  show thesis
  proof (rule ef_string_new_cases [OF val, of m])
    fix m1 assume "ef_string_new m val vlen = Some (None, m1)"
    then have eq: "ef_headertab_set m tb key klen val vlen = Some (None, tb, [], m1)"
      by (simp add: ef_headertab_set_def)
    show thesis by (rule fail [OF eq inv disjI1]) (rule refl)
  next
    fix s m1 assume s: "ef_string_new m val vlen = Some (Some s, m1)" "es_inv s" "es_bytes s = arg_bytes val vlen"
    show thesis
    proof (rule headertab_find_cases [OF inv n])
      assume f: "ef_headertab_find tb key klen = Some None" "ht_map tb ?k = None"
      then have step: "ef_headertab_set m tb key klen val vlen = headertab_insert m1 tb key klen s"
        using s(1) by (simp add: ef_headertab_set_def)
      show thesis
      proof (rule headertab_insert_cases [OF inv key f(2) s(2), of m1])
        fix tb' dead m' assume "headertab_insert m1 tb key klen s = Some (None, tb', dead, m')"
          and t: "hd_inv tb'" "hd_map tb' = hd_map tb"
        with step have eq: "ef_headertab_set m tb key klen val vlen = Some (None, tb', dead, m')" by simp
        show thesis by (rule fail [OF eq t(1) disjI1 [OF t(2)]])
      next
        fix tb' m' assume "headertab_insert m1 tb key klen s = Some (Some s, tb', [], m')"
          "hd_inv tb'" "hd_map tb' = (hd_map tb)(?k \<mapsto> [es_bytes s])"
        with step s(3) f(2) show thesis by (intro ok [of s tb' "[]"]) (simp_all add: hd_map_def)
      qed
    next
      fix i vec ch rs
      assume f: "ef_headertab_find tb key klen = Some (Some (i, vec))" "vec_ok vec"
        "ht_map tb ?k = Some (Some vec)" "ht_repr {} tb ch rs" "i < unat (ht_cap tb)"
        "live (ht_data tb ! i)" "bkey (ht_data tb ! i) = ?k" "bk_val (ht_data tb ! i) = Some vec"
      obtain dead where d: "ef_vector_free (Some vec) False =
          Some (Some (vec\<lparr>ev_ptr := None, ev_cap := 0, ev_len := 0\<rparr>), dead)"
        "map es_bytes dead = strings_of vec"
        using vec_ok_free [OF f(2), of False] by auto
      let ?vec0 = "vec\<lparr>ev_ptr := None, ev_cap := 0, ev_len := 0\<rparr>"
      have dt: "ev_dtor vec" using f(2) by (auto simp: vec_ok_def one_string_def)
      obtain g m2 where g: "malloc_obj m1 = (g, m2)" by fastforce
      show thesis
      proof (cases g)
        case False
        let ?v = "?vec0\<lparr>ev_cap := 8\<rparr>"
        have eq: "ef_headertab_set m tb key klen val vlen = Some (None, put_vec tb i ?v, dead, m2)"
          using s(1) f(1) d(1) g False by (simp add: ef_headertab_set_def ef_vector_append_first)
        have "vec_ok ?v" using dt by (simp add: vec_ok_def)
        note p = put_vec_correct [OF inv f(4-7) this]
        have "strings_of ?v = []" by (simp add: strings_of_def ev_items_def)
        with p show thesis by (intro fail [OF eq]) simp_all
      next
        case True
        let ?v = "?vec0\<lparr>ev_cap := 8, ev_len := 1, ev_ptr := Some [Ptr s]\<rparr>"
        have eq: "ef_headertab_set m tb key klen val vlen = Some (Some s, put_vec tb i ?v, dead, m2)"
          using s(1) f(1) d(1) g True by (simp add: ef_headertab_set_def ef_vector_append_first vec_at_def)
        have one: "one_string ?v s" using s(2) dt by (simp add: one_string_def)
        then have "vec_ok ?v" by (auto simp: vec_ok_def)
        note p = put_vec_correct [OF inv f(4-7) this]
        show thesis
          by (rule ok [OF eq p(1)]) (use p(2) one_string_simps [OF one] s(3) d(2) f(3) in \<open>simp_all add: hd_map_def\<close>)
      qed
    qed
  qed
qed

lemma ef_headertab_add_new:
  assumes "hd_inv tb" "klen \<le> length key" "hd_map tb (take klen key) = None"
  shows "ef_headertab_add m tb key klen val vlen = ef_headertab_set m tb key klen val vlen"
proof (rule headertab_find_cases [OF assms(1,2)])
  assume "ef_headertab_find tb key klen = Some None"
  then show ?thesis
    by (cases "ef_string_new m val vlen") (auto simp: ef_headertab_add_def ef_headertab_set_def split: option.splits)
next
  fix vec assume "ht_map tb (take klen key) = Some (Some vec)"
  with assms(3) show ?thesis by (simp add: hd_map_def)
qed

text \<open>A second value under a name that has one is written behind the end of the vector's block.\<close>

lemma ef_headertab_add_second_faults:
  assumes inv: "hd_inv tb" and key: "klen \<le> length key" and val: "arg_ok val vlen"
    and present: "hd_map tb (take klen key) = Some [v]" and m: "ef_string_new m val vlen = Some (Some s, m')"
  shows "ef_headertab_add m tb key klen val vlen = None"
proof (rule headertab_find_cases [OF inv key])
  assume "ht_map tb (take klen key) = None"
  with present show ?thesis by (simp add: hd_map_def)
next
  fix i vec assume f: "ef_headertab_find tb key klen = Some (Some (i, vec))" "vec_ok vec"
    "ht_map tb (take klen key) = Some (Some vec)"
  then obtain t where "one_string vec t"
    using present by (auto simp: vec_ok_def hd_map_def strings_of_def ev_items_def)
  then have vec: "vec = vec\<lparr>ev_cap := 8, ev_len := 1, ev_ptr := Some [Ptr t]\<rparr>"
    by (simp add: one_string_def)
  have "ef_vector_append m' vec (Ptr s) = None"
    by (subst vec) (rule ef_vector_append_second_faults)
  with f(1) m show ?thesis by (simp add: ef_headertab_add_def)
qed

section \<open>Properties\<close>

text \<open>
  C9. Setting a header either fails, leaving the other headers as they were and this one unchanged
  or empty, or makes the value the only one of its name and destroys exactly the values the name
  had before.
\<close>

theorem headertab_set_replaces:
  assumes "hd_inv tb" "key_ok key klen" "arg_ok val vlen"
  shows "\<exists>r tb' dead m'. ef_headertab_set m tb key klen val vlen = Some (r, tb', dead, m') \<and> hd_inv tb' \<and>
           (case r of
              None \<Rightarrow> hd_map tb' = hd_map tb \<or> hd_map tb' = (hd_map tb)(take klen key \<mapsto> [])
            | Some s \<Rightarrow> hd_map tb' = (hd_map tb)(take klen key \<mapsto> [arg_bytes val vlen]) \<and>
                es_bytes s = arg_bytes val vlen \<and>
                map es_bytes dead = (case hd_map tb (take klen key) of None \<Rightarrow> [] | Some old \<Rightarrow> old))"
proof (rule ef_headertab_set_cases [OF assms, where m = m])
qed (auto simp del: fun_upd_apply)

definition sample_headertab :: ef_headertab where
  "sample_headertab = the (fst (ef_headertab_new [] 8))"

lemma sample_headertab_inv: "hd_inv sample_headertab" "hd_map sample_headertab = (\<lambda>_. None)"
proof -
  have "ef_headertab_new [] 8 = (Some sample_headertab, [])"
    by (simp add: sample_headertab_def ef_headertab_new_def ef_hashtable_new_def alloc_hash_data_def Let_def)
  then have "ht_inv sample_headertab" "ht_map sample_headertab = (\<lambda>_. None)" "ht_dtor sample_headertab"
    using ef_hashtable_new_repr [of "[]" 8 True sample_headertab "[]"]
    by (auto simp: ef_headertab_new_def ht_inv_def)
  then show "hd_inv sample_headertab" "hd_map sample_headertab = (\<lambda>_. None)"
    by (auto simp: hd_inv_def hd_map_def)
qed

lemma sample_value: "arg_ok (Some [49, 0]) 0"
  by (simp add: arg_ok_def strlen_def)

theorem headertab_set_replaces_witness:
  "\<exists>r tb' dead m'. ef_headertab_set [Refused] sample_headertab [104] 1 (Some [49, 0]) 0 = Some (r, tb', dead, m') \<and>
     hd_inv tb'"
  using headertab_set_replaces [OF sample_headertab_inv(1) _ sample_value, of "[104]" 1 "[Refused]"]
  by (auto simp: key_ok_def)

text \<open>
  Adding a header acts like setting it where the name is new; where the name has a value
  already, it has no defined result as soon as the new string is allocated: the header table
  cannot hold two values of one name, which is what adding is for.
\<close>

theorem headertab_add_outcome:
  assumes "hd_inv tb" "klen \<le> length key" "arg_ok val vlen"
  shows "(hd_map tb (take klen key) = None \<longrightarrow>
            ef_headertab_add m tb key klen val vlen = ef_headertab_set m tb key klen val vlen) \<and>
         (\<forall>v. hd_map tb (take klen key) = Some [v] \<longrightarrow>
            (case ef_string_new m val vlen of Some (Some s, m') \<Rightarrow> ef_headertab_add m tb key klen val vlen = None
             | _ \<Rightarrow> True))"
  using ef_headertab_add_new [OF assms(1,2)] ef_headertab_add_second_faults [OF assms]
  by (auto split: option.splits prod.splits)

theorem headertab_add_outcome_witness:
  "ef_headertab_add [] sample_headertab [104] 1 (Some [49, 0]) 0 =
     ef_headertab_set [] sample_headertab [104] 1 (Some [49, 0]) 0"
  using headertab_add_outcome [OF sample_headertab_inv(1) _ sample_value, of 1 "[104]" "[]"]
    sample_headertab_inv(2) by simp

end
