(* ===== verification/EfBufferio.thy ===== *)
theory EfBufferio
  imports EfBuffer
begin

text \<open>
  \<^verbatim>\<open>structure/bufferio.c\<close>: buffered reading and writing on top of \<^verbatim>\<open>ef_wrap_read\<close> and
  \<^verbatim>\<open>ef_wrap_write\<close>.  What these return is read off a script of responses, one per call; a
  theorem for all scripts is one for every behaviour of the descriptor.  Lengths are natural
  numbers: no object has \<open>2 ^ 63\<close> bytes, so \<^verbatim>\<open>size_t\<close> and \<^verbatim>\<open>ssize_t\<close> agree and do not wrap.
\<close>

section \<open>The descriptor\<close>

text \<open>
  \<open>Data bs\<close>: bytes that have arrived, delivered as far as the request has room for them, the
  rest at the next call; \<open>Stop r e\<close>: the call returns \<open>r \<le> 0\<close> with \<^verbatim>\<open>errno\<close> \<open>e\<close>.  The end of
  the script is the end of the input.
\<close>

datatype resp = Data "byte list" | Stop int int

definition EINTR :: int where
  "EINTR = 4"

text \<open>One call for up to \<open>n\<close> bytes: return value, \<^verbatim>\<open>errno\<close> (set to 0 before), bytes, rest.\<close>

fun wrap_read :: "resp list \<Rightarrow> nat \<Rightarrow> int \<times> int \<times> byte list \<times> resp list" where
  "wrap_read [] n = (0, 0, [], [])"
| "wrap_read (Data bs # inp) n =
     (if length bs \<le> n then (int (length bs), 0, bs, inp)
      else (int n, 0, take n bs, Data (drop n bs) # inp))"
| "wrap_read (Stop r e # inp) n = (min r 0, e, [], inp)"

text \<open>
  \<^verbatim>\<open>ef_safe_read\<close> into the block \<open>b\<close> at \<open>base\<close>.  A call that does not end the loop consumes
  an element of the script, or fills the room: fuel of one more than the script suffices.
\<close>

fun safe_read_loop :: "nat \<Rightarrow> resp list \<Rightarrow> byte list \<Rightarrow> nat \<Rightarrow> nat \<Rightarrow> nat \<Rightarrow> nat \<Rightarrow>
    (int \<times> byte list \<times> resp list) option" where
  "safe_read_loop 0 inp b base offset n cap = None"
| "safe_read_loop (Suc fuel) inp b base offset n cap =
     (if offset < n
      then let (retval, errno, d, inp) = wrap_read inp (cap - offset)
           in if 0 < retval
              then do { b \<leftarrow> write_block b (base + offset) d;
                        safe_read_loop fuel inp b base (offset + nat retval) n cap }
              else if retval = 0 \<and> errno = 0 then Some (int offset, b, inp)
              else if errno \<noteq> 0 \<and> errno \<noteq> EINTR then Some (retval, b, inp)
              else safe_read_loop fuel inp b base offset n cap
      else Some (int offset, b, inp))"

definition ef_safe_read :: "resp list \<Rightarrow> byte list \<Rightarrow> nat \<Rightarrow> nat \<Rightarrow> nat \<Rightarrow> (int \<times> byte list \<times> resp list) option" where
  "ef_safe_read inp b base n cap =
     (let cap = (if cap < n then n else cap) in safe_read_loop (length inp + 2) inp b base 0 n cap)"

text \<open>
  The write side: \<open>Took k\<close>: a call that accepts up to \<open>k\<close> bytes; \<open>Refuse r e\<close>: \<open>r \<le> 0\<close> with
  \<^verbatim>\<open>errno\<close> \<open>e\<close>.  Behind the script everything is accepted.
\<close>

datatype wresp = Took nat | Refuse int int

fun wrap_write :: "wresp list \<Rightarrow> byte list \<Rightarrow> int \<times> int \<times> byte list \<times> wresp list" where
  "wrap_write [] d = (int (length d), 0, d, [])"
| "wrap_write (Took k # scr) d = (int (min k (length d)), 0, take k d, scr)"
| "wrap_write (Refuse r e # scr) d = (min r 0, e, [], scr)"

text \<open>\<^verbatim>\<open>ef_safe_write\<close>; \<open>data\<close> is what is left from \<^verbatim>\<open>buf + offset\<close>, the result the bytes sent.\<close>

fun safe_write_loop :: "nat \<Rightarrow> wresp list \<Rightarrow> byte list \<Rightarrow> nat \<Rightarrow> (int \<times> byte list \<times> wresp list) option" where
  "safe_write_loop 0 scr data offset = None"
| "safe_write_loop (Suc fuel) scr data offset =
     (if data \<noteq> []
      then let (retval, errno, sent, scr) = wrap_write scr data
           in if 0 < retval
              then do { (r, out, scr) \<leftarrow> safe_write_loop fuel scr (drop (nat retval) data) (offset + nat retval);
                        Some (r, sent @ out, scr) }
              else if errno \<noteq> 0 \<and> errno \<noteq> EINTR then Some (retval, [], scr)
              else safe_write_loop fuel scr data offset
      else Some (int offset, [], scr))"

definition ef_safe_write :: "wresp list \<Rightarrow> byte list \<Rightarrow> (int \<times> byte list \<times> wresp list) option" where
  "ef_safe_write scr data = safe_write_loop (length scr + 2) scr data 0"

section \<open>The reader\<close>

record ef_bio_reader =
  br_fd :: int
  br_offset :: nat
  br_buffer :: ef_buffer

definition ef_bio_reader_new :: "mem \<Rightarrow> int \<Rightarrow> u64 \<Rightarrow> ef_bio_reader option \<times> mem" where
  "ef_bio_reader_new m fd buf_size =
     (let (ok, m) = malloc_obj m
      in if \<not> ok then (None, m)
         else let (b, m) = ef_buffer_new m buf_size
              in case b of
                   None \<Rightarrow> (None, m)
                 | Some b \<Rightarrow> (Some \<lparr>br_fd = fd, br_offset = 0, br_buffer = b\<rparr>, m))"

text \<open>The length of the buffer, and the block its pointer addresses.\<close>

abbreviation b_len :: "ef_bio_reader \<Rightarrow> nat" where
  "b_len r \<equiv> unat (eb_len (br_buffer r))"

abbreviation b_cap :: "ef_bio_reader \<Rightarrow> nat" where
  "b_cap r \<equiv> unat (eb_cap (br_buffer r))"

definition ef_bio_reader_free :: "ef_bio_reader \<Rightarrow> ef_buffer option" where
  "ef_bio_reader_free reader = ef_buffer_free (br_buffer reader) True"

definition reset_reader :: "ef_bio_reader \<Rightarrow> ef_bio_reader" where
  "reset_reader r = r\<lparr>br_buffer := (br_buffer r)\<lparr>eb_len := 0\<rparr>, br_offset := 0\<rparr>"

text \<open>\<open>buf\<close> is the caller's block.\<close>

definition ef_bio_read ::
    "ef_bio_reader \<Rightarrow> resp list \<Rightarrow> byte list \<Rightarrow> nat \<Rightarrow> (int \<times> byte list \<times> ef_bio_reader \<times> resp list) option" where
  "ef_bio_read reader inp buf n =
     (if n \<le> b_len reader - br_offset reader
      then do { d \<leftarrow> read_ptr (eb_ptr (br_buffer reader)) (br_offset reader) n;
                buf \<leftarrow> write_block buf 0 d;
                Some (int n, buf, reader\<lparr>br_offset := br_offset reader + n\<rparr>, inp) }
      else do {
        let offset = b_len reader - br_offset reader;
        d \<leftarrow> read_ptr (eb_ptr (br_buffer reader)) (br_offset reader) offset;
        buf \<leftarrow> write_block buf 0 d;
        let reader = reset_reader reader;
        let need = n - offset;
        if need > b_cap reader div 4
        then do { (r, buf, inp) \<leftarrow> ef_safe_read inp buf offset need 0; Some (r, buf, reader, inp) }
        else do {
          b \<leftarrow> eb_ptr (br_buffer reader);
          (reads, b, inp) \<leftarrow> ef_safe_read inp b 0 need (b_cap reader);
          let reader = reader\<lparr>br_buffer := (br_buffer reader)\<lparr>eb_ptr := Some b\<rparr>\<rparr>;
          if reads < 0 then Some (reads, buf, reader, inp)
          else do {
            let reader = reader\<lparr>br_buffer := (br_buffer reader)\<lparr>eb_len := of_int reads\<rparr>\<rparr>;
            let need = (if int need > reads then nat reads else need);
            d \<leftarrow> read_block b 0 need;
            buf \<leftarrow> write_block buf offset d;
            Some (int need, buf, reader\<lparr>br_offset := need\<rparr>, inp) } } })"

text \<open>
  The loop of \<^verbatim>\<open>ef_bio_reader_skip\<close>.  It ends only when enough bytes have come or a read
  fails, so it may run forever: \<open>None\<close> stands for that too.
\<close>

fun skip_loop :: "nat \<Rightarrow> ef_bio_reader \<Rightarrow> resp list \<Rightarrow> nat \<Rightarrow> nat \<Rightarrow> (int \<times> ef_bio_reader \<times> resp list) option" where
  "skip_loop 0 reader inp remain n = None"
| "skip_loop (Suc fuel) reader inp remain n =
     (if 0 < remain
      then do {
        let need = (if remain < b_cap reader then remain else b_cap reader);
        let b = (case eb_ptr (br_buffer reader) of None \<Rightarrow> [] | Some b \<Rightarrow> b);
        (reads, b, inp) \<leftarrow> ef_safe_read inp b 0 need need;
        let reader = (if eb_ptr (br_buffer reader) = None then reader
                      else reader\<lparr>br_buffer := (br_buffer reader)\<lparr>eb_ptr := Some b\<rparr>\<rparr>);
        if reads < 0 then Some (reads, reader, inp)
        else skip_loop fuel reader inp (remain - nat reads) n }
      else Some (int n, reader, inp))"

definition ef_bio_reader_skip ::
    "nat \<Rightarrow> ef_bio_reader \<Rightarrow> resp list \<Rightarrow> nat \<Rightarrow> (int \<times> ef_bio_reader \<times> resp list) option" where
  "ef_bio_reader_skip fuel reader inp n =
     (if n \<le> b_len reader - br_offset reader
      then Some (int n, reader\<lparr>br_offset := br_offset reader + n\<rparr>, inp)
      else let remain = n + br_offset reader - b_len reader
           in skip_loop fuel (reset_reader reader) inp remain n)"

section \<open>The writer\<close>

record ef_bio_writer =
  bw_fd :: int
  bw_buffer :: ef_buffer

definition ef_bio_writer_new :: "mem \<Rightarrow> int \<Rightarrow> u64 \<Rightarrow> ef_bio_writer option \<times> mem" where
  "ef_bio_writer_new m fd buf_size =
     (let (ok, m) = malloc_obj m
      in if \<not> ok then (None, m)
         else let (b, m) = ef_buffer_new m buf_size
              in case b of
                   None \<Rightarrow> (None, m)
                 | Some b \<Rightarrow> (Some \<lparr>bw_fd = fd, bw_buffer = b\<rparr>, m))"

definition ef_bio_writer_free :: "ef_bio_writer \<Rightarrow> ef_buffer option" where
  "ef_bio_writer_free writer = ef_buffer_free (bw_buffer writer) True"

definition writer_clear :: "ef_bio_writer \<Rightarrow> ef_bio_writer" where
  "writer_clear w = w\<lparr>bw_buffer := (bw_buffer w)\<lparr>eb_len := 0\<rparr>\<rparr>"

text \<open>The result: return value, writer, bytes that went out, rest of the script, memory.\<close>

definition ef_bio_write ::
    "mem \<Rightarrow> ef_bio_writer \<Rightarrow> wresp list \<Rightarrow> byte list \<Rightarrow> (int \<times> ef_bio_writer \<times> byte list \<times> wresp list \<times> mem) option" where
  "ef_bio_write m writer scr buf =
     (let n = length buf; held = unat (eb_len (bw_buffer writer)); cap = unat (eb_cap (bw_buffer writer))
      in if held + n > cap \<or> cap div 4 < n
         then if held \<noteq> 0
              then do {
                d \<leftarrow> read_ptr (eb_ptr (bw_buffer writer)) 0 held;
                (r, out, scr) \<leftarrow> ef_safe_write scr d;
                if r < 0 then Some (- 1, writer, out, scr, m)
                else do { (r, out', scr) \<leftarrow> ef_safe_write scr buf;
                          Some (r, writer_clear writer, out @ out', scr, m) } }
              else do { (r, out, scr) \<leftarrow> ef_safe_write scr buf; Some (r, writer, out, scr, m) }
         else do { (r, b, m) \<leftarrow> ef_buffer_append m (bw_buffer writer) buf;
                   if r < 0 then Some (- 1, writer\<lparr>bw_buffer := b\<rparr>, [], scr, m)
                   else Some (int n, writer\<lparr>bw_buffer := b\<rparr>, [], scr, m) })"

definition ef_bio_writer_flush ::
    "ef_bio_writer \<Rightarrow> wresp list \<Rightarrow> (int \<times> ef_bio_writer \<times> byte list \<times> wresp list) option" where
  "ef_bio_writer_flush writer scr =
     (if eb_len (bw_buffer writer) = 0 then Some (0, writer, [], scr)
      else do { d \<leftarrow> read_ptr (eb_ptr (bw_buffer writer)) 0 (unat (eb_len (bw_buffer writer)));
                (written, out, scr) \<leftarrow> ef_safe_write scr d;
                if written < 0 then Some (written, writer, out, scr)
                else Some (written, writer_clear writer, out, scr) })"

end
