(* ===== verification/BufferioCorrect.thy ===== *)
theory BufferioCorrect
  imports EfBufferio
begin

text \<open>
  What buffered I/O preserves: the reader hands out the incoming stream in order, the writer
  puts on the wire, or still holds, exactly what it was given.
\<close>

section \<open>Reading\<close>

fun incoming :: "resp list \<Rightarrow> byte list" where
  "incoming [] = []"
| "incoming (Data bs # inp) = (if bs = [] then [] else bs @ incoming inp)"
| "incoming (Stop r e # inp) =
     (if e = EINTR \<or> e = 0 \<and> r < 0 then incoming inp else [])"

text \<open>\<^verbatim>\<open>ef_routine_read\<close> sets \<^verbatim>\<open>errno\<close> exactly when it returns a negative number.\<close>

fun resp_ok :: "resp \<Rightarrow> bool" where
  "resp_ok (Data bs) = True"
| "resp_ok (Stop r e) = (r < 0 \<or> e = 0)"

text \<open>The outcome of reading into \<open>b\<close> at \<open>pos\<close> with at least \<open>n\<close> bytes wanted and room for \<open>room\<close>.\<close>

definition read_result ::
    "resp list \<Rightarrow> byte list \<Rightarrow> nat \<Rightarrow> nat \<Rightarrow> nat \<Rightarrow> nat \<Rightarrow> int \<times> byte list \<times> resp list \<Rightarrow> bool" where
  "read_result inp b pos got n room res =
     (case res of (r, b', inp') \<Rightarrow>
        length b' = length b \<and> (\<forall>x \<in> set inp'. resp_ok x) \<and>
        (r < 0 \<or>
         (\<exists>d. r = int (got + length d) \<and> length d \<le> room \<and>
            b' = take pos b @ d @ drop (pos + length d) b \<and>
            (n \<le> length d \<and> incoming inp = d @ incoming inp' \<or> length d < n \<and> incoming inp = d))))"

lemma read_result_done: "\<forall>x \<in> set inp. resp_ok x \<Longrightarrow> read_result inp b pos got 0 room (int got, b, inp)"
  by (auto simp: read_result_def)

lemma read_result_retry:
  "read_result inp' b pos got n room res \<Longrightarrow> incoming inp = incoming inp' \<Longrightarrow> read_result inp b pos got n room res"
  by (auto simp: read_result_def)

lemma read_result_eof:
  "incoming inp = [] \<Longrightarrow> 0 < n \<Longrightarrow> \<forall>x \<in> set inp'. resp_ok x \<Longrightarrow> read_result inp b pos got n room (int got, b, inp')"
  by (auto simp: read_result_def)

lemma read_result_fail:
  "r < 0 \<Longrightarrow> \<forall>x \<in> set inp'. resp_ok x \<Longrightarrow> read_result inp b pos got n room (r, b, inp')"
  by (simp add: read_result_def)

lemma read_result_more:
  assumes "read_result inp' (take pos b @ d @ drop (pos + length d) b) (pos + length d) (got + length d)
             (n - length d) (room - length d) res"
    and "incoming inp = d @ incoming inp'" "length d \<le> room" "pos + room \<le> length b" "n \<le> room"
  shows "read_result inp b pos got n room res"
proof -
  obtain r b' inp2 where res: "res = (r, b', inp2)" by (cases res) auto
  show ?thesis
  proof (cases "r < 0")
    case True
    with assms show ?thesis by (auto simp: read_result_def res)
  next
    case False
    with assms(1) have "length b' = length (take pos b @ d @ drop (pos + length d) b)" "\<forall>x \<in> set inp2. resp_ok x"
      "\<exists>d2. r = int (got + length d + length d2) \<and> length d2 \<le> room - length d \<and>
        b' = take (pos + length d) (take pos b @ d @ drop (pos + length d) b) @ d2 @
         drop (pos + length d + length d2) (take pos b @ d @ drop (pos + length d) b) \<and>
        (n - length d \<le> length d2 \<and> incoming inp' = d2 @ incoming inp2 \<or>
         length d2 < n - length d \<and> incoming inp' = d2)"
      unfolding read_result_def res prod.case by blast+
    then obtain d2 where d2: "r = int (got + length d + length d2)" "length d2 \<le> room - length d"
      "b' = take (pos + length d) (take pos b @ d @ drop (pos + length d) b) @ d2 @
         drop (pos + length d + length d2) (take pos b @ d @ drop (pos + length d) b)"
      "n - length d \<le> length d2 \<and> incoming inp' = d2 @ incoming inp2 \<or>
       length d2 < n - length d \<and> incoming inp' = d2"
      "length b' = length (take pos b @ d @ drop (pos + length d) b)" "\<forall>x \<in> set inp2. resp_ok x"
      by blast
    have pos: "length (take pos b) = pos" using assms(4) by simp
    have "take (pos + length d) (take pos b @ d @ drop (pos + length d) b) = take pos b @ d"
      using pos by (simp only: take_append length_append) simp
    moreover have "drop (pos + length d + length d2) (take pos b @ d @ drop (pos + length d) b) =
        drop (pos + length (d @ d2)) b"
      using pos by (simp only: drop_append length_append drop_drop) (simp add: ac_simps)
    ultimately have b': "b' = take pos b @ (d @ d2) @ drop (pos + length (d @ d2)) b"
      using d2(3) by (simp only: append_assoc)
    have "length b' = length b" using d2(5) assms(3,4) by simp
    moreover have "r = int (got + length (d @ d2))" "length (d @ d2) \<le> room"
      "n \<le> length (d @ d2) \<and> incoming inp = (d @ d2) @ incoming inp2 \<or> length (d @ d2) < n \<and> incoming inp = d @ d2"
      using d2(1,2,4) assms(2,3) by auto
    ultimately show ?thesis unfolding read_result_def res prod.case using d2(6) b' by blast
  qed
qed

lemma safe_read_loop_result:
  assumes "\<forall>x \<in> set inp. resp_ok x" "n \<le> cap" "base + cap \<le> length b" "offset \<le> cap"
    and "length inp + 2 \<le> fuel \<or> n \<le> offset \<and> 1 \<le> fuel"
  shows "\<exists>res. safe_read_loop fuel inp b base offset n cap = Some res \<and>
           read_result inp b (base + offset) offset (n - offset) (cap - offset) res"
  using assms
proof (induction fuel arbitrary: inp b offset)
  case 0
  then show ?case by simp
next
  case (Suc fuel)
  show ?case
  proof (cases "offset < n")
    case False
    with Suc.prems(1) show ?thesis by (simp add: read_result_done)
  next
    case True
    then have fuel: "length inp + 1 \<le> fuel" using Suc.prems(5) by simp
    have more: ?thesis
      if r: "wrap_read inp (cap - offset) = (int (length d), 0, d, inp')" "d \<noteq> []"
        "length d \<le> cap - offset" "incoming inp = d @ incoming inp'"
        "\<forall>x \<in> set inp'. resp_ok x" "length inp' + 2 \<le> fuel \<or> n \<le> offset + length d \<and> 1 \<le> fuel" for d inp'
    proof -
      let ?b = "take (base + offset) b @ d @ drop (base + offset + length d) b"
      have w: "write_block b (base + offset) d = Some ?b"
        using r(3) Suc.prems(3) True Suc.prems(2) by (simp add: write_block_def)
      have "\<exists>res. safe_read_loop fuel inp' ?b base (offset + length d) n cap = Some res \<and>
          read_result inp' ?b (base + (offset + length d)) (offset + length d)
            (n - (offset + length d)) (cap - (offset + length d)) res"
        using Suc.prems r by (intro Suc.IH) auto
      then obtain res where res: "safe_read_loop fuel inp' ?b base (offset + length d) n cap = Some res"
        "read_result inp' ?b (base + offset + length d) (offset + length d)
            ((n - offset) - length d) ((cap - offset) - length d) res"
        by (auto simp: add.assoc)
      have "read_result inp b (base + offset) offset (n - offset) (cap - offset) res"
        by (rule read_result_more [OF res(2) r(4,3)]) (use Suc.prems in auto)
      with res(1) w r(1,2) True show ?thesis by simp
    qed
    show ?thesis
    proof (cases inp)
      case Nil
      with True show ?thesis by (simp add: read_result_eof)
    next
      case (Cons x inp')
      show ?thesis
      proof (cases x)
        case (Data bs)
        show ?thesis
        proof (cases "bs = []")
          case True
          with Data Cons Suc.prems(1) \<open>offset < n\<close> show ?thesis by (simp add: read_result_eof)
        next
          case bs: False
          show ?thesis
          proof (cases "length bs \<le> cap - offset")
            case True
            then show ?thesis using Data Cons bs Suc.prems fuel by (intro more [of bs inp']) auto
          next
            case False
            then show ?thesis
              using Data Cons bs Suc.prems fuel \<open>offset < n\<close>
              by (intro more [of "take (cap - offset) bs" "Data (drop (cap - offset) bs) # inp'"])
                (auto simp: min_def)
          qed
        qed
      next
        case (Stop r e)
        show ?thesis
        proof (cases "e = EINTR \<or> e = 0 \<and> r < 0")
          case retry: True
          have step: "safe_read_loop (Suc fuel) inp b base offset n cap =
              safe_read_loop fuel inp' b base offset n cap"
            using retry Stop Cons True by (auto simp: EINTR_def)
          have "\<exists>res. safe_read_loop fuel inp' b base offset n cap = Some res \<and>
              read_result inp' b (base + offset) offset (n - offset) (cap - offset) res"
            using Suc.prems Cons fuel by (intro Suc.IH) auto
          then obtain res where res: "safe_read_loop fuel inp' b base offset n cap = Some res"
            "read_result inp' b (base + offset) offset (n - offset) (cap - offset) res" by blast
          have "incoming inp = incoming inp'" using retry Stop Cons by auto
          with res show ?thesis unfolding step using read_result_retry by blast
        next
          case False
          with Stop Cons Suc.prems(1) True show ?thesis
            by (cases "e = 0") (auto simp: min_def intro: read_result_eof read_result_fail)
        qed
      qed
    qed
  qed
qed

lemma ef_safe_read_result:
  assumes "\<forall>x \<in> set inp. resp_ok x" "base + max n cap \<le> length b"
  obtains res where "ef_safe_read inp b base n cap = Some res" "read_result inp b base 0 n (max n cap) res"
proof -
  let ?cap = "if cap < n then n else cap"
  have m: "?cap = max n cap" by simp
  have "\<exists>res. safe_read_loop (length inp + 2) inp b base 0 n ?cap = Some res \<and>
           read_result inp b (base + 0) 0 (n - 0) (?cap - 0) res"
    using assms by (intro safe_read_loop_result) auto
  then show thesis using that by (auto simp: ef_safe_read_def m Let_def simp del: safe_read_loop.simps)
qed

section \<open>The reader\<close>

definition br_inv :: "ef_bio_reader \<Rightarrow> bool" where
  "br_inv r \<longleftrightarrow> eb_inv (br_buffer r) \<and> br_offset r \<le> b_len r"

text \<open>The bytes the reader holds, and all that is still to be read.\<close>

definition br_held :: "ef_bio_reader \<Rightarrow> byte list" where
  "br_held r = drop (br_offset r) (eb_bytes (br_buffer r))"

definition br_pending :: "ef_bio_reader \<Rightarrow> resp list \<Rightarrow> byte list" where
  "br_pending r inp = br_held r @ incoming inp"

lemma br_held_length: "br_inv r \<Longrightarrow> length (br_held r) = b_len r - br_offset r"
  by (simp add: br_held_def br_inv_def eb_inv_len)

lemma br_held_read:
  assumes "br_inv r" "n \<le> length (br_held r)"
  shows "read_ptr (eb_ptr (br_buffer r)) (br_offset r) n = Some (take n (br_held r))"
proof (cases "n = 0")
  case False
  with assms obtain b where b: "eb_ptr (br_buffer r) = Some b"
    by (cases "eb_ptr (br_buffer r)") (auto simp: br_held_def eb_bytes_def eb_block_def)
  have "b_len r \<le> length b" using assms(1) b by (simp add: br_inv_def eb_inv_def eb_block_def word_le_nat_alt)
  then show ?thesis
    using assms False b br_held_length [OF assms(1)]
    by (auto simp: read_ptr_def read_block_def br_held_def eb_bytes_def eb_block_def drop_take min_def)
qed (simp add: read_ptr_def)

lemma reset_reader_simps [simp]:
  "br_inv r \<Longrightarrow> br_inv (reset_reader r)" "br_held (reset_reader r) = []" "b_cap (reset_reader r) = b_cap r"
  "eb_ptr (br_buffer (reset_reader r)) = eb_ptr (br_buffer r)" "br_offset (reset_reader r) = 0"
  by (simp_all add: reset_reader_def br_inv_def br_held_def eb_bytes_def eb_inv_def eb_block_def)

text \<open>
  What a read does to the caller's block: it gets the next \<open>k\<close> pending bytes, where \<open>k\<close> is
  \<open>n\<close>, or less when the input ends before.
\<close>

definition delivered :: "ef_bio_reader \<Rightarrow> resp list \<Rightarrow> byte list \<Rightarrow> nat \<Rightarrow> nat \<Rightarrow>
    byte list \<times> ef_bio_reader \<times> resp list \<Rightarrow> bool" where
  "delivered r inp buf n k res =
     (case res of (buf', r', inp') \<Rightarrow>
        k \<le> n \<and> buf' = take k (br_pending r inp) @ drop k buf \<and>
        (k = n \<and> length (take n (br_pending r inp)) = n \<and> br_pending r' inp' = drop n (br_pending r inp) \<or>
         k < n \<and> length (br_pending r inp) = k))"

lemma delivered_prefix:
  "n \<le> length (br_held r) \<Longrightarrow> br_pending r' inp' = drop n (br_pending r inp) \<Longrightarrow>
     delivered r inp buf n n (take n (br_held r) @ drop n buf, r', inp')"
  by (simp add: delivered_def br_pending_def)

lemma ef_bio_read_held:
  assumes "br_inv r" "n \<le> length buf" "n \<le> length (br_held r)"
  obtains buf' r' where "ef_bio_read r inp buf n = Some (int n, buf', r', inp)" "br_inv r'"
    "delivered r inp buf n n (buf', r', inp)"
proof -
  let ?r = "r\<lparr>br_offset := br_offset r + n\<rparr>"
  have le: "n \<le> b_len r - br_offset r" using assms(3) br_held_length [OF assms(1)] by simp
  have w: "write_block buf 0 (take n (br_held r)) = Some (take n (br_held r) @ drop n buf)"
    using assms(2,3) by (simp add: write_block_def)
  have eq: "ef_bio_read r inp buf n = Some (int n, take n (br_held r) @ drop n buf, ?r, inp)"
    using le br_held_read [OF assms(1,3)] w by (simp add: ef_bio_read_def)
  have "br_pending ?r inp = drop n (br_pending r inp)"
    using assms(3) by (simp add: br_pending_def br_held_def add.commute)
  then have d: "delivered r inp buf n n (take n (br_held r) @ drop n buf, ?r, inp)"
    using assms(3) by (intro delivered_prefix)
  have "br_offset r + n \<le> b_len r" using le assms(1) unfolding br_inv_def by linarith
  then show thesis by (intro that [OF eq _ d]) (use assms(1) in \<open>simp add: br_inv_def\<close>)
qed

text \<open>
  When the bytes held do not suffice, the return value counts only the bytes that came from
  the descriptor; the block has those that were held before them.
\<close>

lemma read_direct:
  assumes inv: "br_inv r" and n: "n \<le> length buf" "length (br_held r) < n" and rok: "\<forall>x \<in> set inp. resp_ok x"
    and big: "b_cap r div 4 < n - length (br_held r)"
  obtains (fail) ret buf' r' inp' where "ef_bio_read r inp buf n = Some (ret, buf', r', inp')" "ret < 0" "br_inv r'"
  | (ok) k buf' r' inp' where "ef_bio_read r inp buf n = Some (int k - int (length (br_held r)), buf', r', inp')"
      "length (br_held r) \<le> k" "br_inv r'" "delivered r inp buf n k (buf', r', inp')"
proof -
  let ?h = "br_held r" and ?o = "length (br_held r)"
  let ?need = "n - ?o"
  have o: "b_len r - br_offset r = ?o" using br_held_length [OF inv] by simp
  define buf1 where "buf1 = ?h @ drop ?o buf"
  have w: "write_block buf 0 ?h = Some buf1" using n by (simp add: write_block_def buf1_def)
  have l1: "length buf1 = length buf" using n by (simp add: buf1_def)
  have rd: "read_ptr (eb_ptr (br_buffer r)) (br_offset r) ?o = Some ?h"
    using br_held_read [OF inv, of ?o] by simp
  have pend: "br_pending r inp = ?h @ incoming inp" by (simp add: br_pending_def)
  have room: "?o + max ?need 0 \<le> length buf1" using n l1 by simp
  obtain ret buf2 inp' where s: "ef_safe_read inp buf1 ?o ?need 0 = Some (ret, buf2, inp')"
    "read_result inp buf1 ?o 0 ?need ?need (ret, buf2, inp')"
    by (rule ef_safe_read_result [OF rok room]) (metis max_0R prod_cases3)
  have eq: "ef_bio_read r inp buf n = Some (ret, buf2, reset_reader r, inp')"
    using big n o rd w s(1) by (simp add: ef_bio_read_def Let_def)
  show thesis
  proof (cases "ret < 0")
    case True
    show thesis by (rule fail [OF eq True]) (simp add: inv)
  next
    case False
    then obtain d where d: "ret = int (length d)" "length d \<le> ?need"
      "buf2 = take ?o buf1 @ d @ drop (?o + length d) buf1"
      "?need \<le> length d \<and> incoming inp = d @ incoming inp' \<or> length d < ?need \<and> incoming inp = d"
      using s(2) by (auto simp: read_result_def)
    have "buf2 = ?h @ d @ drop (?o + length d) buf" using d(3) by (simp add: buf1_def add.commute)
    then have del: "delivered r inp buf n (?o + length d) (buf2, reset_reader r, inp')"
      using d(2,4) n by (auto simp: delivered_def pend br_pending_def add.commute)
    have "ef_bio_read r inp buf n = Some (int (?o + length d) - int ?o, buf2, reset_reader r, inp')"
      using eq d(1) by simp
    then show thesis by (rule ok) (use inv del in simp_all)
  qed
qed

lemma read_refill:
  assumes inv: "br_inv r" and n: "n \<le> length buf" "length (br_held r) < n" and rok: "\<forall>x \<in> set inp. resp_ok x"
    and small: "\<not> b_cap r div 4 < n - length (br_held r)"
  obtains (fail) ret buf' r' inp' where "ef_bio_read r inp buf n = Some (ret, buf', r', inp')" "ret < 0" "br_inv r'"
  | (ok) k buf' r' inp' where "ef_bio_read r inp buf n = Some (int k - int (length (br_held r)), buf', r', inp')"
      "length (br_held r) \<le> k" "br_inv r'" "delivered r inp buf n k (buf', r', inp')"
proof -
  let ?h = "br_held r" and ?o = "length (br_held r)"
  let ?need = "n - ?o"
  have o: "b_len r - br_offset r = ?o" using br_held_length [OF inv] by simp
  define buf1 where "buf1 = ?h @ drop ?o buf"
  have w: "write_block buf 0 ?h = Some buf1" using n by (simp add: write_block_def buf1_def)
  have l1: "length buf1 = length buf" using n by (simp add: buf1_def)
  have rd: "read_ptr (eb_ptr (br_buffer r)) (br_offset r) ?o = Some ?h"
    using br_held_read [OF inv, of ?o] by simp
  have pend: "br_pending r inp = ?h @ incoming inp" by (simp add: br_pending_def)
  have need: "?need \<le> b_cap r" and pos: "0 < b_cap r" using small n by linarith+
  obtain b where b: "eb_ptr (br_buffer r) = Some b" "length b = b_cap r"
    using inv pos by (cases "eb_ptr (br_buffer r)") (auto simp: br_inv_def eb_inv_def eb_block_def)
  have room: "0 + max ?need (b_cap r) \<le> length b" using need b by simp
  obtain reads b2 inp' where s: "ef_safe_read inp b 0 ?need (b_cap r) = Some (reads, b2, inp')"
    "read_result inp b 0 0 ?need (b_cap r) (reads, b2, inp')"
    by (rule ef_safe_read_result [OF rok room]) (metis max.absorb2 need prod_cases3)
  define r2 where "r2 = (reset_reader r)\<lparr>br_buffer := (br_buffer (reset_reader r))\<lparr>eb_ptr := Some b2\<rparr>\<rparr>"
  have lb2: "length b2 = b_cap r" using s(2) b(2) by (simp add: read_result_def)
  have inv2: "br_inv r2"
    using inv lb2 by (simp add: r2_def br_inv_def reset_reader_def eb_inv_def eb_block_def)
  show thesis
  proof (cases "reads < 0")
    case True
    have eq: "ef_bio_read r inp buf n = Some (reads, buf1, r2, inp')"
      using True small n o rd w s(1) b by (simp add: ef_bio_read_def Let_def r2_def)
    show thesis by (rule fail [OF eq True inv2])
  next
    case pos_reads: False
    then obtain d where d: "reads = int (length d)" "length d \<le> b_cap r" "b2 = d @ drop (length d) b"
      "?need \<le> length d \<and> incoming inp = d @ incoming inp' \<or> length d < ?need \<and> incoming inp = d"
      using s(2) by (auto simp: read_result_def)
    define k where "k = min ?need (length d)"
    have lw: "unat (of_nat (length d) :: u64) = length d"
      using d(2) unat_less_64 [of "eb_cap (br_buffer r)"] by (intro unat_of_nat_small) simp
    define r3 where "r3 = r2\<lparr>br_buffer := (br_buffer r2)\<lparr>eb_len := of_nat (length d)\<rparr>, br_offset := k\<rparr>"
    have rb: "read_block b2 0 k = Some (take k d)"
      using d(3) lb2 d(2) by (simp add: read_block_def k_def min_def)
    have wb: "write_block buf1 ?o (take k d) = Some (?h @ take k d @ drop (?o + k) buf)"
    proof -
      have "length (take k d) = k" by (simp add: k_def)
      moreover have "?o + k \<le> length buf1" using n l1 by (simp add: k_def)
      ultimately show ?thesis by (simp add: write_block_def buf1_def add.commute)
    qed
    have kk: "(if int ?need > reads then nat reads else ?need) = k" using d(1) by (auto simp: k_def)
    have eq: "ef_bio_read r inp buf n = Some (int (?o + k) - int ?o, ?h @ take k d @ drop (?o + k) buf, r3, inp')"
    proof -
      have "ef_bio_read r inp buf n =
        do { let need = (if int ?need > reads then nat reads else ?need);
             d \<leftarrow> read_block b2 0 need;
             buf \<leftarrow> write_block buf1 ?o d;
             Some (int need, buf, r2\<lparr>br_buffer := (br_buffer r2)\<lparr>eb_len := of_int reads\<rparr>, br_offset := need\<rparr>, inp') }"
        using pos_reads small n o rd w s(1) b by (simp add: ef_bio_read_def Let_def r2_def)
      then show ?thesis unfolding kk by (simp add: rb wb r3_def d(1))
    qed
    have held3: "br_held r3 = drop k d"
      by (simp add: br_held_def r3_def r2_def eb_bytes_def eb_block_def lw d(3))
    have del: "delivered r inp buf n (?o + k) (?h @ take k d @ drop (?o + k) buf, r3, inp')"
      using d(4)
    proof
      assume a: "?need \<le> length d \<and> incoming inp = d @ incoming inp'"
      then have "n \<le> ?o + length d" by linarith
      with a have "k = ?need" "n \<le> ?o + length d" "n - (?o + length d) = 0" by (simp_all add: k_def)
      with a n show ?thesis by (simp add: delivered_def pend br_pending_def held3)
    next
      assume "length d < ?need \<and> incoming inp = d"
      then show ?thesis using n by (auto simp: delivered_def pend br_pending_def k_def)
    qed
    have "br_inv r3"
      using inv2 d(2) lw by (simp add: br_inv_def r3_def eb_inv_def eb_block_def word_le_nat_alt r2_def
          reset_reader_def k_def)
    then show thesis using eq del by (intro ok [of "?o + k"]) simp_all
  qed
qed

lemma ef_bio_read_more:
  assumes inv: "br_inv r" and n: "n \<le> length buf" "length (br_held r) < n" and rok: "\<forall>x \<in> set inp. resp_ok x"
  obtains (fail) ret buf' r' inp' where "ef_bio_read r inp buf n = Some (ret, buf', r', inp')" "ret < 0" "br_inv r'"
  | (ok) k buf' r' inp' where "ef_bio_read r inp buf n = Some (int k - int (length (br_held r)), buf', r', inp')"
      "length (br_held r) \<le> k" "br_inv r'" "delivered r inp buf n k (buf', r', inp')"
proof (cases "b_cap r div 4 < n - length (br_held r)")
  case True
  show thesis by (rule read_direct [OF assms True]) (fact fail, fact ok)
next
  case False
  show thesis by (rule read_refill [OF assms False]) (fact fail, fact ok)
qed

text \<open>At the end of the input the skip loop turns for ever.\<close>

lemma skip_loop_eof: "0 < remain \<Longrightarrow> skip_loop fuel r [] remain n = None"
proof (induction fuel arbitrary: r)
  case (Suc fuel)
  have "ef_safe_read [] b 0 k k = Some (0, b, [])" for b k
    by (simp add: ef_safe_read_def numeral_2_eq_2)
  with Suc show ?case by (auto simp: Let_def split: option.splits intro!: Suc.IH)
qed simp

section \<open>Writing\<close>

fun wresp_ok :: "wresp \<Rightarrow> bool" where
  "wresp_ok (Took k) = True"
| "wresp_ok (Refuse r e) = (r < 0 \<or> e = 0)"

text \<open>All bytes are sent in order, or a prefix of them and an error is returned.\<close>

definition write_result :: "byte list \<Rightarrow> nat \<Rightarrow> int \<times> byte list \<times> wresp list \<Rightarrow> bool" where
  "write_result data offset res =
     (case res of (r, out, scr') \<Rightarrow>
        (\<forall>x \<in> set scr'. wresp_ok x) \<and>
        (r < 0 \<and> (\<exists>rest. data = out @ rest) \<or> r = int (offset + length data) \<and> out = data))"

lemma safe_write_loop_result:
  assumes "\<forall>x \<in> set scr. wresp_ok x" "length scr + 2 \<le> fuel \<or> data = [] \<and> 1 \<le> fuel"
  shows "\<exists>res. safe_write_loop fuel scr data offset = Some res \<and> write_result data offset res"
  using assms
proof (induction fuel arbitrary: scr data offset)
  case 0
  then show ?case by simp
next
  case (Suc fuel)
  show ?case
  proof (cases "data = []")
    case True
    with Suc.prems(1) show ?thesis by (simp add: write_result_def)
  next
    case False
    then have fuel: "length scr + 1 \<le> fuel" using Suc.prems(2) by simp
    have more: ?thesis
      if w: "wrap_write scr data = (int k, 0, take k data, scr')" "0 < k" "k \<le> length data"
        "\<forall>x \<in> set scr'. wresp_ok x" "length scr' + 2 \<le> fuel \<or> drop k data = [] \<and> 1 \<le> fuel" for k scr'
    proof -
      obtain res where res: "safe_write_loop fuel scr' (drop k data) (offset + k) = Some res"
        "write_result (drop k data) (offset + k) res"
        using Suc.IH [OF w(4,5)] by blast
      obtain r out scr2 where r: "res = (r, out, scr2)" by (cases res) auto
      have eq: "safe_write_loop (Suc fuel) scr data offset = Some (r, take k data @ out, scr2)"
        using False w(1,2) res(1) by (simp add: r)
      have "write_result data offset (r, take k data @ out, scr2)"
        using res(2) w(3) unfolding write_result_def r prod.case
        by (metis append.assoc append_take_drop_id add.assoc length_drop le_add_diff_inverse)
      with eq show ?thesis by blast
    qed
    have retry: ?thesis
      if w: "\<forall>x \<in> set scr'. wresp_ok x" "length scr' + 2 \<le> fuel"
        "safe_write_loop (Suc fuel) scr data offset = safe_write_loop fuel scr' data offset" for scr'
      using Suc.IH [of scr' data offset] w by auto
    show ?thesis
    proof (cases scr)
      case Nil
      with False fuel show ?thesis by (intro more [of "length data" "[]"]) auto
    next
      case (Cons x scr')
      show ?thesis
      proof (cases x)
        case (Took k)
        show ?thesis
        proof (cases "k = 0")
          case True
          with Cons Took False Suc.prems fuel show ?thesis by (intro retry [of scr']) auto
        next
          case k: False
          with Cons Took False Suc.prems fuel show ?thesis
            by (intro more [of "min k (length data)" scr']) (auto simp: min_def)
        qed
      next
        case (Refuse r e)
        show ?thesis
        proof (cases "e \<noteq> 0 \<and> e \<noteq> EINTR")
          case True
          with Cons Refuse False Suc.prems show ?thesis by (auto simp: write_result_def min_def)
        next
          case e: False
          with Cons Refuse False Suc.prems fuel show ?thesis by (intro retry [of scr']) auto
        qed
      qed
    qed
  qed
qed

lemma ef_safe_write_cases:
  assumes "\<forall>x \<in> set scr. wresp_ok x"
  obtains (fail) r out rest scr' where "ef_safe_write scr data = Some (r, out, scr')" "r < 0" "data = out @ rest"
      "\<forall>x \<in> set scr'. wresp_ok x"
  | (ok) scr' where "ef_safe_write scr data = Some (int (length data), data, scr')" "\<forall>x \<in> set scr'. wresp_ok x"
  using safe_write_loop_result [of scr "length scr + 2" data 0] assms
  by (auto simp: ef_safe_write_def write_result_def simp del: safe_write_loop.simps)

section \<open>The writer\<close>

definition bw_inv :: "ef_bio_writer \<Rightarrow> bool" where
  "bw_inv w \<longleftrightarrow> eb_inv (bw_buffer w) \<and> unat (eb_cap (bw_buffer w)) \<le> 2 ^ 63"

definition bw_held :: "ef_bio_writer \<Rightarrow> byte list" where
  "bw_held w = eb_bytes (bw_buffer w)"

lemma bw_held_length: "bw_inv w \<Longrightarrow> length (bw_held w) = unat (eb_len (bw_buffer w))"
  by (simp add: bw_inv_def bw_held_def eb_inv_len)

lemma bw_held_read: "bw_inv w \<Longrightarrow>
   read_ptr (eb_ptr (bw_buffer w)) 0 (unat (eb_len (bw_buffer w))) = Some (bw_held w)"
  by (auto simp: bw_inv_def bw_held_def eb_bytes_def eb_inv_def eb_block_def read_ptr_def read_block_def
      word_le_nat_alt split: option.splits)

lemma writer_clear_simps [simp]: "bw_inv w \<Longrightarrow> bw_inv (writer_clear w)" "bw_held (writer_clear w) = []"
  by (simp_all add: writer_clear_def bw_inv_def bw_held_def eb_bytes_def eb_inv_def eb_block_def)

text \<open>A write that succeeds loses nothing: what went out and is held now is what was held and came in.\<close>

lemma ef_bio_write_cases:
  assumes inv: "bw_inv w" and scr: "\<forall>x \<in> set scr. wresp_ok x"
  obtains (fail) r w' out scr' m' where "ef_bio_write m w scr buf = Some (r, w', out, scr', m')" "r < 0" "bw_inv w'"
  | (ok) w' out scr' m' where "ef_bio_write m w scr buf = Some (int (length buf), w', out, scr', m')" "bw_inv w'"
      "out @ bw_held w' = bw_held w @ buf" "\<forall>x \<in> set scr'. wresp_ok x"
proof -
  let ?held = "unat (eb_len (bw_buffer w))" and ?cap = "unat (eb_cap (bw_buffer w))"
  show thesis
  proof (cases "?held + length buf > ?cap \<or> ?cap div 4 < length buf")
    case direct: True
    show thesis
    proof (cases "?held = 0")
      case True
      then have "bw_held w = []" using bw_held_length [OF inv] by simp
      show thesis
      proof (rule ef_safe_write_cases [OF scr, of buf])
        fix r out rest scr' assume "ef_safe_write scr buf = Some (r, out, scr')" "r < 0"
        then show thesis using direct True inv by (intro fail) (simp_all add: ef_bio_write_def Let_def)
      next
        fix scr' assume s: "ef_safe_write scr buf = Some (int (length buf), buf, scr')" "\<forall>x \<in> set scr'. wresp_ok x"
        have eq: "ef_bio_write m w scr buf = Some (int (length buf), w, buf, scr', m)"
          using s(1) direct True by (simp add: ef_bio_write_def Let_def)
        show thesis by (rule ok [OF eq inv _ s(2)]) (simp add: \<open>bw_held w = []\<close>)
      qed
    next
      case False
      note rd = bw_held_read [OF inv]
      show thesis
      proof (rule ef_safe_write_cases [OF scr, of "bw_held w"])
        fix r out rest scr' assume "ef_safe_write scr (bw_held w) = Some (r, out, scr')" "r < 0"
        then show thesis using direct False inv rd
          by (intro fail [of "- 1" w out scr' m]) (simp_all add: ef_bio_write_def Let_def)
      next
        fix scr1 assume s1: "ef_safe_write scr (bw_held w) = Some (int (length (bw_held w)), bw_held w, scr1)"
          "\<forall>x \<in> set scr1. wresp_ok x"
        show thesis
        proof (rule ef_safe_write_cases [OF s1(2), of buf])
          fix r out rest scr' assume "ef_safe_write scr1 buf = Some (r, out, scr')" "r < 0"
          then show thesis using direct False inv rd s1(1)
            by (intro fail [of r "writer_clear w" "bw_held w @ out" scr' m]) (simp_all add: ef_bio_write_def Let_def)
        next
          fix scr' assume "ef_safe_write scr1 buf = Some (int (length buf), buf, scr')" "\<forall>x \<in> set scr'. wresp_ok x"
          then show thesis using direct False inv rd s1(1)
            by (intro ok [of "writer_clear w" "bw_held w @ buf" scr' m]) (simp_all add: ef_bio_write_def Let_def)
        qed
      qed
    qed
  next
    case False
    have bi: "eb_inv (bw_buffer w)" and sz: "?held + length buf \<le> 2 ^ 63" "?held + length buf \<le> ?cap"
      using inv False by (auto simp: bw_inv_def)
    have "\<exists>b'. ef_buffer_append m (bw_buffer w) buf = Some (0, b', m) \<and> eb_inv b' \<and>
        eb_bytes b' = eb_bytes (bw_buffer w) @ buf \<and> eb_cap b' = eb_cap (bw_buffer w)"
      using append_room [OF bi sz(2), of 1 m] by (simp add: ef_buffer_append_def numeral_2_eq_2)
    then obtain b' where b: "ef_buffer_append m (bw_buffer w) buf = Some (0, b', m)" "eb_inv b'"
      "eb_bytes b' = eb_bytes (bw_buffer w) @ buf" "eb_cap b' = eb_cap (bw_buffer w)" by blast
    then have eq: "ef_bio_write m w scr buf = Some (int (length buf), w\<lparr>bw_buffer := b'\<rparr>, [], scr, m)"
      using False by (simp add: ef_bio_write_def Let_def)
    show thesis by (rule ok [OF eq]) (use b inv scr in \<open>simp_all add: bw_inv_def bw_held_def\<close>)
  qed
qed

lemma ef_bio_writer_flush_cases:
  assumes inv: "bw_inv w" and scr: "\<forall>x \<in> set scr. wresp_ok x"
  obtains (fail) r out rest scr' where "ef_bio_writer_flush w scr = Some (r, w, out, scr')" "r < 0"
      "bw_held w = out @ rest"
  | (ok) w' scr' where "ef_bio_writer_flush w scr = Some (int (length (bw_held w)), w', bw_held w, scr')"
      "bw_inv w'" "bw_held w' = []"
proof (cases "eb_len (bw_buffer w) = 0")
  case True
  then have "bw_held w = []" using bw_held_length [OF inv] by simp
  with True inv show thesis by (intro ok) (simp_all add: ef_bio_writer_flush_def)
next
  case False
  note rd = bw_held_read [OF inv]
  show thesis
  proof (rule ef_safe_write_cases [OF scr, of "bw_held w"])
    fix r out rest scr' assume "ef_safe_write scr (bw_held w) = Some (r, out, scr')" "r < 0" "bw_held w = out @ rest"
    then show thesis using False rd by (intro fail) (simp_all add: ef_bio_writer_flush_def)
  next
    fix scr' assume "ef_safe_write scr (bw_held w) = Some (int (length (bw_held w)), bw_held w, scr')"
    then show thesis using False rd inv by (intro ok [of "writer_clear w" scr']) (simp_all add: ef_bio_writer_flush_def)
  qed
qed

text \<open>A sequence of writes, stopped at the first error.\<close>

fun write_all :: "mem \<Rightarrow> ef_bio_writer \<Rightarrow> wresp list \<Rightarrow> byte list list \<Rightarrow>
    (bool \<times> ef_bio_writer \<times> byte list \<times> wresp list) option" where
  "write_all m w scr [] = Some (True, w, [], scr)"
| "write_all m w scr (d # ds) =
     do { (r, w, out, scr, m) \<leftarrow> ef_bio_write m w scr d;
          if r < 0 then Some (False, w, out, scr)
          else do { (ok, w, out', scr) \<leftarrow> write_all m w scr ds; Some (ok, w, out @ out', scr) } }"

lemma write_all_wire:
  assumes "bw_inv w" "\<forall>x \<in> set scr. wresp_ok x"
  shows "\<exists>ok w' out scr'. write_all m w scr ds = Some (ok, w', out, scr') \<and> bw_inv w' \<and>
    (ok \<longrightarrow> out @ bw_held w' = bw_held w @ concat ds \<and> (\<forall>x \<in> set scr'. wresp_ok x))"
  using assms
proof (induction ds arbitrary: w scr m)
  case (Cons d ds)
  show ?case
  proof (rule ef_bio_write_cases [OF Cons.prems, of m d])
    fix r w' out scr' m' assume "ef_bio_write m w scr d = Some (r, w', out, scr', m')" "r < 0" "bw_inv w'"
    then show ?thesis by auto
  next
    fix w1 out1 scr1 m1 assume w1: "ef_bio_write m w scr d = Some (int (length d), w1, out1, scr1, m1)" "bw_inv w1"
      "out1 @ bw_held w1 = bw_held w @ d" "\<forall>x \<in> set scr1. wresp_ok x"
    obtain ok w2 out2 scr2 where w2: "write_all m1 w1 scr1 ds = Some (ok, w2, out2, scr2)" "bw_inv w2"
      "ok \<longrightarrow> out2 @ bw_held w2 = bw_held w1 @ concat ds \<and> (\<forall>x \<in> set scr2. wresp_ok x)"
      using Cons.IH [OF w1(2,4)] by blast
    have "ok \<longrightarrow> (out1 @ out2) @ bw_held w2 = bw_held w @ concat (d # ds)"
      using w1(3) w2(3) by simp
    with w1(1) w2 show ?thesis by simp
  qed
qed (auto intro: exI [of _ True])

section \<open>Skipping\<close>

lemma skip_loop_enough:
  assumes "\<forall>x \<in> set inp. resp_ok x" "br_inv r" "0 < b_cap r" "remain \<le> length (incoming inp)" "remain < fuel"
  shows "\<exists>ret r' inp'. skip_loop fuel r inp remain n = Some (ret, r', inp') \<and>
           (ret < 0 \<or> ret = int n \<and> br_inv r' \<and> eb_len (br_buffer r') = eb_len (br_buffer r) \<and>
              br_offset r' = br_offset r \<and> incoming inp' = drop remain (incoming inp))"
  using assms
proof (induction fuel arbitrary: r inp remain)
  case (Suc fuel)
  show ?case
  proof (cases "remain = 0")
    case True
    with Suc.prems show ?thesis by auto
  next
    case False
    define need where "need = (if remain < b_cap r then remain else b_cap r)"
    from Suc.prems(2,3) obtain b where b: "eb_ptr (br_buffer r) = Some b" "length b = b_cap r"
      by (auto simp: br_inv_def eb_inv_def eb_block_def split: option.splits)
    have fits: "0 + max need need \<le> length b" using b(2) by (simp add: need_def)
    have pos: "0 < need" "need \<le> remain" using False Suc.prems(3) by (auto simp: need_def)
    obtain ret b' inp' where sr: "ef_safe_read inp b 0 need need = Some (ret, b', inp')"
      "read_result inp b 0 0 need need (ret, b', inp')"
      using ef_safe_read_result [OF Suc.prems(1) fits] by auto
    define r' where "r' = r\<lparr>br_buffer := (br_buffer r)\<lparr>eb_ptr := Some b'\<rparr>\<rparr>"
    have step: "skip_loop (Suc fuel) r inp remain n =
        (if ret < 0 then Some (ret, r', inp') else skip_loop fuel r' inp' (remain - nat ret) n)"
      using False b(1) sr(1) by (cases "ret < 0") (simp_all add: need_def [symmetric] r'_def)
    show ?thesis
    proof (cases "ret < 0")
      case False
      with sr(2) Suc.prems(4) pos obtain d where d: "ret = int (length d)" "length d = need"
        "incoming inp = d @ incoming inp'"
        by (auto simp: read_result_def)
      have "br_inv r'" "0 < b_cap r'" "\<forall>x \<in> set inp'. resp_ok x"
        using Suc.prems(2,3) b sr(2)
        by (auto simp: r'_def br_inv_def eb_inv_def eb_block_def read_result_def)
      moreover have "remain - need \<le> length (incoming inp')" "remain - need < fuel"
        using Suc.prems(4,5) d pos by auto
      ultimately obtain ret2 r2 inp2 where ih: "skip_loop fuel r' inp' (remain - need) n = Some (ret2, r2, inp2)"
        "ret2 < 0 \<or> ret2 = int n \<and> br_inv r2 \<and> eb_len (br_buffer r2) = eb_len (br_buffer r') \<and>
           br_offset r2 = br_offset r' \<and> incoming inp2 = drop (remain - need) (incoming inp')"
        using Suc.IH [of inp' r' "remain - need"] by blast
      have "drop remain (incoming inp) = drop (remain - need) (incoming inp')"
        using d pos by simp
      with ih step False d show ?thesis by (auto simp: r'_def)
    qed (use step in auto)
  qed
qed simp

section \<open>Properties\<close>

text \<open>
  C30. \<^verbatim>\<open>ef_bio_read\<close> of \<open>n\<close> bytes returns for every behaviour of the descriptor; unless it
  reports an error, the caller's block gets the next \<open>k\<close> bytes of the stream (what the buffer
  holds, then what arrives), nothing lost, repeated or reordered, with \<open>k = n\<close> unless the input
  ended.  Where the buffer held fewer than \<open>n\<close> bytes the number it returns leaves these out.
\<close>

theorem ef_bio_read_in_order:
  assumes "br_inv r" "n \<le> length buf" "\<forall>x \<in> set inp. resp_ok x"
  shows "\<exists>ret buf' r' inp'. ef_bio_read r inp buf n = Some (ret, buf', r', inp') \<and> br_inv r' \<and>
           (ret < 0 \<or>
            (\<exists>k \<le> n. buf' = take k (br_pending r inp) @ drop k buf \<and>
               ret = int k - (if n \<le> length (br_held r) then 0 else int (length (br_held r))) \<and>
               (if k = n then br_pending r' inp' = drop n (br_pending r inp) else length (br_pending r inp) = k)))"
proof (cases "n \<le> length (br_held r)")
  case True
  from assms(1,2) True show ?thesis
  proof (rule ef_bio_read_held [where inp = inp])
    fix buf' r' assume "ef_bio_read r inp buf n = Some (int n, buf', r', inp)" "br_inv r'"
      "delivered r inp buf n n (buf', r', inp)"
    with True show ?thesis by (auto simp: delivered_def)
  qed
next
  case False
  then have "length (br_held r) < n" by simp
  from assms(1,2) this assms(3) show ?thesis
  proof (rule ef_bio_read_more)
    fix ret buf' r' inp' assume "ef_bio_read r inp buf n = Some (ret, buf', r', inp')" "ret < 0" "br_inv r'"
    then show ?thesis by blast
  next
    fix k buf' r' inp'
    assume eq: "ef_bio_read r inp buf n = Some (int k - int (length (br_held r)), buf', r', inp')" "br_inv r'"
      and d: "delivered r inp buf n k (buf', r', inp')"
    from d have "k \<le> n" "buf' = take k (br_pending r inp) @ drop k buf"
      "if k = n then br_pending r' inp' = drop n (br_pending r inp) else length (br_pending r inp) = k"
      by (auto simp: delivered_def)
    with eq False show ?thesis by auto
  qed
qed

definition sample_reader :: ef_bio_reader where
  "sample_reader = \<lparr>br_fd = 3, br_offset = 1, br_buffer = \<lparr>eb_ptr = Some [7, 8, 9, 0], eb_cap = 4, eb_len = 3\<rparr>\<rparr>"

lemma sample_reader_inv: "br_inv sample_reader"
  by (simp add: sample_reader_def br_inv_def eb_inv_def eb_block_def)

theorem ef_bio_read_in_order_witness:
  "\<exists>ret buf' r' inp'. ef_bio_read sample_reader [Data [1, 2], Stop (- 1) 4, Data [5]] [0, 0, 0, 0, 0] 4 =
       Some (ret, buf', r', inp') \<and> br_inv r'"
proof -
  have "\<forall>x \<in> set [Data [1, 2], Stop (- 1) 4, Data [5]]. resp_ok x" by simp
  from ef_bio_read_in_order [OF sample_reader_inv _ this, of 4 "[0, 0, 0, 0, 0]"] show ?thesis
    by fastforce
qed

text \<open>
  C31. \<^verbatim>\<open>ef_bio_reader_skip\<close> drops exactly \<open>n\<close> bytes of the stream when that many arrive, or
  returns an error; its loop has no exit for the end of the input: there it never returns.
\<close>

theorem ef_bio_reader_skip_drops:
  assumes "br_inv r" "0 < b_cap r" "\<forall>x \<in> set inp. resp_ok x"
  shows "(n \<le> length (br_pending r inp) \<and> n < fuel \<longrightarrow>
            (\<exists>ret r' inp'. ef_bio_reader_skip fuel r inp n = Some (ret, r', inp') \<and>
               (ret < 0 \<or> ret = int n \<and> br_inv r' \<and> br_pending r' inp' = drop n (br_pending r inp)))) \<and>
         (length (br_held r) < n \<longrightarrow> ef_bio_reader_skip fuel r [] n = None)"
proof (intro conjI impI)
  assume n: "n \<le> length (br_pending r inp) \<and> n < fuel"
  show "\<exists>ret r' inp'. ef_bio_reader_skip fuel r inp n = Some (ret, r', inp') \<and>
      (ret < 0 \<or> ret = int n \<and> br_inv r' \<and> br_pending r' inp' = drop n (br_pending r inp))"
  proof (cases "n \<le> length (br_held r)")
    case True
    with assms(1) have "n \<le> b_len r - br_offset r" by (simp add: br_held_length)
    with assms(1) have "ef_bio_reader_skip fuel r inp n = Some (int n, r\<lparr>br_offset := br_offset r + n\<rparr>, inp)"
      "br_inv (r\<lparr>br_offset := br_offset r + n\<rparr>)"
      by (auto simp: ef_bio_reader_skip_def br_inv_def)
    moreover have "br_pending (r\<lparr>br_offset := br_offset r + n\<rparr>) inp = drop n (br_pending r inp)"
      using True by (simp add: br_pending_def br_held_def add.commute)
    ultimately show ?thesis by blast
  next
    case False
    define remain where "remain = n + br_offset r - b_len r"
    have rem: "remain = n - length (br_held r)"
      using assms(1) by (simp add: remain_def br_held_length br_inv_def)
    have "\<not> n \<le> b_len r - br_offset r" using False assms(1) by (simp add: br_held_length)
    then have eq: "ef_bio_reader_skip fuel r inp n = skip_loop fuel (reset_reader r) inp remain n"
      by (simp add: ef_bio_reader_skip_def remain_def Let_def)
    have "br_inv (reset_reader r)" "0 < b_cap (reset_reader r)" using assms(1,2) by simp_all
    moreover have "remain \<le> length (incoming inp)" "remain < fuel"
      using n rem unfolding br_pending_def by (simp_all add: le_diff_conv less_imp_diff_less)
    ultimately obtain ret r' inp' where l: "skip_loop fuel (reset_reader r) inp remain n = Some (ret, r', inp')"
      "ret < 0 \<or> ret = int n \<and> br_inv r' \<and> eb_len (br_buffer r') = eb_len (br_buffer (reset_reader r)) \<and>
         br_offset r' = br_offset (reset_reader r) \<and> incoming inp' = drop remain (incoming inp)"
      using skip_loop_enough [OF assms(3), of "reset_reader r" remain fuel n] by blast
    have "br_pending r' inp' = drop n (br_pending r inp)"
      if "eb_len (br_buffer r') = eb_len (br_buffer (reset_reader r))" "incoming inp' = drop remain (incoming inp)"
      using that False rem by (simp add: br_pending_def br_held_def eb_bytes_def reset_reader_def)
    with l eq show ?thesis by (intro exI [of _ ret] exI [of _ r'] exI [of _ inp']) auto
  qed
next
  assume n: "length (br_held r) < n"
  then have "\<not> n \<le> b_len r - br_offset r" "0 < n + br_offset r - b_len r"
    using assms(1) by (auto simp: br_held_length br_inv_def)
  then show "ef_bio_reader_skip fuel r [] n = None"
    by (simp add: ef_bio_reader_skip_def skip_loop_eof Let_def)
qed

theorem ef_bio_reader_skip_drops_witness:
  "\<exists>ret r' inp'. ef_bio_reader_skip 9 sample_reader [Data [1, 2, 3]] 4 = Some (ret, r', inp') \<and>
     (ret < 0 \<or> ret = int 4 \<and> br_inv r' \<and> br_pending r' inp' = drop 4 (br_pending sample_reader [Data [1, 2, 3]]))"
proof -
  have "4 \<le> length (br_pending sample_reader [Data [1, 2, 3]])" by code_simp
  moreover have "0 < b_cap sample_reader" "\<forall>x \<in> set [Data [1, 2, 3]]. resp_ok x"
    by (simp_all add: sample_reader_def)
  ultimately show ?thesis
    using ef_bio_reader_skip_drops [OF sample_reader_inv, of "[Data [1, 2, 3]]" 4 9] by simp
qed

text \<open>
  C32. Writes through a buffered writer that all succeed, followed by a flush that succeeds, put
  exactly their bytes on the wire, in order, whatever mix of short writes and interruptions the
  descriptor shows and whether or not a write went through the buffer.
\<close>

theorem writes_then_flush_wire:
  assumes "bw_inv w" "bw_held w = []" "\<forall>x \<in> set scr. wresp_ok x"
    and "write_all m w scr ds = Some (True, w', out, scr')"
  shows "\<exists>r w'' out' scr''. ef_bio_writer_flush w' scr' = Some (r, w'', out', scr'') \<and> bw_inv w'' \<and>
           (if r < 0 then w'' = w' \<and> (\<exists>rest. concat ds = out @ out' @ rest)
            else bw_held w'' = [] \<and> out @ out' = concat ds)"
proof -
  from write_all_wire [OF assms(1,3), of m ds] assms(2,4)
  have w: "bw_inv w'" "out @ bw_held w' = concat ds" "\<forall>x \<in> set scr'. wresp_ok x" by auto
  from w(1,3) show ?thesis
  proof (rule ef_bio_writer_flush_cases)
    fix r o1 rest scr'' assume f: "ef_bio_writer_flush w' scr' = Some (r, w', o1, scr'')" "r < 0" "bw_held w' = o1 @ rest"
    with w have "concat ds = out @ o1 @ rest" by simp
    with f w show ?thesis by auto
  next
    fix w'' scr'' assume "ef_bio_writer_flush w' scr' = Some (int (length (bw_held w')), w'', bw_held w', scr'')"
      "bw_inv w''" "bw_held w'' = []"
    with w show ?thesis by auto
  qed
qed

definition sample_writer :: ef_bio_writer where
  "sample_writer = \<lparr>bw_fd = 3, bw_buffer = \<lparr>eb_ptr = Some [0, 0, 0, 0, 0, 0, 0, 0], eb_cap = 8, eb_len = 0\<rparr>\<rparr>"

lemma sample_writer_inv: "bw_inv sample_writer" "bw_held sample_writer = []"
  by (simp_all add: sample_writer_def bw_inv_def bw_held_def eb_inv_def eb_bytes_def eb_block_def)

definition sample_written :: ef_bio_writer where
  "sample_written = sample_writer\<lparr>bw_buffer := \<lparr>eb_ptr = Some [6, 2, 0, 0, 0, 0, 0, 0], eb_cap = 8, eb_len = 1\<rparr>\<rparr>"

lemma sample_written_eq:
  "write_all [] sample_writer [Took 2, Refuse (- 1) 4] [[1, 2], [3, 4, 5], [6]] =
     Some (True, sample_written, [1, 2, 3, 4, 5], [])"
  by code_simp

theorem writes_then_flush_wire_witness:
  "\<exists>r w'' out' scr''. ef_bio_writer_flush sample_written [] = Some (r, w'', out', scr'') \<and> bw_inv w'' \<and>
     (if r < 0 then w'' = sample_written \<and> (\<exists>rest. concat [[1, 2], [3, 4, 5], [6]] = [1, 2, 3, 4, 5] @ out' @ rest)
      else bw_held w'' = [] \<and> [1, 2, 3, 4, 5] @ out' = concat [[1, 2], [3, 4, 5], [6]])"
  by (rule writes_then_flush_wire [OF sample_writer_inv _ sample_written_eq]) simp

text \<open>
  A flush that fails after part of the buffer was sent leaves all of it in the buffer: when
  the caller flushes again, that part goes out a second time.
\<close>

theorem failed_flush_resends:
  assumes "bw_inv w" "\<forall>x \<in> set scr. wresp_ok x" "\<forall>x \<in> set scr2. wresp_ok x"
    and "ef_bio_writer_flush w scr = Some (r, w', out, scr')" "r < 0"
    and "ef_bio_writer_flush w' scr2 = Some (r2, w'', out2, scr2')" "0 \<le> r2"
  shows "out @ out2 = out @ bw_held w \<and> (\<exists>rest. bw_held w = out @ rest)"
proof -
  from assms(1,2) have a: "w' = w \<and> (\<exists>rest. bw_held w = out @ rest)"
    by (rule ef_bio_writer_flush_cases) (use assms(4,5) in auto)
  from assms(1,3) have "out2 = bw_held w"
    by (rule ef_bio_writer_flush_cases) (use assms(6,7) a in auto)
  with a show ?thesis by simp
qed

theorem failed_flush_resends_witness:
  "\<exists>w r w' out r2 w'' out2. ef_bio_writer_flush w [Took 2, Refuse (- 1) 32] = Some (r, w', out, []) \<and> r < 0 \<and>
     ef_bio_writer_flush w' [] = Some (r2, w'', out2, []) \<and> out = [1, 2] \<and> out @ out2 = out @ bw_held w"
proof -
  let ?w = "\<lparr>bw_fd = 3, bw_buffer = \<lparr>eb_ptr = Some [1, 2, 3, 0], eb_cap = 4, eb_len = 3\<rparr>\<rparr>"
  have inv: "bw_inv ?w" by (simp add: bw_inv_def eb_inv_def eb_block_def)
  have f: "ef_bio_writer_flush ?w [Took 2, Refuse (- 1) 32] = Some (- 1, ?w, [1, 2], [])"
    by code_simp
  have g: "ef_bio_writer_flush ?w [] = Some (3, writer_clear ?w, [1, 2, 3], [])"
    by code_simp
  from failed_flush_resends [OF inv _ _ f _ g] have "[1, 2] @ [1, 2, 3] = [1, 2] @ bw_held ?w" by simp
  then have "[1, 2] @ [1, 2, 3] = [1, 2] @ bw_held ?w" .
  with f g show ?thesis
    by (intro exI [of _ ?w] exI [of _ "- 1"] exI [of _ "[1, 2]"] exI [of _ 3] exI [of _ "writer_clear ?w"]
        exI [of _ "[1, 2, 3]"]) simp
qed

end
