(* ===== verification/EfPoll.thy ===== *)
theory EfPoll
  imports CMemory
begin

text \<open>
  \<^verbatim>\<open>poll.c\<close>: the event source on top of \<^verbatim>\<open>poll(2)\<close>.  \<open>pl_pfds\<close> is the dense array handed
  to the system call, \<open>pl_index\<close> maps a descriptor to its place in it.  The answer of the
  system call is an argument of \<open>ef_poll_wait\<close>.
\<close>

section \<open>State\<close>

definition EF_POLLIN :: u32 where "EF_POLLIN = 0x001"
definition EF_POLLOUT :: u32 where "EF_POLLOUT = 0x004"
definition EF_POLLERR :: u32 where "EF_POLLERR = 0x008"
definition EF_POLLHUP :: u32 where "EF_POLLHUP = 0x010"

record 'a ef_event =
  ev_events :: u32
  ev_data :: 'a

record pollfd =
  pf_fd :: int
  pf_events :: u16
  pf_revents :: u16

text \<open>\<^verbatim>\<open>None\<close> is a pointer never written (the \<^verbatim>\<open>memset\<close> to -1), or a cell never written.\<close>

record 'a ef_poll_index =
  ix_idx :: int
  ix_ptr :: "'a option"

record 'a ef_pollsys =
  pl_cap :: int
  pl_nfds :: int
  pl_index :: "'a ef_poll_index list"
  pl_pfds :: "pollfd option list"

definition no_index :: "'a ef_poll_index" where
  "no_index = \<lparr>ix_idx = - 1, ix_ptr = None\<rparr>"

text \<open>Array accesses with \<^verbatim>\<open>int\<close> subscripts.\<close>

definition get_at :: "'b list \<Rightarrow> int \<Rightarrow> 'b option" where
  "get_at xs i = (if i < 0 then None else cell_get xs (nat i))"

definition set_at :: "'b list \<Rightarrow> int \<Rightarrow> 'b \<Rightarrow> 'b list option" where
  "set_at xs i x = (if i < 0 then None else cell_set xs (nat i) x)"

lemma get_at_Some: "get_at xs i = Some x \<longleftrightarrow> 0 \<le> i \<and> nat i < length xs \<and> x = xs ! nat i"
  by (auto simp: get_at_def cell_get_def)

lemma set_at_Some: "set_at xs i x = Some ys \<longleftrightarrow> 0 \<le> i \<and> nat i < length xs \<and> ys = xs[nat i := x]"
  by (auto simp: set_at_def cell_set_def)

lemma get_at_in [simp]: "0 \<le> i \<Longrightarrow> nat i < length xs \<Longrightarrow> get_at xs i = Some (xs ! nat i)"
  by (simp add: get_at_Some)

lemma set_at_in [simp]: "0 \<le> i \<Longrightarrow> nat i < length xs \<Longrightarrow> set_at xs i x = Some (xs[nat i := x])"
  by (simp add: set_at_Some)

section \<open>Growing\<close>

text \<open>
  \<^verbatim>\<open>while (cap <= fd) cap <<= 1\<close>.  A result that does not fit an \<^verbatim>\<open>int\<close> is undefined, and
  a capacity that is not positive never grows: \<open>None\<close>.
\<close>

function double_until :: "int \<Rightarrow> int \<Rightarrow> int option" where
  "double_until cap fd =
     (if cap \<le> fd
      then if 0 < cap \<and> 2 * cap < 2 ^ 31 then double_until (2 * cap) fd else None
      else Some cap)"
  by pat_completeness auto

termination double_until
  by (relation "measure (\<lambda>(cap, fd). nat (2 ^ 31 - cap))") auto

declare double_until.simps [simp del]

definition ef_poll_expand :: "mem \<Rightarrow> 'a ef_pollsys \<Rightarrow> int \<Rightarrow> (int \<times> 'a ef_pollsys \<times> mem) option" where
  "ef_poll_expand m ep fd =
     (if pl_cap ep > fd then Some (0, ep, m)
      else do {
        cap \<leftarrow> double_until (pl_cap ep) fd;
        let (ok, m) = malloc_obj m;
        if \<not> ok then Some (- 1, ep, m)
        else let ep = ep\<lparr>pl_index := take (nat (pl_cap ep)) (pl_index ep) @
                                      replicate (nat cap - nat (pl_cap ep)) no_index\<rparr>;
                 (ok, m) = malloc_obj m
             in if \<not> ok then Some (- 1, ep, m)
                else let pfds = take (nat cap) (pl_pfds ep) @ replicate (nat cap - length (pl_pfds ep)) None
                     in Some (0, ep\<lparr>pl_pfds := pfds, pl_cap := cap\<rparr>, m) })"

section \<open>Operations\<close>

definition ef_poll_associate ::
    "mem \<Rightarrow> 'a ef_pollsys \<Rightarrow> int \<Rightarrow> u32 \<Rightarrow> 'a \<Rightarrow> bool \<Rightarrow> (int \<times> 'a ef_pollsys \<times> mem) option" where
  "ef_poll_associate m ep fd events ptr fired =
     (if fired then Some (0, ep, m)
      else do {
        (r, ep, m) \<leftarrow> (if pl_cap ep \<le> fd then ef_poll_expand m ep fd else Some (0, ep, m));
        if r < 0 then Some (- 1, ep, m)
        else do {
          ix \<leftarrow> get_at (pl_index ep) fd;
          let (idx, ep, ix) =
            (if ix_idx ix < 0
             then (pl_nfds ep, ep\<lparr>pl_nfds := pl_nfds ep + 1\<rparr>, ix\<lparr>ix_idx := pl_nfds ep\<rparr>)
             else (ix_idx ix, ep, ix));
          index \<leftarrow> set_at (pl_index ep) fd (ix\<lparr>ix_ptr := Some ptr\<rparr>);
          old \<leftarrow> get_at (pl_pfds ep) idx;
          let re = (case old of None \<Rightarrow> 0 | Some pf \<Rightarrow> pf_revents pf);
          pfds \<leftarrow> set_at (pl_pfds ep) idx (Some \<lparr>pf_fd = fd, pf_events = ucast events, pf_revents = re\<rparr>);
          Some (0, ep\<lparr>pl_index := index, pl_pfds := pfds\<rparr>, m) } })"

definition ef_poll_dissociate :: "'a ef_pollsys \<Rightarrow> int \<Rightarrow> bool \<Rightarrow> bool \<Rightarrow> (int \<times> 'a ef_pollsys) option" where
  "ef_poll_dissociate ep fd fired onclose =
     (if pl_cap ep \<le> fd then Some (0, ep)
      else do {
        ix \<leftarrow> get_at (pl_index ep) fd;
        let idx = ix_idx ix;
        if idx < 0 then Some (0, ep)
        else do {
          index \<leftarrow> set_at (pl_index ep) fd (ix\<lparr>ix_idx := - 1\<rparr>);
          let last = pl_nfds ep - 1;
          (index, pfds) \<leftarrow>
            (if idx < last
             then do { pf \<leftarrow> get_at (pl_pfds ep) last;
                       pf' \<leftarrow> pf;
                       ixl \<leftarrow> get_at index (pf_fd pf');
                       index \<leftarrow> set_at index (pf_fd pf') (ixl\<lparr>ix_idx := idx\<rparr>);
                       pfds \<leftarrow> set_at (pl_pfds ep) idx pf;
                       Some (index, pfds) }
             else Some (index, pl_pfds ep));
          Some (0, ep\<lparr>pl_index := index, pl_pfds := pfds, pl_nfds := pl_nfds ep - 1\<rparr>) } })"

definition ef_poll_unset :: "'a ef_pollsys \<Rightarrow> int \<Rightarrow> u32 \<Rightarrow> int \<times> 'a ef_pollsys" where
  "ef_poll_unset ep fd events = (0, ep)"

text \<open>What the system call leaves in the array: the \<^verbatim>\<open>revents\<close> of the first \<open>nfds\<close> entries.\<close>

fun set_revents :: "pollfd option list \<Rightarrow> u16 list \<Rightarrow> pollfd option list" where
  "set_revents (Some pf # pfds) (re # res) = Some (pf\<lparr>pf_revents := re\<rparr>) # set_revents pfds res"
| "set_revents (None # pfds) (re # res) = None # set_revents pfds res"
| "set_revents pfds [] = pfds"
| "set_revents [] res = []"

text \<open>The loop over the first \<open>nfds\<close> entries; \<open>room\<close> is \<^verbatim>\<open>count - cnt\<close>.\<close>

fun poll_scan :: "'a ef_poll_index list \<Rightarrow> pollfd option list \<Rightarrow> nat \<Rightarrow> 'a option ef_event list option" where
  "poll_scan index pfds 0 = Some []"
| "poll_scan index [] room = Some []"
| "poll_scan index (None # pfds) (Suc room) = None"
| "poll_scan index (Some pf # pfds) (Suc room) =
     (if pf_revents pf \<noteq> 0
      then do { ix \<leftarrow> get_at index (pf_fd pf);
                es \<leftarrow> poll_scan index pfds room;
                Some (\<lparr>ev_events = scast (pf_revents pf), ev_data = ix_ptr ix\<rparr> # es) }
      else poll_scan index pfds (Suc room))"

definition ef_poll_wait ::
    "int \<times> u16 list \<Rightarrow> 'a ef_pollsys \<Rightarrow> int \<Rightarrow> (int \<times> 'a option ef_event list \<times> 'a ef_pollsys) option" where
  "ef_poll_wait answer ep count =
     (let (ret, revents) = answer;
          ep = ep\<lparr>pl_pfds := set_revents (pl_pfds ep) revents\<rparr>
      in if ret \<le> 0 then Some (ret, [], ep)
         else let count = (if count > ret then ret else count)
              in do { es \<leftarrow> poll_scan (pl_index ep) (take (nat (pl_nfds ep)) (pl_pfds ep)) (nat count);
                      Some (int (length es), es, ep) })"

definition ef_poll_create :: "mem \<Rightarrow> int \<Rightarrow> 'a ef_pollsys option \<times> mem" where
  "ef_poll_create m cap =
     (let (ok, m) = malloc_obj m
      in if \<not> ok then (None, m)
         else let cap = (if cap < 128 then 128 else cap);
                  (ok, m) = malloc_obj m
              in if \<not> ok then (None, m)
                 else let (ok, m) = malloc_obj m
                      in if \<not> ok then (None, m)
                         else (Some \<lparr>pl_cap = cap, pl_nfds = 0, pl_index = replicate (nat cap) no_index,
                                     pl_pfds = replicate (nat cap) None\<rparr>, m))"

text \<open>Freeing returns 0; the second component says that nothing is left of the source.\<close>

definition ef_poll_free :: "'a ef_pollsys \<Rightarrow> int \<times> 'a ef_pollsys option" where
  "ef_poll_free ep = (0, None)"

section \<open>The invariant: the two arrays are inverse to each other\<close>

definition pl_slot :: "'a ef_pollsys \<Rightarrow> nat \<Rightarrow> pollfd" where
  "pl_slot ep i = the (pl_pfds ep ! i)"

definition pl_inv :: "'a ef_pollsys \<Rightarrow> bool" where
  "pl_inv ep \<longleftrightarrow>
     (0 < pl_cap ep \<and> 0 \<le> pl_nfds ep \<and> nat (pl_cap ep) \<le> length (pl_index ep) \<and>
      length (pl_pfds ep) = nat (pl_cap ep) \<and> pl_nfds ep \<le> pl_cap ep) \<and>
     (\<forall>i < nat (pl_nfds ep). \<exists>pf. pl_pfds ep ! i = Some pf \<and> 0 \<le> pf_fd pf \<and> pf_fd pf < pl_cap ep \<and>
        ix_idx (pl_index ep ! nat (pf_fd pf)) = int i \<and> ix_ptr (pl_index ep ! nat (pf_fd pf)) \<noteq> None) \<and>
     (\<forall>fd < nat (pl_cap ep). 0 \<le> ix_idx (pl_index ep ! fd) \<longrightarrow>
        ix_idx (pl_index ep ! fd) < pl_nfds ep \<and>
        (\<exists>pf. pl_pfds ep ! nat (ix_idx (pl_index ep ! fd)) = Some pf \<and> pf_fd pf = int fd))"

text \<open>What is registered: the events and the pointer of a descriptor.\<close>

definition pl_reg :: "'a ef_pollsys \<Rightarrow> int \<Rightarrow> (u16 \<times> 'a) option" where
  "pl_reg ep fd =
     (if 0 \<le> fd \<and> fd < pl_cap ep \<and> 0 \<le> ix_idx (pl_index ep ! nat fd)
      then map_option (Pair (pf_events (pl_slot ep (nat (ix_idx (pl_index ep ! nat fd))))))
             (ix_ptr (pl_index ep ! nat fd))
      else None)"

end
