(* ===== verification/EfEpollet.thy ===== *)
theory EfEpollet
  imports EfPoll
begin

text \<open>
  \<^verbatim>\<open>epollet.c\<close>: the event source on top of edge-triggered \<^verbatim>\<open>epoll(7)\<close>.  It remembers in
  \<open>it_fired\<close> what the kernel has reported, keeps the items that have something to report in
  the first \<open>ee_fill\<close> places (the filled area), and asks the kernel only when that is empty.
  The results of \<^verbatim>\<open>epoll_ctl\<close> and \<^verbatim>\<open>epoll_wait\<close> are arguments.
\<close>

section \<open>State\<close>

record 'a ef_epoll_item =
  it_fd :: int
  it_waiting :: u32
  it_fired :: u32
  it_ptr :: 'a

record 'a ef_epollet =
  ee_cap :: int
  ee_used :: int
  ee_fill :: int
  ee_index :: "int list"
  ee_items :: "'a ef_epoll_item option list"

definition EPOLLOUT :: u32 where "EPOLLOUT = 0x004"
definition EPOLLERR :: u32 where "EPOLLERR = 0x008"
definition EPOLLHUP :: u32 where "EPOLLHUP = 0x010"

text \<open>\<^verbatim>\<open>(pi->waiting | EPOLLERR | EPOLLHUP) & pi->fired\<close>\<close>

definition it_ready :: "'a ef_epoll_item \<Rightarrow> u32" where
  "it_ready it = (it_waiting it OR EPOLLERR OR EPOLLHUP) AND it_fired it"

definition get_item :: "'a ef_epollet \<Rightarrow> int \<Rightarrow> 'a ef_epoll_item option" where
  "get_item ep i = do { x \<leftarrow> get_at (ee_items ep) i; x }"

definition put_item :: "'a ef_epollet \<Rightarrow> int \<Rightarrow> 'a ef_epoll_item \<Rightarrow> 'a ef_epollet option" where
  "put_item ep i it = do { items \<leftarrow> set_at (ee_items ep) i (Some it); Some (ep\<lparr>ee_items := items\<rparr>) }"

definition put_index :: "'a ef_epollet \<Rightarrow> int \<Rightarrow> int \<Rightarrow> 'a ef_epollet option" where
  "put_index ep fd i = do { index \<leftarrow> set_at (ee_index ep) fd i; Some (ep\<lparr>ee_index := index\<rparr>) }"

section \<open>Growing\<close>

definition ef_epoll_expand :: "mem \<Rightarrow> 'a ef_epollet \<Rightarrow> int \<Rightarrow> (int \<times> 'a ef_epollet \<times> mem) option" where
  "ef_epoll_expand m ep fd =
     (if ee_cap ep > fd then Some (0, ep, m)
      else do {
        cap \<leftarrow> double_until (ee_cap ep) fd;
        let (ok, m) = malloc_obj m;
        if \<not> ok then Some (- 1, ep, m)
        else let ep = ep\<lparr>ee_index := take (nat (ee_cap ep)) (ee_index ep) @
                                      replicate (nat cap - nat (ee_cap ep)) (- 1)\<rparr>;
                 (ok, m) = malloc_obj m
             in if \<not> ok then Some (- 1, ep, m)
                else let ep = ep\<lparr>ee_items := take (nat cap) (ee_items ep) @
                                             replicate (nat cap - length (ee_items ep)) None\<rparr>;
                         (ok, m) = malloc_obj m
                     in if \<not> ok then Some (- 1, ep, m) else Some (0, ep\<lparr>ee_cap := cap\<rparr>, m) })"

section \<open>Operations\<close>

text \<open>
  The swap that moves an item between the areas: \<open>j\<close> is the border, \<open>i\<close> the place of the item
  \<open>pi\<close>.
\<close>

definition swap_items :: "'a ef_epollet \<Rightarrow> int \<Rightarrow> int \<Rightarrow> 'a ef_epollet option" where
  "swap_items ep i j =
     do { pi \<leftarrow> get_item ep i;
          tmp \<leftarrow> get_item ep j;
          ep \<leftarrow> put_index ep (it_fd tmp) i;
          ep \<leftarrow> put_index ep (it_fd pi) j;
          ep \<leftarrow> put_item ep j pi;
          put_item ep i tmp }"

definition ef_epoll_associate ::
    "mem \<Rightarrow> int \<Rightarrow> 'a ef_epollet \<Rightarrow> int \<Rightarrow> u32 \<Rightarrow> 'a \<Rightarrow> bool \<Rightarrow> (int \<times> 'a ef_epollet \<times> mem) option" where
  "ef_epoll_associate m ctl ep fd events ptr fired =
     do { (r, ep, m) \<leftarrow> (if ee_cap ep \<le> fd then ef_epoll_expand m ep fd else Some (0, ep, m));
          if r < 0 then Some (- 1, ep, m)
          else do {
            idx \<leftarrow> get_at (ee_index ep) fd;
            (r, idx, ep) \<leftarrow>
              (if idx < 0
               then do { let idx = ee_used ep;
                         let ep = ep\<lparr>ee_used := ee_used ep + 1\<rparr>;
                         ep \<leftarrow> put_index ep fd idx;
                         ep \<leftarrow> put_item ep idx \<lparr>it_fd = fd, it_waiting = events, it_fired = EPOLLOUT, it_ptr = ptr\<rparr>;
                         Some (if ctl < 0 then (- 1 :: int) else 0, idx, ep) }
               else do { pi \<leftarrow> get_item ep idx;
                         ep \<leftarrow> put_item ep idx (pi\<lparr>it_waiting := events, it_ptr := ptr\<rparr>);
                         Some (0, idx, ep) });
            if r < 0 then Some (- 1, ep, m)
            else do {
              pi \<leftarrow> get_item ep idx;
              if it_ready pi \<noteq> 0
              then do {
                ep \<leftarrow> (if idx > ee_fill ep then swap_items ep idx (ee_fill ep) else Some ep);
                let ep = (if idx \<ge> ee_fill ep then ep\<lparr>ee_fill := ee_fill ep + 1\<rparr> else ep);
                Some (1, ep, m) }
              else Some (0, ep, m) } } }"

text \<open>Copying the item at \<open>j\<close> over the one at \<open>i\<close>, in the removal of an item.\<close>

definition move_item :: "'a ef_epollet \<Rightarrow> int \<Rightarrow> int \<Rightarrow> 'a ef_epollet option" where
  "move_item ep i j =
     do { it \<leftarrow> get_item ep j; ep \<leftarrow> put_item ep i it; put_index ep (it_fd it) i }"

definition ef_epoll_dissociate ::
    "int \<Rightarrow> 'a ef_epollet \<Rightarrow> int \<Rightarrow> bool \<Rightarrow> bool \<Rightarrow> (int \<times> 'a ef_epollet) option" where
  "ef_epoll_dissociate ctl ep fd fired onclose =
     (if ee_cap ep \<le> fd then Some (0, ep)
      else do {
        idx \<leftarrow> get_at (ee_index ep) fd;
        if idx < 0 then Some (0, ep)
        else if onclose
        then do {
          ep \<leftarrow> put_index ep fd (- 1);
          (idx, ep) \<leftarrow>
            (if idx < ee_fill ep
             then do { let ep = ep\<lparr>ee_fill := ee_fill ep - 1\<rparr>;
                       if idx < ee_fill ep
                       then do { ep' \<leftarrow> move_item ep idx (ee_fill ep); Some (ee_fill ep, ep') }
                       else Some (idx, ep) }
             else Some (idx, ep));
          let ep = ep\<lparr>ee_used := ee_used ep - 1\<rparr>;
          ep \<leftarrow> (if idx < ee_used ep then move_item ep idx (ee_used ep) else Some ep);
          Some (ctl, ep) }
        else do {
          pi \<leftarrow> get_item ep idx;
          ep \<leftarrow> put_item ep idx (pi\<lparr>it_waiting := 0\<rparr>);
          ep \<leftarrow> (if idx < ee_fill ep
                 then do { let ep = ep\<lparr>ee_fill := ee_fill ep - 1\<rparr>;
                           if idx < ee_fill ep then swap_items ep idx (ee_fill ep) else Some ep }
                 else Some ep);
          Some (0, ep) } })"

definition ef_epoll_unset :: "'a ef_epollet \<Rightarrow> int \<Rightarrow> u32 \<Rightarrow> (int \<times> 'a ef_epollet) option" where
  "ef_epoll_unset ep fd events =
     (if ee_cap ep \<le> fd then Some (0, ep)
      else do {
        idx \<leftarrow> get_at (ee_index ep) fd;
        if idx < 0 then Some (0, ep)
        else do {
          pi \<leftarrow> get_item ep idx;
          let pi = pi\<lparr>it_fired := it_fired pi AND NOT events\<rparr>;
          ep \<leftarrow> put_item ep idx pi;
          ep \<leftarrow> (if idx < ee_fill ep \<and> it_ready pi = 0
                 then do { let ep = ep\<lparr>ee_fill := ee_fill ep - 1\<rparr>;
                           if idx < ee_fill ep then swap_items ep idx (ee_fill ep) else Some ep }
                 else Some ep);
          Some (0, ep) } })"

text \<open>The loop over the events the kernel reported.\<close>

fun note_events :: "'a ef_epollet \<Rightarrow> (int \<times> u32) list \<Rightarrow> 'a ef_epollet option" where
  "note_events ep [] = Some ep"
| "note_events ep ((fd, w) # evs) =
     do { idx \<leftarrow> get_at (ee_index ep) fd;
          pi \<leftarrow> get_item ep idx;
          let pi = pi\<lparr>it_fired := it_fired pi OR w\<rparr>;
          ep \<leftarrow> put_item ep idx pi;
          ep \<leftarrow> (if idx \<ge> ee_fill ep \<and> it_ready pi \<noteq> 0
                 then do { ep' \<leftarrow> (if idx > ee_fill ep then swap_items ep idx (ee_fill ep) else Some ep);
                           Some (ep'\<lparr>ee_fill := ee_fill ep + 1\<rparr>) }
                 else Some ep);
          note_events ep evs }"

text \<open>The loop that copies out the first \<open>count\<close> items.\<close>

fun report_items :: "'a ef_epoll_item option list \<Rightarrow> 'a ef_event list option" where
  "report_items [] = Some []"
| "report_items (None # its) = None"
| "report_items (Some pi # its) =
     do { es \<leftarrow> report_items its; Some (\<lparr>ev_events = it_ready pi, ev_data = it_ptr pi\<rparr> # es) }"

definition ef_epoll_wait ::
    "int \<times> (int \<times> u32) list \<Rightarrow> 'a ef_epollet \<Rightarrow> int \<Rightarrow> (int \<times> 'a ef_event list \<times> 'a ef_epollet) option" where
  "ef_epoll_wait answer ep count =
     do { (r, ep) \<leftarrow> (if ee_fill ep = 0
                       then (let (ret, evs) = answer
                             in if ret < 0 then Some (ret, ep)
                                else do { ep \<leftarrow> note_events ep (take (nat ret) evs); Some (0, ep) })
                       else Some (0, ep));
          if r < 0 then Some (r, [], ep)
          else do {
            let count = (if count > ee_fill ep then ee_fill ep else count);
            es \<leftarrow> (if nat count \<le> length (ee_items ep)
                   then report_items (take (nat count) (ee_items ep)) else None);
            Some (count, es, ep) } }"

definition ef_epoll_create :: "mem \<Rightarrow> int \<Rightarrow> int \<Rightarrow> 'a ef_epollet option \<times> mem" where
  "ef_epoll_create m epfd cap =
     (let cap = (if cap < 128 then 128 else cap);
          (ok1, m) = malloc_obj m
      in if \<not> ok1 then (None, m)
         else let (ok2, m) = malloc_obj m
              in if \<not> ok2 then (None, m)
                 else let (ok3, m) = malloc_obj m
                      in if \<not> ok3 then (None, m)
                         else let (ok4, m) = malloc_obj m
                              in if \<not> ok4 then (None, m)
                                 else if epfd < 0 then (None, m)
                                 else (Some \<lparr>ee_cap = cap, ee_used = 0, ee_fill = 0,
                                             ee_index = replicate (nat cap) (- 1),
                                             ee_items = replicate (nat cap) None\<rparr>, m))"

text \<open>Freeing returns 0; the second component says that nothing is left of the source.\<close>

definition ef_epoll_free :: "'a ef_epollet \<Rightarrow> int \<times> 'a ef_epollet option" where
  "ef_epoll_free ep = (0, None)"

end
