(* ===== verification/PollCorrect.thy ===== *)
theory PollCorrect
  imports EfPoll
begin

text \<open>
  The event source over \<^verbatim>\<open>poll(2)\<close>: every operation keeps the two arrays inverse to each
  other, and acts on the registered descriptors as on a map.
\<close>

section \<open>Consequences of the invariant\<close>

lemma pl_invD:
  assumes "pl_inv ep"
  shows "0 < pl_cap ep" "0 \<le> pl_nfds ep" "nat (pl_cap ep) \<le> length (pl_index ep)"
    "length (pl_pfds ep) = nat (pl_cap ep)" "pl_nfds ep \<le> pl_cap ep"
  using assms by (simp_all add: pl_inv_def)

lemma pl_inv_slot:
  assumes "pl_inv ep" "i < nat (pl_nfds ep)"
  obtains pf where "pl_pfds ep ! i = Some pf" "0 \<le> pf_fd pf" "pf_fd pf < pl_cap ep"
    "ix_idx (pl_index ep ! nat (pf_fd pf)) = int i" "ix_ptr (pl_index ep ! nat (pf_fd pf)) \<noteq> None"
  using assms unfolding pl_inv_def by blast

lemma pl_inv_index:
  assumes "pl_inv ep" "fd < nat (pl_cap ep)" "0 \<le> ix_idx (pl_index ep ! fd)"
  obtains pf where "ix_idx (pl_index ep ! fd) < pl_nfds ep"
    "pl_pfds ep ! nat (ix_idx (pl_index ep ! fd)) = Some pf" "pf_fd pf = int fd"
  using assms unfolding pl_inv_def by blast

lemma pl_inv_slot_fd:
  assumes "pl_inv ep" "i < nat (pl_nfds ep)" "pl_pfds ep ! i = Some pf"
  shows "0 \<le> pf_fd pf" "pf_fd pf < pl_cap ep" "ix_idx (pl_index ep ! nat (pf_fd pf)) = int i"
    "ix_ptr (pl_index ep ! nat (pf_fd pf)) \<noteq> None" "nat (pf_fd pf) < length (pl_index ep)"
proof -
  obtain q where q: "pl_pfds ep ! i = Some q" "0 \<le> pf_fd q" "pf_fd q < pl_cap ep"
    "ix_idx (pl_index ep ! nat (pf_fd q)) = int i" "ix_ptr (pl_index ep ! nat (pf_fd q)) \<noteq> None"
    by (rule pl_inv_slot [OF assms(1,2)])
  have "q = pf" using q(1) assms(3) by simp
  then show "0 \<le> pf_fd pf" "pf_fd pf < pl_cap ep" "ix_idx (pl_index ep ! nat (pf_fd pf)) = int i"
    "ix_ptr (pl_index ep ! nat (pf_fd pf)) \<noteq> None" "nat (pf_fd pf) < length (pl_index ep)"
    using q pl_invD(3) [OF assms(1)] by auto
qed

text \<open>A descriptor that is not registered leaves a free place in the dense array.\<close>

lemma pl_room:
  assumes inv: "pl_inv ep" and fd: "fd < nat (pl_cap ep)" "ix_idx (pl_index ep ! fd) < 0"
  shows "pl_nfds ep < pl_cap ep"
proof -
  let ?f = "\<lambda>i. nat (pf_fd (pl_slot ep i))" and ?n = "nat (pl_nfds ep)"
  have s: "?f i < nat (pl_cap ep) \<and> ix_idx (pl_index ep ! ?f i) = int i" if "i < ?n" for i
    by (rule pl_inv_slot [OF inv that]) (simp add: pl_slot_def)
  have "inj_on ?f {..<?n}" by (rule inj_onI) (metis lessThan_iff of_nat_eq_iff s)
  then have "?n = card (?f ` {..<?n})" by (simp add: card_image)
  also have "\<dots> \<le> card ({..<nat (pl_cap ep)} - {fd})"
  proof (rule card_mono)
    show "?f ` {..<?n} \<subseteq> {..<nat (pl_cap ep)} - {fd}"
      using s fd(2) by fastforce
  qed simp
  also have "\<dots> = nat (pl_cap ep) - 1" using fd(1) by simp
  finally show ?thesis using pl_invD [OF inv] fd(1) by linarith
qed

section \<open>Growing\<close>

lemma double_until_spec:
  "0 < cap \<Longrightarrow> fd < 2 ^ 30 \<Longrightarrow> \<exists>c. double_until cap fd = Some c \<and> fd < c \<and> cap \<le> c \<and> (c = cap \<or> c \<le> 2 * fd)"
proof (induction cap fd rule: double_until.induct)
  case (1 cap fd)
  show ?case
  proof (cases "cap \<le> fd")
    case True
    with 1 have "\<exists>c. double_until (2 * cap) fd = Some c \<and> fd < c \<and> 2 * cap \<le> c \<and> (c = 2 * cap \<or> c \<le> 2 * fd)"
      by auto
    with True 1(2,3) show ?thesis by (subst double_until.simps) auto
  qed (simp add: double_until.simps)
qed

lemma index_grown:
  assumes "nat c0 \<le> length ixs" "0 \<le> c0" "c0 \<le> c" "fd < nat c"
  shows "(take (nat c0) ixs @ replicate (nat c - nat c0) no_index) ! fd =
    (if fd < nat c0 then ixs ! fd else no_index)"
proof -
  have "length (take (nat c0) ixs) = nat c0" using assms(1) by simp
  then show ?thesis using assms by (auto simp: nth_append)
qed

lemma no_index_idx [simp]: "ix_idx no_index = - 1"
  by (simp add: no_index_def)

lemma grow_index_inv:
  assumes inv: "pl_inv ep" and c: "pl_cap ep \<le> c"
  defines "ixs \<equiv> take (nat (pl_cap ep)) (pl_index ep) @ replicate (nat c - nat (pl_cap ep)) no_index"
  shows "pl_inv (ep\<lparr>pl_index := ixs\<rparr>)" and "pl_reg (ep\<lparr>pl_index := ixs\<rparr>) = pl_reg ep"
proof -
  note d = pl_invD [OF inv]
  have l: "length ixs = nat c" using d c by (simp add: ixs_def)
  have same: "ixs ! fd = pl_index ep ! fd" if "fd < nat (pl_cap ep)" for fd
    using index_grown [OF d(3), of c fd] d that c by (simp add: ixs_def)
  have a: "\<exists>pf. pl_pfds ep ! i = Some pf \<and> 0 \<le> pf_fd pf \<and> pf_fd pf < pl_cap ep \<and>
        ix_idx (ixs ! nat (pf_fd pf)) = int i \<and> ix_ptr (ixs ! nat (pf_fd pf)) \<noteq> None"
    if "i < nat (pl_nfds ep)" for i
    using pl_inv_slot [OF inv that] same by (metis nat_less_eq_zless)
  have b: "ix_idx (ixs ! fd) < pl_nfds ep \<and> (\<exists>pf. pl_pfds ep ! nat (ix_idx (ixs ! fd)) = Some pf \<and> pf_fd pf = int fd)"
    if f: "fd < nat (pl_cap ep)" "0 \<le> ix_idx (ixs ! fd)" for fd
  proof -
    have "0 \<le> ix_idx (pl_index ep ! fd)" using f same by simp
    then show ?thesis using pl_inv_index [OF inv f(1)] same [OF f(1)] by metis
  qed
  show "pl_inv (ep\<lparr>pl_index := ixs\<rparr>)"
    unfolding pl_inv_def using d l c a b by simp
  show "pl_reg (ep\<lparr>pl_index := ixs\<rparr>) = pl_reg ep"
  proof
    fix fd show "pl_reg (ep\<lparr>pl_index := ixs\<rparr>) fd = pl_reg ep fd"
      using same [of "nat fd"] by (auto simp: pl_reg_def pl_slot_def)
  qed
qed

lemma grow_pfds_inv:
  assumes inv: "pl_inv ep" and c: "pl_cap ep \<le> c" "length (pl_index ep) = nat c"
    and fresh: "\<And>fd. nat (pl_cap ep) \<le> fd \<Longrightarrow> fd < nat c \<Longrightarrow> pl_index ep ! fd = no_index"
  defines "pfds \<equiv> take (nat c) (pl_pfds ep) @ replicate (nat c - length (pl_pfds ep)) None"
  shows "pl_inv (ep\<lparr>pl_pfds := pfds, pl_cap := c\<rparr>)" and "pl_reg (ep\<lparr>pl_pfds := pfds, pl_cap := c\<rparr>) = pl_reg ep"
proof -
  note d = pl_invD [OF inv]
  have l: "length pfds = nat c" using d c by (simp add: pfds_def)
  have same: "pfds ! i = pl_pfds ep ! i" if "i < nat (pl_cap ep)" for i
  proof -
    have "take (nat c) (pl_pfds ep) = pl_pfds ep" using d c by simp
    then show ?thesis using that d by (simp add: pfds_def nth_append)
  qed
  have n: "i < nat (pl_cap ep)" if "i < nat (pl_nfds ep)" for i using that d by linarith
  have a: "\<exists>pf. pfds ! i = Some pf \<and> 0 \<le> pf_fd pf \<and> pf_fd pf < c \<and>
        ix_idx (pl_index ep ! nat (pf_fd pf)) = int i \<and> ix_ptr (pl_index ep ! nat (pf_fd pf)) \<noteq> None"
    if "i < nat (pl_nfds ep)" for i
    by (rule pl_inv_slot [OF inv that]) (use same n [OF that] c in auto)
  have old: "nat fd < nat (pl_cap ep)" if "0 \<le> fd" "fd < c" "0 \<le> ix_idx (pl_index ep ! nat fd)" for fd :: int
    using fresh [of "nat fd"] that by (cases "nat (pl_cap ep) \<le> nat fd") auto
  have b: "ix_idx (pl_index ep ! fd) < pl_nfds ep \<and>
      (\<exists>pf. pfds ! nat (ix_idx (pl_index ep ! fd)) = Some pf \<and> pf_fd pf = int fd)"
    if f: "fd < nat c" "0 \<le> ix_idx (pl_index ep ! fd)" for fd
  proof -
    have "fd < nat (pl_cap ep)" using old [of "int fd"] f by simp
    from pl_inv_index [OF inv this f(2)] same n f(2) show ?thesis by (metis nat_less_iff d(2) zless_nat_eq_int_zless nat_mono_iff order.strict_trans2 d(5) nat_less_eq_zless)
  qed
  show "pl_inv (ep\<lparr>pl_pfds := pfds, pl_cap := c\<rparr>)"
    unfolding pl_inv_def using d l c a b by simp
  show "pl_reg (ep\<lparr>pl_pfds := pfds, pl_cap := c\<rparr>) = pl_reg ep"
  proof
    fix fd show "pl_reg (ep\<lparr>pl_pfds := pfds, pl_cap := c\<rparr>) fd = pl_reg ep fd"
    proof (cases "0 \<le> fd \<and> fd < c \<and> 0 \<le> ix_idx (pl_index ep ! nat fd)")
      case True
      then have f: "nat fd < nat (pl_cap ep)" using old by blast
      have "ix_idx (pl_index ep ! nat fd) < pl_nfds ep" using pl_inv_index [OF inv f] True by metis
      then have "nat (ix_idx (pl_index ep ! nat fd)) < nat (pl_cap ep)" using True d by linarith
      then show ?thesis using True f same by (auto simp: pl_reg_def pl_slot_def)
    next
      case False
      then show ?thesis using c by (auto simp: pl_reg_def)
    qed
  qed
qed

lemma ef_poll_expand_cases:
  assumes inv: "pl_inv ep" and fd: "fd < 2 ^ 30"
  obtains (fail) ep' m' where "ef_poll_expand m ep fd = Some (- 1, ep', m')" "pl_inv ep'" "pl_reg ep' = pl_reg ep" "m \<noteq> []"
  | (ok) ep' m' where "ef_poll_expand m ep fd = Some (0, ep', m')" "pl_inv ep'" "pl_reg ep' = pl_reg ep"
      "fd < pl_cap ep'" "m = [] \<longrightarrow> m' = []"
proof (cases "pl_cap ep > fd")
  case True
  with inv show thesis by (intro ok [of ep m]) (simp_all add: ef_poll_expand_def)
next
  case False
  note d = pl_invD [OF inv]
  obtain c where c: "double_until (pl_cap ep) fd = Some c" "fd < c" "pl_cap ep \<le> c"
    using double_until_spec [OF d(1) fd] by blast
  obtain g1 m1 where g1: "malloc_obj m = (g1, m1)" by fastforce
  show thesis
  proof (cases g1)
    case False
    then have "m \<noteq> []" using g1 by auto
    with False \<open>\<not> fd < pl_cap ep\<close> g1 c inv show thesis by (intro fail [of ep m1]) (simp_all add: ef_poll_expand_def)
  next
    case g1_ok: True
    define ixs where "ixs = take (nat (pl_cap ep)) (pl_index ep) @ replicate (nat c - nat (pl_cap ep)) no_index"
    define ep1 where "ep1 = ep\<lparr>pl_index := ixs\<rparr>"
    have e1: "pl_inv ep1" "pl_reg ep1 = pl_reg ep" "pl_cap ep1 = pl_cap ep" "pl_pfds ep1 = pl_pfds ep"
      using grow_index_inv [OF inv c(3)] by (simp_all add: ep1_def ixs_def)
    obtain g2 m2 where g2: "malloc_obj m1 = (g2, m2)" by fastforce
    show thesis
    proof (cases g2)
      case g2_no: False
      then have "m \<noteq> []" using g1 g2 by auto
      with False g1_ok g2_no g1 g2 c show thesis
        by (intro fail [OF _ e1(1,2)]) (simp_all add: ef_poll_expand_def ep1_def ixs_def)
    next
      case g2_ok: True
      define pfds where "pfds = take (nat c) (pl_pfds ep1) @ replicate (nat c - length (pl_pfds ep1)) None"
      have len: "length (pl_index ep1) = nat c" using d c by (simp add: ep1_def ixs_def)
      have fresh: "pl_index ep1 ! f = no_index" if "nat (pl_cap ep1) \<le> f" "f < nat c" for f
        using index_grown [OF d(3), of c f] d that c by (simp add: ep1_def ixs_def)
      note g = grow_pfds_inv [OF e1(1) _ len fresh]
      have eq: "ef_poll_expand m ep fd = Some (0, ep1\<lparr>pl_pfds := pfds, pl_cap := c\<rparr>, m2)"
        using False g1_ok g2_ok g1 g2 c by (simp add: ef_poll_expand_def ep1_def ixs_def pfds_def)
      show thesis
        by (rule ok [OF eq]) (use g e1 c g1 g2 in \<open>auto simp: pfds_def\<close>)
    qed
  qed
qed

section \<open>Registering and removing\<close>

text \<open>Registering a new descriptor at the end, or updating the entry it has.\<close>

lemma add_entry_inv:
  fixes ep :: "'a ef_pollsys" and ptr :: 'a
  assumes inv: "pl_inv ep" and fd: "0 \<le> fd" "fd < pl_cap ep" "ix_idx (pl_index ep ! nat fd) < 0"
    and pf: "pf_fd pf = fd"
  defines "ep' \<equiv> ep\<lparr>pl_nfds := pl_nfds ep + 1,
      pl_index := (pl_index ep)[nat fd := (pl_index ep ! nat fd)\<lparr>ix_idx := pl_nfds ep, ix_ptr := Some ptr\<rparr>],
      pl_pfds := (pl_pfds ep)[nat (pl_nfds ep) := Some pf]\<rparr>"
  shows "pl_inv ep'" and "pl_reg ep' = (pl_reg ep)(fd \<mapsto> (pf_events pf, ptr))"
proof -
  note d = pl_invD [OF inv]
  have room: "pl_nfds ep < pl_cap ep" using pl_room [OF inv, of "nat fd"] fd by simp
  have n: "nat (pl_nfds ep) < length (pl_pfds ep)" "nat fd < length (pl_index ep)" using d room fd by linarith+
  have nn: "nat (pl_nfds ep + 1) = Suc (nat (pl_nfds ep))" using d by simp
  have other: "pf_fd q \<noteq> fd" if "i < nat (pl_nfds ep)" "pl_pfds ep ! i = Some q" for i q
    using pl_inv_slot_fd [OF inv that] fd(3) by auto
  have a: "\<exists>q. pl_pfds ep' ! i = Some q \<and> 0 \<le> pf_fd q \<and> pf_fd q < pl_cap ep' \<and>
        ix_idx (pl_index ep' ! nat (pf_fd q)) = int i \<and> ix_ptr (pl_index ep' ! nat (pf_fd q)) \<noteq> None"
    if i: "i < nat (pl_nfds ep')" for i
  proof (cases "i = nat (pl_nfds ep)")
    case True
    then show ?thesis using n fd pf d by (simp add: ep'_def)
  next
    case False
    then have i': "i < nat (pl_nfds ep)" using i by (simp add: ep'_def nn)
    obtain q where q: "pl_pfds ep ! i = Some q" by (rule pl_inv_slot [OF inv i'])
    have "nat (pf_fd q) \<noteq> nat fd" using other [OF i' q] pl_inv_slot_fd(1) [OF inv i' q] fd(1) by linarith
    then show ?thesis using q pl_inv_slot_fd [OF inv i' q] False by (simp add: ep'_def)
  qed
  have b: "ix_idx (pl_index ep' ! f) < pl_nfds ep' \<and>
      (\<exists>q. pl_pfds ep' ! nat (ix_idx (pl_index ep' ! f)) = Some q \<and> pf_fd q = int f)"
    if f: "f < nat (pl_cap ep')" "0 \<le> ix_idx (pl_index ep' ! f)" for f
  proof (cases "f = nat fd")
    case True
    then show ?thesis using n fd pf by (simp add: ep'_def)
  next
    case False
    then have g: "f < nat (pl_cap ep)" "0 \<le> ix_idx (pl_index ep ! f)" using f by (simp_all add: ep'_def)
    obtain q where q: "ix_idx (pl_index ep ! f) < pl_nfds ep"
      "pl_pfds ep ! nat (ix_idx (pl_index ep ! f)) = Some q" "pf_fd q = int f"
      by (rule pl_inv_index [OF inv g])
    then have "nat (ix_idx (pl_index ep ! f)) \<noteq> nat (pl_nfds ep)" using g by linarith
    then show ?thesis using q False by (simp add: ep'_def)
  qed
  show "pl_inv ep'" unfolding pl_inv_def using a b d room by (simp add: ep'_def)
  show "pl_reg ep' = (pl_reg ep)(fd \<mapsto> (pf_events pf, ptr))"
  proof
    fix f show "pl_reg ep' f = ((pl_reg ep)(fd \<mapsto> (pf_events pf, ptr))) f"
    proof (cases "f = fd")
      case True
      then show ?thesis using n fd d by (simp add: pl_reg_def pl_slot_def ep'_def)
    next
      case False
      show ?thesis
      proof (cases "0 \<le> f \<and> f < pl_cap ep \<and> 0 \<le> ix_idx (pl_index ep ! nat f)")
        case True
        then have "ix_idx (pl_index ep ! nat f) < pl_nfds ep" using pl_inv_index [OF inv, of "nat f"] by auto
        then have "nat (ix_idx (pl_index ep ! nat f)) \<noteq> nat (pl_nfds ep)" using True by linarith
        moreover have "nat f \<noteq> nat fd" using False True fd(1) by linarith
        ultimately show ?thesis using True False by (simp add: pl_reg_def pl_slot_def ep'_def)
      next
        case no: False
        then have "nat f \<noteq> nat fd \<or> f < 0 \<or> f \<ge> pl_cap ep" using False fd(1) by linarith
        with no False show ?thesis by (auto simp: pl_reg_def ep'_def)
      qed
    qed
  qed
qed

lemma update_entry_inv:
  fixes ep :: "'a ef_pollsys" and ptr :: 'a
  assumes inv: "pl_inv ep" and fd: "0 \<le> fd" "fd < pl_cap ep" "0 \<le> ix_idx (pl_index ep ! nat fd)"
    and pf: "pf_fd pf = fd"
  defines "ep' \<equiv> ep\<lparr>pl_index := (pl_index ep)[nat fd := (pl_index ep ! nat fd)\<lparr>ix_ptr := Some ptr\<rparr>],
      pl_pfds := (pl_pfds ep)[nat (ix_idx (pl_index ep ! nat fd)) := Some pf]\<rparr>"
  shows "pl_inv ep'" and "pl_reg ep' = (pl_reg ep)(fd \<mapsto> (pf_events pf, ptr))"
    and "nat (ix_idx (pl_index ep ! nat fd)) < length (pl_pfds ep)"
proof -
  note d = pl_invD [OF inv]
  let ?i = "ix_idx (pl_index ep ! nat fd)"
  obtain p where p: "?i < pl_nfds ep" "pl_pfds ep ! nat ?i = Some p" "pf_fd p = fd"
    by (rule pl_inv_index [OF inv _ fd(3)]) (use fd in auto)
  have n: "nat ?i < length (pl_pfds ep)" "nat fd < length (pl_index ep)" using d fd p(1) by linarith+
  then show "nat ?i < length (pl_pfds ep)" by simp
  have ix: "ix_idx (pl_index ep' ! f) = ix_idx (pl_index ep ! f)" for f
    using n(2) by (cases "f = nat fd") (simp_all add: ep'_def)
  have ptr: "ix_ptr (pl_index ep ! f) \<noteq> None \<Longrightarrow> ix_ptr (pl_index ep' ! f) \<noteq> None" for f
    using n(2) by (cases "f = nat fd") (simp_all add: ep'_def)
  have slot: "\<exists>q'. pl_pfds ep' ! i = Some q' \<and> pf_fd q' = pf_fd q"
    if "pl_pfds ep ! i = Some q" for i q
    using that p n(1) pf by (cases "i = nat ?i") (auto simp: ep'_def)
  have a: "\<exists>q. pl_pfds ep' ! i = Some q \<and> 0 \<le> pf_fd q \<and> pf_fd q < pl_cap ep' \<and>
        ix_idx (pl_index ep' ! nat (pf_fd q)) = int i \<and> ix_ptr (pl_index ep' ! nat (pf_fd q)) \<noteq> None"
    if i: "i < nat (pl_nfds ep')" for i
  proof -
    have i': "i < nat (pl_nfds ep)" using i by (simp add: ep'_def)
    obtain q where q: "pl_pfds ep ! i = Some q" by (rule pl_inv_slot [OF inv i'])
    obtain q' where "pl_pfds ep' ! i = Some q'" "pf_fd q' = pf_fd q" using slot [OF q] by blast
    then show ?thesis using pl_inv_slot_fd [OF inv i' q] ix ptr by (auto simp: ep'_def)
  qed
  have b: "ix_idx (pl_index ep' ! f) < pl_nfds ep' \<and>
      (\<exists>q. pl_pfds ep' ! nat (ix_idx (pl_index ep' ! f)) = Some q \<and> pf_fd q = int f)"
    if f: "f < nat (pl_cap ep')" "0 \<le> ix_idx (pl_index ep' ! f)" for f
  proof -
    have g: "f < nat (pl_cap ep)" "0 \<le> ix_idx (pl_index ep ! f)" using f unfolding ix by (simp_all add: ep'_def)
    obtain q where q: "ix_idx (pl_index ep ! f) < pl_nfds ep"
      "pl_pfds ep ! nat (ix_idx (pl_index ep ! f)) = Some q" "pf_fd q = int f"
      by (rule pl_inv_index [OF inv g])
    then show ?thesis using slot [OF q(2)] unfolding ix by (auto simp: ep'_def)
  qed
  show "pl_inv ep'" unfolding pl_inv_def using a b d by (simp add: ep'_def)
  show "pl_reg ep' = (pl_reg ep)(fd \<mapsto> (pf_events pf, ptr))"
  proof
    fix f show "pl_reg ep' f = ((pl_reg ep)(fd \<mapsto> (pf_events pf, ptr))) f"
    proof (cases "f = fd")
      case True
      then show ?thesis using n fd d by (simp add: pl_reg_def pl_slot_def ep'_def)
    next
      case False
      show ?thesis
      proof (cases "0 \<le> f \<and> f < pl_cap ep \<and> 0 \<le> ix_idx (pl_index ep ! nat f)")
        case True
        then obtain q where "pl_pfds ep ! nat (ix_idx (pl_index ep ! nat f)) = Some q" "pf_fd q = f"
          by (rule_tac pl_inv_index [OF inv, of "nat f"]) auto
        then have "nat (ix_idx (pl_index ep ! nat f)) \<noteq> nat ?i" using p(2,3) False by (metis option.inject)
        moreover have "nat f \<noteq> nat fd" using False True fd(1) by linarith
        ultimately show ?thesis using True False by (simp add: pl_reg_def pl_slot_def ep'_def)
      next
        case no: False
        have "ix_idx (pl_index ep' ! nat f) = ix_idx (pl_index ep ! nat f)" by (rule ix)
        with no False show ?thesis by (auto simp: pl_reg_def ep'_def)
      qed
    qed
  qed
qed

lemma ef_poll_associate_cases:
  assumes inv: "pl_inv ep" and fd: "0 \<le> fd" "fd < 2 ^ 30"
  obtains (fail) ep' m' where "ef_poll_associate m ep fd events ptr False = Some (- 1, ep', m')" "pl_inv ep'"
      "pl_reg ep' = pl_reg ep" "m \<noteq> []"
  | (ok) ep' m' where "ef_poll_associate m ep fd events ptr False = Some (0, ep', m')" "pl_inv ep'"
      "pl_reg ep' = (pl_reg ep)(fd \<mapsto> (ucast events, ptr))"
proof -
  define grown where "grown = (if pl_cap ep \<le> fd then ef_poll_expand m ep fd else Some (0, ep, m))"
  have step: thesis
    if g: "grown = Some (0, ep1, m1)" and e: "pl_inv ep1" "pl_reg ep1 = pl_reg ep" "fd < pl_cap ep1" for ep1 m1
  proof -
    note d = pl_invD [OF e(1)]
    have fl: "nat fd < length (pl_index ep1)" using d fd(1) e(3) by linarith
    let ?ix = "pl_index ep1 ! nat fd"
    show thesis
    proof (cases "ix_idx ?ix < 0")
      case True
      have "pl_nfds ep1 < pl_cap ep1" using pl_room [OF e(1), of "nat fd"] True fd(1) e(3) by simp
      then have nl: "nat (pl_nfds ep1) < length (pl_pfds ep1)" using d by linarith
      define pf where "pf = \<lparr>pf_fd = fd, pf_events = ucast events,
        pf_revents = (case pl_pfds ep1 ! nat (pl_nfds ep1) of None \<Rightarrow> 0 | Some pf \<Rightarrow> pf_revents pf)\<rparr>"
      define ep' where "ep' = ep1\<lparr>pl_nfds := pl_nfds ep1 + 1,
        pl_index := (pl_index ep1)[nat fd := (pl_index ep1 ! nat fd)\<lparr>ix_idx := pl_nfds ep1, ix_ptr := Some ptr\<rparr>],
        pl_pfds := (pl_pfds ep1)[nat (pl_nfds ep1) := Some pf]\<rparr>"
      have eq: "ef_poll_associate m ep fd events ptr False = Some (0, ep', m1)"
        using g True fl nl fd(1) d(2) by (simp add: ef_poll_associate_def grown_def [symmetric] ep'_def pf_def Let_def)
      have pf: "pf_fd pf = fd" "pf_events pf = ucast events" by (simp_all add: pf_def)
      show thesis
        by (rule ok [OF eq]) (use add_entry_inv [OF e(1) fd(1) e(3) True pf(1), of ptr] pf e(2) in \<open>simp_all add: ep'_def\<close>)
    next
      case False
      define pf where "pf = \<lparr>pf_fd = fd, pf_events = ucast events,
        pf_revents = (case pl_pfds ep1 ! nat (ix_idx ?ix) of None \<Rightarrow> 0 | Some pf \<Rightarrow> pf_revents pf)\<rparr>"
      have pf: "pf_fd pf = fd" "pf_events pf = ucast events" by (simp_all add: pf_def)
      have i: "0 \<le> ix_idx ?ix" using False by simp
      note u = update_entry_inv(1,2) [OF e(1) fd(1) e(3) i pf(1), of ptr]
      note u3 = update_entry_inv(3) [OF e(1) fd(1) e(3) i pf(1)]
      define ep' where "ep' = ep1\<lparr>pl_index := (pl_index ep1)[nat fd := ?ix\<lparr>ix_ptr := Some ptr\<rparr>],
        pl_pfds := (pl_pfds ep1)[nat (ix_idx ?ix) := Some pf]\<rparr>"
      have eq: "ef_poll_associate m ep fd events ptr False = Some (0, ep', m1)"
        using g False fl u3 fd(1) i by (simp add: ef_poll_associate_def grown_def [symmetric] ep'_def pf_def Let_def)
      show thesis by (rule ok [OF eq]) (use u pf e(2) in \<open>simp_all add: ep'_def\<close>)
    qed
  qed
  show thesis
  proof (cases "pl_cap ep \<le> fd")
    case False
    then show thesis using inv by (intro step [of ep m]) (simp_all add: grown_def)
  next
    case True
    show thesis
    proof (rule ef_poll_expand_cases [OF inv fd(2), of m])
      fix ep' m' assume f: "ef_poll_expand m ep fd = Some (- 1, ep', m')" "pl_inv ep'" "pl_reg ep' = pl_reg ep" "m \<noteq> []"
      then have eq: "ef_poll_associate m ep fd events ptr False = Some (- 1, ep', m')"
        using True by (simp add: ef_poll_associate_def)
      show thesis by (rule fail [OF eq f(2-4)])
    next
      fix ep' m' assume "ef_poll_expand m ep fd = Some (0, ep', m')" "pl_inv ep'" "pl_reg ep' = pl_reg ep" "fd < pl_cap ep'"
      then show thesis using True by (intro step [of ep' m']) (simp_all add: grown_def)
    qed
  qed
qed

text \<open>Removal moves the last entry into the gap.\<close>

text \<open>What the arrays hold after the gap has been filled with the last entry.\<close>

lemma remove_entry_cells:
  fixes ep :: "'a ef_pollsys"
  assumes inv: "pl_inv ep" and fd: "0 \<le> fd" "fd < pl_cap ep" "0 \<le> ix_idx (pl_index ep ! nat fd)"
  defines "gap \<equiv> nat (ix_idx (pl_index ep ! nat fd))" and "lst \<equiv> nat (pl_nfds ep - 1)"
  defines "lfd \<equiv> nat (pf_fd (pl_slot ep lst))"
  defines "ep' \<equiv> ep\<lparr>pl_index := (pl_index ep)[nat fd := (pl_index ep ! nat fd)\<lparr>ix_idx := - 1\<rparr>,
        lfd := (if gap < lst then (pl_index ep ! lfd)\<lparr>ix_idx := int gap\<rparr>
                else (pl_index ep ! nat fd)\<lparr>ix_idx := - 1\<rparr>)],
      pl_pfds := (if gap < lst then (pl_pfds ep)[gap := pl_pfds ep ! lst] else pl_pfds ep),
      pl_nfds := pl_nfds ep - 1\<rparr>"
  obtains p q where
    "ix_idx (pl_index ep ! nat fd) < pl_nfds ep" "pl_pfds ep ! gap = Some p" "pf_fd p = fd"
    "int gap = ix_idx (pl_index ep ! nat fd)"
    "0 < pl_nfds ep" "lst < nat (pl_nfds ep)" "nat (pl_nfds ep) = Suc lst" "gap \<le> lst" "gap < nat (pl_nfds ep)"
    "pl_pfds ep ! lst = Some q"
    "lfd = nat (pf_fd q)" "lfd < nat (pl_cap ep)" "lfd < length (pl_index ep)" "ix_idx (pl_index ep ! lfd) = int lst"
    "lfd = nat fd \<longleftrightarrow> gap = lst"
    "\<And>f. pl_index ep' ! f = (if f = nat fd then (pl_index ep ! f)\<lparr>ix_idx := - 1\<rparr>
      else if f = lfd then (pl_index ep ! f)\<lparr>ix_idx := int gap\<rparr> else pl_index ep ! f)"
    "\<And>i. pl_pfds ep' ! i = (if i = gap \<and> gap < lst then Some q else pl_pfds ep ! i)"
    "pl_cap ep' = pl_cap ep" "pl_nfds ep' = pl_nfds ep - 1" "nat (pl_nfds ep') = lst"
      "length (pl_index ep') = length (pl_index ep)" "length (pl_pfds ep') = length (pl_pfds ep)"
proof -
  note d = pl_invD [OF inv]
  obtain p where p: "ix_idx (pl_index ep ! nat fd) < pl_nfds ep" "pl_pfds ep ! gap = Some p" "pf_fd p = fd"
    unfolding gap_def by (rule pl_inv_index [OF inv _ fd(3)]) (use fd in auto)
  have gi: "int gap = ix_idx (pl_index ep ! nat fd)" using fd(3) by (simp add: gap_def)
  have nz: "0 < pl_nfds ep" "lst < nat (pl_nfds ep)" "nat (pl_nfds ep) = Suc lst" "gap \<le> lst" "gap < nat (pl_nfds ep)"
    using p(1) fd(3) unfolding lst_def gap_def by linarith+
  obtain q where q: "pl_pfds ep ! lst = Some q" by (rule pl_inv_slot [OF inv nz(2)])
  note qf = pl_inv_slot_fd [OF inv nz(2) q]
  have lfd: "lfd = nat (pf_fd q)" "lfd < nat (pl_cap ep)" "lfd < length (pl_index ep)" "ix_idx (pl_index ep ! lfd) = int lst"
    using q qf by (auto simp: lfd_def pl_slot_def)
  have n: "gap < length (pl_pfds ep)" "lst < length (pl_pfds ep)" "nat fd < length (pl_index ep)"
    using d nz fd by linarith+
  have eqfd: "lfd = nat fd \<longleftrightarrow> gap = lst"
  proof
    assume "lfd = nat fd" then show "gap = lst" using lfd(4) gi by simp
  next
    assume "gap = lst" then show "lfd = nat fd" using p q by (simp add: lfd(1))
  qed
  have ix: "pl_index ep' ! f = (if f = nat fd then (pl_index ep ! f)\<lparr>ix_idx := - 1\<rparr>
      else if f = lfd then (pl_index ep ! f)\<lparr>ix_idx := int gap\<rparr> else pl_index ep ! f)" for f
    using n(3) lfd(3) eqfd nz(4) by (auto simp: ep'_def nth_list_update)
  have sl: "pl_pfds ep' ! i = (if i = gap \<and> gap < lst then Some q else pl_pfds ep ! i)" for i
    using n q by (auto simp: ep'_def)
  have c: "pl_cap ep' = pl_cap ep" "pl_nfds ep' = pl_nfds ep - 1" "nat (pl_nfds ep') = lst"
    "length (pl_index ep') = length (pl_index ep)" "length (pl_pfds ep') = length (pl_pfds ep)"
    by (simp_all add: ep'_def lst_def)
  show thesis by (rule that [OF p gi nz q lfd eqfd ix sl c])
qed

lemma remove_entry_keeps:
  fixes ep :: "'a ef_pollsys"
  assumes inv: "pl_inv ep" and fd: "0 \<le> fd" "fd < pl_cap ep" "0 \<le> ix_idx (pl_index ep ! nat fd)"
  defines "gap \<equiv> nat (ix_idx (pl_index ep ! nat fd))" and "lst \<equiv> nat (pl_nfds ep - 1)"
  defines "lfd \<equiv> nat (pf_fd (pl_slot ep lst))"
  defines "ep' \<equiv> ep\<lparr>pl_index := (pl_index ep)[nat fd := (pl_index ep ! nat fd)\<lparr>ix_idx := - 1\<rparr>,
        lfd := (if gap < lst then (pl_index ep ! lfd)\<lparr>ix_idx := int gap\<rparr>
                else (pl_index ep ! nat fd)\<lparr>ix_idx := - 1\<rparr>)],
      pl_pfds := (if gap < lst then (pl_pfds ep)[gap := pl_pfds ep ! lst] else pl_pfds ep),
      pl_nfds := pl_nfds ep - 1\<rparr>"
  shows "pl_inv ep'"
proof -
  note d = pl_invD [OF inv]
  obtain p q where p: "ix_idx (pl_index ep ! nat fd) < pl_nfds ep" "pl_pfds ep ! gap = Some p" "pf_fd p = fd"
    and gi: "int gap = ix_idx (pl_index ep ! nat fd)"
    and nz: "0 < pl_nfds ep" "lst < nat (pl_nfds ep)" "nat (pl_nfds ep) = Suc lst" "gap \<le> lst" "gap < nat (pl_nfds ep)"
    and q: "pl_pfds ep ! lst = Some q"
    and lfd: "lfd = nat (pf_fd q)" "lfd < nat (pl_cap ep)" "lfd < length (pl_index ep)" "ix_idx (pl_index ep ! lfd) = int lst"
    and eqfd: "lfd = nat fd \<longleftrightarrow> gap = lst"
    and ix: "\<And>f. pl_index ep' ! f = (if f = nat fd then (pl_index ep ! f)\<lparr>ix_idx := - 1\<rparr>
      else if f = lfd then (pl_index ep ! f)\<lparr>ix_idx := int gap\<rparr> else pl_index ep ! f)"
    and sl: "\<And>i. pl_pfds ep' ! i = (if i = gap \<and> gap < lst then Some q else pl_pfds ep ! i)"
    and c: "pl_cap ep' = pl_cap ep" "pl_nfds ep' = pl_nfds ep - 1" "nat (pl_nfds ep') = lst"
      "length (pl_index ep') = length (pl_index ep)" "length (pl_pfds ep') = length (pl_pfds ep)"
    by (rule remove_entry_cells [OF inv fd, folded gap_def lst_def, folded lfd_def, folded ep'_def]) (rule that)
  note qf = pl_inv_slot_fd [OF inv nz(2) q]
  have a: "\<exists>r. pl_pfds ep' ! i = Some r \<and> 0 \<le> pf_fd r \<and> pf_fd r < pl_cap ep' \<and>
        ix_idx (pl_index ep' ! nat (pf_fd r)) = int i \<and> ix_ptr (pl_index ep' ! nat (pf_fd r)) \<noteq> None"
    if i: "i < nat (pl_nfds ep')" for i
  proof (cases "i = gap")
    case True
    then have "gap < lst" using i c(3) by simp
    moreover from this have "nat (pf_fd q) \<noteq> nat fd" using eqfd lfd(1) by simp
    ultimately show ?thesis using True qf lfd by (simp add: sl ix c)
  next
    case False
    have i': "i < nat (pl_nfds ep)" using i nz c(3) by simp
    obtain r where r: "pl_pfds ep ! i = Some r" by (rule pl_inv_slot [OF inv i'])
    note rf = pl_inv_slot_fd [OF inv i' r]
    have "nat (pf_fd r) \<noteq> nat fd" using rf(3) gi False by auto
    moreover have "i < lst" using i unfolding c(3) .
    then have "nat (pf_fd r) \<noteq> lfd" using rf(3) lfd(4) by auto
    ultimately show ?thesis using r rf False by (simp add: sl ix c)
  qed
  have moved: "\<exists>r. pl_pfds ep' ! nat (ix_idx (pl_index ep' ! f)) = Some r \<and> pf_fd r = int f"
    and below: "ix_idx (pl_index ep' ! f) < pl_nfds ep'"
    if f: "f < nat (pl_cap ep)" "0 \<le> ix_idx (pl_index ep' ! f)" for f
  proof -
    have ffd: "f \<noteq> nat fd" using f(2) by (auto simp: ix)
    have "(\<exists>r. pl_pfds ep' ! nat (ix_idx (pl_index ep' ! f)) = Some r \<and> pf_fd r = int f) \<and>
      ix_idx (pl_index ep' ! f) < pl_nfds ep'"
    proof (cases "f = lfd")
      case True
      then have "gap < lst" using ffd eqfd nz(4) by auto
      then show ?thesis using True ffd qf(1) lfd nz c by (auto simp: ix sl)
    next
      case False
      then have g: "0 \<le> ix_idx (pl_index ep ! f)" using f(2) ffd by (simp add: ix)
      obtain r where r: "ix_idx (pl_index ep ! f) < pl_nfds ep"
        "pl_pfds ep ! nat (ix_idx (pl_index ep ! f)) = Some r" "pf_fd r = int f"
        by (rule pl_inv_index [OF inv f(1) g])
      have "nat (ix_idx (pl_index ep ! f)) \<noteq> gap"
        using r p(2,3) ffd by auto
      moreover have "nat (ix_idx (pl_index ep ! f)) \<noteq> lst" using r(2,3) q False lfd(1) by auto
      ultimately show ?thesis using r g False ffd nz by (simp add: ix sl c lst_def)
    qed
    then show "\<exists>r. pl_pfds ep' ! nat (ix_idx (pl_index ep' ! f)) = Some r \<and> pf_fd r = int f"
      "ix_idx (pl_index ep' ! f) < pl_nfds ep'" by auto
  qed
  show "pl_inv ep'"
    unfolding pl_inv_def using a moved below d nz(1) by (simp add: c)
qed

lemma remove_entry_reg:
  fixes ep :: "'a ef_pollsys"
  assumes inv: "pl_inv ep" and fd: "0 \<le> fd" "fd < pl_cap ep" "0 \<le> ix_idx (pl_index ep ! nat fd)"
  defines "gap \<equiv> nat (ix_idx (pl_index ep ! nat fd))" and "lst \<equiv> nat (pl_nfds ep - 1)"
  defines "lfd \<equiv> nat (pf_fd (pl_slot ep lst))"
  defines "ep' \<equiv> ep\<lparr>pl_index := (pl_index ep)[nat fd := (pl_index ep ! nat fd)\<lparr>ix_idx := - 1\<rparr>,
        lfd := (if gap < lst then (pl_index ep ! lfd)\<lparr>ix_idx := int gap\<rparr>
                else (pl_index ep ! nat fd)\<lparr>ix_idx := - 1\<rparr>)],
      pl_pfds := (if gap < lst then (pl_pfds ep)[gap := pl_pfds ep ! lst] else pl_pfds ep),
      pl_nfds := pl_nfds ep - 1\<rparr>"
  shows "pl_reg ep' = (pl_reg ep)(fd := None)"
proof -
  obtain p q where p: "ix_idx (pl_index ep ! nat fd) < pl_nfds ep" "pl_pfds ep ! gap = Some p" "pf_fd p = fd"
    and gi: "int gap = ix_idx (pl_index ep ! nat fd)"
    and nz: "0 < pl_nfds ep" "lst < nat (pl_nfds ep)" "nat (pl_nfds ep) = Suc lst" "gap \<le> lst" "gap < nat (pl_nfds ep)"
    and q: "pl_pfds ep ! lst = Some q"
    and lfd: "lfd = nat (pf_fd q)" "lfd < nat (pl_cap ep)" "lfd < length (pl_index ep)" "ix_idx (pl_index ep ! lfd) = int lst"
    and eqfd: "lfd = nat fd \<longleftrightarrow> gap = lst"
    and ix: "\<And>f. pl_index ep' ! f = (if f = nat fd then (pl_index ep ! f)\<lparr>ix_idx := - 1\<rparr>
      else if f = lfd then (pl_index ep ! f)\<lparr>ix_idx := int gap\<rparr> else pl_index ep ! f)"
    and sl: "\<And>i. pl_pfds ep' ! i = (if i = gap \<and> gap < lst then Some q else pl_pfds ep ! i)"
    and c: "pl_cap ep' = pl_cap ep" "pl_nfds ep' = pl_nfds ep - 1" "nat (pl_nfds ep') = lst"
      "length (pl_index ep') = length (pl_index ep)" "length (pl_pfds ep') = length (pl_pfds ep)"
    by (rule remove_entry_cells [OF inv fd, folded gap_def lst_def, folded lfd_def, folded ep'_def]) (rule that)
  have alive: "0 \<le> ix_idx (pl_index ep ! f)" if "0 \<le> ix_idx (pl_index ep' ! f)" for f
    using that lfd(4) by (auto simp: ix split: if_splits)
  show "pl_reg ep' = (pl_reg ep)(fd := None)"
  proof
    fix f show "pl_reg ep' f = ((pl_reg ep)(fd := None)) f"
    proof (cases "f = fd")
      case True
      then show ?thesis by (simp add: pl_reg_def ix)
    next
      case False
      have nf: "0 \<le> f \<Longrightarrow> nat f \<noteq> nat fd" using False fd(1) by linarith
      show ?thesis
      proof (cases "0 \<le> f \<and> f < pl_cap ep \<and> 0 \<le> ix_idx (pl_index ep ! nat f)")
        case False
        then have "\<not> (0 \<le> f \<and> f < pl_cap ep \<and> 0 \<le> ix_idx (pl_index ep' ! nat f))"
          using alive [of "nat f"] by auto
        with False \<open>f \<noteq> fd\<close> show ?thesis by (auto simp: pl_reg_def c(1))
      next
        case True
        show ?thesis
        proof (cases "nat f = lfd")
          case l: True
          then have "gap < lst" using nf True eqfd nz(4) by auto
          then show ?thesis using True l nf False lfd q
            by (simp add: pl_reg_def pl_slot_def ix sl c(1))
        next
          case l: False
          obtain r where r: "pl_pfds ep ! nat (ix_idx (pl_index ep ! nat f)) = Some r" "pf_fd r = f"
            by (rule_tac pl_inv_index [OF inv, of "nat f"]) (use True in auto)
          have "nat (ix_idx (pl_index ep ! nat f)) \<noteq> gap" using r p False by auto
          then show ?thesis using True l nf False by (simp add: pl_reg_def pl_slot_def ix sl c(1))
        qed
      qed
    qed
  qed
qed

lemma remove_entry_inv:
  fixes ep :: "'a ef_pollsys"
  assumes inv: "pl_inv ep" and fd: "0 \<le> fd" "fd < pl_cap ep" "0 \<le> ix_idx (pl_index ep ! nat fd)"
  defines "gap \<equiv> nat (ix_idx (pl_index ep ! nat fd))" and "lst \<equiv> nat (pl_nfds ep - 1)"
  defines "lfd \<equiv> nat (pf_fd (pl_slot ep lst))"
  defines "ep' \<equiv> ep\<lparr>pl_index := (pl_index ep)[nat fd := (pl_index ep ! nat fd)\<lparr>ix_idx := - 1\<rparr>,
        lfd := (if gap < lst then (pl_index ep ! lfd)\<lparr>ix_idx := int gap\<rparr>
                else (pl_index ep ! nat fd)\<lparr>ix_idx := - 1\<rparr>)],
      pl_pfds := (if gap < lst then (pl_pfds ep)[gap := pl_pfds ep ! lst] else pl_pfds ep),
      pl_nfds := pl_nfds ep - 1\<rparr>"
  shows "pl_inv ep'" and "pl_reg ep' = (pl_reg ep)(fd := None)"
  unfolding ep'_def lfd_def gap_def lst_def
  by (rule remove_entry_keeps [OF inv fd], rule remove_entry_reg [OF inv fd])

lemma ef_poll_dissociate_correct:
  assumes inv: "pl_inv ep" and fd: "0 \<le> fd"
  obtains ep' where "ef_poll_dissociate ep fd fired onclose = Some (0, ep')" "pl_inv ep'"
    "pl_reg ep' = (pl_reg ep)(fd := None)"
proof (cases "fd < pl_cap ep \<and> 0 \<le> ix_idx (pl_index ep ! nat fd)")
  case False
  note d = pl_invD [OF inv]
  have "pl_reg ep fd = None" using False by (auto simp: pl_reg_def)
  then have "(pl_reg ep)(fd := None) = pl_reg ep" by auto
  moreover have "ef_poll_dissociate ep fd fired onclose = Some (0, ep)"
  proof (cases "pl_cap ep \<le> fd")
    case in_range: False
    then have "nat fd < length (pl_index ep)" using d fd by linarith
    with False in_range fd show ?thesis by (auto simp: ef_poll_dissociate_def Let_def)
  qed (simp add: ef_poll_dissociate_def)
  ultimately show thesis using inv by (intro that) simp_all
next
  case True
  note d = pl_invD [OF inv]
  let ?gap = "nat (ix_idx (pl_index ep ! nat fd))" and ?last = "nat (pl_nfds ep - 1)"
  let ?lfd = "nat (pf_fd (pl_slot ep ?last))"
  obtain p where p: "ix_idx (pl_index ep ! nat fd) < pl_nfds ep" "pl_pfds ep ! ?gap = Some p" "pf_fd p = fd"
    by (rule pl_inv_index [OF inv, of "nat fd"]) (use True fd in auto)
  have lst: "?last < nat (pl_nfds ep)" using p(1) True by linarith
  obtain q where q: "pl_pfds ep ! ?last = Some q" by (rule pl_inv_slot [OF inv lst])
  note qf = pl_inv_slot_fd [OF inv lst q]
  have n: "nat fd < length (pl_index ep)" "?gap < length (pl_pfds ep)" "?last < length (pl_pfds ep)"
    using d True fd p(1) lst by linarith+
  have ne: "?lfd \<noteq> nat fd" if "?gap < ?last"
    using that qf(3) q by (auto simp: pl_slot_def)
  have gl: "ix_idx (pl_index ep ! nat fd) < pl_nfds ep - 1 \<longleftrightarrow> ?gap < ?last" using True by linarith
  have same: "?lfd = nat fd" if "\<not> ?gap < ?last"
  proof -
    have "?gap = ?last" using that p(1) True by linarith
    then show ?thesis using p q by (simp add: pl_slot_def)
  qed
  show thesis
  proof (rule that [OF _ remove_entry_inv [OF inv fd]])
    show "fd < pl_cap ep" "0 \<le> ix_idx (pl_index ep ! nat fd)" "fd < pl_cap ep" "0 \<le> ix_idx (pl_index ep ! nat fd)"
      using True by auto
    show "ef_poll_dissociate ep fd fired onclose = Some (0, ep\<lparr>pl_index := (pl_index ep)[nat fd := (pl_index ep ! nat fd)\<lparr>ix_idx := - 1\<rparr>,
        ?lfd := (if ?gap < ?last then (pl_index ep ! ?lfd)\<lparr>ix_idx := int ?gap\<rparr>
                else (pl_index ep ! nat fd)\<lparr>ix_idx := - 1\<rparr>)],
      pl_pfds := (if ?gap < ?last then (pl_pfds ep)[?gap := pl_pfds ep ! ?last] else pl_pfds ep),
      pl_nfds := pl_nfds ep - 1\<rparr>)"
    proof (cases "?gap < ?last")
      case g: True
      define lfd where "lfd = nat (pf_fd q)"
      have l: "?lfd = lfd" using q by (simp add: pl_slot_def lfd_def)
      have g': "ix_idx (pl_index ep ! nat fd) < pl_nfds ep - 1" using gl g by blast
      have ne': "lfd \<noteq> nat fd" using ne [OF g] l by simp
      have acc: "get_at (pl_index ep) fd = Some (pl_index ep ! nat fd)"
        "set_at (pl_index ep) fd x = Some ((pl_index ep)[nat fd := x])"
        "get_at (pl_pfds ep) (pl_nfds ep - 1) = Some (Some q)"
        "get_at ((pl_index ep)[nat fd := x]) (pf_fd q) = Some (pl_index ep ! lfd)"
        "set_at ((pl_index ep)[nat fd := x]) (pf_fd q) y = Some ((pl_index ep)[nat fd := x, lfd := y])"
        "set_at (pl_pfds ep) (ix_idx (pl_index ep ! nat fd)) (Some q) = Some ((pl_pfds ep)[?gap := Some q])" for x y
        using True fd n q qf ne' g' by (simp_all add: get_at_Some set_at_Some lfd_def)
      have nn: "\<not> pl_cap ep \<le> fd" "\<not> ix_idx (pl_index ep ! nat fd) < 0" using True by auto
      show ?thesis
        unfolding l if_P [OF g] q
        by (simp add: ef_poll_dissociate_def Let_def acc nn g' True del: zless_nat_conj)
    next
      case g: False
      then have g': "\<not> ix_idx (pl_index ep ! nat fd) < pl_nfds ep - 1" using gl by blast
      have nn: "\<not> pl_cap ep \<le> fd" "\<not> ix_idx (pl_index ep ! nat fd) < 0" using True by auto
      have acc: "get_at (pl_index ep) fd = Some (pl_index ep ! nat fd)"
        "set_at (pl_index ep) fd x = Some ((pl_index ep)[nat fd := x])" for x
        using True fd n by (simp_all add: get_at_Some set_at_Some)
      show ?thesis
        unfolding if_not_P [OF g] same [OF g]
        by (simp add: ef_poll_dissociate_def Let_def acc nn g')
    qed
  qed
qed

section \<open>Waiting\<close>

lemma set_revents_length [simp]: "length (set_revents pfds res) = length pfds"
  by (induction pfds res rule: set_revents.induct) auto

lemma set_revents_nth: "i < length pfds \<Longrightarrow> pfds ! i = Some pf \<Longrightarrow>
   \<exists>pf'. set_revents pfds res ! i = Some pf' \<and> pf_fd pf' = pf_fd pf \<and> pf_events pf' = pf_events pf"
proof (induction pfds res arbitrary: i rule: set_revents.induct)
  case (1 pf pfds re res)
  then show ?case by (cases i) auto
next
  case (2 pfds re res)
  then show ?case by (cases i) auto
qed auto

lemma set_revents_inv:
  fixes res :: "u16 list"
  assumes inv: "pl_inv ep"
  defines "ep' \<equiv> ep\<lparr>pl_pfds := set_revents (pl_pfds ep) res\<rparr>"
  shows "pl_inv ep'" and "pl_reg ep' = pl_reg ep"
proof -
  note d = pl_invD [OF inv]
  have s: "\<exists>q'. pl_pfds ep' ! i = Some q' \<and> pf_fd q' = pf_fd q \<and> pf_events q' = pf_events q"
    if "i < length (pl_pfds ep)" "pl_pfds ep ! i = Some q" for i q
    using set_revents_nth [OF that] by (simp add: ep'_def)
  have a: "\<exists>q. pl_pfds ep' ! i = Some q \<and> 0 \<le> pf_fd q \<and> pf_fd q < pl_cap ep \<and>
        ix_idx (pl_index ep ! nat (pf_fd q)) = int i \<and> ix_ptr (pl_index ep ! nat (pf_fd q)) \<noteq> None"
    if i: "i < nat (pl_nfds ep)" for i
  proof -
    have l: "i < length (pl_pfds ep)" using i d by linarith
    obtain q where q: "pl_pfds ep ! i = Some q" by (rule pl_inv_slot [OF inv i])
    obtain q' where "pl_pfds ep' ! i = Some q'" "pf_fd q' = pf_fd q" using s [OF l q] by blast
    then show ?thesis using pl_inv_slot_fd [OF inv i q] by auto
  qed
  have b: "ix_idx (pl_index ep ! f) < pl_nfds ep \<and>
      (\<exists>q. pl_pfds ep' ! nat (ix_idx (pl_index ep ! f)) = Some q \<and> pf_fd q = int f)"
    if f: "f < nat (pl_cap ep)" "0 \<le> ix_idx (pl_index ep ! f)" for f
  proof -
    obtain q where q: "ix_idx (pl_index ep ! f) < pl_nfds ep"
      "pl_pfds ep ! nat (ix_idx (pl_index ep ! f)) = Some q" "pf_fd q = int f"
      by (rule pl_inv_index [OF inv f])
    then have "nat (ix_idx (pl_index ep ! f)) < length (pl_pfds ep)" using d f(2) by linarith
    from s [OF this q(2)] q(1,3) show ?thesis by auto
  qed
  show "pl_inv ep'" unfolding pl_inv_def using a b d by (simp add: ep'_def)
  show "pl_reg ep' = pl_reg ep"
  proof
    fix fd show "pl_reg ep' fd = pl_reg ep fd"
    proof (cases "0 \<le> fd \<and> fd < pl_cap ep \<and> 0 \<le> ix_idx (pl_index ep ! nat fd)")
      case True
      then obtain q where q: "ix_idx (pl_index ep ! nat fd) < pl_nfds ep"
        "pl_pfds ep ! nat (ix_idx (pl_index ep ! nat fd)) = Some q"
        by (rule_tac pl_inv_index [OF inv, of "nat fd"]) auto
      then have "nat (ix_idx (pl_index ep ! nat fd)) < length (pl_pfds ep)" using d True by linarith
      from s [OF this q(2)] obtain q' where "pl_pfds ep' ! nat (ix_idx (pl_index ep ! nat fd)) = Some q'"
        "pf_events q' = pf_events q" by blast
      then show ?thesis using q(2) True by (simp add: pl_reg_def pl_slot_def ep'_def)
    qed (auto simp: pl_reg_def ep'_def)
  qed
qed

text \<open>Each event reported is that of a registered descriptor, with the pointer given for it.\<close>

lemma poll_scan_events:
  assumes "\<And>pf. pf \<in> set pfds \<Longrightarrow> \<exists>q p. pf = Some q \<and> get_at index (pf_fd q) = Some p \<and> ix_ptr p \<noteq> None"
  shows "\<exists>es. poll_scan index pfds room = Some es \<and> length es \<le> room \<and>
    (\<forall>e \<in> set es. ev_events e \<noteq> 0 \<and>
       (\<exists>q p. Some q \<in> set pfds \<and> get_at index (pf_fd q) = Some p \<and> ev_data e = ix_ptr p \<and>
          pf_revents q \<noteq> 0 \<and> ev_events e = scast (pf_revents q))) \<and>
    length es = min room (length (filter (\<lambda>pf. case pf of Some q \<Rightarrow> pf_revents q \<noteq> 0 | None \<Rightarrow> False) pfds))"
  using assms
proof (induction index pfds room rule: poll_scan.induct)
  case (4 index pf pfds room)
  obtain p where p: "get_at index (pf_fd pf) = Some p" using 4(3) [of "Some pf"] by auto
  have scast_nz: "(scast w :: u32) \<noteq> 0" if "w \<noteq> 0" for w :: u16
  proof
    assume "(scast w :: u32) = 0"
    then have "(ucast (scast w :: u32) :: u16) = 0" by simp
    moreover have "(ucast (scast w :: u32) :: u16) = w" by (rule bit_word_eqI) (simp add: bit_simps)
    ultimately show False using that by simp
  qed
  show ?case
  proof (cases "pf_revents pf \<noteq> 0")
    case True
    obtain es where es: "poll_scan index pfds room = Some es" "length es \<le> room"
      "\<forall>e \<in> set es. ev_events e \<noteq> 0 \<and> (\<exists>q p. Some q \<in> set pfds \<and> get_at index (pf_fd q) = Some p \<and>
         ev_data e = ix_ptr p \<and> pf_revents q \<noteq> 0 \<and> ev_events e = scast (pf_revents q))"
      "length es = min room (length (filter (\<lambda>pf. case pf of Some q \<Rightarrow> pf_revents q \<noteq> 0 | None \<Rightarrow> False) pfds))"
      using 4(1) [OF True p] 4(3) by auto
    then show ?thesis using True p scast_nz by auto blast
  next
    case False
    then have "pf_revents pf = 0" by simp
    with 4(2) 4(3) show ?thesis by fastforce
  qed
next
  case (3 index pfds room)
  then show ?case by fastforce
qed auto

lemma ef_poll_wait_correct:
  assumes inv: "pl_inv ep"
  obtains ret es ep' where "ef_poll_wait (r, res) ep count = Some (ret, es, ep')" "pl_inv ep'" "pl_reg ep' = pl_reg ep"
    "r \<le> 0 \<longrightarrow> ret = r \<and> es = []" "0 < r \<longrightarrow> ret = int (length es) \<and> length es \<le> nat (min r count)"
    "\<And>e. e \<in> set es \<Longrightarrow> ev_events e \<noteq> 0 \<and> (\<exists>fd w p. pl_reg ep fd = Some (w, p) \<and> ev_data e = Some p)"
proof -
  define ep' where "ep' = ep\<lparr>pl_pfds := set_revents (pl_pfds ep) res\<rparr>"
  note s = set_revents_inv [OF inv, of res, folded ep'_def]
  note d = pl_invD [OF s(1)]
  show thesis
  proof (cases "r \<le> 0")
    case True
    show thesis by (rule that [of r "[]" ep']) (use True s in \<open>simp_all add: ef_poll_wait_def ep'_def\<close>)
  next
    case False
    let ?pfds = "take (nat (pl_nfds ep')) (pl_pfds ep')" and ?c = "if count > r then r else count"
    have slots: "\<exists>q p. pf = Some q \<and> get_at (pl_index ep') (pf_fd q) = Some p \<and> ix_ptr p \<noteq> None \<and>
        pl_reg ep' (pf_fd q) = Some (pf_events q, the (ix_ptr p))" if pf: "pf \<in> set ?pfds" for pf
    proof -
      obtain i where i: "i < nat (pl_nfds ep')" "pf = pl_pfds ep' ! i"
        using pf d by (auto simp: in_set_conv_nth)
      obtain q where q: "pl_pfds ep' ! i = Some q" by (rule pl_inv_slot [OF s(1) i(1)])
      note qf = pl_inv_slot_fd [OF s(1) i(1) q]
      then show ?thesis using q i(2) by (auto simp: pl_reg_def pl_slot_def)
    qed
    obtain es where es: "poll_scan (pl_index ep') ?pfds (nat ?c) = Some es" "length es \<le> nat ?c"
      "\<forall>e \<in> set es. ev_events e \<noteq> 0 \<and>
       (\<exists>q p. Some q \<in> set ?pfds \<and> get_at (pl_index ep') (pf_fd q) = Some p \<and> ev_data e = ix_ptr p \<and>
          pf_revents q \<noteq> 0 \<and> ev_events e = scast (pf_revents q))"
      using poll_scan_events [of ?pfds "pl_index ep'" "nat ?c"] slots by blast
    show thesis
    proof (rule that [of "int (length es)" es ep'])
      show "ef_poll_wait (r, res) ep count = Some (int (length es), es, ep')"
        using False es(1) by (simp add: ef_poll_wait_def ep'_def Let_def)
      show "0 < r \<longrightarrow> int (length es) = int (length es) \<and> length es \<le> nat (min r count)"
        using es(2) by (simp add: min_def split: if_splits)
      fix e assume "e \<in> set es"
      then obtain q p where "ev_events e \<noteq> 0" "Some q \<in> set ?pfds" "get_at (pl_index ep') (pf_fd q) = Some p"
        "ev_data e = ix_ptr p" using es(3) by blast
      then show "ev_events e \<noteq> 0 \<and> (\<exists>fd w p. pl_reg ep fd = Some (w, p) \<and> ev_data e = Some p)"
        using slots s(2) by fastforce
    qed (use s False in auto)
  qed
qed

lemma ef_poll_create_inv:
  assumes "ef_poll_create m cap = (Some ep, m')"
  shows "pl_inv ep" and "pl_reg ep = (\<lambda>_. None)" and "128 \<le> pl_cap ep"
proof -
  from assms have ep: "ep = \<lparr>pl_cap = max 128 cap, pl_nfds = 0, pl_index = replicate (nat (max 128 cap)) no_index,
      pl_pfds = replicate (nat (max 128 cap)) None\<rparr>"
    by (auto simp: ef_poll_create_def Let_def max_def split: prod.splits if_splits)
  show "pl_inv ep" by (auto simp: ep pl_inv_def)
  show "pl_reg ep = (\<lambda>_. None)" by (auto simp: ep pl_reg_def fun_eq_iff)
  show "128 \<le> pl_cap ep" by (simp add: ep)
qed

end
