(* ===== verification/EpolletCorrect.thy ===== *)
theory EpolletCorrect
  imports EfEpollet PollCorrect
begin

text \<open>
  The edge-triggered event source: its arrays stay inverse to each other, every operation acts
  on the registered items as on a map, and an item that waits for something that has fired is
  in the filled area, so that no event is lost.
\<close>

section \<open>Inverse arrays\<close>

text \<open>
  \<open>arr C ix it U\<close>: the places in \<open>U\<close> hold items with distinct descriptors below \<open>C\<close>, and \<open>ix\<close>
  finds the place of each.
\<close>

definition arr :: "int \<Rightarrow> (nat \<Rightarrow> int) \<Rightarrow> (nat \<Rightarrow> 'a ef_epoll_item option) \<Rightarrow> nat set \<Rightarrow> bool" where
  "arr C ix it U \<longleftrightarrow>
     (\<forall>i \<in> U. \<exists>x. it i = Some x \<and> 0 \<le> it_fd x \<and> it_fd x < C \<and> ix (nat (it_fd x)) = int i) \<and>
     (\<forall>f < nat C. 0 \<le> ix f \<longrightarrow> nat (ix f) \<in> U \<and> (\<exists>x. it (nat (ix f)) = Some x \<and> it_fd x = int f))"

definition arr_reg :: "int \<Rightarrow> (nat \<Rightarrow> int) \<Rightarrow> (nat \<Rightarrow> 'a ef_epoll_item option) \<Rightarrow> int \<Rightarrow> 'a ef_epoll_item option" where
  "arr_reg C ix it fd = (if 0 \<le> fd \<and> fd < C \<and> 0 \<le> ix (nat fd) then it (nat (ix (nat fd))) else None)"

lemma arr_item:
  assumes "arr C ix it U" "i \<in> U"
  obtains x where "it i = Some x" "0 \<le> it_fd x" "it_fd x < C" "ix (nat (it_fd x)) = int i"
  using assms unfolding arr_def by blast

lemma arr_index:
  assumes "arr C ix it U" "f < nat C" "0 \<le> ix f"
  obtains x where "nat (ix f) \<in> U" "it (nat (ix f)) = Some x" "it_fd x = int f"
  using assms unfolding arr_def by blast

lemma arr_item_fd:
  assumes "arr C ix it U" "i \<in> U" "it i = Some x"
  shows "0 \<le> it_fd x" "it_fd x < C" "ix (nat (it_fd x)) = int i"
  by (rule arr_item [OF assms(1,2)], use assms(3) in simp)+

lemma arr_distinct:
  assumes "arr C ix it U" "i \<in> U" "j \<in> U" "it i = Some x" "it j = Some y" "it_fd x = it_fd y"
  shows "i = j"
proof -
  have "int i = int j" using arr_item_fd(3) [OF assms(1,2,4)] arr_item_fd(3) [OF assms(1,3,5)] assms(6) by simp
  then show ?thesis by simp
qed

lemma arr_reg_item:
  assumes "arr C ix it U" "i \<in> U" "it i = Some x"
  shows "arr_reg C ix it (it_fd x) = Some x"
  using arr_item_fd [OF assms] assms(3) by (simp add: arr_reg_def)

lemma arr_reg_Some:
  assumes "arr C ix it U" "arr_reg C ix it fd = Some x"
  obtains i where "i \<in> U" "it i = Some x" "it_fd x = fd" "ix (nat fd) = int i"
proof -
  have f: "0 \<le> fd" "fd < C" "0 \<le> ix (nat fd)" "it (nat (ix (nat fd))) = Some x"
    using assms(2) by (simp_all add: arr_reg_def split: if_splits)
  then have "nat fd < nat C" by simp
  from arr_index [OF assms(1) this f(3)] obtain y where
    "nat (ix (nat fd)) \<in> U" "it (nat (ix (nat fd))) = Some y" "it_fd y = int (nat fd)" by blast
  then show thesis using f by (intro that [of "nat (ix (nat fd))"]) simp_all
qed

text \<open>The registered items determine \<open>arr_reg\<close>.\<close>

lemma arr_reg_eqI:
  assumes "arr C ix it U" and "\<And>fd x. R fd = Some x \<longleftrightarrow> (\<exists>i \<in> U. it i = Some x \<and> it_fd x = fd)"
  shows "arr_reg C ix it = R"
proof
  fix fd
  show "arr_reg C ix it fd = R fd"
  proof (cases "R fd")
    case (Some x)
    then obtain i where "i \<in> U" "it i = Some x" "it_fd x = fd" using assms(2) by blast
    with Some arr_reg_item [OF assms(1)] show ?thesis by auto
  next
    case None
    show ?thesis
    proof (cases "arr_reg C ix it fd")
      case (Some x)
      then show ?thesis by (rule_tac arr_reg_Some [OF assms(1) Some]) (metis None assms(2) option.distinct(1))
    qed (simp add: None)
  qed
qed

lemma arr_reg_iff:
  assumes "arr C ix it U"
  shows "arr_reg C ix it fd = Some x \<longleftrightarrow> (\<exists>i \<in> U. it i = Some x \<and> it_fd x = fd)"
  using arr_reg_Some [OF assms, of fd x] arr_reg_item [OF assms] by metis

lemma arr_room:
  assumes "arr C ix it {..<u}" "f < nat C" "ix f < 0"
  shows "u < nat C"
proof -
  let ?g = "\<lambda>i. nat (it_fd (the (it i)))"
  have s: "?g i < nat C \<and> ix (?g i) = int i" if "i < u" for i
    by (rule arr_item [OF assms(1), of i]) (use that in simp_all)
  have "inj_on ?g {..<u}" by (rule inj_onI) (metis lessThan_iff of_nat_eq_iff s)
  then have "u = card (?g ` {..<u})" by (simp add: card_image)
  also have "\<dots> \<le> card ({..<nat C} - {f})"
    by (rule card_mono) (use s assms(3) in fastforce)+
  also have "\<dots> = nat C - 1" using assms(2) by simp
  finally show ?thesis using assms(2) by linarith
qed

section \<open>Changes to the arrays\<close>

lemma arr_put:
  assumes A: "arr C ix it U" and i: "i \<in> U" "it i = Some x" "it_fd y = it_fd x"
  shows "arr C ix (it(i := Some y)) U" and "arr_reg C ix (it(i := Some y)) = (arr_reg C ix it)(it_fd x \<mapsto> y)"
proof -
  show A': "arr C ix (it(i := Some y)) U"
    using A i unfolding arr_def by (auto simp: fun_upd_def)
  show "arr_reg C ix (it(i := Some y)) = (arr_reg C ix it)(it_fd x \<mapsto> y)"
  proof (rule arr_reg_eqI [OF A'])
    fix fd z
    show "((arr_reg C ix it)(it_fd x \<mapsto> y)) fd = Some z \<longleftrightarrow>
        (\<exists>j \<in> U. (it(i := Some y)) j = Some z \<and> it_fd z = fd)"
    proof (cases "fd = it_fd x")
      case True
      have D: "j = i" if "j \<in> U" "it j = Some z" "it_fd z = it_fd x" for j
        using arr_distinct [OF A that(1) i(1) that(2) i(2)] that(3) by simp
      have "y = z" if j: "j \<in> U" "(it(i := Some y)) j = Some z" "it_fd z = it_fd x" for j
        using D [OF j(1) _ j(3)] j(2) by (cases "j = i") auto
      moreover have "y = z \<Longrightarrow> \<exists>j \<in> U. (it(i := Some y)) j = Some z \<and> it_fd z = it_fd x"
        using i(1,3) by (intro bexI [of _ i]) auto
      ultimately show ?thesis unfolding True fun_upd_same option.inject by blast
    next
      case False
      then have "(it(i := Some y)) j = Some z \<and> it_fd z = fd \<longleftrightarrow> it j = Some z \<and> it_fd z = fd" for j
        using i by auto
      then show ?thesis using False arr_reg_iff [OF A, of fd z] by simp
    qed
  qed
qed

lemma arr_swap:
  assumes A: "arr C ix it U" and ij: "i \<in> U" "j \<in> U" "it i = Some x" "it j = Some y"
  defines "ix' \<equiv> ix(nat (it_fd y) := int i, nat (it_fd x) := int j)" and "it' \<equiv> it(j := Some x, i := Some y)"
  shows "arr C ix' it' U" and "arr_reg C ix' it' = arr_reg C ix it"
proof -
  note fx = arr_item_fd [OF A ij(1,3)] and fy = arr_item_fd [OF A ij(2,4)]
  have eq: "i = j" if "nat (it_fd x) = nat (it_fd y)"
    using arr_distinct [OF A ij] that fx(1) fy(1) by (simp add: eq_nat_nat_iff)
  have a: "\<exists>z. it' k = Some z \<and> 0 \<le> it_fd z \<and> it_fd z < C \<and> ix' (nat (it_fd z)) = int k" if k: "k \<in> U" for k
  proof (cases "k = i \<or> k = j")
    case True
    then consider "k = i" | "k = j" "k \<noteq> i" by blast
    then show ?thesis
    proof cases
      case 1
      then show ?thesis using fy eq by (simp add: it'_def ix'_def)
    next
      case 2
      then show ?thesis using fx by (simp add: it'_def ix'_def)
    qed
  next
    case False
    obtain z where z: "it k = Some z" "0 \<le> it_fd z" "it_fd z < C" "ix (nat (it_fd z)) = int k"
      by (rule arr_item [OF A k])
    have "nat (it_fd z) \<noteq> nat (it_fd x)" "nat (it_fd z) \<noteq> nat (it_fd y)"
      using z(4) fx(3) fy(3) False by auto
    with z False show ?thesis by (simp add: it'_def ix'_def)
  qed
  have b: "nat (ix' f) \<in> U \<and> (\<exists>z. it' (nat (ix' f)) = Some z \<and> it_fd z = int f)"
    if f: "f < nat C" "0 \<le> ix' f" for f
  proof (cases "f = nat (it_fd x) \<or> f = nat (it_fd y)")
    case True
    then consider "f = nat (it_fd x)" | "f = nat (it_fd y)" "f \<noteq> nat (it_fd x)" by blast
    then show ?thesis
    proof cases
      case 1
      have "x = y" if "i = j" using that ij by simp
      with 1 show ?thesis using fx(1) ij(2) by (auto simp: it'_def ix'_def)
    next
      case 2
      then show ?thesis using fy(1) ij(1) by (simp add: it'_def ix'_def)
    qed
  next
    case False
    then have g: "0 \<le> ix f" "ix' f = ix f" using f(2) by (simp_all add: ix'_def)
    obtain z where z: "nat (ix f) \<in> U" "it (nat (ix f)) = Some z" "it_fd z = int f"
      by (rule arr_index [OF A f(1) g(1)])
    have "nat (ix f) \<noteq> i" "nat (ix f) \<noteq> j" using z ij False by auto
    with z g show ?thesis by (simp add: it'_def)
  qed
  show A': "arr C ix' it' U" unfolding arr_def using a b by blast
  show "arr_reg C ix' it' = arr_reg C ix it"
  proof (rule arr_reg_eqI [OF A'])
    fix fd z
    show "arr_reg C ix it fd = Some z \<longleftrightarrow> (\<exists>k \<in> U. it' k = Some z \<and> it_fd z = fd)"
      unfolding arr_reg_iff [OF A]
    proof
      assume "\<exists>k \<in> U. it k = Some z \<and> it_fd z = fd"
      then obtain k where "k \<in> U" "it k = Some z" "it_fd z = fd" by blast
      then show "\<exists>k \<in> U. it' k = Some z \<and> it_fd z = fd"
        using ij by (intro bexI [of _ "if k = i then j else if k = j then i else k"]) (auto simp: it'_def)
    next
      assume "\<exists>k \<in> U. it' k = Some z \<and> it_fd z = fd"
      then obtain k where "k \<in> U" "it' k = Some z" "it_fd z = fd" by blast
      then show "\<exists>k \<in> U. it k = Some z \<and> it_fd z = fd"
        using ij by (intro bexI [of _ "if k = i then j else if k = j then i else k"])
          (auto simp: it'_def split: if_splits)
    qed
  qed
qed

lemma arr_delete:
  assumes A: "arr C ix it U" and i: "i \<in> U" "it i = Some x"
  defines "ix' \<equiv> ix(nat (it_fd x) := - 1)"
  shows "arr C ix' it (U - {i})" and "arr_reg C ix' it = (arr_reg C ix it)(it_fd x := None)"
proof -
  note fx = arr_item_fd [OF A i]
  have a: "\<exists>z. it k = Some z \<and> 0 \<le> it_fd z \<and> it_fd z < C \<and> ix' (nat (it_fd z)) = int k" if k: "k \<in> U - {i}" for k
  proof -
    obtain z where z: "it k = Some z" "0 \<le> it_fd z" "it_fd z < C" "ix (nat (it_fd z)) = int k"
      by (rule arr_item [OF A]) (use k in auto)
    then have "nat (it_fd z) \<noteq> nat (it_fd x)" using fx(3) k by auto
    with z show ?thesis by (simp add: ix'_def)
  qed
  have b: "nat (ix' f) \<in> U - {i} \<and> (\<exists>z. it (nat (ix' f)) = Some z \<and> it_fd z = int f)"
    if f: "f < nat C" "0 \<le> ix' f" for f
  proof -
    have g: "f \<noteq> nat (it_fd x)" "0 \<le> ix f" "ix' f = ix f" using f(2) by (auto simp: ix'_def split: if_splits)
    obtain z where "nat (ix f) \<in> U" "it (nat (ix f)) = Some z" "it_fd z = int f" by (rule arr_index [OF A f(1) g(2)])
    then show ?thesis using g i by auto
  qed
  show A': "arr C ix' it (U - {i})" unfolding arr_def using a b by blast
  show "arr_reg C ix' it = (arr_reg C ix it)(it_fd x := None)"
  proof (rule arr_reg_eqI [OF A'])
    fix fd z
    show "((arr_reg C ix it)(it_fd x := None)) fd = Some z \<longleftrightarrow> (\<exists>k \<in> U - {i}. it k = Some z \<and> it_fd z = fd)"
    proof (cases "fd = it_fd x")
      case True
      have "k = i" if "k \<in> U" "it k = Some z" "it_fd z = it_fd x" for k z
        using arr_distinct [OF A that(1) i(1) that(2) i(2)] that(3) by simp
      then show ?thesis using True by auto
    next
      case False
      then show ?thesis using arr_reg_iff [OF A, of fd z] i by auto
    qed
  qed
qed

text \<open>Moving the item at \<open>j\<close> to the free place \<open>h\<close>.\<close>

lemma arr_move:
  assumes A: "arr C ix it U" and j: "j \<in> U" "it j = Some x" and h: "h \<notin> U"
  defines "ix' \<equiv> ix(nat (it_fd x) := int h)" and "it' \<equiv> it(h := Some x)" and "U' \<equiv> insert h (U - {j})"
  shows "arr C ix' it' U'" and "arr_reg C ix' it' = arr_reg C ix it"
proof -
  note fx = arr_item_fd [OF A j]
  have hj: "h \<noteq> j" using h j by auto
  have a: "\<exists>z. it' k = Some z \<and> 0 \<le> it_fd z \<and> it_fd z < C \<and> ix' (nat (it_fd z)) = int k" if k: "k \<in> U'" for k
  proof (cases "k = h")
    case True
    then show ?thesis using fx by (simp add: it'_def ix'_def)
  next
    case False
    with k have k': "k \<in> U" "k \<noteq> j" by (auto simp: U'_def)
    obtain z where z: "it k = Some z" "0 \<le> it_fd z" "it_fd z < C" "ix (nat (it_fd z)) = int k"
      by (rule arr_item [OF A k'(1)])
    then have "nat (it_fd z) \<noteq> nat (it_fd x)" using fx(3) k'(2) by auto
    with z False show ?thesis by (simp add: ix'_def it'_def)
  qed
  have b: "nat (ix' f) \<in> U' \<and> (\<exists>z. it' (nat (ix' f)) = Some z \<and> it_fd z = int f)"
    if f: "f < nat C" "0 \<le> ix' f" for f
  proof (cases "f = nat (it_fd x)")
    case True
    then show ?thesis using fx by (simp add: it'_def ix'_def U'_def)
  next
    case False
    then have g: "0 \<le> ix f" "ix' f = ix f" using f(2) by (simp_all add: ix'_def)
    obtain z where z: "nat (ix f) \<in> U" "it (nat (ix f)) = Some z" "it_fd z = int f" by (rule arr_index [OF A f(1) g(1)])
    then have "nat (ix f) \<noteq> j" "nat (ix f) \<noteq> h" using False j h by auto
    then show ?thesis using g z by (simp add: it'_def U'_def)
  qed
  show A': "arr C ix' it' U'" unfolding arr_def using a b by blast
  show "arr_reg C ix' it' = arr_reg C ix it"
  proof (rule arr_reg_eqI [OF A'])
    fix fd z
    show "arr_reg C ix it fd = Some z \<longleftrightarrow> (\<exists>k \<in> U'. it' k = Some z \<and> it_fd z = fd)"
      unfolding arr_reg_iff [OF A] using j h hj by (auto simp: it'_def U'_def)
  qed
qed

lemma arr_add:
  assumes A: "arr C ix it U" and fd: "0 \<le> it_fd x" "it_fd x < C" "ix (nat (it_fd x)) < 0" and h: "h \<notin> U"
  defines "ix' \<equiv> ix(nat (it_fd x) := int h)" and "it' \<equiv> it(h := Some x)"
  shows "arr C ix' it' (insert h U)" and "arr_reg C ix' it' = (arr_reg C ix it)(it_fd x \<mapsto> x)"
proof -
  have other: "nat (it_fd z) \<noteq> nat (it_fd x)" if "k \<in> U" "it k = Some z" for k z
    using arr_item_fd(3) [OF A that] fd(3) by auto
  have a: "\<exists>z. it' k = Some z \<and> 0 \<le> it_fd z \<and> it_fd z < C \<and> ix' (nat (it_fd z)) = int k" if k: "k \<in> insert h U" for k
  proof (cases "k = h")
    case True
    then show ?thesis using fd by (simp add: it'_def ix'_def)
  next
    case False
    with k have k': "k \<in> U" by auto
    obtain z where z: "it k = Some z" "0 \<le> it_fd z" "it_fd z < C" "ix (nat (it_fd z)) = int k"
      by (rule arr_item [OF A k'])
    with other [OF k' z(1)] False show ?thesis by (simp add: ix'_def it'_def)
  qed
  have b: "nat (ix' f) \<in> insert h U \<and> (\<exists>z. it' (nat (ix' f)) = Some z \<and> it_fd z = int f)"
    if f: "f < nat C" "0 \<le> ix' f" for f
  proof (cases "f = nat (it_fd x)")
    case True
    then show ?thesis using fd by (simp add: it'_def ix'_def)
  next
    case False
    then have g: "0 \<le> ix f" "ix' f = ix f" using f(2) by (simp_all add: ix'_def)
    obtain z where z: "nat (ix f) \<in> U" "it (nat (ix f)) = Some z" "it_fd z = int f" by (rule arr_index [OF A f(1) g(1)])
    then have "nat (ix f) \<noteq> h" using h by auto
    then show ?thesis using g z by (simp add: it'_def)
  qed
  show A': "arr C ix' it' (insert h U)" unfolding arr_def using a b by blast
  show "arr_reg C ix' it' = (arr_reg C ix it)(it_fd x \<mapsto> x)"
  proof (rule arr_reg_eqI [OF A'])
    fix fd z
    show "((arr_reg C ix it)(it_fd x \<mapsto> x)) fd = Some z \<longleftrightarrow> (\<exists>k \<in> insert h U. it' k = Some z \<and> it_fd z = fd)"
    proof (cases "fd = it_fd x")
      case True
      have "it_fd z \<noteq> it_fd x" if "k \<in> U" "it k = Some z" for k z using other [OF that] by auto
      then show ?thesis using True h by (auto simp: it'_def)
    next
      case False
      then show ?thesis using arr_reg_iff [OF A, of fd z] h by (auto simp: it'_def)
    qed
  qed
qed

section \<open>The invariant\<close>

definition ee_arr :: "'a ef_epollet \<Rightarrow> nat set \<Rightarrow> bool" where
  "ee_arr ep U \<longleftrightarrow>
     0 < ee_cap ep \<and> nat (ee_cap ep) \<le> length (ee_index ep) \<and> nat (ee_cap ep) \<le> length (ee_items ep) \<and>
     U \<subseteq> {..<nat (ee_cap ep)} \<and> arr (ee_cap ep) (nth (ee_index ep)) (nth (ee_items ep)) U"

definition ee_inv :: "'a ef_epollet \<Rightarrow> bool" where
  "ee_inv ep \<longleftrightarrow> ee_arr ep {..<nat (ee_used ep)} \<and> 0 \<le> ee_fill ep \<and> ee_fill ep \<le> ee_used ep"

text \<open>The registered items.\<close>

definition ee_reg :: "'a ef_epollet \<Rightarrow> int \<Rightarrow> 'a ef_epoll_item option" where
  "ee_reg ep = arr_reg (ee_cap ep) (nth (ee_index ep)) (nth (ee_items ep))"

text \<open>Behind the filled area nobody waits for anything that has fired.\<close>

definition quiet :: "'a ef_epoll_item \<Rightarrow> bool" where
  "quiet it \<longleftrightarrow> it_waiting it = 0 \<or> it_ready it = 0"

definition ee_quiet :: "'a ef_epollet \<Rightarrow> bool" where
  "ee_quiet ep \<longleftrightarrow> (\<forall>i. nat (ee_fill ep) \<le> i \<longrightarrow> i < nat (ee_used ep) \<longrightarrow> quiet (the (ee_items ep ! i)))"

lemma nth_upd_fun: "i < length xs \<Longrightarrow> nth (xs[i := x]) = (nth xs)(i := x)"
  by (rule ext) (simp add: nth_list_update)

lemma ee_arrD:
  assumes "ee_arr ep U"
  shows "0 < ee_cap ep" "nat (ee_cap ep) \<le> length (ee_index ep)" "nat (ee_cap ep) \<le> length (ee_items ep)"
    "U \<subseteq> {..<nat (ee_cap ep)}" "arr (ee_cap ep) (nth (ee_index ep)) (nth (ee_items ep)) U"
  using assms by (simp_all add: ee_arr_def)

lemma ee_item:
  assumes "ee_arr ep U" "i \<in> U"
  obtains x where "ee_items ep ! i = Some x" "get_item ep (int i) = Some x" "0 \<le> it_fd x" "it_fd x < ee_cap ep"
    "nat (it_fd x) < length (ee_index ep)" "i < length (ee_items ep)" "ee_index ep ! nat (it_fd x) = int i"
proof -
  note d = ee_arrD [OF assms(1)]
  obtain x where x: "ee_items ep ! i = Some x" "0 \<le> it_fd x" "it_fd x < ee_cap ep" "ee_index ep ! nat (it_fd x) = int i"
    by (rule arr_item [OF d(5) assms(2)])
  have "i < length (ee_items ep)" "nat (it_fd x) < length (ee_index ep)" using d assms(2) x by auto
  with x show thesis by (intro that [of x]) (simp_all add: get_item_def get_at_def)
qed

lemma ee_reg_item: "ee_arr ep U \<Longrightarrow> i \<in> U \<Longrightarrow> ee_items ep ! i = Some x \<Longrightarrow> ee_reg ep (it_fd x) = Some x"
  unfolding ee_reg_def by (rule arr_reg_item [OF ee_arrD(5)])

text \<open>Replacing an item by one with the same descriptor.\<close>

lemma put_item_ok:
  assumes A: "ee_arr ep U" and i: "i \<in> U" "ee_items ep ! i = Some x" "it_fd y = it_fd x"
  defines "ep' \<equiv> ep\<lparr>ee_items := (ee_items ep)[i := Some y]\<rparr>"
  shows "put_item ep (int i) y = Some ep'" and "ee_arr ep' U" and "ee_reg ep' = (ee_reg ep)(it_fd x \<mapsto> y)"
proof -
  note d = ee_arrD [OF A]
  have l: "i < length (ee_items ep)" using d i(1) by auto
  then show "put_item ep (int i) y = Some ep'" by (simp add: put_item_def set_at_def ep'_def)
  show "ee_arr ep' U" "ee_reg ep' = (ee_reg ep)(it_fd x \<mapsto> y)"
    using arr_put [OF d(5) i] d l by (simp_all add: ee_arr_def ee_reg_def ep'_def nth_upd_fun)
qed

text \<open>Exchanging two items.\<close>

lemma swap_items_ok:
  assumes A: "ee_arr ep U" and ij: "i \<in> U" "j \<in> U" "ee_items ep ! i = Some x" "ee_items ep ! j = Some y"
  defines "ep' \<equiv> ep\<lparr>ee_index := (ee_index ep)[nat (it_fd y) := int i, nat (it_fd x) := int j],
      ee_items := (ee_items ep)[j := Some x, i := Some y]\<rparr>"
  shows "swap_items ep (int i) (int j) = Some ep'" and "ee_arr ep' U" and "ee_reg ep' = ee_reg ep"
proof -
  note d = ee_arrD [OF A]
  have gx: "get_item ep (int i) = Some x" "0 \<le> it_fd x" "nat (it_fd x) < length (ee_index ep)" "i < length (ee_items ep)"
    by (rule ee_item [OF A ij(1)], use ij(3) in simp)+
  have gy: "get_item ep (int j) = Some y" "0 \<le> it_fd y" "nat (it_fd y) < length (ee_index ep)" "j < length (ee_items ep)"
    by (rule ee_item [OF A ij(2)], use ij(4) in simp)+
  show "swap_items ep (int i) (int j) = Some ep'"
    using gx gy by (simp add: swap_items_def put_item_def put_index_def set_at_def ep'_def)
  show "ee_arr ep' U" "ee_reg ep' = ee_reg ep"
    using arr_swap [OF d(5) ij] d gx gy by (simp_all add: ee_arr_def ee_reg_def ep'_def nth_upd_fun)
qed

text \<open>Taking an item out of the index, and moving the item at \<open>j\<close> to the free place \<open>h\<close>.\<close>

lemma delete_index_ok:
  assumes A: "ee_arr ep U" and i: "i \<in> U" "ee_items ep ! i = Some x"
  defines "ep' \<equiv> ep\<lparr>ee_index := (ee_index ep)[nat (it_fd x) := - 1]\<rparr>"
  shows "put_index ep (it_fd x) (- 1) = Some ep'" and "ee_arr ep' (U - {i})"
    and "ee_reg ep' = (ee_reg ep)(it_fd x := None)"
proof -
  note d = ee_arrD [OF A]
  have gx: "0 \<le> it_fd x" "nat (it_fd x) < length (ee_index ep)"
    by (rule ee_item [OF A i(1)], use i(2) in simp)+
  then show "put_index ep (it_fd x) (- 1) = Some ep'" by (simp add: put_index_def set_at_def ep'_def)
  show "ee_arr ep' (U - {i})" "ee_reg ep' = (ee_reg ep)(it_fd x := None)"
    using arr_delete [OF d(5) i] d gx by (auto simp: ee_arr_def ee_reg_def ep'_def nth_upd_fun)
qed

lemma move_item_ok:
  assumes A: "ee_arr ep U" and j: "j \<in> U" "ee_items ep ! j = Some x" and h: "h \<notin> U" "h < nat (ee_cap ep)"
  defines "ep' \<equiv> ep\<lparr>ee_items := (ee_items ep)[h := Some x], ee_index := (ee_index ep)[nat (it_fd x) := int h]\<rparr>"
  shows "move_item ep (int h) (int j) = Some ep'" and "ee_arr ep' (insert h (U - {j}))" and "ee_reg ep' = ee_reg ep"
proof -
  note d = ee_arrD [OF A]
  have gx: "get_item ep (int j) = Some x" "0 \<le> it_fd x" "nat (it_fd x) < length (ee_index ep)"
    by (rule ee_item [OF A j(1)], use j(2) in simp)+
  have l: "h < length (ee_items ep)" using d h(2) by simp
  show "move_item ep (int h) (int j) = Some ep'"
    using gx l by (simp add: move_item_def put_item_def put_index_def set_at_def ep'_def)
  show "ee_arr ep' (insert h (U - {j}))" "ee_reg ep' = ee_reg ep"
    using arr_move [OF d(5) j h(1)] d gx l h(2) by (auto simp: ee_arr_def ee_reg_def ep'_def nth_upd_fun)
qed

lemma ee_room:
  assumes "ee_inv ep" "0 \<le> fd" "fd < ee_cap ep" "ee_index ep ! nat fd < 0"
  shows "nat (ee_used ep) < nat (ee_cap ep)"
  using assms arr_room [of "ee_cap ep" "nth (ee_index ep)" "nth (ee_items ep)" "nat (ee_used ep)" "nat fd"]
  by (simp add: ee_inv_def ee_arr_def)

text \<open>A registered descriptor has its place.\<close>

lemma ee_lookup:
  assumes "ee_arr ep U" "0 \<le> fd" "fd < ee_cap ep" "0 \<le> ee_index ep ! nat fd"
  obtains i x where "i \<in> U" "ee_index ep ! nat fd = int i" "ee_items ep ! i = Some x" "it_fd x = fd"
    "get_item ep (int i) = Some x" "ee_reg ep fd = Some x"
proof -
  note d = ee_arrD [OF assms(1)]
  obtain x where x: "nat (ee_index ep ! nat fd) \<in> U" "ee_items ep ! nat (ee_index ep ! nat fd) = Some x"
    "it_fd x = int (nat fd)"
    by (rule arr_index [OF d(5) _ assms(4)]) (use assms in auto)
  have r: "ee_reg ep fd = Some x" using ee_reg_item [OF assms(1) x(1,2)] x(3) assms(2) by simp
  show thesis
    by (rule ee_item [OF assms(1) x(1)]) (use x assms r in \<open>auto intro!: that [of "nat (ee_index ep ! nat fd)" x]\<close>)
qed

lemma ee_reg_None:
  "\<not> (0 \<le> fd \<and> fd < ee_cap ep \<and> 0 \<le> ee_index ep ! nat fd) \<Longrightarrow> ee_reg ep fd = None"
  by (auto simp: ee_reg_def arr_reg_def)

lemma get_index: "ee_arr ep U \<Longrightarrow> 0 \<le> fd \<Longrightarrow> fd < ee_cap ep \<Longrightarrow> get_at (ee_index ep) fd = Some (ee_index ep ! nat fd)"
  by (auto simp: ee_arr_def get_at_Some)

end
