(* ===== verification/EpolletOps.thy ===== *)
theory EpolletOps
  imports EpolletCorrect
begin

text \<open>
  The operations of the edge-triggered event source: what each does to the registered items,
  and that none loses an event.
\<close>

section \<open>Crossing the border of the filled area\<close>

lemma used_int: "0 \<le> u \<Longrightarrow> i < nat u \<longleftrightarrow> int i < u"
  by linarith

text \<open>The move into the filled area, as \<open>associate\<close> and the event loop do it.\<close>

definition promote :: "'a ef_epollet \<Rightarrow> int \<Rightarrow> 'a ef_epollet option" where
  "promote ep idx =
     do { ep' \<leftarrow> (if idx > ee_fill ep then swap_items ep idx (ee_fill ep) else Some ep);
          Some (if idx \<ge> ee_fill ep then ep'\<lparr>ee_fill := ee_fill ep + 1\<rparr> else ep') }"

lemma fill_update [simp]:
  "ee_arr (ep\<lparr>ee_fill := f\<rparr>) U = ee_arr ep U" "ee_reg (ep\<lparr>ee_fill := f\<rparr>) = ee_reg ep"
  "ee_arr (ep\<lparr>ee_used := u\<rparr>) U = ee_arr ep U" "ee_reg (ep\<lparr>ee_used := u\<rparr>) = ee_reg ep"
  by (simp_all add: ee_arr_def ee_reg_def)

lemma promote_ok:
  assumes inv: "ee_inv ep" and i: "i < nat (ee_used ep)"
    and q: "\<And>k. nat (ee_fill ep) \<le> k \<Longrightarrow> k < nat (ee_used ep) \<Longrightarrow> k \<noteq> i \<Longrightarrow> quiet (the (ee_items ep ! k))"
  obtains ep' where "promote ep (int i) = Some ep'" "ee_inv ep'" "ee_reg ep' = ee_reg ep" "ee_quiet ep'"
    "ee_cap ep' = ee_cap ep" "ee_used ep' = ee_used ep"
proof -
  have A: "ee_arr ep {..<nat (ee_used ep)}" and f: "0 \<le> ee_fill ep" "ee_fill ep \<le> ee_used ep"
    using inv by (simp_all add: ee_inv_def)
  have iU: "i \<in> {..<nat (ee_used ep)}" using i by simp
  consider "int i < ee_fill ep" | "int i = ee_fill ep" | "ee_fill ep < int i" by linarith
  then show thesis
  proof cases
    case 1
    have "promote ep (int i) = Some ep" using 1 by (simp add: promote_def)
    moreover have "ee_quiet ep" using q 1 by (auto simp: ee_quiet_def)
    ultimately show thesis using inv by (intro that) simp_all
  next
    case 2
    have "promote ep (int i) = Some (ep\<lparr>ee_fill := ee_fill ep + 1\<rparr>)" using 2 by (simp add: promote_def)
    moreover have "ee_inv (ep\<lparr>ee_fill := ee_fill ep + 1\<rparr>)" using A f i 2 by (simp add: ee_inv_def used_int)
    moreover have "ee_quiet (ep\<lparr>ee_fill := ee_fill ep + 1\<rparr>)"
      unfolding ee_quiet_def
    proof (intro allI impI)
      fix k assume k: "nat (ee_fill (ep\<lparr>ee_fill := ee_fill ep + 1\<rparr>)) \<le> k" "k < nat (ee_used (ep\<lparr>ee_fill := ee_fill ep + 1\<rparr>))"
      then have "nat (ee_fill ep) \<le> k" "k \<noteq> i" using 2 f by auto
      then show "quiet (the (ee_items (ep\<lparr>ee_fill := ee_fill ep + 1\<rparr>) ! k))" using q k by simp
    qed
    ultimately show thesis by (intro that [of "ep\<lparr>ee_fill := ee_fill ep + 1\<rparr>"]) simp_all
  next
    case 3
    let ?j = "nat (ee_fill ep)"
    have jU: "?j \<in> {..<nat (ee_used ep)}" using 3 i f by auto
    have ij: "int ?j = ee_fill ep" using f by simp
    obtain x where x: "ee_items ep ! i = Some x" "i < length (ee_items ep)" by (rule ee_item [OF A iU])
    obtain y where y: "ee_items ep ! ?j = Some y" "?j < length (ee_items ep)" by (rule ee_item [OF A jU])
    define ep1 where "ep1 = ep\<lparr>ee_index := (ee_index ep)[nat (it_fd y) := int i, nat (it_fd x) := int ?j],
      ee_items := (ee_items ep)[?j := Some x, i := Some y]\<rparr>"
    note s = swap_items_ok [OF A iU jU x(1) y(1), folded ep1_def]
    have fields: "ee_cap ep1 = ee_cap ep" "ee_used ep1 = ee_used ep" by (simp_all add: ep1_def)
    have "promote ep (int i) = Some (ep1\<lparr>ee_fill := ee_fill ep + 1\<rparr>)"
      using s(1) [unfolded ij] 3 by (simp add: promote_def)
    moreover have "ee_inv (ep1\<lparr>ee_fill := ee_fill ep + 1\<rparr>)"
      using s(2) f i 3 by (simp add: ee_inv_def fields used_int)
    moreover have "ee_quiet (ep1\<lparr>ee_fill := ee_fill ep + 1\<rparr>)"
      unfolding ee_quiet_def
    proof (intro allI impI)
      fix k assume k: "nat (ee_fill (ep1\<lparr>ee_fill := ee_fill ep + 1\<rparr>)) \<le> k" "k < nat (ee_used (ep1\<lparr>ee_fill := ee_fill ep + 1\<rparr>))"
      then have k': "?j < k" "k < nat (ee_used ep)" using f by (auto simp: fields)
      have "quiet (the (ee_items ep ! ?j))" if "?j \<noteq> i" by (rule q [OF order.refl _ that]) (use k' in linarith)
      then show "quiet (the (ee_items (ep1\<lparr>ee_fill := ee_fill ep + 1\<rparr>) ! k))"
        using q [of k] k' x y 3 by (cases "k = i") (auto simp: ep1_def)
    qed
    ultimately show thesis using s(3) fields by (intro that [of "ep1\<lparr>ee_fill := ee_fill ep + 1\<rparr>"]) simp_all
  qed
qed

text \<open>The move out of it.\<close>

definition demote :: "'a ef_epollet \<Rightarrow> int \<Rightarrow> 'a ef_epollet option" where
  "demote ep idx =
     do { let ep = ep\<lparr>ee_fill := ee_fill ep - 1\<rparr>;
          if idx < ee_fill ep then swap_items ep idx (ee_fill ep) else Some ep }"

lemma demote_ok:
  assumes inv: "ee_inv ep" and i: "int i < ee_fill ep" "ee_items ep ! i = Some x"
  obtains ep' where "demote ep (int i) = Some ep'" "ee_inv ep'" "ee_reg ep' = ee_reg ep"
    "quiet x \<Longrightarrow> ee_quiet ep \<Longrightarrow> ee_quiet ep'" "ee_cap ep' = ee_cap ep"
proof -
  have A: "ee_arr ep {..<nat (ee_used ep)}" and f: "0 \<le> ee_fill ep" "ee_fill ep \<le> ee_used ep"
    using inv by (simp_all add: ee_inv_def)
  define ep0 where "ep0 = ep\<lparr>ee_fill := ee_fill ep - 1\<rparr>"
  have A0: "ee_arr ep0 {..<nat (ee_used ep)}" using A by (simp add: ep0_def)
  have iU: "i \<in> {..<nat (ee_used ep)}" using i f by auto
  show thesis
  proof (cases "int i < ee_fill ep - 1")
    case False
    then have ii: "int i = ee_fill ep - 1" using i(1) by simp
    have d: "demote ep (int i) = Some ep0" using False by (simp add: demote_def ep0_def)
    have iv: "ee_inv ep0" using A f i by (simp add: ee_inv_def ep0_def)
    have "ee_quiet ep0" if "quiet x" "ee_quiet ep"
      unfolding ee_quiet_def
    proof (intro allI impI)
      fix k assume "nat (ee_fill ep0) \<le> k" "k < nat (ee_used ep0)"
      then show "quiet (the (ee_items ep0 ! k))"
        using that i(2) ii by (cases "k = i") (auto simp: ep0_def ee_quiet_def)
    qed
    with d iv show thesis by (intro that [of ep0]) (simp_all add: ep0_def)
  next
    case True
    let ?j = "nat (ee_fill ep - 1)"
    have ij: "int ?j = ee_fill ep - 1" using True by simp
    have jU: "?j \<in> {..<nat (ee_used ep)}" using True f by auto
    obtain y where y: "ee_items ep0 ! ?j = Some y" "?j < length (ee_items ep0)" by (rule ee_item [OF A0 jU])
    have x: "ee_items ep0 ! i = Some x" using i(2) by (simp add: ep0_def)
    have xl: "i < length (ee_items ep0)" by (rule ee_item [OF A0 iU])
    define ep1 where "ep1 = ep0\<lparr>ee_index := (ee_index ep0)[nat (it_fd y) := int i, nat (it_fd x) := int ?j],
      ee_items := (ee_items ep0)[?j := Some x, i := Some y]\<rparr>"
    note s = swap_items_ok [OF A0 iU jU x y(1), folded ep1_def]
    have fields: "ee_cap ep1 = ee_cap ep" "ee_used ep1 = ee_used ep" "ee_fill ep1 = ee_fill ep - 1"
      by (simp_all add: ep1_def ep0_def)
    have d: "demote ep (int i) = Some ep1"
      using s(1) [unfolded ij] True by (simp add: demote_def ep0_def)
    have iv: "ee_inv ep1" using s(2) f True by (simp add: ee_inv_def fields)
    have "ee_quiet ep1" if q: "quiet x" "ee_quiet ep"
      unfolding ee_quiet_def
    proof (intro allI impI)
      fix k assume "nat (ee_fill ep1) \<le> k" "k < nat (ee_used ep1)"
      then have k: "?j \<le> k" "k < nat (ee_used ep)" "k \<noteq> i" using True by (auto simp: fields)
      show "quiet (the (ee_items ep1 ! k))"
      proof (cases "k = ?j")
        case True
        then show ?thesis using q(1) y(2) k(3) by (simp add: ep1_def)
      next
        case False
        then have "nat (ee_fill ep) \<le> k" using k(1) by linarith
        then show ?thesis using q(2) k False by (simp add: ee_quiet_def ep1_def ep0_def)
      qed
    qed
    with d iv s(3) fields show thesis by (intro that [of ep1]) (simp_all add: ep0_def)
  qed
qed

section \<open>Growing\<close>

lemma ee_arr_cong:
  assumes A: "ee_arr ep U" and c: "ee_cap ep \<le> ee_cap ep'" "nat (ee_cap ep') \<le> length (ee_index ep')"
    "nat (ee_cap ep') \<le> length (ee_items ep')"
    and ix: "\<And>f. f < nat (ee_cap ep) \<Longrightarrow> ee_index ep' ! f = ee_index ep ! f"
    and new: "\<And>f. nat (ee_cap ep) \<le> f \<Longrightarrow> f < nat (ee_cap ep') \<Longrightarrow> ee_index ep' ! f = - 1"
    and it: "\<And>i. i < nat (ee_cap ep) \<Longrightarrow> ee_items ep' ! i = ee_items ep ! i"
  shows "ee_arr ep' U" and "ee_reg ep' = ee_reg ep"
proof -
  note d = ee_arrD [OF A]
  have a: "\<exists>x. ee_items ep' ! i = Some x \<and> 0 \<le> it_fd x \<and> it_fd x < ee_cap ep' \<and> ee_index ep' ! nat (it_fd x) = int i"
    if i: "i \<in> U" for i
  proof -
    obtain x where x: "ee_items ep ! i = Some x" "0 \<le> it_fd x" "it_fd x < ee_cap ep" "ee_index ep ! nat (it_fd x) = int i"
      by (rule arr_item [OF d(5) i])
    moreover have "i < nat (ee_cap ep)" "nat (it_fd x) < nat (ee_cap ep)" using d(4) i x by auto
    ultimately show ?thesis using ix it c(1) by auto
  qed
  have old: "f < nat (ee_cap ep)" if "f < nat (ee_cap ep')" "0 \<le> ee_index ep' ! f" for f
    using new [of f] that by (cases "nat (ee_cap ep) \<le> f") auto
  have b: "nat (ee_index ep' ! f) \<in> U \<and> (\<exists>x. ee_items ep' ! nat (ee_index ep' ! f) = Some x \<and> it_fd x = int f)"
    if f: "f < nat (ee_cap ep')" "0 \<le> ee_index ep' ! f" for f
  proof -
    have f': "f < nat (ee_cap ep)" using old f by blast
    then have g: "0 \<le> ee_index ep ! f" "ee_index ep' ! f = ee_index ep ! f" using ix f(2) by auto
    obtain x where x: "nat (ee_index ep ! f) \<in> U" "ee_items ep ! nat (ee_index ep ! f) = Some x" "it_fd x = int f"
      by (rule arr_index [OF d(5) f' g(1)])
    then have "nat (ee_index ep ! f) < nat (ee_cap ep)" using d(4) by auto
    then show ?thesis using x g(2) it by simp
  qed
  have A': "arr (ee_cap ep') (nth (ee_index ep')) (nth (ee_items ep')) U" unfolding arr_def using a b by blast
  show "ee_arr ep' U" using A' d c by (auto simp: ee_arr_def)
  show "ee_reg ep' = ee_reg ep" unfolding ee_reg_def
  proof (rule arr_reg_eqI [OF A'])
    fix fd x
    have "ee_items ep' ! i = ee_items ep ! i" if "i \<in> U" for i using that d(4) it by auto
    then show "arr_reg (ee_cap ep) (nth (ee_index ep)) (nth (ee_items ep)) fd = Some x \<longleftrightarrow>
        (\<exists>i \<in> U. ee_items ep' ! i = Some x \<and> it_fd x = fd)"
      unfolding arr_reg_iff [OF d(5)] by simp
  qed
qed

text \<open>The states a growth may leave: nothing but the blocks has changed.\<close>

definition grown :: "'a ef_epollet \<Rightarrow> 'a ef_epollet \<Rightarrow> bool" where
  "grown ep ep' \<longleftrightarrow> ee_inv ep' \<and> ee_reg ep' = ee_reg ep \<and> ee_used ep' = ee_used ep \<and> ee_fill ep' = ee_fill ep \<and>
     (\<forall>i < nat (ee_used ep). ee_items ep' ! i = ee_items ep ! i)"

lemma grown_refl: "ee_inv ep \<Longrightarrow> grown ep ep"
  by (simp add: grown_def)

lemma grown_quiet: "grown ep ep' \<Longrightarrow> ee_quiet ep' = ee_quiet ep"
  by (auto simp: grown_def ee_quiet_def)

lemma grownI:
  assumes inv: "ee_inv ep" and c: "ee_cap ep \<le> ee_cap ep'" "nat (ee_cap ep') \<le> length (ee_index ep')"
    "nat (ee_cap ep') \<le> length (ee_items ep')"
    and ix: "\<And>f. f < nat (ee_cap ep) \<Longrightarrow> ee_index ep' ! f = ee_index ep ! f"
    and new: "\<And>f. nat (ee_cap ep) \<le> f \<Longrightarrow> f < nat (ee_cap ep') \<Longrightarrow> ee_index ep' ! f = - 1"
    and it: "\<And>i. i < nat (ee_cap ep) \<Longrightarrow> ee_items ep' ! i = ee_items ep ! i"
    and u: "ee_used ep' = ee_used ep" "ee_fill ep' = ee_fill ep"
  shows "grown ep ep'"
proof -
  have A: "ee_arr ep {..<nat (ee_used ep)}" using inv by (simp add: ee_inv_def)
  have "i < nat (ee_cap ep)" if "i < nat (ee_used ep)" for i using ee_arrD(4) [OF A] that by auto
  then show ?thesis
    using ee_arr_cong [OF A c ix new it] inv u it by (simp add: grown_def ee_inv_def)
qed

lemma ef_epoll_expand_cases:
  assumes inv: "ee_inv ep" and fd: "fd < 2 ^ 30"
  obtains (fail) ep' m' where "ef_epoll_expand m ep fd = Some (- 1, ep', m')" "grown ep ep'" "m \<noteq> []"
  | (ok) ep' m' where "ef_epoll_expand m ep fd = Some (0, ep', m')" "grown ep ep'" "fd < ee_cap ep'"
proof (cases "ee_cap ep > fd")
  case True
  with inv show thesis by (intro ok [of ep m]) (simp_all add: ef_epoll_expand_def grown_refl)
next
  case False
  have A: "ee_arr ep {..<nat (ee_used ep)}" using inv by (simp add: ee_inv_def)
  note d = ee_arrD [OF A]
  obtain c where c: "double_until (ee_cap ep) fd = Some c" "fd < c" "ee_cap ep \<le> c"
    using double_until_spec [OF d(1) fd] by blast
  obtain g1 m1 where g1: "malloc_obj m = (g1, m1)" by fastforce
  obtain g2 m2 where g2: "malloc_obj m1 = (g2, m2)" by fastforce
  obtain g3 m3 where g3: "malloc_obj m2 = (g3, m3)" by fastforce
  define ixs where "ixs = take (nat (ee_cap ep)) (ee_index ep) @ replicate (nat c - nat (ee_cap ep)) (- 1)"
  define its where "its = take (nat c) (ee_items ep) @ replicate (nat c - length (ee_items ep)) None"
  have ixs_old: "ixs ! f = ee_index ep ! f" if "f < nat (ee_cap ep)" for f
    using that d(2) by (simp add: ixs_def nth_append)
  have ixs_new: "ixs ! f = - 1" if "nat (ee_cap ep) \<le> f" "f < nat c" for f
  proof -
    have "length (take (nat (ee_cap ep)) (ee_index ep)) = nat (ee_cap ep)" using d(2) by simp
    moreover have "f - nat (ee_cap ep) < nat c - nat (ee_cap ep)" using that by linarith
    ultimately show ?thesis using that by (simp add: ixs_def nth_append)
  qed
  have ixs_len: "length ixs = nat c" using d c by (simp add: ixs_def)
  have its_old: "its ! i = ee_items ep ! i" if "i < nat (ee_cap ep)" for i
  proof -
    have "i < nat c" "i < length (ee_items ep)" using that d(3) c(3) by linarith+
    then show ?thesis by (simp add: its_def nth_append)
  qed
  have its_len: "length its = nat c" by (simp add: its_def)
  let ?ep1 = "ep\<lparr>ee_index := ixs\<rparr>" and ?ep2 = "ep\<lparr>ee_index := ixs, ee_items := its\<rparr>"
    and ?ep3 = "ep\<lparr>ee_index := ixs, ee_items := its, ee_cap := c\<rparr>"
  have gr: "grown ep ?ep1" "grown ep ?ep2" "grown ep ?ep3"
    using d c ixs_old ixs_new ixs_len its_old its_len by (auto intro!: grownI [OF inv])
  have unf: "ef_epoll_expand m ep fd =
      (if \<not> g1 then Some (- 1, ep, m1) else if \<not> g2 then Some (- 1, ?ep1, m2)
       else if \<not> g3 then Some (- 1, ?ep2, m3) else Some (0, ?ep3, m3))"
    using False c g1 g2 g3 by (simp add: ef_epoll_expand_def ixs_def its_def Let_def)
  show thesis
  proof (cases "g1 \<and> g2 \<and> g3")
    case True
    then show thesis using unf gr(3) c(2) by (intro ok [of ?ep3 m3]) simp_all
  next
    case False
    then have ne: "m \<noteq> []" using g1 g2 g3 by auto
    consider "\<not> g1" | "g1" "\<not> g2" | "g1" "g2" "\<not> g3" using False by blast
    then show thesis
    proof cases
      case 1
      then show thesis using unf grown_refl [OF inv] ne by (intro fail [of ep m1]) simp_all
    next
      case 2
      then show thesis using unf gr(1) ne by (intro fail [of ?ep1 m2]) simp_all
    next
      case 3
      then show thesis using unf gr(2) ne by (intro fail [of ?ep2 m3]) simp_all
    qed
  qed
qed

section \<open>Associating\<close>

definition fresh_item :: "int \<Rightarrow> u32 \<Rightarrow> 'a \<Rightarrow> 'a ef_epoll_item" where
  "fresh_item fd events ptr = \<lparr>it_fd = fd, it_waiting = events, it_fired = EPOLLOUT, it_ptr = ptr\<rparr>"

text \<open>The item an association leaves under the descriptor.\<close>

definition associated :: "'a ef_epoll_item option \<Rightarrow> int \<Rightarrow> u32 \<Rightarrow> 'a \<Rightarrow> 'a ef_epoll_item" where
  "associated old fd events ptr =
     (case old of None \<Rightarrow> fresh_item fd events ptr | Some it \<Rightarrow> it\<lparr>it_waiting := events, it_ptr := ptr\<rparr>)"

lemma add_item_ok:
  assumes inv: "ee_inv ep" and fd: "0 \<le> fd" "fd < ee_cap ep" "ee_index ep ! nat fd < 0" and x: "it_fd x = fd"
  obtains ep' where
    "do { ep \<leftarrow> put_index (ep\<lparr>ee_used := ee_used ep + 1\<rparr>) fd (ee_used ep); put_item ep (ee_used ep - 1) x } = Some ep'"
    "ee_inv ep'" "ee_reg ep' = (ee_reg ep)(fd \<mapsto> x)" "ee_used ep' = ee_used ep + 1" "ee_fill ep' = ee_fill ep"
    "ee_items ep' ! nat (ee_used ep) = Some x" "ee_cap ep' = ee_cap ep"
    "\<And>i. i < nat (ee_used ep) \<Longrightarrow> ee_items ep' ! i = ee_items ep ! i"
proof -
  have A: "ee_arr ep {..<nat (ee_used ep)}" and f: "0 \<le> ee_fill ep" "ee_fill ep \<le> ee_used ep"
    using inv by (simp_all add: ee_inv_def)
  note d = ee_arrD [OF A]
  let ?h = "nat (ee_used ep)"
  have room: "?h < nat (ee_cap ep)" using ee_room [OF inv fd] .
  have l: "nat fd < length (ee_index ep)" "?h < length (ee_items ep)" using d fd room by linarith+
  have u: "int ?h = ee_used ep" using f by simp
  have U: "insert ?h {..<?h} = {..<nat (ee_used ep + 1)}" using f by (auto simp: nat_add_distrib)
  define ep' where "ep' = ep\<lparr>ee_used := ee_used ep + 1, ee_index := (ee_index ep)[nat fd := ee_used ep],
    ee_items := (ee_items ep)[?h := Some x]\<rparr>"
  have a: "arr (ee_cap ep) ((nth (ee_index ep))(nat (it_fd x) := int ?h)) ((nth (ee_items ep))(?h := Some x)) (insert ?h {..<?h})"
    "arr_reg (ee_cap ep) ((nth (ee_index ep))(nat (it_fd x) := int ?h)) ((nth (ee_items ep))(?h := Some x)) =
       (arr_reg (ee_cap ep) (nth (ee_index ep)) (nth (ee_items ep)))(it_fd x \<mapsto> x)"
    using arr_add [OF d(5), of x ?h] fd x by auto
  have A': "ee_arr ep' {..<nat (ee_used ep + 1)}"
    using a(1) [unfolded u x] d room l f unfolding U [symmetric] by (auto simp: ee_arr_def ep'_def nth_upd_fun)
  show thesis
  proof (rule that [of ep'])
    show "do { ep \<leftarrow> put_index (ep\<lparr>ee_used := ee_used ep + 1\<rparr>) fd (ee_used ep); put_item ep (ee_used ep - 1) x } = Some ep'"
      using fd l f by (simp add: put_index_def put_item_def set_at_def ep'_def)
    show "ee_inv ep'" using A' f by (simp add: ee_inv_def ep'_def)
    show "ee_reg ep' = (ee_reg ep)(fd \<mapsto> x)"
      using a(2) [unfolded u x] l by (simp add: ee_reg_def ep'_def nth_upd_fun)
  qed (use l in \<open>simp_all add: ep'_def\<close>)
qed

text \<open>The second half of an association: the item is in place, its readiness decides.\<close>

lemma associate_finish:
  assumes inv: "ee_inv ep" and i: "i < nat (ee_used ep)" "ee_items ep ! i = Some x"
    and q: "\<And>k. nat (ee_fill ep) \<le> k \<Longrightarrow> k < nat (ee_used ep) \<Longrightarrow> k \<noteq> i \<Longrightarrow> quiet (the (ee_items ep ! k))"
  obtains ep' where
    "(if it_ready x \<noteq> 0
      then do { ep \<leftarrow> promote ep (int i); Some (1 :: int, ep, m) } else Some (0, ep, m)) =
     Some (if it_ready x \<noteq> 0 then 1 else 0, ep', m)"
    "ee_inv ep'" "ee_reg ep' = ee_reg ep" "ee_quiet ep'"
proof (cases "it_ready x = 0")
  case True
  have "ee_quiet ep"
    unfolding ee_quiet_def
  proof (intro allI impI)
    fix k assume "nat (ee_fill ep) \<le> k" "k < nat (ee_used ep)"
    then show "quiet (the (ee_items ep ! k))" using q i True by (cases "k = i") (auto simp: quiet_def)
  qed
  with True inv show thesis by (intro that [of ep]) simp_all
next
  case False
  show thesis by (rule promote_ok [OF inv i(1) q]) (use False in \<open>auto intro: that\<close>)
qed

lemma promote_code:
  "do { ep' \<leftarrow> (if idx > ee_fill ep then swap_items ep idx (ee_fill ep) else Some ep);
        let ep' = (if idx \<ge> ee_fill ep' then ep'\<lparr>ee_fill := ee_fill ep' + 1\<rparr> else ep');
        Some (1 :: int, ep', m) } =
   do { ep \<leftarrow> promote ep idx; Some (1, ep, m) }"
proof -
  have "ee_fill ep' = ee_fill ep" if "swap_items ep idx (ee_fill ep) = Some ep'" for ep'
    using that by (auto simp: swap_items_def put_item_def put_index_def bind_Some_iff)
  then show ?thesis by (cases "swap_items ep idx (ee_fill ep)") (auto simp: promote_def)
qed

text \<open>
  The outcomes of an association: no memory; \<^verbatim>\<open>epoll_ctl\<close> failed, and the item is left
  registered all the same; or the item is in place, and 1 says it can go ahead at once.
\<close>

text \<open>The two halves of the operation, once the arrays have room: a new item, and one that is there.\<close>

lemma associate_new:
  assumes g: "(if ee_cap ep \<le> fd then ef_epoll_expand m ep fd else Some (0, ep, m)) = Some (0, ep1, m1)"
    and inv: "ee_inv ep1" "ee_quiet ep1" and fd: "0 \<le> fd" "fd < ee_cap ep1" and idx: "ee_index ep1 ! nat fd < 0"
  obtains (refused) ep' where "ctl < 0" "ef_epoll_associate m ctl ep fd events ptr fired = Some (- 1, ep', m1)" "ee_inv ep'"
      "ee_reg ep' = (ee_reg ep1)(fd \<mapsto> fresh_item fd events ptr)"
  | (ok) ep' where "0 \<le> ctl" "ef_epoll_associate m ctl ep fd events ptr fired =
        Some (if it_ready (fresh_item fd events ptr) \<noteq> 0 then 1 else 0, ep', m1)" "ee_inv ep'"
      "ee_reg ep' = (ee_reg ep1)(fd \<mapsto> fresh_item fd events ptr)" "ee_quiet ep'"
proof -
  have A: "ee_arr ep1 {..<nat (ee_used ep1)}" and f: "0 \<le> ee_fill ep1" "ee_fill ep1 \<le> ee_used ep1"
    using inv(1) by (simp_all add: ee_inv_def)
  note gi = get_index [OF A fd]
  define x where "x = fresh_item fd events ptr"
  have xfd: "it_fd x = fd" by (simp add: x_def fresh_item_def)
  obtain ep2 where a: "do { ep \<leftarrow> put_index (ep1\<lparr>ee_used := ee_used ep1 + 1\<rparr>) fd (ee_used ep1); put_item ep (ee_used ep1) x } = Some ep2"
    "ee_inv ep2" "ee_reg ep2 = (ee_reg ep1)(fd \<mapsto> x)" "ee_used ep2 = ee_used ep1 + 1" "ee_fill ep2 = ee_fill ep1"
    "ee_items ep2 ! nat (ee_used ep1) = Some x" "ee_cap ep2 = ee_cap ep1"
    "\<And>i. i < nat (ee_used ep1) \<Longrightarrow> ee_items ep2 ! i = ee_items ep1 ! i"
  proof (rule add_item_ok [OF inv(1) fd idx xfd])
    fix ep' assume h: "do { ep \<leftarrow> put_index (ep1\<lparr>ee_used := ee_used ep1 + 1\<rparr>) fd (ee_used ep1); put_item ep (ee_used ep - 1) x } = Some ep'"
      "ee_inv ep'" "ee_reg ep' = (ee_reg ep1)(fd \<mapsto> x)" "ee_used ep' = ee_used ep1 + 1" "ee_fill ep' = ee_fill ep1"
      "ee_items ep' ! nat (ee_used ep1) = Some x" "ee_cap ep' = ee_cap ep1"
      "\<And>i. i < nat (ee_used ep1) \<Longrightarrow> ee_items ep' ! i = ee_items ep1 ! i"
    have "do { ep \<leftarrow> put_index (ep1\<lparr>ee_used := ee_used ep1 + 1\<rparr>) fd (ee_used ep1); put_item ep (ee_used ep1) x } = Some ep'"
      using h(1) by (auto simp: put_index_def bind_Some_iff)
    then show thesis using h(2-8) by (rule that)
  qed
  show thesis
  proof (cases "ctl < 0")
    case True
    then have "ef_epoll_associate m ctl ep fd events ptr fired = Some (- 1, ep2, m1)"
      using g idx gi a(1) by (auto simp: ef_epoll_associate_def x_def fresh_item_def bind_Some_iff)
    then show thesis by (rule refused [OF True]) (use a(2,3) in \<open>simp_all add: x_def\<close>)
  next
    case False
    have i: "nat (ee_used ep1) < nat (ee_used ep2)" and uu: "int (nat (ee_used ep1)) = ee_used ep1" using a(4) f by simp_all
    have gt: "get_item ep2 (ee_used ep1) = Some x"
    proof -
      have "ee_arr ep2 {..<nat (ee_used ep2)}" using a(2) by (simp add: ee_inv_def)
      from ee_item [OF this, of "nat (ee_used ep1)"] i a(6) f show ?thesis by auto
    qed
    have q2: "quiet (the (ee_items ep2 ! k))"
      if "nat (ee_fill ep2) \<le> k" "k < nat (ee_used ep2)" "k \<noteq> nat (ee_used ep1)" for k
    proof -
      have "k < nat (ee_used ep1)" using that a(4) f by linarith
      then show ?thesis using that(1) a(5,8) inv(2) by (simp add: ee_quiet_def)
    qed
    obtain ep' where e: "(if it_ready x \<noteq> 0 then do { ep \<leftarrow> promote ep2 (int (nat (ee_used ep1))); Some (1 :: int, ep, m1) }
        else Some (0, ep2, m1)) = Some (if it_ready x \<noteq> 0 then 1 else 0, ep', m1)"
      "ee_inv ep'" "ee_reg ep' = ee_reg ep2" "ee_quiet ep'"
      by (rule associate_finish [OF a(2) i a(6) q2, where m = m1])
    have "ef_epoll_associate m ctl ep fd events ptr fired =
        (if it_ready x \<noteq> 0 then do { ep \<leftarrow> promote ep2 (ee_used ep1); Some (1, ep, m1) } else Some (0, ep2, m1))"
      using g idx False gi a(1) gt promote_code [where m = m1 and ep = ep2 and idx = "ee_used ep1"]
      by (auto simp: ef_epoll_associate_def x_def fresh_item_def bind_Some_iff Let_def)
    then have "ef_epoll_associate m ctl ep fd events ptr fired = Some (if it_ready x \<noteq> 0 then 1 else 0, ep', m1)"
      using e(1) [unfolded uu] by (rule trans)
    then show thesis by (intro ok [of ep']) (use False e(2-4) a(3) in \<open>simp_all add: x_def\<close>)
  qed
qed

lemma associate_old:
  assumes g: "(if ee_cap ep \<le> fd then ef_epoll_expand m ep fd else Some (0, ep, m)) = Some (0, ep1, m1)"
    and inv: "ee_inv ep1" "ee_quiet ep1" and fd: "0 \<le> fd" "fd < ee_cap ep1" and idx: "0 \<le> ee_index ep1 ! nat fd"
  obtains old ep' where "ee_reg ep1 fd = Some old" "ef_epoll_associate m ctl ep fd events ptr fired =
      Some (if it_ready (old\<lparr>it_waiting := events, it_ptr := ptr\<rparr>) \<noteq> 0 then 1 else 0, ep', m1)" "ee_inv ep'"
    "ee_reg ep' = (ee_reg ep1)(fd \<mapsto> old\<lparr>it_waiting := events, it_ptr := ptr\<rparr>)" "ee_quiet ep'"
proof -
  have A: "ee_arr ep1 {..<nat (ee_used ep1)}" and f: "0 \<le> ee_fill ep1" "ee_fill ep1 \<le> ee_used ep1"
    using inv(1) by (simp_all add: ee_inv_def)
  note gi = get_index [OF A fd]
  obtain i old where o: "i \<in> {..<nat (ee_used ep1)}" "ee_index ep1 ! nat fd = int i" "ee_items ep1 ! i = Some old" "it_fd old = fd"
    "get_item ep1 (int i) = Some old" "ee_reg ep1 fd = Some old"
    by (rule ee_lookup [OF A fd idx])
  define x where "x = old\<lparr>it_waiting := events, it_ptr := ptr\<rparr>"
  have xfd: "it_fd x = it_fd old" by (simp add: x_def)
  define ep2 where "ep2 = ep1\<lparr>ee_items := (ee_items ep1)[i := Some x]\<rparr>"
  note p = put_item_ok [OF A o(1,3) xfd, folded ep2_def]
  have il: "i < length (ee_items ep1)" using ee_arrD [OF A] o(1) by auto
  have inv2: "ee_inv ep2" using p(2) f by (simp add: ee_inv_def ep2_def)
  have i2: "i < nat (ee_used ep2)" "ee_items ep2 ! i = Some x" using o(1) il by (simp_all add: ep2_def)
  have gt: "get_item ep2 (int i) = Some x" using il by (simp add: get_item_def get_at_def ep2_def)
  have q2: "quiet (the (ee_items ep2 ! k))" if "nat (ee_fill ep2) \<le> k" "k < nat (ee_used ep2)" "k \<noteq> i" for k
    using that inv(2) by (simp add: ee_quiet_def ep2_def)
  obtain ep' where e: "(if it_ready x \<noteq> 0 then do { ep \<leftarrow> promote ep2 (int i); Some (1 :: int, ep, m1) }
      else Some (0, ep2, m1)) = Some (if it_ready x \<noteq> 0 then 1 else 0, ep', m1)"
    "ee_inv ep'" "ee_reg ep' = ee_reg ep2" "ee_quiet ep'"
    by (rule associate_finish [OF inv2 i2 q2, where m = m1])
  have "ef_epoll_associate m ctl ep fd events ptr fired =
      (if it_ready x \<noteq> 0 then do { ep \<leftarrow> promote ep2 (int i); Some (1, ep, m1) } else Some (0, ep2, m1))"
    using g idx gi o(2,5) p(1) gt promote_code [where m = m1 and ep = ep2 and idx = "int i"]
    by (auto simp: ef_epoll_associate_def x_def Let_def)
  then have "ef_epoll_associate m ctl ep fd events ptr fired = Some (if it_ready x \<noteq> 0 then 1 else 0, ep', m1)"
    using e(1) by simp
  then show thesis by (intro that [OF o(6), of ep']) (use e(2-4) p(3) o(4) in \<open>simp_all add: x_def\<close>)
qed

lemma ef_epoll_associate_cases:
  assumes inv: "ee_inv ep" and fd: "0 \<le> fd" "fd < 2 ^ 30" and q: "ee_quiet ep"
  obtains (no_memory) ep' m' where "ef_epoll_associate m ctl ep fd events ptr fired = Some (- 1, ep', m')" "ee_inv ep'"
      "ee_reg ep' = ee_reg ep" "ee_quiet ep'" "m \<noteq> []"
  | (refused) ep' m' where "ef_epoll_associate m ctl ep fd events ptr fired = Some (- 1, ep', m')" "ee_inv ep'"
      "ee_reg ep fd = None" "ctl < 0" "ee_reg ep' = (ee_reg ep)(fd \<mapsto> fresh_item fd events ptr)"
  | (ok) ep' m' where "ef_epoll_associate m ctl ep fd events ptr fired =
        Some (if it_ready (associated (ee_reg ep fd) fd events ptr) \<noteq> 0 then 1 else 0, ep', m')" "ee_inv ep'"
      "ee_reg ep' = (ee_reg ep)(fd \<mapsto> associated (ee_reg ep fd) fd events ptr)" "ee_quiet ep'"
      "ee_reg ep fd = None \<longrightarrow> 0 \<le> ctl"
proof -
  have step: thesis
    if g: "(if ee_cap ep \<le> fd then ef_epoll_expand m ep fd else Some (0, ep, m)) = Some (0, ep1, m1)"
      and gr: "grown ep ep1" and c: "fd < ee_cap ep1" for ep1 m1
  proof -
    have e1: "ee_inv ep1" "ee_reg ep1 = ee_reg ep" "ee_quiet ep1" using gr q grown_quiet by (auto simp: grown_def)
    show thesis
    proof (cases "ee_index ep1 ! nat fd < 0")
      case True
      then have none: "ee_reg ep fd = None" using ee_reg_None [of fd ep1] e1(2) by auto
      then have fresh: "associated (ee_reg ep fd) fd events ptr = fresh_item fd events ptr" by (simp add: associated_def)
      show thesis
        by (rule associate_new [OF g e1(1,3) fd(1) c True, of ctl events ptr fired])
          (use none e1(2) in \<open>auto intro: refused ok [unfolded fresh]\<close>)
    next
      case False
      then have idx: "0 \<le> ee_index ep1 ! nat fd" by simp
      show thesis
        by (rule associate_old [OF g e1(1,3) fd(1) c idx, of ctl events ptr fired])
          (use e1(2) in \<open>auto simp: associated_def intro: ok\<close>)
    qed
  qed
  show thesis
  proof (cases "ee_cap ep \<le> fd")
    case False
    then show thesis using inv by (intro step [of ep m]) (simp_all add: grown_refl)
  next
    case True
    show thesis
    proof (rule ef_epoll_expand_cases [OF inv fd(2), of m])
      fix ep' m' assume f: "ef_epoll_expand m ep fd = Some (- 1, ep', m')" "grown ep ep'" "m \<noteq> []"
      then have eq: "ef_epoll_associate m ctl ep fd events ptr fired = Some (- 1, ep', m')"
        using True by (simp add: ef_epoll_associate_def)
      show thesis by (rule no_memory [OF eq]) (use f q grown_quiet in \<open>auto simp: grown_def\<close>)
    next
      fix ep' m' assume "ef_epoll_expand m ep fd = Some (0, ep', m')" "grown ep ep'" "fd < ee_cap ep'"
      then show thesis using True by (intro step [of ep' m']) simp_all
    qed
  qed
qed

section \<open>Dissociating\<close>

lemma unregistered_code:
  assumes A: "ee_arr ep U" and fd: "0 \<le> fd" and none: "\<not> (fd < ee_cap ep \<and> 0 \<le> ee_index ep ! nat fd)"
  shows "ef_epoll_dissociate ctl ep fd fired onclose = Some (0, ep)" and "ef_epoll_unset ep fd events = Some (0, ep)"
    and "ee_reg ep fd = None"
proof -
  show "ee_reg ep fd = None" using none by (intro ee_reg_None) auto
  have "ee_cap ep \<le> fd \<or> get_at (ee_index ep) fd = Some (ee_index ep ! nat fd) \<and> ee_index ep ! nat fd < 0"
    using get_index [OF A fd] none by force
  then show "ef_epoll_dissociate ctl ep fd fired onclose = Some (0, ep)" "ef_epoll_unset ep fd events = Some (0, ep)"
    by (auto simp: ef_epoll_dissociate_def ef_epoll_unset_def)
qed

text \<open>Without \<^verbatim>\<open>onclose\<close> the item stays, waiting for nothing.\<close>

lemma ef_epoll_dissociate_keep:
  assumes inv: "ee_inv ep" and fd: "0 \<le> fd"
  obtains ep' where "ef_epoll_dissociate ctl ep fd fired False = Some (0, ep')" "ee_inv ep'"
    "ee_reg ep' = (ee_reg ep)(fd := map_option (\<lambda>it. it\<lparr>it_waiting := 0\<rparr>) (ee_reg ep fd))"
    "ee_quiet ep \<Longrightarrow> ee_quiet ep'"
proof -
  have A: "ee_arr ep {..<nat (ee_used ep)}" and f: "0 \<le> ee_fill ep" "ee_fill ep \<le> ee_used ep"
    using inv by (simp_all add: ee_inv_def)
  show thesis
  proof (cases "fd < ee_cap ep \<and> 0 \<le> ee_index ep ! nat fd")
    case False
    note n = unregistered_code [OF A fd False]
    then have "(ee_reg ep)(fd := map_option (\<lambda>it. it\<lparr>it_waiting := 0\<rparr>) (ee_reg ep fd)) = ee_reg ep" by auto
    with n inv show thesis by (intro that [of ep]) simp_all
  next
    case True
    then have c: "fd < ee_cap ep" "0 \<le> ee_index ep ! nat fd" by auto
    obtain i old where o: "i \<in> {..<nat (ee_used ep)}" "ee_index ep ! nat fd = int i" "ee_items ep ! i = Some old"
      "it_fd old = fd" "get_item ep (int i) = Some old" "ee_reg ep fd = Some old"
      by (rule ee_lookup [OF A fd c])
    define x where "x = old\<lparr>it_waiting := 0\<rparr>"
    have xfd: "it_fd x = it_fd old" by (simp add: x_def)
    have xq: "quiet x" by (simp add: quiet_def x_def)
    define ep2 where "ep2 = ep\<lparr>ee_items := (ee_items ep)[i := Some x]\<rparr>"
    note p = put_item_ok [OF A o(1,3) xfd, folded ep2_def]
    have il: "i < length (ee_items ep)" using ee_arrD [OF A] o(1) by auto
    have inv2: "ee_inv ep2" using p(2) f by (simp add: ee_inv_def ep2_def)
    have i2: "ee_items ep2 ! i = Some x" using il by (simp add: ep2_def)
    have q2: "ee_quiet ep2" if "ee_quiet ep"
      unfolding ee_quiet_def
    proof (intro allI impI)
      fix k assume "nat (ee_fill ep2) \<le> k" "k < nat (ee_used ep2)"
      then show "quiet (the (ee_items ep2 ! k))"
        using that xq il by (cases "k = i") (auto simp: ee_quiet_def ep2_def)
    qed
    have reg: "ee_reg ep2 = (ee_reg ep)(fd := map_option (\<lambda>it. it\<lparr>it_waiting := 0\<rparr>) (ee_reg ep fd))"
      using p(3) o(4,6) by (simp add: x_def)
    have code: "ef_epoll_dissociate ctl ep fd fired False =
        do { ep \<leftarrow> (if int i < ee_fill ep then demote ep2 (int i) else Some ep2); Some (0, ep) }"
      using c(1) get_index [OF A fd c(1)] o(2,5) p(1)
      by (simp add: ef_epoll_dissociate_def x_def demote_def Let_def) (simp add: ep2_def)
    show thesis
    proof (cases "int i < ee_fill ep")
      case False
      with code inv2 reg q2 show thesis by (intro that [of ep2]) simp_all
    next
      case True
      then have "int i < ee_fill ep2" by (simp add: ep2_def)
      then show thesis
      proof (rule demote_ok [OF inv2 _ i2])
        fix ep' assume d: "demote ep2 (int i) = Some ep'" "ee_inv ep'" "ee_reg ep' = ee_reg ep2"
          "quiet x \<Longrightarrow> ee_quiet ep2 \<Longrightarrow> ee_quiet ep'"
        show thesis using code True d reg q2 xq by (intro that [of ep']) simp_all
      qed
    qed
  qed
qed

text \<open>On close the item is removed: two moves at most close the gap.\<close>

lemma hole_below:
  assumes A: "ee_arr ep ({..<u} - {h})" and h: "h < u" "u \<le> nat (ee_cap ep)"
  obtains ep' where
    "(if int h < int u - 1 then move_item ep (int h) (int u - 1) else Some ep) = Some ep'"
    "ee_arr ep' {..<u - 1}" "ee_reg ep' = ee_reg ep" "ee_used ep' = ee_used ep" "ee_fill ep' = ee_fill ep"
    "\<And>k. k \<noteq> h \<Longrightarrow> ee_items ep' ! k = ee_items ep ! k"
    "h < u - 1 \<Longrightarrow> ee_items ep' ! h = ee_items ep ! (u - 1)" "ee_cap ep' = ee_cap ep"
proof (cases "h = u - 1")
  case True
  then have "{..<u} - {h} = {..<u - 1}" using h by auto
  with A True h show thesis by (intro that [of ep]) auto
next
  case False
  then have lt: "h < u - 1" using h by simp
  then have lU: "u - 1 \<in> {..<u} - {h}" by auto
  obtain x where x: "ee_items ep ! (u - 1) = Some x" "u - 1 < length (ee_items ep)" by (rule ee_item [OF A lU])
  have hU: "h \<notin> {..<u} - {h}" by simp
  have hc: "h < nat (ee_cap ep)" using h by simp
  define ep' where "ep' = ep\<lparr>ee_items := (ee_items ep)[h := Some x], ee_index := (ee_index ep)[nat (it_fd x) := int h]\<rparr>"
  note m = move_item_ok [OF A lU x(1) hU hc, folded ep'_def]
  have U: "insert h ({..<u} - {h} - {u - 1}) = {..<u - 1}" using lt by auto
  have u1: "int (u - 1) = int u - 1" using h by simp
  have hl: "h < length (ee_items ep)" using lt x(2) by simp
  show thesis
    by (rule that [of ep']) (use m(1) [unfolded u1] m(2) [unfolded U] m(3) lt x(1) hl in \<open>auto simp: ep'_def\<close>)
qed

lemma hole_in_fill:
  assumes A: "ee_arr ep ({..<u} - {h})" and h: "h < f" "f \<le> u" "u \<le> nat (ee_cap ep)"
  obtains ep' where
    "(if int h < int f - 1 then do { ep' \<leftarrow> move_item ep (int h) (int f - 1); Some (int f - 1, ep') }
      else Some (int h, ep)) = Some (int (f - 1), ep')"
    "ee_arr ep' ({..<u} - {f - 1})" "ee_reg ep' = ee_reg ep" "ee_used ep' = ee_used ep" "ee_fill ep' = ee_fill ep"
    "\<And>k. f \<le> k \<Longrightarrow> ee_items ep' ! k = ee_items ep ! k" "ee_cap ep' = ee_cap ep"
proof (cases "h = f - 1")
  case True
  with A h show thesis by (intro that [of ep]) auto
next
  case False
  then have lt: "h < f - 1" using h by simp
  then have lU: "f - 1 \<in> {..<u} - {h}" using h by auto
  obtain x where x: "ee_items ep ! (f - 1) = Some x" "f - 1 < length (ee_items ep)" by (rule ee_item [OF A lU])
  have hU: "h \<notin> {..<u} - {h}" by simp
  have hc: "h < nat (ee_cap ep)" using h by simp
  define ep' where "ep' = ep\<lparr>ee_items := (ee_items ep)[h := Some x], ee_index := (ee_index ep)[nat (it_fd x) := int h]\<rparr>"
  note m = move_item_ok [OF A lU x(1) hU hc, folded ep'_def]
  have U: "insert h ({..<u} - {h} - {f - 1}) = {..<u} - {f - 1}" using lt h by auto
  have u1: "int (f - 1) = int f - 1" using h by simp
  show thesis
    by (rule that [of ep']) (use m(1) [unfolded u1] m(2) [unfolded U] m(3) lt h u1 in \<open>auto simp: ep'_def\<close>)
qed

lemma closed: "nat (u - 1) = nat u - 1"
  by simp

lemma close_quiet:
  assumes q: "ee_quiet ep" and e: "ee_used e1 = ee_used e0" "ee_fill e1 = ee_fill e0"
    "\<And>k. k \<noteq> i \<Longrightarrow> ee_items e1 ! k = ee_items e0 ! k"
    "i < nat (ee_used ep) - 1 \<Longrightarrow> ee_items e1 ! i = ee_items e0 ! (nat (ee_used ep) - 1)"
    and e0: "ee_used e0 = ee_used ep - 1" "ee_fill e0 = ee_fill ep" "ee_items e0 = ee_items ep"
    and i: "nat (ee_fill ep) \<le> i"
  shows "ee_quiet e1"
  unfolding ee_quiet_def
proof (intro allI impI)
  fix k assume "nat (ee_fill e1) \<le> k" "k < nat (ee_used e1)"
  then have k: "nat (ee_fill ep) \<le> k" "k < nat (ee_used ep) - 1" using e(1,2) e0(1,2) by auto
  show "quiet (the (ee_items e1 ! k))"
  proof (cases "k = i")
    case True
    have "quiet (the (ee_items ep ! (nat (ee_used ep) - 1)))"
      using q k unfolding ee_quiet_def by (metis One_nat_def Suc_pred diff_less less_imp_le_nat less_nat_zero_code
          linorder_not_less not_gr_zero order.trans zero_less_Suc diff_is_0_eq')
    then show ?thesis using True e(4) k e0(3) by simp
  next
    case False
    then show ?thesis using q e(3) k e0(3) by (simp add: ee_quiet_def)
  qed
qed

lemma close_filled_quiet:
  assumes q: "ee_quiet ep" and f: "0 < nat (ee_fill ep)" "nat (ee_fill ep) \<le> nat (ee_used ep)"
    and h: "\<And>k. nat (ee_fill ep) \<le> k \<Longrightarrow> ee_items e1 ! k = ee_items e0 ! k"
    and g: "\<And>k. k \<noteq> nat (ee_fill ep) - 1 \<Longrightarrow> ee_items e3 ! k = ee_items e2 ! k"
      "nat (ee_fill ep) - 1 < nat (ee_used ep) - 1 \<Longrightarrow> ee_items e3 ! (nat (ee_fill ep) - 1) = ee_items e2 ! (nat (ee_used ep) - 1)"
    and e: "ee_items e2 = ee_items e1" "ee_items e0 = ee_items ep" "ee_fill e3 = ee_fill ep - 1" "ee_used e3 = ee_used ep - 1"
  shows "ee_quiet e3"
  unfolding ee_quiet_def
proof (intro allI impI)
  let ?u = "nat (ee_used ep)" and ?f = "nat (ee_fill ep)"
  fix k assume "nat (ee_fill e3) \<le> k" "k < nat (ee_used e3)"
  then have k: "?f - 1 \<le> k" "k < ?u - 1" using e(3,4) by (auto simp: nat_diff_distrib)
  show "quiet (the (ee_items e3 ! k))"
  proof (cases "k = ?f - 1")
    case True
    then have lu: "?f \<le> ?u - 1" "?u - 1 < ?u" "?f - 1 < ?u - 1" using k f by linarith+
    then have "ee_items e3 ! k = ee_items ep ! (?u - 1)" unfolding True g(2) [OF lu(3)] e(1) h [OF lu(1)] e(2) by simp
    then show ?thesis using q lu by (simp add: ee_quiet_def)
  next
    case False
    then have "?f \<le> k" "ee_items e3 ! k = ee_items ep ! k" using k g(1) [of k] e h [of k] by auto
    then show ?thesis using q k by (simp add: ee_quiet_def)
  qed
qed

lemma close_behind_fill:
  assumes inv: "ee_inv ep" and fd: "0 \<le> fd" "fd < ee_cap ep" and o: "i < nat (ee_used ep)" "ee_index ep ! nat fd = int i"
    "ee_items ep ! i = Some old" "it_fd old = fd"
    and nf: "\<not> int i < ee_fill ep"
  obtains ep' where "ef_epoll_dissociate ctl ep fd fired True = Some (ctl, ep')" "ee_inv ep'"
    "ee_reg ep' = (ee_reg ep)(fd := None)" "ee_quiet ep \<Longrightarrow> ee_quiet ep'"
proof -
  have A: "ee_arr ep {..<nat (ee_used ep)}" and f: "0 \<le> ee_fill ep" "ee_fill ep \<le> ee_used ep"
    using inv by (simp_all add: ee_inv_def)
  let ?u = "nat (ee_used ep)" and ?f = "nat (ee_fill ep)"
  have uc: "?u \<le> nat (ee_cap ep)" using ee_arrD(4) [OF A] by (simp add: lessThan_subset_iff)
  have ui: "int ?u = ee_used ep" "int ?f = ee_fill ep" using f by auto
  define ep1 where "ep1 = ep\<lparr>ee_index := (ee_index ep)[nat (it_fd old) := - 1]\<rparr>"
  have iU: "i \<in> {..<?u}" using o(1) by simp
  note dl = delete_index_ok [OF A iU o(3), folded ep1_def]
  have f1: "ee_used ep1 = ee_used ep" "ee_fill ep1 = ee_fill ep" "ee_items ep1 = ee_items ep" "ee_cap ep1 = ee_cap ep"
    by (simp_all add: ep1_def)
  have head: "put_index ep fd (- 1) = Some ep1" using dl(1) o(4) by simp
  note gi = get_index [OF A fd]
  have False: "\<not> i < ?f" using nf ui by linarith
  define e0 where "e0 = ep1\<lparr>ee_used := ee_used ep - 1\<rparr>"
  have A0: "ee_arr e0 ({..<?u} - {i})" using dl(2) by (simp add: e0_def)
  have f0: "ee_used e0 = ee_used ep - 1" "ee_fill e0 = ee_fill ep" "ee_items e0 = ee_items ep" "ee_reg e0 = ee_reg ep1"
    by (simp_all add: e0_def f1)
  show thesis
  proof (rule hole_below [OF A0 o(1)])
    show "?u \<le> nat (ee_cap e0)" using uc f1 by (simp add: e0_def)
  next
    fix e1 assume h: "(if int i < int ?u - 1 then move_item e0 (int i) (int ?u - 1) else Some e0) = Some e1"
      "ee_arr e1 {..<?u - 1}" "ee_reg e1 = ee_reg e0" "ee_used e1 = ee_used e0" "ee_fill e1 = ee_fill e0"
      "\<And>k. k \<noteq> i \<Longrightarrow> ee_items e1 ! k = ee_items e0 ! k"
      "i < ?u - 1 \<Longrightarrow> ee_items e1 ! i = ee_items e0 ! (?u - 1)"
    have "ef_epoll_dissociate ctl ep fd fired True =
        do { e \<leftarrow> (if int i < ee_used ep - 1 then move_item e0 (int i) (ee_used ep - 1) else Some e0); Some (ctl, e) }"
      using fd(2) gi o(2) head nf by (simp add: ef_epoll_dissociate_def f1 Let_def e0_def)
    then have eq: "ef_epoll_dissociate ctl ep fd fired True = Some (ctl, e1)"
      unfolding h(1) [unfolded ui] by simp
    have inv1: "ee_inv e1"
      using h(2,4,5) f o(1) nf unfolding closed by (simp add: ee_inv_def f0 closed)
    have q1: "ee_quiet e1" if q: "ee_quiet ep"
      by (rule close_quiet [OF q h(4,5,6,7)]) (use f0 False ui in auto)
    show thesis
      by (rule that [OF eq inv1 _ q1]) (use dl(3) h(3) f0(4) o(4) in simp_all)
  qed
qed

lemma close_in_fill:
  assumes inv: "ee_inv ep" and fd: "0 \<le> fd" "fd < ee_cap ep" and o: "i < nat (ee_used ep)" "ee_index ep ! nat fd = int i"
    "ee_items ep ! i = Some old" "it_fd old = fd"
    and yf: "int i < ee_fill ep"
  obtains ep' where "ef_epoll_dissociate ctl ep fd fired True = Some (ctl, ep')" "ee_inv ep'"
    "ee_reg ep' = (ee_reg ep)(fd := None)" "ee_quiet ep \<Longrightarrow> ee_quiet ep'"
proof -
  have A: "ee_arr ep {..<nat (ee_used ep)}" and f: "0 \<le> ee_fill ep" "ee_fill ep \<le> ee_used ep"
    using inv by (simp_all add: ee_inv_def)
  let ?u = "nat (ee_used ep)" and ?f = "nat (ee_fill ep)"
  have uc: "?u \<le> nat (ee_cap ep)" using ee_arrD(4) [OF A] by (simp add: lessThan_subset_iff)
  have ui: "int ?u = ee_used ep" "int ?f = ee_fill ep" using f by auto
  define ep1 where "ep1 = ep\<lparr>ee_index := (ee_index ep)[nat (it_fd old) := - 1]\<rparr>"
  have iU: "i \<in> {..<?u}" using o(1) by simp
  note dl = delete_index_ok [OF A iU o(3), folded ep1_def]
  have f1: "ee_used ep1 = ee_used ep" "ee_fill ep1 = ee_fill ep" "ee_items ep1 = ee_items ep" "ee_cap ep1 = ee_cap ep"
    by (simp_all add: ep1_def)
  have head: "put_index ep fd (- 1) = Some ep1" using dl(1) o(4) by simp
  note gi = get_index [OF A fd]
  have True: "i < ?f" using yf ui by linarith
  define e0 where "e0 = ep1\<lparr>ee_fill := ee_fill ep - 1\<rparr>"
  have A0: "ee_arr e0 ({..<?u} - {i})" using dl(2) by (simp add: e0_def)
  have f0: "ee_used e0 = ee_used ep" "ee_fill e0 = ee_fill ep - 1" "ee_items e0 = ee_items ep" "ee_reg e0 = ee_reg ep1"
    "ee_cap e0 = ee_cap ep"
    by (simp_all add: e0_def f1)
  have fu: "?f \<le> ?u" using f by simp
  show thesis
  proof (rule hole_in_fill [OF A0 True fu])
    show "?u \<le> nat (ee_cap e0)" using uc f0 by simp
  next
    fix e1 assume h: "(if int i < int ?f - 1 then do { ep' \<leftarrow> move_item e0 (int i) (int ?f - 1); Some (int ?f - 1, ep') }
        else Some (int i, e0)) = Some (int (?f - 1), e1)"
      "ee_arr e1 ({..<?u} - {?f - 1})" "ee_reg e1 = ee_reg e0" "ee_used e1 = ee_used e0" "ee_fill e1 = ee_fill e0"
      "\<And>k. ?f \<le> k \<Longrightarrow> ee_items e1 ! k = ee_items e0 ! k" "ee_cap e1 = ee_cap e0"
    define e2 where "e2 = e1\<lparr>ee_used := ee_used ep - 1\<rparr>"
    have A2: "ee_arr e2 ({..<?u} - {?f - 1})" using h(2) by (simp add: e2_def)
    have hu: "?f - 1 < ?u" using o(1) fu True by linarith
    have f2: "ee_used e2 = ee_used ep - 1" "ee_fill e2 = ee_fill ep - 1" "ee_items e2 = ee_items e1" "ee_reg e2 = ee_reg ep1"
      "ee_cap e2 = ee_cap ep"
      using h f0 by (simp_all add: e2_def)
    have fi: "int (?f - 1) = ee_fill ep - 1" using True f by linarith
    show thesis
    proof (rule hole_below [OF A2 hu])
      show "?u \<le> nat (ee_cap e2)" using uc f2 by simp
    next
      fix e3 assume g: "(if int (?f - 1) < int ?u - 1 then move_item e2 (int (?f - 1)) (int ?u - 1) else Some e2) = Some e3"
        "ee_arr e3 {..<?u - 1}" "ee_reg e3 = ee_reg e2" "ee_used e3 = ee_used e2" "ee_fill e3 = ee_fill e2"
        "\<And>k. k \<noteq> ?f - 1 \<Longrightarrow> ee_items e3 ! k = ee_items e2 ! k"
        "?f - 1 < ?u - 1 \<Longrightarrow> ee_items e3 ! (?f - 1) = ee_items e2 ! (?u - 1)"
      have "ef_epoll_dissociate ctl ep fd fired True =
          do { (idx, e) \<leftarrow> (if int i < ee_fill ep - 1 then do { ep' \<leftarrow> move_item e0 (int i) (ee_fill ep - 1); Some (ee_fill ep - 1, ep') }
                 else Some (int i, e0));
               let e = e\<lparr>ee_used := ee_used e - 1\<rparr>;
               e \<leftarrow> (if idx < ee_used e then move_item e idx (ee_used e) else Some e);
               Some (ctl, e) }"
        using fd(2) gi o(2) head yf by (simp add: ef_epoll_dissociate_def f1 Let_def e0_def)
      also have "\<dots> = do { e \<leftarrow> (if ee_fill ep - 1 < ee_used ep - 1 then move_item e2 (ee_fill ep - 1) (ee_used ep - 1) else Some e2);
               Some (ctl, e) }"
        unfolding h(1) [unfolded ui fi] using h(4) f0(1) by (simp add: e2_def)
      finally have eq: "ef_epoll_dissociate ctl ep fd fired True = Some (ctl, e3)"
        unfolding g(1) [unfolded ui fi] by simp
      have inv3: "ee_inv e3"
        using g(2,4,5) f o(1) yf hu unfolding closed by (simp add: ee_inv_def f2 closed)
      have q3: "ee_quiet e3" if q: "ee_quiet ep"
        by (rule close_filled_quiet [OF q _ _ h(6) g(6,7)]) (use f2 f0 g(4,5) True f yf ui in auto)
      show thesis
        by (rule that [OF eq inv3 _ q3]) (use dl(3) g(3) f2(4) o(4) in simp_all)
    qed
  qed
qed

lemma ef_epoll_dissociate_close:
  assumes inv: "ee_inv ep" and fd: "0 \<le> fd"
  obtains r ep' where "ef_epoll_dissociate ctl ep fd fired True = Some (r, ep')" "ee_inv ep'"
    "ee_reg ep' = (ee_reg ep)(fd := None)" "ee_quiet ep \<Longrightarrow> ee_quiet ep'"
    "r = (if ee_reg ep fd = None then 0 else ctl)"
proof -
  have A: "ee_arr ep {..<nat (ee_used ep)}" using inv by (simp add: ee_inv_def)
  show thesis
  proof (cases "fd < ee_cap ep \<and> 0 \<le> ee_index ep ! nat fd")
    case False
    note n = unregistered_code [OF A fd False]
    then have "(ee_reg ep)(fd := None) = ee_reg ep" by auto
    with n inv show thesis by (intro that [of 0 ep]) simp_all
  next
    case True
    then have c: "fd < ee_cap ep" "0 \<le> ee_index ep ! nat fd" by auto
    obtain i old where o: "i \<in> {..<nat (ee_used ep)}" "ee_index ep ! nat fd = int i" "ee_items ep ! i = Some old"
      "it_fd old = fd" "get_item ep (int i) = Some old" "ee_reg ep fd = Some old"
      by (rule ee_lookup [OF A fd c])
    have "i < nat (ee_used ep)" using o(1) by simp
    note l = inv fd c(1) this o(2-4)
    show thesis
    proof (cases "int i < ee_fill ep")
      case True
      show thesis by (rule close_in_fill [OF l True, of ctl fired]) (use o(6) in \<open>auto intro: that\<close>)
    next
      case False
      show thesis by (rule close_behind_fill [OF l False, of ctl fired]) (use o(6) in \<open>auto intro: that\<close>)
    qed
  qed
qed

section \<open>Clearing what has fired\<close>

lemma quiet_clear: "quiet it \<Longrightarrow> quiet (it\<lparr>it_fired := it_fired it AND m\<rparr>)"
  unfolding quiet_def it_ready_def by (auto simp flip: and.assoc)

lemma ef_epoll_unset_ok:
  assumes inv: "ee_inv ep" and fd: "0 \<le> fd"
  obtains ep' where "ef_epoll_unset ep fd events = Some (0, ep')" "ee_inv ep'"
    "ee_reg ep' = (ee_reg ep)(fd := map_option (\<lambda>it. it\<lparr>it_fired := it_fired it AND NOT events\<rparr>) (ee_reg ep fd))"
    "ee_quiet ep \<Longrightarrow> ee_quiet ep'"
proof -
  have A: "ee_arr ep {..<nat (ee_used ep)}" and f: "0 \<le> ee_fill ep" "ee_fill ep \<le> ee_used ep"
    using inv by (simp_all add: ee_inv_def)
  show thesis
  proof (cases "fd < ee_cap ep \<and> 0 \<le> ee_index ep ! nat fd")
    case False
    note n = unregistered_code(2,3) [OF A fd False]
    then have "(ee_reg ep)(fd := map_option (\<lambda>it. it\<lparr>it_fired := it_fired it AND NOT events\<rparr>) (ee_reg ep fd)) = ee_reg ep"
      by auto
    with n inv show thesis by (intro that [of ep]) simp_all
  next
    case True
    then have c: "fd < ee_cap ep" "0 \<le> ee_index ep ! nat fd" by auto
    obtain i old where o: "i \<in> {..<nat (ee_used ep)}" "ee_index ep ! nat fd = int i" "ee_items ep ! i = Some old"
      "it_fd old = fd" "get_item ep (int i) = Some old" "ee_reg ep fd = Some old"
      by (rule ee_lookup [OF A fd c])
    define x where "x = old\<lparr>it_fired := it_fired old AND NOT events\<rparr>"
    have xfd: "it_fd x = it_fd old" by (simp add: x_def)
    define ep2 where "ep2 = ep\<lparr>ee_items := (ee_items ep)[i := Some x]\<rparr>"
    note p = put_item_ok [OF A o(1,3) xfd, folded ep2_def]
    have il: "i < length (ee_items ep)" using ee_arrD [OF A] o(1) by auto
    have inv2: "ee_inv ep2" using p(2) f by (simp add: ee_inv_def ep2_def)
    have i2: "ee_items ep2 ! i = Some x" using il by (simp add: ep2_def)
    have q2: "ee_quiet ep2" if q: "ee_quiet ep"
      unfolding ee_quiet_def
    proof (intro allI impI)
      fix k assume k: "nat (ee_fill ep2) \<le> k" "k < nat (ee_used ep2)"
      then have "quiet (the (ee_items ep ! k))" using q by (simp add: ee_quiet_def ep2_def)
      then show "quiet (the (ee_items ep2 ! k))"
        using quiet_clear [of old] i2 o(3) by (cases "k = i") (auto simp: ep2_def x_def)
    qed
    have reg: "ee_reg ep2 = (ee_reg ep)(fd := map_option (\<lambda>it. it\<lparr>it_fired := it_fired it AND NOT events\<rparr>) (ee_reg ep fd))"
      using p(3) o(4,6) by (simp add: x_def)
    have code: "ef_epoll_unset ep fd events =
        do { ep \<leftarrow> (if int i < ee_fill ep \<and> it_ready x = 0 then demote ep2 (int i) else Some ep2); Some (0, ep) }"
      using c(1) get_index [OF A fd c(1)] o(2,5) p(1)
      by (simp add: ef_epoll_unset_def x_def demote_def Let_def) (simp add: ep2_def)
    show thesis
    proof (cases "int i < ee_fill ep \<and> it_ready x = 0")
      case False
      with code inv2 reg q2 show thesis by (intro that [of ep2]) simp_all
    next
      case True
      then have lf: "int i < ee_fill ep2" and xq: "quiet x" by (simp_all add: ep2_def quiet_def)
      show thesis
      proof (rule demote_ok [OF inv2 lf i2])
        fix ep' assume d: "demote ep2 (int i) = Some ep'" "ee_inv ep'" "ee_reg ep' = ee_reg ep2"
          "quiet x \<Longrightarrow> ee_quiet ep2 \<Longrightarrow> ee_quiet ep'"
        show thesis using code True d reg q2 xq by (intro that [of ep']) simp_all
      qed
    qed
  qed
qed

section \<open>Waiting\<close>

text \<open>What the events reported by the kernel do to the registered items.\<close>

fun note_reg :: "(int \<Rightarrow> 'a ef_epoll_item option) \<Rightarrow> (int \<times> u32) list \<Rightarrow> int \<Rightarrow> 'a ef_epoll_item option" where
  "note_reg R [] = R"
| "note_reg R ((fd, w) # evs) = note_reg (R(fd := map_option (\<lambda>it. it\<lparr>it_fired := it_fired it OR w\<rparr>) (R fd))) evs"

lemma ee_reg_range: "ee_reg ep fd = Some x \<Longrightarrow> 0 \<le> fd \<and> fd < ee_cap ep \<and> 0 \<le> ee_index ep ! nat fd"
  by (auto simp: ee_reg_def arr_reg_def split: if_splits)

lemma note_events_ok:
  assumes "ee_inv ep" "ee_quiet ep" "\<forall>e \<in> set evs. ee_reg ep (fst e) \<noteq> None"
  obtains ep' where "note_events ep evs = Some ep'" "ee_inv ep'" "ee_quiet ep'" "ee_reg ep' = note_reg (ee_reg ep) evs"
proof -
  have "\<exists>ep'. note_events ep evs = Some ep' \<and> ee_inv ep' \<and> ee_quiet ep' \<and> ee_reg ep' = note_reg (ee_reg ep) evs"
    using assms
  proof (induction evs arbitrary: ep)
    case (Cons e evs)
    obtain fd w where e: "e = (fd, w)" by (cases e) auto
    note inv = Cons.prems(1) and q = Cons.prems(2)
    have A: "ee_arr ep {..<nat (ee_used ep)}" and f: "0 \<le> ee_fill ep" "ee_fill ep \<le> ee_used ep"
      using inv by (simp_all add: ee_inv_def)
    have "ee_reg ep fd \<noteq> None" using Cons.prems(3) e by simp
    then have c: "0 \<le> fd" "fd < ee_cap ep" "0 \<le> ee_index ep ! nat fd" using ee_reg_range [of ep fd] by auto
    obtain i old where o: "i \<in> {..<nat (ee_used ep)}" "ee_index ep ! nat fd = int i" "ee_items ep ! i = Some old"
      "it_fd old = fd" "get_item ep (int i) = Some old" "ee_reg ep fd = Some old"
      by (rule ee_lookup [OF A c])
    define x where "x = old\<lparr>it_fired := it_fired old OR w\<rparr>"
    have xfd: "it_fd x = it_fd old" by (simp add: x_def)
    define ep2 where "ep2 = ep\<lparr>ee_items := (ee_items ep)[i := Some x]\<rparr>"
    note p = put_item_ok [OF A o(1,3) xfd, folded ep2_def]
    have il: "i < length (ee_items ep)" using ee_arrD [OF A] o(1) by auto
    have inv2: "ee_inv ep2" using p(2) f by (simp add: ee_inv_def ep2_def)
    have i2: "i < nat (ee_used ep2)" "ee_items ep2 ! i = Some x" using o(1) il by (simp_all add: ep2_def)
    have reg: "ee_reg ep2 = (ee_reg ep)(fd := map_option (\<lambda>it. it\<lparr>it_fired := it_fired it OR w\<rparr>) (ee_reg ep fd))"
      using p(3) o(4,6) by (simp add: x_def)
    have q2: "quiet (the (ee_items ep2 ! k))" if "nat (ee_fill ep2) \<le> k" "k < nat (ee_used ep2)" "k \<noteq> i" for k
      using that q by (simp add: ee_quiet_def ep2_def)
    define moved where "moved = (if int i \<ge> ee_fill ep \<and> it_ready x \<noteq> 0 then promote ep2 (int i) else Some ep2)"
    have code: "note_events ep (e # evs) = do { ep \<leftarrow> moved; note_events ep evs }"
    proof -
      have "note_events ep (e # evs) =
        do { ep \<leftarrow> (if int i \<ge> ee_fill ep2 \<and> it_ready x \<noteq> 0
                 then do { ep' \<leftarrow> (if int i > ee_fill ep2 then swap_items ep2 (int i) (ee_fill ep2) else Some ep2);
                           Some (ep'\<lparr>ee_fill := ee_fill ep2 + 1\<rparr>) }
                 else Some ep2);
          note_events ep evs }"
        using e get_index [OF A c(1,2)] o(2,5) p(1) by (simp add: x_def Let_def)
      moreover have "ee_fill ep2 = ee_fill ep" by (simp add: ep2_def)
      ultimately show ?thesis by (cases "int i \<ge> ee_fill ep") (auto simp: moved_def promote_def)
    qed
    obtain ep3 where m: "moved = Some ep3" "ee_inv ep3" "ee_quiet ep3" "ee_reg ep3 = ee_reg ep2"
    proof (cases "int i \<ge> ee_fill ep \<and> it_ready x \<noteq> 0")
      case True
      show thesis by (rule promote_ok [OF inv2 i2(1) q2]) (use True in \<open>auto simp: moved_def intro: that\<close>)
    next
      case False
      have "ee_quiet ep2"
        unfolding ee_quiet_def
      proof (intro allI impI)
        fix k assume k: "nat (ee_fill ep2) \<le> k" "k < nat (ee_used ep2)"
        show "quiet (the (ee_items ep2 ! k))"
        proof (cases "k = i")
          case True
          then have "it_ready x = 0" using False k f by (simp add: ep2_def)
          then show ?thesis using True i2 by (simp add: quiet_def)
        qed (rule q2 [OF k])
      qed
      then show thesis using False inv2 by (intro that [of ep2]) (auto simp: moved_def)
    qed
    have "\<forall>e \<in> set evs. ee_reg ep3 (fst e) \<noteq> None"
      using Cons.prems(3) unfolding m(4) reg by auto
    from Cons.IH [OF m(2,3) this] obtain ep' where a: "note_events ep3 evs = Some ep'" "ee_inv ep'" "ee_quiet ep'"
      "ee_reg ep' = note_reg (ee_reg ep3) evs" by blast
    have "note_events ep (e # evs) = Some ep'" using code m(1) a(1) by simp
    moreover have "ee_reg ep' = note_reg (ee_reg ep) (e # evs)"
      unfolding a(4) m(4) reg e note_reg.simps by (rule refl)
    ultimately show ?case using a(2,3) by blast
  qed simp
  then show thesis using that by blast
qed

lemma report_items_ok:
  assumes "\<forall>it \<in> set its. it \<noteq> None"
  shows "report_items its = Some (map (\<lambda>it. \<lparr>ev_events = it_ready (the it), ev_data = it_ptr (the it)\<rparr>) its)"
  using assms by (induction its rule: report_items.induct) auto

definition event_of :: "'a ef_epoll_item \<Rightarrow> 'a ef_event" where
  "event_of it = \<lparr>ev_events = it_ready it, ev_data = it_ptr it\<rparr>"

text \<open>
  Waiting reports registered items only, and with room for the filled area it reports every
  item that waits for something that has fired.
\<close>

lemma report_ok:
  fixes count :: int
  assumes inv: "ee_inv ep" and q: "ee_quiet ep"
  defines "n \<equiv> nat (if count > ee_fill ep then ee_fill ep else count)"
  obtains es where "n \<le> length (ee_items ep)" "report_items (take n (ee_items ep)) = Some es" "length es = n"
    "\<And>e. e \<in> set es \<Longrightarrow> \<exists>fd it. ee_reg ep fd = Some it \<and> e = event_of it"
    "\<And>fd it. ee_reg ep fd = Some it \<Longrightarrow> it_waiting it \<noteq> 0 \<Longrightarrow> it_ready it \<noteq> 0 \<Longrightarrow> ee_fill ep \<le> count \<Longrightarrow> event_of it \<in> set es"
proof -
  have A: "ee_arr ep {..<nat (ee_used ep)}" and f: "0 \<le> ee_fill ep" "ee_fill ep \<le> ee_used ep"
    using inv by (simp_all add: ee_inv_def)
  note d = ee_arrD [OF A]
  have nf: "n \<le> nat (ee_fill ep)" by (auto simp: n_def)
  have nu: "n \<le> nat (ee_used ep)" using nf f by linarith
  have nl: "n \<le> length (ee_items ep)" using nu d(3,4) by (auto simp: lessThan_subset_iff)
  have it: "\<exists>x. ee_items ep ! i = Some x \<and> ee_reg ep (it_fd x) = Some x" if "i < n" for i
  proof -
    have iU: "i \<in> {..<nat (ee_used ep)}" using that nu by simp
    obtain x where "ee_items ep ! i = Some x" by (rule ee_item [OF A iU])
    then show ?thesis using ee_reg_item [OF A iU] by blast
  qed
  let ?es = "map (\<lambda>it. event_of (the it)) (take n (ee_items ep))"
  have somes: "\<forall>x \<in> set (take n (ee_items ep)). x \<noteq> None"
  proof
    fix x assume "x \<in> set (take n (ee_items ep))"
    then obtain i where "i < n" "x = ee_items ep ! i" by (auto simp: in_set_conv_nth)
    with it show "x \<noteq> None" by fastforce
  qed
  have r: "report_items (take n (ee_items ep)) = Some ?es"
    using report_items_ok [OF somes] by (simp add: event_of_def)
  show thesis
  proof (rule that [OF nl r])
    show "length ?es = n" using nl by simp
    fix e assume "e \<in> set ?es"
    then obtain i where "i < n" "e = event_of (the (ee_items ep ! i))" by (auto simp: in_set_conv_nth)
    with it show "\<exists>fd it. ee_reg ep fd = Some it \<and> e = event_of it" by fastforce
  next
    fix fd x assume x: "ee_reg ep fd = Some x" "it_waiting x \<noteq> 0" "it_ready x \<noteq> 0" "ee_fill ep \<le> count"
    obtain i where i: "i \<in> {..<nat (ee_used ep)}" "ee_items ep ! i = Some x"
      by (rule arr_reg_Some [OF d(5) x(1) [unfolded ee_reg_def]])
    have "\<not> quiet x" using x by (simp add: quiet_def)
    then have "i < nat (ee_fill ep)"
      using q i unfolding ee_quiet_def by (metis lessThan_iff not_le option.sel)
    moreover have "n = nat (ee_fill ep)" using x(4) by (cases "count > ee_fill ep") (simp_all add: n_def)
    ultimately have "i < n" by simp
    then have "event_of x = ?es ! i" "i < length ?es" using i(2) nl by simp_all
    then show "event_of x \<in> set ?es" by (metis nth_mem)
  qed
qed

lemma ef_epoll_wait_cases:
  assumes inv: "ee_inv ep" and q: "ee_quiet ep"
    and kernel: "\<forall>e \<in> set evs. ee_reg ep (fst e) \<noteq> None"
  obtains (failed) "ef_epoll_wait (ret, evs) ep count = Some (ret, [], ep)" "ret < 0" "ee_fill ep = 0"
  | (ok) r es ep' where "ef_epoll_wait (ret, evs) ep count = Some (r, es, ep')" "ee_inv ep'" "ee_quiet ep'"
      "ee_reg ep' = (if ee_fill ep = 0 then note_reg (ee_reg ep) (take (nat ret) evs) else ee_reg ep)"
      "0 \<le> count \<Longrightarrow> r = int (length es)" "int (length es) \<le> max 0 count"
      "\<And>e. e \<in> set es \<Longrightarrow> \<exists>fd it. ee_reg ep' fd = Some it \<and> e = event_of it"
      "\<And>fd it. ee_reg ep' fd = Some it \<Longrightarrow> it_waiting it \<noteq> 0 \<Longrightarrow> it_ready it \<noteq> 0 \<Longrightarrow> ee_fill ep' \<le> count \<Longrightarrow> event_of it \<in> set es"
proof -
  have finish: thesis
    if e: "(if ee_fill ep = 0 then (if ret < 0 then Some (ret, ep)
              else do { ep \<leftarrow> note_events ep (take (nat ret) evs); Some (0, ep) }) else Some (0, ep)) = Some (0, ep1)"
      "ee_inv ep1" "ee_quiet ep1"
      "ee_reg ep1 = (if ee_fill ep = 0 then note_reg (ee_reg ep) (take (nat ret) evs) else ee_reg ep)" for ep1
  proof -
    have f: "0 \<le> ee_fill ep1" using e(2) by (simp add: ee_inv_def)
    let ?c = "if count > ee_fill ep1 then ee_fill ep1 else count"
    show thesis
    proof (rule report_ok [OF e(2,3), of count])
      fix es assume r: "nat ?c \<le> length (ee_items ep1)" "report_items (take (nat ?c) (ee_items ep1)) = Some es"
        "length es = nat ?c" "\<And>e. e \<in> set es \<Longrightarrow> \<exists>fd it. ee_reg ep1 fd = Some it \<and> e = event_of it"
        "\<And>fd it. ee_reg ep1 fd = Some it \<Longrightarrow> it_waiting it \<noteq> 0 \<Longrightarrow> it_ready it \<noteq> 0 \<Longrightarrow> ee_fill ep1 \<le> count \<Longrightarrow> event_of it \<in> set es"
      have eq: "ef_epoll_wait (ret, evs) ep count = Some (?c, es, ep1)"
        unfolding ef_epoll_wait_def prod.case Let_def e(1) using r(1,2) by simp
      show thesis by (rule ok [OF eq e(2,3,4) _ _ r(4,5)]) (use r(3) f in \<open>auto split: if_splits\<close>)
    qed
  qed
  show thesis
  proof (cases "ee_fill ep = 0")
    case False
    then show thesis using inv q by (intro finish [of ep]) simp_all
  next
    case True
    show thesis
    proof (cases "ret < 0")
      case neg: True
      then show thesis using True by (intro failed) (simp_all add: ef_epoll_wait_def)
    next
      case False
      have "\<forall>e \<in> set (take (nat ret) evs). ee_reg ep (fst e) \<noteq> None"
        using kernel by (meson in_set_takeD)
      then show thesis
        by (rule note_events_ok [OF inv q]) (use True False in \<open>auto intro: finish\<close>)
    qed
  qed
qed

lemma ef_epoll_create_inv:
  assumes "ef_epoll_create m epfd cap = (Some ep, m')"
  shows "ee_inv ep" and "ee_quiet ep" and "ee_reg ep = (\<lambda>_. None)"
proof -
  from assms have ep: "ep = \<lparr>ee_cap = max 128 cap, ee_used = 0, ee_fill = 0,
      ee_index = replicate (nat (max 128 cap)) (- 1), ee_items = replicate (nat (max 128 cap)) None\<rparr>"
    by (auto simp: ef_epoll_create_def Let_def max_def split: prod.splits if_splits)
  show "ee_inv ep" by (auto simp: ep ee_inv_def ee_arr_def arr_def)
  show "ee_quiet ep" by (simp add: ep ee_quiet_def)
  show "ee_reg ep = (\<lambda>_. None)" by (auto simp: ep ee_reg_def arr_reg_def fun_eq_iff)
qed

end
