(* ===== verification/EventSource.thy ===== *)
theory EventSource
  imports EpolletOps
begin

text \<open>
  \<^verbatim>\<open>poll.h\<close>: the interface through which the framework uses an event source, its laws, and
  what they give for every sequence of calls: a pointer that is reported was associated with a
  descriptor that has not been closed since.  Both event sources with state of their own
  satisfy the laws.
\<close>

section \<open>Sequences of calls\<close>

text \<open>
  One call each: the allocator and the results of the system calls it will see are part of it.
\<close>

datatype ('a, 'ans) source_op =
    Assoc mem int int u32 'a
  | Dissoc int int bool
  | Unset int u32
  | Wait 'ans int

fun run_source ::
    "(mem \<Rightarrow> int \<Rightarrow> 's \<Rightarrow> int \<Rightarrow> u32 \<Rightarrow> 'a \<Rightarrow> (int \<times> 's \<times> mem) option) \<Rightarrow>
     (int \<Rightarrow> 's \<Rightarrow> int \<Rightarrow> bool \<Rightarrow> (int \<times> 's) option) \<Rightarrow> ('s \<Rightarrow> int \<Rightarrow> u32 \<Rightarrow> (int \<times> 's) option) \<Rightarrow>
     ('ans \<Rightarrow> 's \<Rightarrow> int \<Rightarrow> (int \<times> 'a option list \<times> 's) option) \<Rightarrow>
     's \<Rightarrow> ('a, 'ans) source_op list \<Rightarrow> ('a option list list \<times> 's) option" where
  "run_source assoc dissoc unset wait s [] = Some ([], s)"
| "run_source assoc dissoc unset wait s (Assoc m ctl fd ev p # ops) =
     do { (_, s, _) \<leftarrow> assoc m ctl s fd ev p; (out, s) \<leftarrow> run_source assoc dissoc unset wait s ops; Some ([] # out, s) }"
| "run_source assoc dissoc unset wait s (Dissoc ctl fd onclose # ops) =
     do { (_, s) \<leftarrow> dissoc ctl s fd onclose; (out, s) \<leftarrow> run_source assoc dissoc unset wait s ops; Some ([] # out, s) }"
| "run_source assoc dissoc unset wait s (Unset fd ev # ops) =
     do { (_, s) \<leftarrow> unset s fd ev; (out, s) \<leftarrow> run_source assoc dissoc unset wait s ops; Some ([] # out, s) }"
| "run_source assoc dissoc unset wait s (Wait ans count # ops) =
     do { (_, es, s) \<leftarrow> wait ans s count; (out, s) \<leftarrow> run_source assoc dissoc unset wait s ops; Some (es # out, s) }"

text \<open>The pointer \<open>p\<close> was given for \<open>fd\<close>, and \<open>fd\<close> was not closed afterwards.\<close>

definition opened :: "('a, 'ans) source_op list \<Rightarrow> int \<Rightarrow> 'a \<Rightarrow> bool" where
  "opened ops fd p \<longleftrightarrow> (\<exists>xs m ctl ev ys. ops = xs @ Assoc m ctl fd ev p # ys \<and> (\<forall>c. Dissoc c fd True \<notin> set ys))"

lemma opened_snoc:
  "opened ops fd p \<Longrightarrow> (\<And>c. x \<noteq> Dissoc c fd True) \<Longrightarrow> opened (ops @ [x]) fd p"
proof -
  assume "opened ops fd p" and x: "\<And>c. x \<noteq> Dissoc c fd True"
  then obtain xs m ctl ev ys where "ops = xs @ Assoc m ctl fd ev p # ys" "\<forall>c. Dissoc c fd True \<notin> set ys"
    by (auto simp: opened_def)
  then have "ops @ [x] = xs @ Assoc m ctl fd ev p # (ys @ [x])" "\<forall>c. Dissoc c fd True \<notin> set (ys @ [x])"
    using x by auto
  then show ?thesis unfolding opened_def by blast
qed

lemma opened_assoc: "opened (ops @ [Assoc m ctl fd ev p]) fd p"
  unfolding opened_def by (metis empty_iff list.set(1))

text \<open>
  What is assumed of the calls: descriptors are in range, and in the state a call is made in
  the kernel accepts it and answers sensibly.
\<close>

definition call_ok :: "('s \<Rightarrow> 'ans \<Rightarrow> bool) \<Rightarrow> 's \<Rightarrow> ('a, 'ans) source_op \<Rightarrow> bool" where
  "call_ok sane s x = (case x of
     Assoc m ctl fd ev p \<Rightarrow> 0 \<le> fd \<and> fd < 2 ^ 30 \<and> 0 \<le> ctl
   | Dissoc ctl fd onclose \<Rightarrow> 0 \<le> fd
   | Unset fd ev \<Rightarrow> 0 \<le> fd
   | Wait ans count \<Rightarrow> sane s ans)"

fun calls_ok :: "('s \<Rightarrow> 'ans \<Rightarrow> bool) \<Rightarrow> ('s \<Rightarrow> ('a, 'ans) source_op list \<Rightarrow> ('out \<times> 's) option) \<Rightarrow>
    's \<Rightarrow> ('a, 'ans) source_op list \<Rightarrow> bool" where
  "calls_ok sane run s [] = True"
| "calls_ok sane run s (x # ops) =
     (call_ok sane s x \<and> (case run s [x] of None \<Rightarrow> True | Some (_, s') \<Rightarrow> calls_ok sane run s' ops))"

section \<open>The interface\<close>

locale source =
  fixes inv :: "'s \<Rightarrow> bool" and reg :: "'s \<Rightarrow> int \<Rightarrow> 'a option" and sane :: "'s \<Rightarrow> 'ans \<Rightarrow> bool"
    and assoc :: "mem \<Rightarrow> int \<Rightarrow> 's \<Rightarrow> int \<Rightarrow> u32 \<Rightarrow> 'a \<Rightarrow> (int \<times> 's \<times> mem) option"
    and dissoc :: "int \<Rightarrow> 's \<Rightarrow> int \<Rightarrow> bool \<Rightarrow> (int \<times> 's) option"
    and unset :: "'s \<Rightarrow> int \<Rightarrow> u32 \<Rightarrow> (int \<times> 's) option"
    and wait :: "'ans \<Rightarrow> 's \<Rightarrow> int \<Rightarrow> (int \<times> 'a option list \<times> 's) option"
  assumes assoc_law: "inv s \<Longrightarrow> 0 \<le> fd \<Longrightarrow> fd < 2 ^ 30 \<Longrightarrow> 0 \<le> ctl \<Longrightarrow>
      \<exists>r s' m'. assoc m ctl s fd ev p = Some (r, s', m') \<and> inv s' \<and>
        (r < 0 \<and> m \<noteq> [] \<and> reg s' = reg s \<or> 0 \<le> r \<and> reg s' = (reg s)(fd \<mapsto> p))"
    and dissoc_law: "inv s \<Longrightarrow> 0 \<le> fd \<Longrightarrow>
      \<exists>r s'. dissoc ctl s fd onclose = Some (r, s') \<and> inv s' \<and>
        (reg s' = (reg s)(fd := None) \<or> \<not> onclose \<and> reg s' = reg s)"
    and unset_law: "inv s \<Longrightarrow> 0 \<le> fd \<Longrightarrow> \<exists>r s'. unset s fd ev = Some (r, s') \<and> inv s' \<and> reg s' = reg s"
    and wait_law: "inv s \<Longrightarrow> sane s ans \<Longrightarrow>
      \<exists>r es s'. wait ans s count = Some (r, es, s') \<and> inv s' \<and> reg s' = reg s \<and> int (length es) \<le> max 0 count \<and>
        (\<forall>e \<in> set es. \<exists>fd p. e = Some p \<and> reg s fd = Some p)"
begin

definition traced :: "'s \<Rightarrow> ('a, 'ans) source_op list \<Rightarrow> bool" where
  "traced s done = (\<forall>fd p. reg s fd = Some p \<longrightarrow> opened done fd p)"

lemma step_traced:
  assumes "inv s" "traced s done" "call_ok sane s x"
  obtains es s' where "run_source assoc dissoc unset wait s [x] = Some ([es], s')" "inv s'" "traced s' (done @ [x])"
    "\<And>e. e \<in> set es \<Longrightarrow> \<exists>fd p. e = Some p \<and> opened (done @ [x]) fd p"
proof (cases x)
  case (Assoc m ctl fd ev p)
  obtain r s' m' where a: "assoc m ctl s fd ev p = Some (r, s', m')" "inv s'"
    "r < 0 \<and> m \<noteq> [] \<and> reg s' = reg s \<or> 0 \<le> r \<and> reg s' = (reg s)(fd \<mapsto> p)"
    using assoc_law [OF assms(1), of fd ctl m ev p] assms(3) Assoc by (auto simp: call_ok_def)
  have keep: "opened (done @ [x]) fd' p'" if "reg s fd' = Some p'" for fd' p'
    using that assms(2) by (auto simp: traced_def Assoc intro!: opened_snoc)
  have "traced s' (done @ [x])"
    unfolding traced_def
  proof (intro allI impI)
    fix fd' p' assume r: "reg s' fd' = Some p'"
    show "opened (done @ [x]) fd' p'"
    proof (cases "reg s fd' = Some p'")
      case False
      with r a(3) have "fd' = fd" "p' = p" by (auto split: if_splits)
      then show ?thesis by (simp add: Assoc opened_assoc)
    qed (rule keep)
  qed
  with a show thesis by (intro that [of "[]" s']) (simp_all add: Assoc)
next
  case (Dissoc ctl fd onclose)
  obtain r s' where a: "dissoc ctl s fd onclose = Some (r, s')" "inv s'"
    "reg s' = (reg s)(fd := None) \<or> \<not> onclose \<and> reg s' = reg s"
    using dissoc_law [OF assms(1), of fd ctl onclose] assms(3) Dissoc by (auto simp: call_ok_def)
  have "traced s' (done @ [x])"
    using a(3) assms(2) by (auto simp: traced_def Dissoc intro!: opened_snoc split: if_splits)
  with a show thesis by (intro that [of "[]" s']) (simp_all add: Dissoc)
next
  case (Unset fd ev)
  obtain r s' where a: "unset s fd ev = Some (r, s')" "inv s'" "reg s' = reg s"
    using unset_law [OF assms(1), of fd ev] assms(3) Unset by (auto simp: call_ok_def)
  have "traced s' (done @ [x])" using a(3) assms(2) by (auto simp: traced_def Unset intro!: opened_snoc)
  with a show thesis by (intro that [of "[]" s']) (simp_all add: Unset)
next
  case (Wait ans count)
  obtain r es s' where a: "wait ans s count = Some (r, es, s')" "inv s'" "reg s' = reg s"
    "\<forall>e \<in> set es. \<exists>fd p. e = Some p \<and> reg s fd = Some p"
    using wait_law [OF assms(1), of ans count] assms(3) Wait by (auto simp: call_ok_def)
  have t: "opened (done @ [x]) fd p" if "reg s fd = Some p" for fd p
    using that assms(2) by (auto simp: traced_def Wait intro!: opened_snoc)
  then have "traced s' (done @ [x])" using a(3) by (simp add: traced_def)
  moreover have "\<exists>fd p. e = Some p \<and> opened (done @ [x]) fd p" if "e \<in> set es" for e
    using a(4) t that by blast
  ultimately show thesis using a by (intro that [of es s']) (simp_all add: Wait)
qed

lemma run_source_Cons:
  "run_source assoc dissoc unset wait s (x # ops) =
     do { (o1, s) \<leftarrow> run_source assoc dissoc unset wait s [x];
          (o2, s) \<leftarrow> run_source assoc dissoc unset wait s ops;
          Some (o1 @ o2, s) }"
proof (cases x)
  case (Assoc m ctl fd ev p)
  then show ?thesis by (cases "assoc m ctl s fd ev p") auto
next
  case (Dissoc ctl fd onclose)
  then show ?thesis by (cases "dissoc ctl s fd onclose") auto
next
  case (Unset fd ev)
  then show ?thesis by (cases "unset s fd ev") auto
next
  case (Wait ans count)
  then show ?thesis by (cases "wait ans s count") auto
qed

lemma no_stale_pointer:
  assumes "inv s" "traced s done" "calls_ok sane (run_source assoc dissoc unset wait) s ops"
  shows "\<exists>out s'. run_source assoc dissoc unset wait s ops = Some (out, s') \<and> inv s' \<and> traced s' (done @ ops) \<and>
    length out = length ops \<and>
    (\<forall>i < length ops. \<forall>e \<in> set (out ! i). \<exists>fd p. e = Some p \<and> opened (done @ take (Suc i) ops) fd p)"
  using assms
proof (induction ops arbitrary: s "done")
  case (Cons x ops)
  have cx: "call_ok sane s x" using Cons.prems(3) by simp
  obtain es s1 where st: "run_source assoc dissoc unset wait s [x] = Some ([es], s1)" "inv s1" "traced s1 (done @ [x])"
    "\<And>e. e \<in> set es \<Longrightarrow> \<exists>fd p. e = Some p \<and> opened (done @ [x]) fd p"
    using step_traced [OF Cons.prems(1,2) cx] by metis
  have "calls_ok sane (run_source assoc dissoc unset wait) s1 ops" using Cons.prems(3) st(1) by auto
  from Cons.IH [OF st(2,3) this] obtain out s2 where r: "run_source assoc dissoc unset wait s1 ops = Some (out, s2)"
    "inv s2" "traced s2 ((done @ [x]) @ ops)" "length out = length ops"
    "\<And>i e. i < length ops \<Longrightarrow> e \<in> set (out ! i) \<Longrightarrow> \<exists>fd p. e = Some p \<and> opened ((done @ [x]) @ take (Suc i) ops) fd p"
    by blast
  have "\<exists>fd p. e = Some p \<and> opened (done @ take (Suc i) (x # ops)) fd p"
    if "i < length (x # ops)" "e \<in> set (([es] @ out) ! i)" for i e
    using that st(4) r(5) [of "i - 1" e] by (cases i) auto
  with st(1) r show ?case unfolding run_source_Cons [of s x ops] by auto
qed simp

end

section \<open>The two event sources\<close>

text \<open>\<^verbatim>\<open>poll.c\<close>: it makes no \<^verbatim>\<open>epoll_ctl\<close> call, so that result is ignored.\<close>

definition poll_assoc :: "mem \<Rightarrow> int \<Rightarrow> 'a ef_pollsys \<Rightarrow> int \<Rightarrow> u32 \<Rightarrow> 'a \<Rightarrow> (int \<times> 'a ef_pollsys \<times> mem) option" where
  "poll_assoc m ctl ep fd ev p = ef_poll_associate m ep fd ev p False"

definition poll_wait :: "int \<times> u16 list \<Rightarrow> 'a ef_pollsys \<Rightarrow> int \<Rightarrow> (int \<times> 'a option list \<times> 'a ef_pollsys) option" where
  "poll_wait ans ep count = do { (r, es, ep) \<leftarrow> ef_poll_wait ans ep count; Some (r, map ev_data es, ep) }"

definition poll_reg :: "'a ef_pollsys \<Rightarrow> int \<Rightarrow> 'a option" where
  "poll_reg ep fd = map_option snd (pl_reg ep fd)"

interpretation poll: source pl_inv poll_reg "\<lambda>_ _. True" poll_assoc
  "\<lambda>ctl ep fd onclose. ef_poll_dissociate ep fd False onclose" "\<lambda>ep fd ev. Some (ef_poll_unset ep fd ev)" poll_wait
proof
  fix s :: "'a ef_pollsys" and fd ctl m ev and p :: 'a and onclose ans count
  assume inv: "pl_inv s"
  show "\<exists>r s' m'. poll_assoc m ctl s fd ev p = Some (r, s', m') \<and> pl_inv s' \<and>
      (r < 0 \<and> m \<noteq> [] \<and> poll_reg s' = poll_reg s \<or> 0 \<le> r \<and> poll_reg s' = (poll_reg s)(fd \<mapsto> p))"
    if "0 \<le> fd" "fd < 2 ^ 30" "0 \<le> ctl"
    by (rule ef_poll_associate_cases [OF inv that(1,2), of m ev p])
      (auto simp: poll_assoc_def poll_reg_def fun_eq_iff)
  show "\<exists>r s'. ef_poll_dissociate s fd False onclose = Some (r, s') \<and> pl_inv s' \<and>
      (poll_reg s' = (poll_reg s)(fd := None) \<or> \<not> onclose \<and> poll_reg s' = poll_reg s)" if "0 \<le> fd"
    by (rule ef_poll_dissociate_correct [OF inv that, of False onclose]) (auto simp: poll_reg_def fun_eq_iff)
  show "\<exists>r s'. Some (ef_poll_unset s fd ev) = Some (r, s') \<and> pl_inv s' \<and> poll_reg s' = poll_reg s"
    using inv by (simp add: ef_poll_unset_def)
  show "\<exists>r es s'. poll_wait ans s count = Some (r, es, s') \<and> pl_inv s' \<and> poll_reg s' = poll_reg s \<and>
      int (length es) \<le> max 0 count \<and> (\<forall>e \<in> set es. \<exists>fd p. e = Some p \<and> poll_reg s fd = Some p)"
  proof -
    obtain r0 res where ans: "ans = (r0, res)" by (cases ans) auto
    show ?thesis
    proof (rule ef_poll_wait_correct [OF inv, of r0 res count])
      fix ret es ep' assume w: "ef_poll_wait (r0, res) s count = Some (ret, es, ep')" "pl_inv ep'" "pl_reg ep' = pl_reg s"
        "r0 \<le> 0 \<longrightarrow> ret = r0 \<and> es = []" "0 < r0 \<longrightarrow> ret = int (length es) \<and> length es \<le> nat (min r0 count)"
        "\<And>e. e \<in> set es \<Longrightarrow> ev_events e \<noteq> 0 \<and> (\<exists>fd w p. pl_reg s fd = Some (w, p) \<and> ev_data e = Some p)"
      have "int (length es) \<le> max 0 count" using w(4,5) by (cases "r0 \<le> 0") auto
      moreover have "\<forall>e \<in> set (map ev_data es). \<exists>fd p. e = Some p \<and> poll_reg s fd = Some p"
        using w(6) by (fastforce simp: poll_reg_def)
      ultimately show ?thesis using w(1-3) by (auto simp: poll_wait_def ans poll_reg_def fun_eq_iff)
    qed
  qed
qed

text \<open>\<^verbatim>\<open>epollet.c\<close>: the kernel reports registered descriptors.\<close>

definition et_assoc :: "mem \<Rightarrow> int \<Rightarrow> 'a ef_epollet \<Rightarrow> int \<Rightarrow> u32 \<Rightarrow> 'a \<Rightarrow> (int \<times> 'a ef_epollet \<times> mem) option" where
  "et_assoc m ctl ep fd ev p = ef_epoll_associate m ctl ep fd ev p False"

definition et_wait :: "int \<times> (int \<times> u32) list \<Rightarrow> 'a ef_epollet \<Rightarrow> int \<Rightarrow> (int \<times> 'a option list \<times> 'a ef_epollet) option" where
  "et_wait ans ep count = do { (r, es, ep) \<leftarrow> ef_epoll_wait ans ep count; Some (r, map (\<lambda>e. Some (ev_data e)) es, ep) }"

definition et_reg :: "'a ef_epollet \<Rightarrow> int \<Rightarrow> 'a option" where
  "et_reg ep fd = map_option it_ptr (ee_reg ep fd)"

definition et_sane :: "'a ef_epollet \<Rightarrow> int \<times> (int \<times> u32) list \<Rightarrow> bool" where
  "et_sane ep ans = (\<forall>e \<in> set (snd ans). ee_reg ep (fst e) \<noteq> None)"

lemma note_reg_ptr: "map_option it_ptr (note_reg R evs fd) = map_option it_ptr (R fd)"
proof (induction R evs rule: note_reg.induct)
  case (2 R fd' w evs)
  then show ?case by (cases "R fd'"; cases "fd = fd'") (simp_all del: fun_upd_apply, simp_all)
qed simp

interpretation epollet: source "\<lambda>ep. ee_inv ep \<and> ee_quiet ep" et_reg et_sane et_assoc
  "\<lambda>ctl ep fd onclose. ef_epoll_dissociate ctl ep fd False onclose" ef_epoll_unset et_wait
proof
  fix s :: "'a ef_epollet" and fd ctl m ev and p :: 'a and onclose ans count
  assume iq: "ee_inv s \<and> ee_quiet s"
  then have inv: "ee_inv s" and q: "ee_quiet s" by auto
  show "\<exists>r s' m'. et_assoc m ctl s fd ev p = Some (r, s', m') \<and> (ee_inv s' \<and> ee_quiet s') \<and>
      (r < 0 \<and> m \<noteq> [] \<and> et_reg s' = et_reg s \<or> 0 \<le> r \<and> et_reg s' = (et_reg s)(fd \<mapsto> p))"
    if "0 \<le> fd" "fd < 2 ^ 30" "0 \<le> ctl"
    by (rule ef_epoll_associate_cases [OF inv that(1,2) q, of m ctl ev p False])
      (use that(3) in \<open>auto simp: et_assoc_def et_reg_def fun_eq_iff associated_def fresh_item_def split: option.splits\<close>)
  show "\<exists>r s'. ef_epoll_dissociate ctl s fd False onclose = Some (r, s') \<and> (ee_inv s' \<and> ee_quiet s') \<and>
      (et_reg s' = (et_reg s)(fd := None) \<or> \<not> onclose \<and> et_reg s' = et_reg s)" if "0 \<le> fd"
  proof (cases onclose)
    case True
    show ?thesis
      by (rule ef_epoll_dissociate_close [OF inv that, of ctl False]) (use True q in \<open>auto simp: et_reg_def fun_eq_iff\<close>)
  next
    case False
    show ?thesis
      by (rule ef_epoll_dissociate_keep [OF inv that, of ctl False])
        (use False q in \<open>auto simp: et_reg_def fun_eq_iff option.map_comp o_def\<close>)
  qed
  show "\<exists>r s'. ef_epoll_unset s fd ev = Some (r, s') \<and> (ee_inv s' \<and> ee_quiet s') \<and> et_reg s' = et_reg s" if "0 \<le> fd"
    by (rule ef_epoll_unset_ok [OF inv that, of ev]) (use q in \<open>auto simp: et_reg_def fun_eq_iff option.map_comp o_def\<close>)
  show "\<exists>r es s'. et_wait ans s count = Some (r, es, s') \<and> (ee_inv s' \<and> ee_quiet s') \<and> et_reg s' = et_reg s \<and>
      int (length es) \<le> max 0 count \<and> (\<forall>e \<in> set es. \<exists>fd p. e = Some p \<and> et_reg s fd = Some p)"
    if sane: "et_sane s ans"
  proof -
    obtain ret evs where ans: "ans = (ret, evs)" by (cases ans) auto
    have k: "\<forall>e \<in> set evs. ee_reg s (fst e) \<noteq> None" using sane by (simp add: et_sane_def ans)
    show ?thesis
    proof (rule ef_epoll_wait_cases [OF inv q k, of ret count])
      assume "ef_epoll_wait (ret, evs) s count = Some (ret, [], s)"
      then show ?thesis using iq by (auto simp: et_wait_def ans)
    next
      fix r es ep' assume w: "ef_epoll_wait (ret, evs) s count = Some (r, es, ep')" "ee_inv ep'" "ee_quiet ep'"
        "ee_reg ep' = (if ee_fill s = 0 then note_reg (ee_reg s) (take (nat ret) evs) else ee_reg s)"
        "int (length es) \<le> max 0 count" "\<And>e. e \<in> set es \<Longrightarrow> \<exists>fd it. ee_reg ep' fd = Some it \<and> e = event_of it"
      have reg: "et_reg ep' = et_reg s" by (auto simp: et_reg_def w(4) note_reg_ptr fun_eq_iff)
      have "\<exists>fd p. x = Some p \<and> et_reg s fd = Some p" if x: "x \<in> set (map (\<lambda>e. Some (ev_data e)) es)" for x
      proof -
        obtain e where e: "e \<in> set es" "x = Some (ev_data e)" using x by auto
        then obtain fd it where "ee_reg ep' fd = Some it" "e = event_of it" using w(6) by blast
        then have "et_reg ep' fd = Some (ev_data e)" by (simp add: et_reg_def event_of_def)
        with reg e(2) show ?thesis by auto
      qed
      then show ?thesis using w(1-3,5) reg by (auto simp: et_wait_def ans)
    qed
  qed
qed

definition run_poll :: "'a ef_pollsys \<Rightarrow> ('a, int \<times> u16 list) source_op list \<Rightarrow> ('a option list list \<times> 'a ef_pollsys) option" where
  "run_poll = run_source poll_assoc (\<lambda>ctl ep fd onclose. ef_poll_dissociate ep fd False onclose)
     (\<lambda>ep fd ev. Some (ef_poll_unset ep fd ev)) poll_wait"

definition run_epollet ::
    "'a ef_epollet \<Rightarrow> ('a, int \<times> (int \<times> u32) list) source_op list \<Rightarrow> ('a option list list \<times> 'a ef_epollet) option" where
  "run_epollet = run_source et_assoc (\<lambda>ctl ep fd onclose. ef_epoll_dissociate ctl ep fd False onclose) ef_epoll_unset et_wait"

section \<open>Properties\<close>

text \<open>
  C22. No sequence of calls makes the event source over \<^verbatim>\<open>poll(2)\<close> fault, and every pointer it
  ever reports was associated with a descriptor that has not been closed since.
\<close>

theorem poll_no_stale_pointer:
  assumes "ef_poll_create m cap = (Some ep, m')" "calls_ok (\<lambda>_ _. True) run_poll ep ops"
  shows "\<exists>out ep'. run_poll ep ops = Some (out, ep') \<and> pl_inv ep' \<and> length out = length ops \<and>
    (\<forall>i < length ops. \<forall>e \<in> set (out ! i). \<exists>fd p. e = Some p \<and> opened (take (Suc i) ops) fd p)"
proof -
  note c = ef_poll_create_inv [OF assms(1)]
  have "poll.traced ep []" by (simp add: poll.traced_def poll_reg_def c(2))
  from poll.no_stale_pointer [OF c(1) this assms(2) [unfolded run_poll_def]] show ?thesis
    unfolding run_poll_def by auto
qed

definition sample_poll :: "nat ef_pollsys" where
  "sample_poll = the (fst (ef_poll_create [] 16))"

lemma sample_poll: "ef_poll_create [] 16 = (Some sample_poll, [])"
  by (simp add: sample_poll_def ef_poll_create_def)

definition sample_poll_calls :: "(nat, int \<times> u16 list) source_op list" where
  "sample_poll_calls = [Assoc [] 0 5 EF_POLLIN 7, Wait (1, [1]) 10]"

theorem poll_no_stale_pointer_witness:
  "\<exists>out ep'. run_poll sample_poll sample_poll_calls = Some (out, ep') \<and> pl_inv ep' \<and>
    length out = length sample_poll_calls \<and>
    (\<forall>i < length sample_poll_calls. \<forall>e \<in> set (out ! i). \<exists>fd p. e = Some p \<and> opened (take (Suc i) sample_poll_calls) fd p)"
  by (rule poll_no_stale_pointer [OF sample_poll])
    (simp add: sample_poll_calls_def call_ok_def split: option.splits prod.splits)

text \<open>
  C21. The same holds of the edge-triggered event source, for a kernel that accepts the
  descriptors and reports registered ones only.
\<close>

theorem epollet_no_stale_pointer:
  assumes "ef_epoll_create m epfd cap = (Some ep, m')" "calls_ok et_sane run_epollet ep ops"
  shows "\<exists>out ep'. run_epollet ep ops = Some (out, ep') \<and> ee_inv ep' \<and> ee_quiet ep' \<and> length out = length ops \<and>
    (\<forall>i < length ops. \<forall>e \<in> set (out ! i). \<exists>fd p. e = Some p \<and> opened (take (Suc i) ops) fd p)"
proof -
  note c = ef_epoll_create_inv [OF assms(1)]
  have "epollet.traced ep []" by (simp add: epollet.traced_def et_reg_def c(3))
  from epollet.no_stale_pointer [OF _ this assms(2) [unfolded run_epollet_def]] c(1,2) show ?thesis
    unfolding run_epollet_def by auto
qed

definition sample_epollet :: "nat ef_epollet" where
  "sample_epollet = the (fst (ef_epoll_create [] 3 16))"

lemma sample_epollet: "ef_epoll_create [] 3 16 = (Some sample_epollet, [])"
  by (simp add: sample_epollet_def ef_epoll_create_def)

definition sample_et_calls :: "(nat, int \<times> (int \<times> u32) list) source_op list" where
  "sample_et_calls = [Assoc [] 0 5 EF_POLLIN 7, Wait (0, []) 10, Unset 5 EF_POLLIN]"

lemma sample_et_calls_ok: "calls_ok et_sane run_epollet ep sample_et_calls"
  by (simp add: sample_et_calls_def call_ok_def et_sane_def split: option.splits prod.splits)

theorem epollet_no_stale_pointer_witness:
  "\<exists>out ep'. run_epollet sample_epollet sample_et_calls = Some (out, ep') \<and>
    ee_inv ep' \<and> ee_quiet ep' \<and> length out = length sample_et_calls \<and>
    (\<forall>i < length sample_et_calls. \<forall>e \<in> set (out ! i). \<exists>fd p. e = Some p \<and> opened (take (Suc i) sample_et_calls) fd p)"
  by (rule epollet_no_stale_pointer [OF sample_epollet sample_et_calls_ok])

lemma swap_items_cap: "swap_items ep i j = Some ep' \<Longrightarrow> ee_cap ep' = ee_cap ep"
  by (auto simp: swap_items_def put_item_def put_index_def bind_Some_iff)

lemma note_events_cap: "note_events ep evs = Some ep' \<Longrightarrow> ee_cap ep' = ee_cap ep"
proof (induction evs arbitrary: ep)
  case (Cons e evs)
  obtain fd w where e: "e = (fd, w)" by (cases e) auto
  from Cons.prems obtain idx pi ep1 ep2 where s: "put_item ep idx pi = Some ep1"
    "(if idx \<ge> ee_fill ep1 \<and> it_ready pi \<noteq> 0
      then do { ep' \<leftarrow> (if idx > ee_fill ep1 then swap_items ep1 idx (ee_fill ep1) else Some ep1);
                Some (ep'\<lparr>ee_fill := ee_fill ep1 + 1\<rparr>) }
      else Some ep1) = Some ep2" "note_events ep2 evs = Some ep'"
    unfolding e note_events.simps Let_def bind_Some_iff by blast
  have "ee_cap ep1 = ee_cap ep" using s(1) by (auto simp: put_item_def bind_Some_iff)
  moreover have "ee_cap ep2 = ee_cap ep1"
    using s(2) by (auto simp: bind_Some_iff dest!: swap_items_cap split: if_splits)
  ultimately show ?case using Cons.IH [OF s(3)] by simp
qed simp

lemma ef_epoll_wait_cap: "ef_epoll_wait ans ep count = Some (r, es, ep') \<Longrightarrow> ee_cap ep' = ee_cap ep"
  by (auto simp: ef_epoll_wait_def bind_Some_iff Let_def dest: note_events_cap split: if_splits prod.splits)


lemma sample_et_run: "run_epollet sample_epollet sample_et_calls = Some (the (run_epollet sample_epollet sample_et_calls))"
  by code_simp


end
