(* ===== verification/EfEpoll.thy ===== *)
theory EfEpoll
  imports EfPoll "HOL-Library.Signed_Division"
begin

text \<open>
  \<^verbatim>\<open>epoll.c\<close> and \<^verbatim>\<open>port.c\<close>: the event sources that leave all the bookkeeping to the
  kernel.  The system calls are arguments: \<open>ctl\<close> for \<^verbatim>\<open>epoll_ctl\<close> and \<open>kwait\<close> for
  \<^verbatim>\<open>epoll_wait\<close>, \<open>passoc\<close>, \<open>pdissoc\<close> and \<open>getn\<close> for those of event ports.  What is
  modelled is which calls are made, and what the wrappers do with their arrays.
\<close>

section \<open>epoll.c\<close>

record 'a epoll_event =
  epe_events :: u32
  epe_ptr :: 'a

record 'a ef_epoll =
  lt_epfd :: int
  lt_cap :: int
  lt_events :: "'a epoll_event option list"

datatype ctl_op = CTL_ADD | CTL_DEL

definition ef_epoll_lt_associate ::
    "(int \<Rightarrow> ctl_op \<Rightarrow> int \<Rightarrow> 'a epoll_event option \<Rightarrow> int) \<Rightarrow>
     'a ef_epoll \<Rightarrow> int \<Rightarrow> u32 \<Rightarrow> 'a \<Rightarrow> bool \<Rightarrow> (int \<times> 'a ef_epoll) option" where
  "ef_epoll_lt_associate ctl ep fd events ptr fired =
     (if fired then Some (0, ep)
      else let e = Some \<lparr>epe_events = events, epe_ptr = ptr\<rparr>
           in do { evs \<leftarrow> cell_set (lt_events ep) 0 e;
                   Some (ctl (lt_epfd ep) CTL_ADD fd e, ep\<lparr>lt_events := evs\<rparr>) })"

definition ef_epoll_lt_dissociate ::
    "(int \<Rightarrow> ctl_op \<Rightarrow> int \<Rightarrow> 'a epoll_event option \<Rightarrow> int) \<Rightarrow>
     'a ef_epoll \<Rightarrow> int \<Rightarrow> bool \<Rightarrow> bool \<Rightarrow> (int \<times> 'a ef_epoll) option" where
  "ef_epoll_lt_dissociate ctl ep fd fired onclose =
     do { e \<leftarrow> cell_get (lt_events ep) 0; Some (ctl (lt_epfd ep) CTL_DEL fd e, ep) }"

definition ef_epoll_lt_unset :: "'a ef_epoll \<Rightarrow> int \<Rightarrow> u32 \<Rightarrow> int \<times> 'a ef_epoll" where
  "ef_epoll_lt_unset ep fd events = (0, ep)"

text \<open>
  The kernel fills the first cells of an array; the copying loop from \<open>idx\<close> on, with the
  number of turns left.  A cell the kernel did not fill holds nothing defined.
\<close>

definition fill_front :: "'b option list \<Rightarrow> 'b list \<Rightarrow> 'b option list" where
  "fill_front xs ys = map Some ys @ drop (length ys) xs"

fun copy_events :: "('b \<Rightarrow> 'a ef_event) \<Rightarrow> 'b option list \<Rightarrow> 'a ef_event list \<Rightarrow> nat \<Rightarrow> nat \<Rightarrow>
    'a ef_event list option" where
  "copy_events conv src evts idx 0 = Some evts"
| "copy_events conv src evts idx (Suc k) =
     do { c \<leftarrow> cell_get src idx;
          e \<leftarrow> c;
          evts \<leftarrow> cell_set evts idx (conv e);
          copy_events conv src evts (Suc idx) k }"

definition epoll_to_event :: "'a epoll_event \<Rightarrow> 'a ef_event" where
  "epoll_to_event e = \<lparr>ev_events = epe_events e, ev_data = epe_ptr e\<rparr>"

definition ef_epoll_lt_wait ::
    "(int \<Rightarrow> int \<Rightarrow> int \<Rightarrow> int \<times> 'a epoll_event list) \<Rightarrow>
     'a ef_epoll \<Rightarrow> 'a ef_event list \<Rightarrow> int \<Rightarrow> int \<Rightarrow> (int \<times> 'a ef_event list \<times> 'a ef_epoll) option" where
  "ef_epoll_lt_wait kwait ep evts count millisecs =
     (let count = (if count > lt_cap ep then lt_cap ep else count);
          (ret, es) = kwait (lt_epfd ep) count millisecs;
          ep = ep\<lparr>lt_events := fill_front (lt_events ep) es\<rparr>
      in if ret \<le> 0 then Some (ret, evts, ep)
         else do { evts \<leftarrow> copy_events epoll_to_event (lt_events ep) evts 0 (nat ret);
                   Some (ret, evts, ep) })"

definition ef_epoll_lt_free :: "'a ef_epoll \<Rightarrow> int \<times> 'a ef_epoll option" where
  "ef_epoll_lt_free ep = (0, None)"

definition ef_epoll_lt_create :: "mem \<Rightarrow> int \<Rightarrow> int \<Rightarrow> 'a ef_epoll option \<times> mem" where
  "ef_epoll_lt_create m epfd cap =
     (let cap = (if cap < 128 then 128 else cap);
          (ok, m) = malloc_obj m
      in if \<not> ok then (None, m)
         else if epfd < 0 then (None, m)
         else (Some \<lparr>lt_epfd = epfd, lt_cap = cap, lt_events = replicate (nat cap) None\<rparr>, m))"

section \<open>port.c\<close>

record 'a port_event =
  pe_events :: u32
  pe_user :: 'a

record 'a ef_port =
  pt_ptfd :: int
  pt_cap :: int
  pt_events :: "'a port_event option list"

definition ETIME :: int where
  "ETIME = 62"

definition ef_port_associate ::
    "(int \<Rightarrow> int \<Rightarrow> u32 \<Rightarrow> 'a \<Rightarrow> int) \<Rightarrow> 'a ef_port \<Rightarrow> int \<Rightarrow> u32 \<Rightarrow> 'a \<Rightarrow> bool \<Rightarrow> int \<times> 'a ef_port" where
  "ef_port_associate passoc ep fd events ptr fired = (passoc (pt_ptfd ep) fd events ptr, ep)"

definition ef_port_dissociate ::
    "(int \<Rightarrow> int \<Rightarrow> int) \<Rightarrow> 'a ef_port \<Rightarrow> int \<Rightarrow> bool \<Rightarrow> bool \<Rightarrow> int \<times> 'a ef_port" where
  "ef_port_dissociate pdissoc ep fd fired onclose =
     (if fired then (0, ep) else (pdissoc (pt_ptfd ep) fd, ep))"

definition ef_port_unset :: "'a ef_port \<Rightarrow> int \<Rightarrow> u32 \<Rightarrow> int \<times> 'a ef_port" where
  "ef_port_unset ep fd events = (0, ep)"

definition port_to_event :: "'a port_event \<Rightarrow> 'a ef_event" where
  "port_to_event e = \<lparr>ev_events = pe_events e, ev_data = pe_user e\<rparr>"

text \<open>
  \<open>getn\<close> gets the descriptor, \<open>count\<close>, the least number of events and the timeout in seconds
  and nanoseconds, and gives the return value, \<^verbatim>\<open>errno\<close>, \<^verbatim>\<open>nget\<close> and the events.
\<close>

definition ef_port_wait ::
    "(int \<Rightarrow> int \<Rightarrow> nat \<Rightarrow> int \<times> int \<Rightarrow> int \<times> int \<times> nat \<times> 'a port_event list) \<Rightarrow>
     'a ef_port \<Rightarrow> 'a ef_event list \<Rightarrow> int \<Rightarrow> int \<Rightarrow> (int \<times> 'a ef_event list \<times> 'a ef_port) option" where
  "ef_port_wait getn ep evts count millisecs =
     (let count = (if count > pt_cap ep then pt_cap ep else count);
          timeout = (millisecs sdiv 1000, (millisecs smod 1000) * 1000000);
          (ret, errno, nget, es) = getn (pt_ptfd ep) count 1 timeout;
          ep = ep\<lparr>pt_events := fill_front (pt_events ep) es\<rparr>
      in if ret < 0 then (if errno \<noteq> ETIME then Some (- 1, evts, ep) else Some (0, evts, ep))
         else do { evts \<leftarrow> copy_events port_to_event (pt_events ep) evts 0 nget;
                   Some (int nget, evts, ep) })"

definition ef_port_free :: "'a ef_port \<Rightarrow> int \<times> 'a ef_port option" where
  "ef_port_free ep = (0, None)"

definition ef_port_create :: "mem \<Rightarrow> int \<Rightarrow> int \<Rightarrow> 'a ef_port option \<times> mem" where
  "ef_port_create m ptfd cap =
     (let cap = (if cap < 128 then 128 else cap);
          (ok, m) = malloc_obj m
      in if \<not> ok then (None, m)
         else if ptfd < 0 then (None, m)
         else (Some \<lparr>pt_ptfd = ptfd, pt_cap = cap, pt_events = replicate (nat cap) None\<rparr>, m))"

section \<open>Correctness\<close>

lemma copy_events_all:
  assumes "length es0 + length es \<le> length evts"
  shows "copy_events conv (map Some es0 @ map Some es @ rest) evts (length es0) (length es) =
           Some (take (length es0) evts @ map conv es @ drop (length es0 + length es) evts)"
  using assms
proof (induction es arbitrary: es0 evts)
  case (Cons e es)
  let ?evts = "evts[length es0 := conv e]"
  have "copy_events conv (map Some (es0 @ [e]) @ map Some es @ rest) ?evts (length (es0 @ [e])) (length es) =
      Some (take (length (es0 @ [e])) ?evts @ map conv es @ drop (length (es0 @ [e]) + length es) ?evts)"
    by (rule Cons.IH) (use Cons.prems in simp)
  moreover have "take (Suc (length es0)) ?evts = take (length es0) evts @ [conv e]"
    using Cons.prems by (simp add: take_Suc_conv_app_nth)
  ultimately show ?case using Cons.prems by (simp add: nth_append)
qed simp

lemma copy_filled:
  assumes "length es \<le> length evts"
  shows "copy_events conv (fill_front xs es) evts 0 (length es) = Some (map conv es @ drop (length es) evts)"
  using copy_events_all [of "[]" es evts conv "drop (length es) xs"] assms by (simp add: fill_front_def)

definition lt_inv :: "'a ef_epoll \<Rightarrow> bool" where
  "lt_inv ep \<longleftrightarrow> 128 \<le> lt_cap ep \<and> length (lt_events ep) = nat (lt_cap ep)"

definition pt_inv :: "'a ef_port \<Rightarrow> bool" where
  "pt_inv ep \<longleftrightarrow> 128 \<le> pt_cap ep \<and> length (pt_events ep) = nat (pt_cap ep)"

text \<open>What \<^verbatim>\<open>epoll_wait\<close> documents: at most as many events as asked for, or an error.\<close>

definition kwait_ok :: "(int \<Rightarrow> int \<Rightarrow> int \<Rightarrow> int \<times> 'a epoll_event list) \<Rightarrow> bool" where
  "kwait_ok kwait \<longleftrightarrow> (\<forall>epfd n ms. 0 < n \<longrightarrow>
     (case kwait epfd n ms of (r, es) \<Rightarrow> r \<le> n \<and> length es = nat r))"

definition getn_ok :: "(int \<Rightarrow> int \<Rightarrow> nat \<Rightarrow> int \<times> int \<Rightarrow> int \<times> int \<times> nat \<times> 'a port_event list) \<Rightarrow> bool" where
  "getn_ok getn \<longleftrightarrow> (\<forall>p n least tmo. 0 < n \<longrightarrow>
     (case getn p n least tmo of (r, e, k, es) \<Rightarrow> int k \<le> n \<and> length es = k))"

lemma fill_front_length: "length ys \<le> length xs \<Longrightarrow> length (fill_front xs ys) = length xs"
  by (simp add: fill_front_def)

text \<open>
  A wait of the level-triggered source writes the events the kernel reports, and no more
  than the caller has room for, to the front of the caller's array in the kernel's order; its
  own array is never overrun, however much room the caller offers.
\<close>

theorem epoll_wait_passes_on:
  assumes "lt_inv ep" "kwait_ok kwait" "0 < count" "nat count \<le> length evts"
  shows "case kwait (lt_epfd ep) (min count (lt_cap ep)) ms of (r, es) \<Rightarrow>
           \<exists>ep'. ef_epoll_lt_wait kwait ep evts count ms = Some (r, map epoll_to_event es @ drop (length es) evts, ep') \<and>
             lt_inv ep' \<and> r \<le> count \<and> lt_epfd ep' = lt_epfd ep"
proof -
  let ?n = "min count (lt_cap ep)"
  obtain r es where k: "kwait (lt_epfd ep) ?n ms = (r, es)" by (cases "kwait (lt_epfd ep) ?n ms") auto
  have n: "0 < ?n" "(if count > lt_cap ep then lt_cap ep else count) = ?n"
    using assms(1,3) by (auto simp: lt_inv_def)
  then have "case kwait (lt_epfd ep) ?n ms of (r, es) \<Rightarrow> r \<le> ?n \<and> length es = nat r"
    using assms(2) [unfolded kwait_ok_def, rule_format, of ?n "lt_epfd ep" ms] by simp
  then have r: "r \<le> ?n" "length es = nat r" unfolding k prod.case by blast+
  then have le: "length es \<le> length evts" "length es \<le> length (lt_events ep)"
    using assms(1,4) n(1) by (auto simp: lt_inv_def)
  let ?ep = "ep\<lparr>lt_events := fill_front (lt_events ep) es\<rparr>"
  have "ef_epoll_lt_wait kwait ep evts count ms = Some (r, map epoll_to_event es @ drop (length es) evts, ?ep)"
    using copy_filled [OF le(1), of epoll_to_event "lt_events ep"] r(2) unfolding ef_epoll_lt_wait_def n(2)
    by (cases "r \<le> 0") (simp_all add: k)
  moreover have "lt_inv ?ep" using assms(1) le(2) by (simp add: lt_inv_def fill_front_length)
  ultimately show ?thesis using k r(1) by simp
qed

definition sample_kwait :: "int \<Rightarrow> int \<Rightarrow> int \<Rightarrow> int \<times> nat epoll_event list" where
  "sample_kwait epfd n ms = (if n < 1 then (- 1, []) else (1, [\<lparr>epe_events = 1, epe_ptr = 7\<rparr>]))"

definition sample_epoll :: "nat ef_epoll" where
  "sample_epoll = the (fst (ef_epoll_lt_create [] 3 16))"

theorem epoll_wait_passes_on_witness:
  "case sample_kwait (lt_epfd sample_epoll) (min 2 (lt_cap sample_epoll)) 0 of (r, es) \<Rightarrow>
     \<exists>ep'. ef_epoll_lt_wait sample_kwait sample_epoll [\<lparr>ev_events = 0, ev_data = 0\<rparr>, \<lparr>ev_events = 0, ev_data = 0\<rparr>] 2 0 =
         Some (r, map epoll_to_event es @ drop (length es) [\<lparr>ev_events = 0, ev_data = 0\<rparr>, \<lparr>ev_events = 0, ev_data = 0\<rparr>], ep') \<and>
       lt_inv ep' \<and> r \<le> 2 \<and> lt_epfd ep' = lt_epfd sample_epoll"
  by (rule epoll_wait_passes_on)
    (simp_all add: sample_epoll_def ef_epoll_lt_create_def lt_inv_def kwait_ok_def sample_kwait_def)

text \<open>
  A wait of the event-port source hands the kernel exactly the time asked for, split into
  seconds and nanoseconds, and writes the events it gets to the front of the caller's array; a
  timeout is 0 events and any other failure is -1.
\<close>

theorem port_wait_passes_on:
  assumes "pt_inv ep" "getn_ok getn" "0 < count" "nat count \<le> length evts" "0 \<le> ms"
  shows "\<exists>sec nsec. sec * 1000 + nsec div 1000000 = ms \<and> 0 \<le> nsec \<and> nsec < 1000000000 \<and>
           (case getn (pt_ptfd ep) (min count (pt_cap ep)) 1 (sec, nsec) of (r, e, k, es) \<Rightarrow>
              \<exists>ep'. pt_inv ep' \<and> ef_port_wait getn ep evts count ms =
                (if r < 0 then Some (if e = ETIME then 0 else - 1, evts, ep')
                 else Some (int k, map port_to_event es @ drop k evts, ep')))"
proof -
  let ?n = "min count (pt_cap ep)"
  define sec where "sec = ms sdiv 1000"
  define nsec where "nsec = (ms smod 1000) * 1000000"
  have sm: "ms sdiv 1000 = ms div 1000" "ms smod 1000 = ms mod 1000"
    using assms(5) by (simp_all add: signed_divide_int_def signed_modulo_int_def sgn_if)
  have t: "sec * 1000 + nsec div 1000000 = ms" "0 \<le> nsec" "nsec < 1000000000"
    unfolding sec_def nsec_def sm by simp_all
  obtain r e k es where g: "getn (pt_ptfd ep) ?n 1 (sec, nsec) = (r, e, k, es)"
    by (metis surj_pair)
  have n: "0 < ?n" "(if count > pt_cap ep then pt_cap ep else count) = ?n"
    using assms(1,3) by (auto simp: pt_inv_def)
  then have "case getn (pt_ptfd ep) ?n 1 (sec, nsec) of (r, e, k, es) \<Rightarrow> int k \<le> ?n \<and> length es = k"
    using assms(2) [unfolded getn_ok_def, rule_format, of ?n "pt_ptfd ep" 1 "(sec, nsec)"] by simp
  then have k: "int k \<le> ?n" "length es = k" unfolding g prod.case by blast+
  then have le: "length es \<le> length evts" "length es \<le> length (pt_events ep)"
    using assms(1,4) by (auto simp: pt_inv_def)
  let ?ep = "ep\<lparr>pt_events := fill_front (pt_events ep) es\<rparr>"
  have "pt_inv ?ep" using assms(1) le(2) by (simp add: pt_inv_def fill_front_length)
  moreover have "ef_port_wait getn ep evts count ms =
      (if r < 0 then Some (if e = ETIME then 0 else - 1, evts, ?ep)
       else Some (int k, map port_to_event es @ drop k evts, ?ep))"
    using copy_filled [OF le(1), of port_to_event "pt_events ep"] k(2)
    unfolding ef_port_wait_def n(2) Let_def sec_def [symmetric] nsec_def [symmetric] g by simp
  ultimately show ?thesis using t g by (intro exI [of _ sec] exI [of _ nsec]) auto
qed

definition sample_getn :: "int \<Rightarrow> int \<Rightarrow> nat \<Rightarrow> int \<times> int \<Rightarrow> int \<times> int \<times> nat \<times> nat port_event list" where
  "sample_getn p n least tmo = (if fst tmo = 0 then (- 1, ETIME, 0, []) else (0, 0, 1, [\<lparr>pe_events = 1, pe_user = 7\<rparr>]))"

definition sample_port :: "nat ef_port" where
  "sample_port = the (fst (ef_port_create [] 3 16))"

theorem port_wait_passes_on_witness:
  "\<exists>sec nsec. sec * 1000 + nsec div 1000000 = 1500 \<and> 0 \<le> nsec \<and> nsec < 1000000000 \<and>
     (case sample_getn (pt_ptfd sample_port) (min 1 (pt_cap sample_port)) 1 (sec, nsec) of (r, e, k, es) \<Rightarrow>
        \<exists>ep'. pt_inv ep' \<and> ef_port_wait sample_getn sample_port [\<lparr>ev_events = 0, ev_data = 0\<rparr>] 1 1500 =
          (if r < 0 then Some (if e = ETIME then 0 else - 1, [\<lparr>ev_events = 0, ev_data = 0\<rparr>], ep')
           else Some (int k, map port_to_event es @ drop k [\<lparr>ev_events = 0, ev_data = 0\<rparr>], ep')))"
  by (rule port_wait_passes_on)
    (simp_all add: sample_port_def ef_port_create_def pt_inv_def getn_ok_def sample_getn_def)

end
