(* ===== verification/FiberSwitch.thy ===== *)
theory FiberSwitch
  imports Prelude
begin

text \<open>
  \<^verbatim>\<open>amd64/fiber.s\<close>: the context switch.  The assembly is transcribed instruction by
  instruction into lists; \<open>exec\<close> runs such a list on a machine of 64-bit registers and a
  memory of 64-bit cells, which the code only addresses at multiples of 8 from a common base.
\<close>

section \<open>The machine\<close>

datatype reg = RAX | RBX | RCX | RDX | RSI | RDI | RBP | RSP
  | R8 | R9 | R10 | R11 | R12 | R13 | R14 | R15 | RFLAGS | RIP

record machine =
  mc_reg :: "reg \<Rightarrow> u64"
  mc_mem :: "u64 \<Rightarrow> u64"

text \<open>\<open>Store r b d\<close> is \<^verbatim>\<open>mov %r,d(%b)\<close> and \<open>Load b d r\<close> is \<^verbatim>\<open>mov d(%b),%r\<close>.\<close>

datatype instr =
    Mov reg reg | Movi u64 reg | Store reg reg u64 | Load reg u64 reg
  | Push reg | Pop reg | Clear reg | Subi u64 reg | Ret

definition set_reg :: "reg \<Rightarrow> u64 \<Rightarrow> machine \<Rightarrow> machine" where
  "set_reg r v s = s\<lparr>mc_reg := (mc_reg s)(r := v)\<rparr>"

definition set_mem :: "u64 \<Rightarrow> u64 \<Rightarrow> machine \<Rightarrow> machine" where
  "set_mem a v s = s\<lparr>mc_mem := (mc_mem s)(a := v)\<rparr>"

definition pop_to :: "reg \<Rightarrow> machine \<Rightarrow> machine" where
  "pop_to r s =
     (let sp = mc_reg s RSP; v = mc_mem s sp
      in set_reg r v (set_reg RSP (sp + 8) s))"

text \<open>The flags that \<^verbatim>\<open>xor\<close> and \<^verbatim>\<open>sub\<close> change are not read before \<^verbatim>\<open>popfq\<close> replaces them.\<close>

fun step :: "instr \<Rightarrow> machine \<Rightarrow> machine" where
  "step (Mov a b) s = set_reg b (mc_reg s a) s"
| "step (Movi k b) s = set_reg b k s"
| "step (Store r b d) s = set_mem (mc_reg s b + d) (mc_reg s r) s"
| "step (Load b d r) s = set_reg r (mc_mem s (mc_reg s b + d)) s"
| "step (Push r) s =
     (let sp = mc_reg s RSP - 8 in set_mem sp (mc_reg s r) (set_reg RSP sp s))"
| "step (Pop r) s = pop_to r s"
| "step (Clear r) s = set_reg r 0 s"
| "step (Subi k r) s = set_reg r (mc_reg s r - k) s"
| "step Ret s = pop_to RIP s"

fun exec :: "instr list \<Rightarrow> machine \<Rightarrow> machine" where
  "exec [] s = s"
| "exec (i # is) s = exec is (step i s)"

lemma exec_append [simp]: "exec (xs @ ys) s = exec ys (exec xs s)"
  by (induction xs arbitrary: s) simp_all

lemmas machine_defs = set_reg_def set_mem_def pop_to_def

section \<open>The code\<close>

definition FIBER_STACK_UPPER_OFFSET :: u64 where "FIBER_STACK_UPPER_OFFSET = 16"
definition FIBER_STACK_PTR_OFFSET :: u64 where "FIBER_STACK_PTR_OFFSET = 32"
definition FIBER_STATUS_OFFSET :: u64 where "FIBER_STATUS_OFFSET = 40"
definition FIBER_PARENT_OFFSET :: u64 where "FIBER_PARENT_OFFSET = 48"
definition FIBER_SCHED_OFFSET :: u64 where "FIBER_SCHED_OFFSET = 56"
definition SCHED_CURRENT_FIBER_OFFSET :: u64 where "SCHED_CURRENT_FIBER_OFFSET = 0"

lemmas offset_defs =
  FIBER_STACK_UPPER_OFFSET_def FIBER_STACK_PTR_OFFSET_def FIBER_STATUS_OFFSET_def
  FIBER_PARENT_OFFSET_def FIBER_SCHED_OFFSET_def SCHED_CURRENT_FIBER_OFFSET_def

definition saved_regs :: "reg list" where
  "saved_regs = [RBX, RBP, RSI, RDI, R8, R9, R10, R11, R12, R13, R14, R15, RFLAGS]"

text \<open>The first half of \<^verbatim>\<open>ef_fiber_internal_swap\<close>, up to storing the stack pointer.\<close>

definition save_code :: "instr list" where
  "save_code = [Mov RDX RAX, Push RBX, Push RBP, Push RSI, Push RDI, Push R8, Push R9, Push R10, Push R11,
     Push R12, Push R13, Push R14, Push R15, Push RFLAGS, Store RSP RSI 0]"

text \<open>\<^verbatim>\<open>_ef_fiber_restore\<close>.\<close>

definition restore_code :: "instr list" where
  "restore_code = [Pop RFLAGS, Pop R15, Pop R14, Pop R13, Pop R12, Pop R11, Pop R10, Pop R9, Pop R8,
     Pop RDI, Pop RSI, Pop RBP, Pop RBX, Ret]"

definition ef_fiber_internal_swap :: "instr list" where
  "ef_fiber_internal_swap = save_code @ [Mov RDI RSP] @ restore_code"

text \<open>\<^verbatim>\<open>_ef_fiber_exit\<close>, with the jump to the restoring code.\<close>

definition ef_fiber_exit_code :: "instr list" where
  "ef_fiber_exit_code =
     [Pop RDX, Movi 0 RCX, Store RCX RDX FIBER_STATUS_OFFSET,
      Load RDX FIBER_PARENT_OFFSET RCX, Load RDX FIBER_SCHED_OFFSET RDX,
      Store RCX RDX SCHED_CURRENT_FIBER_OFFSET, Load RCX FIBER_STACK_PTR_OFFSET RSP] @ restore_code"

text \<open>\<^verbatim>\<open>ef_fiber_internal_init\<close>; \<open>exit_addr\<close> is where \<^verbatim>\<open>_ef_fiber_exit\<close> is loaded.\<close>

definition ef_fiber_internal_init :: "u64 \<Rightarrow> instr list" where
  "ef_fiber_internal_init exit_addr =
     [Movi 1 RAX, Store RAX RDI FIBER_STATUS_OFFSET, Mov RDI RCX, Load RDI FIBER_STACK_UPPER_OFFSET RDI,
      Store RCX RDI (- 8), Movi exit_addr RAX, Store RAX RDI (- 16), Store RSI RDI (- 24), Clear RAX,
      Store RAX RDI (- 32), Store RDI RDI (- 40), Store RAX RDI (- 48), Store RDX RDI (- 56),
      Store RAX RDI (- 64), Store RAX RDI (- 72), Store RAX RDI (- 80), Store RAX RDI (- 88),
      Store RAX RDI (- 96), Store RAX RDI (- 104), Store RAX RDI (- 112), Store RAX RDI (- 120),
      Store RAX RDI (- 128), Mov RDI RAX, Subi 128 RAX, Ret]"

section \<open>What the two halves do\<close>

text \<open>The cells of a frame whose topmost one, the return address, is at \<open>sp\<close>, upwards.\<close>

definition frame_cells :: "u64 \<Rightarrow> u64 list" where
  "frame_cells sp = [sp - 104, sp - 96, sp - 88, sp - 80, sp - 72, sp - 64, sp - 56, sp - 48, sp - 40,
     sp - 32, sp - 24, sp - 16, sp - 8, sp]"

definition frame_regs :: "reg list" where
  "frame_regs = [RFLAGS, R15, R14, R13, R12, R11, R10, R9, R8, RDI, RSI, RBP, RBX, RIP]"

lemma word_offsets:
  "(x :: u64) - numeral a - numeral b = x - (numeral a + numeral b)"
  "(x :: u64) - numeral a + numeral b = x - (numeral a - numeral b)"
  by (simp_all only: diff_diff_eq diff_diff_eq2 diff_add_eq)

lemma save_regs:
  "mc_reg (exec save_code s) = (mc_reg s)(RAX := mc_reg s RDX, RSP := mc_reg s RSP - 104)"
  by (rule ext) (simp add: save_code_def Let_def machine_defs word_offsets)

text \<open>Writing a list of values to a list of cells.\<close>

definition put_cells :: "'a list \<Rightarrow> 'v list \<Rightarrow> ('a \<Rightarrow> 'v) \<Rightarrow> 'a \<Rightarrow> 'v" where
  "put_cells as vs m = fold (\<lambda>(a, v) f. f(a := v)) (zip as vs) m"

lemma put_cells_simps [simp]:
  "put_cells [] [] m = m" "put_cells (a # as) (v # vs) m = put_cells as vs (m(a := v))"
  by (simp_all add: put_cells_def)

lemma put_cells_other: "a \<notin> set as \<Longrightarrow> length as = length vs \<Longrightarrow> put_cells as vs m a = m a"
  by (induction as vs arbitrary: m rule: list_induct2') auto

lemma map_put_cells: "distinct as \<Longrightarrow> length as = length vs \<Longrightarrow> map (put_cells as vs m) as = vs"
  by (induction as vs arbitrary: m rule: list_induct2') (simp_all add: put_cells_other)

text \<open>A frame pushed cell by cell, and one more cell written outside it.\<close>

lemma put_frame:
  assumes "distinct (as @ [sp])" "length as = length vs" "x \<notin> set (as @ [sp])"
  shows "map ((put_cells (rev as) vs m)(x := y)) (as @ [sp]) = rev vs @ [m sp]"
proof -
  have "map (put_cells (rev as) vs m) (rev as) = vs" using assms by (intro map_put_cells) simp_all
  then have "map (put_cells (rev as) vs m) as = rev vs" by (metis rev_map rev_rev_ident)
  moreover have "put_cells (rev as) vs m sp = m sp" using assms by (intro put_cells_other) simp_all
  ultimately show ?thesis using assms(3) by (auto simp: map_fun_upd)
qed

lemma put_outside:
  assumes "a \<noteq> x" "a \<notin> set as" "length as = length vs"
  shows "((put_cells (rev as) vs m)(x := y)) a = m a"
  using assms by (simp add: put_cells_other)

text \<open>Saving pushes the registers below the stack pointer and stores the stack pointer through RSI.\<close>

lemma save_mem:
  "mc_mem (exec save_code s) =
     (put_cells (rev (butlast (frame_cells (mc_reg s RSP)))) (map (mc_reg s) saved_regs) (mc_mem s))
       (mc_reg s RSI := mc_reg s RSP - 104)"
  by (simp add: save_code_def saved_regs_def frame_cells_def Let_def machine_defs word_offsets)

lemma frame_cells_distinct: "distinct (frame_cells sp)"
  by (simp add: frame_cells_def)

lemma save_frame:
  assumes "mc_reg s RSI \<notin> set (frame_cells (mc_reg s RSP))"
  shows "map (mc_mem (exec save_code s)) (frame_cells (mc_reg s RSP)) =
    map (mc_reg s) (butlast frame_regs) @ [mc_mem s (mc_reg s RSP)]"
proof -
  define as where "as = butlast (frame_cells (mc_reg s RSP))"
  have cells: "frame_cells (mc_reg s RSP) = as @ [mc_reg s RSP]" by (simp add: as_def frame_cells_def)
  have "distinct (as @ [mc_reg s RSP])" using frame_cells_distinct [of "mc_reg s RSP"] cells by simp
  moreover have "length as = length (map (mc_reg s) saved_regs)"
    by (simp add: as_def frame_cells_def saved_regs_def)
  ultimately have "map (mc_mem (exec save_code s)) (as @ [mc_reg s RSP]) =
      rev (map (mc_reg s) saved_regs) @ [mc_mem s (mc_reg s RSP)]"
    using assms unfolding save_mem cells butlast_snoc by (rule put_frame)
  then show ?thesis by (simp add: cells saved_regs_def frame_regs_def)
qed

lemma save_sp:
  "mc_mem (exec save_code s) (mc_reg s RSI) = mc_reg s RSP - 104"
  by (simp add: save_code_def Let_def machine_defs word_offsets)

lemma save_elsewhere:
  assumes "a \<noteq> mc_reg s RSI" "a \<notin> set (butlast (frame_cells (mc_reg s RSP)))"
  shows "mc_mem (exec save_code s) a = mc_mem s a"
  unfolding save_mem using assms by (rule put_outside) (simp add: frame_cells_def saved_regs_def)

lemma restore_frame:
  assumes "mc_reg s RSP = sp - 104"
  shows "mc_mem (exec restore_code s) = mc_mem s"
    and "map (mc_reg (exec restore_code s)) frame_regs = map (mc_mem s) (frame_cells sp)"
    and "mc_reg (exec restore_code s) RSP = sp + 8"
    and "r \<notin> set (RSP # frame_regs) \<Longrightarrow> mc_reg (exec restore_code s) r = mc_reg s r"
  using assms
  by (simp_all add: restore_code_def Let_def machine_defs word_offsets frame_regs_def frame_cells_def add.assoc)

lemma swap_eq: "exec ef_fiber_internal_swap s = exec restore_code (set_reg RSP (mc_reg s RDI) (exec save_code s))"
  by (simp add: ef_fiber_internal_swap_def save_regs)

lemma set_reg_simps [simp]:
  "mc_mem (set_reg r v s) = mc_mem s" "mc_reg (set_reg r v s) = (mc_reg s)(r := v)"
  by (simp_all add: set_reg_def)

lemma swap_mem: "mc_mem (exec ef_fiber_internal_swap s) = mc_mem (exec save_code s)"
  using restore_frame(1) [of "set_reg RSP (mc_reg s RDI) (exec save_code s)" "mc_reg s RDI + 104"]
  by (simp add: swap_eq)

text \<open>Whatever runs on, restoring a frame that still holds what was saved there gives it back.\<close>

lemma restore_saved:
  assumes own: "mc_reg s RSI \<notin> set (frame_cells (mc_reg s RSP))"
    and sp: "mc_reg v RSP = mc_reg s RSP - 104"
    and kept: "map (mc_mem v) (frame_cells (mc_reg s RSP)) = map (mc_mem (exec save_code s)) (frame_cells (mc_reg s RSP))"
  shows "\<forall>r \<in> set saved_regs. mc_reg (exec restore_code v) r = mc_reg s r"
    and "mc_reg (exec restore_code v) RSP = mc_reg s RSP + 8"
    and "mc_reg (exec restore_code v) RIP = mc_mem s (mc_reg s RSP)"
    and "mc_reg (exec restore_code v) RAX = mc_reg v RAX"
proof -
  have "map (mc_reg (exec restore_code v)) frame_regs = map (mc_reg s) (butlast frame_regs) @ [mc_mem s (mc_reg s RSP)]"
    using restore_frame(2) [OF sp] save_frame [OF own] kept by simp
  then show "\<forall>r \<in> set saved_regs. mc_reg (exec restore_code v) r = mc_reg s r"
    "mc_reg (exec restore_code v) RIP = mc_mem s (mc_reg s RSP)"
    by (simp_all add: frame_regs_def saved_regs_def)
  show "mc_reg (exec restore_code v) RSP = mc_reg s RSP + 8" by (rule restore_frame(3) [OF sp])
  show "mc_reg (exec restore_code v) RAX = mc_reg v RAX"
    by (rule restore_frame(4) [OF sp]) (simp add: frame_regs_def)
qed

section \<open>The first and the last switch of a fiber\<close>

lemma init_effect:
  fixes exit_addr :: u64
  assumes "mc_mem s (mc_reg s RDI + 16) = mc_reg s RDI"
  defines "u \<equiv> exec (ef_fiber_internal_init exit_addr) s" and "f \<equiv> mc_reg s RDI"
  shows "map (mc_mem u) (frame_cells (f - 24)) =
           [0, 0, 0, 0, 0, 0, 0, 0, 0, mc_reg s RDX, 0, f, 0, mc_reg s RSI]"
    and "mc_mem u (f - 16) = exit_addr" and "mc_mem u (f - 8) = f" and "mc_mem u (f + 40) = 1"
    and "mc_reg u RAX = f - 128"
  using assms
  by (simp_all add: u_def f_def ef_fiber_internal_init_def machine_defs offset_defs Let_def frame_cells_def word_offsets)

section \<open>Properties\<close>

text \<open>
  C23. A fiber that switched away is continued by any later switch to the stack pointer saved for
  it: every register the switch saves, the flags and the stack are as at its call, control is at
  its return address, and the call returns the value sent.  The fiber's frame has not been
  written to meanwhile, and the one who switches has another stack.
\<close>

theorem context_switch_resumes:
  assumes "mc_reg s RSI \<notin> set (frame_cells (mc_reg s RSP))"
    and "mc_reg t RDI = mc_mem (exec ef_fiber_internal_swap s) (mc_reg s RSI)"
    and "map (mc_mem t) (frame_cells (mc_reg s RSP)) =
           map (mc_mem (exec ef_fiber_internal_swap s)) (frame_cells (mc_reg s RSP))"
    and "set (frame_cells (mc_reg s RSP)) \<inter> insert (mc_reg t RSI) (set (butlast (frame_cells (mc_reg t RSP)))) = {}"
  shows "(\<forall>r \<in> set saved_regs. mc_reg (exec ef_fiber_internal_swap t) r = mc_reg s r) \<and>
         mc_reg (exec ef_fiber_internal_swap t) RSP = mc_reg s RSP + 8 \<and>
         mc_reg (exec ef_fiber_internal_swap t) RIP = mc_mem s (mc_reg s RSP) \<and>
         mc_reg (exec ef_fiber_internal_swap t) RAX = mc_reg t RDX"
proof -
  let ?v = "set_reg RSP (mc_reg t RDI) (exec save_code t)"
  note m = swap_mem [of s]
  have sp: "mc_reg ?v RSP = mc_reg s RSP - 104" using assms(2) by (simp add: m save_sp)
  have "mc_mem (exec save_code t) a = mc_mem t a" if "a \<in> set (frame_cells (mc_reg s RSP))" for a
    using that assms(4) by (intro save_elsewhere) auto
  then have "map (mc_mem ?v) (frame_cells (mc_reg s RSP)) = map (mc_mem t) (frame_cells (mc_reg s RSP))" by simp
  with assms(3) have "map (mc_mem ?v) (frame_cells (mc_reg s RSP)) =
      map (mc_mem (exec save_code s)) (frame_cells (mc_reg s RSP))"
    by (simp only: m)
  from restore_saved [OF assms(1) sp this] show ?thesis
    unfolding swap_eq [of t] by (simp add: save_regs)
qed

text \<open>The fiber at 4096 switches to a frame at 8192 and back.\<close>

definition sample_call :: machine where
  "sample_call = \<lparr>mc_reg = (\<lambda>r. 0)(RSP := 4096, RSI := 32, RDI := 8088, RBX := 5), mc_mem = (\<lambda>a. 0)(4096 := 77)\<rparr>"

definition sample_back :: machine where
  "sample_back = \<lparr>mc_reg = (\<lambda>r. 0)(RSP := 8192, RSI := 16384, RDI := 3992, RDX := 9),
     mc_mem = mc_mem (exec ef_fiber_internal_swap sample_call)\<rparr>"

theorem context_switch_resumes_witness:
  "mc_reg (exec ef_fiber_internal_swap sample_back) RBX = 5 \<and>
   mc_reg (exec ef_fiber_internal_swap sample_back) RIP = 77 \<and>
   mc_reg (exec ef_fiber_internal_swap sample_back) RAX = 9"
proof -
  have "mc_mem (exec ef_fiber_internal_swap sample_call) 32 = 3992"
    using save_sp [of sample_call] by (simp add: swap_mem) (simp add: sample_call_def)
  then have rdi2: "mc_reg sample_back RDI = mc_mem (exec ef_fiber_internal_swap sample_call) (mc_reg sample_call RSI)"
    by (simp add: sample_back_def sample_call_def)
  have own: "mc_reg sample_call RSI \<notin> set (frame_cells (mc_reg sample_call RSP))"
    by (simp add: sample_call_def frame_cells_def)
  have apart: "set (frame_cells (mc_reg sample_call RSP)) \<inter>
      insert (mc_reg sample_back RSI) (set (butlast (frame_cells (mc_reg sample_back RSP)))) = {}"
    by (simp add: sample_call_def sample_back_def frame_cells_def)
  have kept: "map (mc_mem sample_back) (frame_cells (mc_reg sample_call RSP)) =
      map (mc_mem (exec ef_fiber_internal_swap sample_call)) (frame_cells (mc_reg sample_call RSP))"
    by (simp add: sample_back_def)
  have regs: "mc_reg sample_call RBX = 5" "mc_mem sample_call (mc_reg sample_call RSP) = 77" "mc_reg sample_back RDX = 9"
    by (simp_all add: sample_call_def sample_back_def)
  from context_switch_resumes [OF own rdi2 kept apart] regs show ?thesis
    by (simp add: saved_regs_def)
qed

text \<open>
  C24. The first switch to an initialised fiber, whose struct lies at the top of its stack, enters
  the fiber's procedure with the parameter as its argument and with \<^verbatim>\<open>_ef_fiber_exit\<close>
  as the address it returns to.
\<close>

theorem first_switch_enters_procedure:
  fixes exit_addr :: u64
  assumes "mc_mem s (mc_reg s RDI + 16) = mc_reg s RDI"
    and "mc_reg t RDI = mc_reg (exec (ef_fiber_internal_init exit_addr) s) RAX"
    and "\<forall>a \<in> set ((mc_reg s RDI - 16) # frame_cells (mc_reg s RDI - 24)).
           mc_mem t a = mc_mem (exec (ef_fiber_internal_init exit_addr) s) a \<and>
           a \<notin> insert (mc_reg t RSI) (set (butlast (frame_cells (mc_reg t RSP))))"
  shows "mc_reg (exec ef_fiber_internal_swap t) RIP = mc_reg s RSI \<and>
         mc_reg (exec ef_fiber_internal_swap t) RDI = mc_reg s RDX \<and>
         mc_reg (exec ef_fiber_internal_swap t) RSP = mc_reg s RDI - 16 \<and>
         mc_mem (exec ef_fiber_internal_swap t) (mc_reg s RDI - 16) = exit_addr"
proof -
  let ?f = "mc_reg s RDI" and ?u = "exec (ef_fiber_internal_init exit_addr) s"
  let ?v = "set_reg RSP (mc_reg t RDI) (exec save_code t)"
  note i = init_effect [OF assms(1), of exit_addr]
  have sp: "mc_reg ?v RSP = (?f - 24) - 104"
    using assms(2) i(5) by (simp add: word_offsets)
  have same: "mc_mem (exec save_code t) a = mc_mem ?u a" if "a \<in> set ((?f - 16) # frame_cells (?f - 24))" for a
    using that assms(3) save_elsewhere [of a t] by (metis insertCI)
  then have "map (mc_mem ?v) (frame_cells (?f - 24)) = map (mc_mem ?u) (frame_cells (?f - 24))" by simp
  with i(1) restore_frame(2) [OF sp] have "map (mc_reg (exec restore_code ?v)) frame_regs =
      [0, 0, 0, 0, 0, 0, 0, 0, 0, mc_reg s RDX, 0, ?f, 0, mc_reg s RSI]" by simp
  then have "mc_reg (exec restore_code ?v) RIP = mc_reg s RSI" "mc_reg (exec restore_code ?v) RDI = mc_reg s RDX"
    by (simp_all add: frame_regs_def)
  moreover have "mc_reg (exec restore_code ?v) RSP = ?f - 16"
    using restore_frame(3) [OF sp] by (simp add: word_offsets)
  moreover have "mc_mem (exec save_code t) (?f - 16) = exit_addr" using same i(2) by simp
  ultimately show ?thesis unfolding swap_eq [of t] swap_mem [of t, unfolded swap_eq] by simp
qed

definition sample_init :: machine where
  "sample_init = \<lparr>mc_reg = (\<lambda>r. 0)(RDI := 4096, RSI := 1000, RDX := 6, RSP := 16384), mc_mem = (\<lambda>a. 0)(4112 := 4096)\<rparr>"

definition sample_first :: machine where
  "sample_first = \<lparr>mc_reg = (\<lambda>r. 0)(RDI := 3968, RSI := 24576, RSP := 20480),
     mc_mem = mc_mem (exec (ef_fiber_internal_init 500) sample_init)\<rparr>"

theorem first_switch_enters_procedure_witness:
  "mc_reg (exec ef_fiber_internal_swap sample_first) RIP = 1000 \<and>
   mc_reg (exec ef_fiber_internal_swap sample_first) RDI = 6"
proof -
  have own: "mc_mem sample_init (mc_reg sample_init RDI + 16) = mc_reg sample_init RDI"
    by (simp add: sample_init_def)
  have rdi: "mc_reg sample_first RDI = mc_reg (exec (ef_fiber_internal_init 500) sample_init) RAX"
    using init_effect(5) [OF own, of 500] by (simp add: sample_first_def sample_init_def)
  have regs: "mc_reg sample_first RSI = 24576" "mc_reg sample_first RSP = 20480" "mc_reg sample_init RDI = 4096"
    and mem: "mc_mem sample_first = mc_mem (exec (ef_fiber_internal_init 500) sample_init)"
    by (simp_all add: sample_first_def sample_init_def)
  have "\<forall>a \<in> set ((mc_reg sample_init RDI - 16) # frame_cells (mc_reg sample_init RDI - 24)).
      mc_mem sample_first a = mc_mem (exec (ef_fiber_internal_init 500) sample_init) a \<and>
      a \<notin> insert (mc_reg sample_first RSI) (set (butlast (frame_cells (mc_reg sample_first RSP))))"
    unfolding regs mem by (simp add: frame_cells_def)
  from first_switch_enters_procedure [OF own rdi this] show ?thesis
    by (simp add: sample_init_def)
qed

text \<open>
  C25. When the procedure of a fiber returns, \<^verbatim>\<open>_ef_fiber_exit\<close> marks the fiber as exited,
  makes its parent the current fiber, and continues the parent where it switched away, with the
  procedure's return value as the value of the switch.
\<close>

theorem fiber_exit_resumes_parent:
  fixes fiber parent sched :: u64
  assumes "mc_reg v RSP = fiber - 16" "mc_mem v (fiber - 16) = exit_addr" "mc_mem v (fiber - 8) = fiber"
    and "mc_mem v (fiber + 48) = parent" "mc_mem v (fiber + 56) = sched"
    and "mc_mem v (parent + 32) = mc_reg s RSP - 104"
    and "mc_reg s RSI \<notin> set (frame_cells (mc_reg s RSP))"
    and "map (mc_mem v) (frame_cells (mc_reg s RSP)) =
           map (mc_mem (exec ef_fiber_internal_swap s)) (frame_cells (mc_reg s RSP))"
    and "{fiber + 40, sched} \<inter> set (frame_cells (mc_reg s RSP)) = {}"
    and "parent + 32 \<noteq> fiber + 40" "parent + 32 \<noteq> sched" "sched \<noteq> fiber + 40"
  shows "mc_reg (step Ret v) RIP = exit_addr \<and>
         (let w = exec ef_fiber_exit_code (step Ret v) in
           mc_mem w (fiber + 40) = 0 \<and> mc_mem w sched = parent \<and>
           (\<forall>r \<in> set saved_regs. mc_reg w r = mc_reg s r) \<and> mc_reg w RSP = mc_reg s RSP + 8 \<and>
           mc_reg w RIP = mc_mem s (mc_reg s RSP) \<and> mc_reg w RAX = mc_reg v RAX)"
proof -
  let ?pre = "[Pop RDX, Movi 0 RCX, Store RCX RDX FIBER_STATUS_OFFSET,
      Load RDX FIBER_PARENT_OFFSET RCX, Load RDX FIBER_SCHED_OFFSET RDX,
      Store RCX RDX SCHED_CURRENT_FIBER_OFFSET, Load RCX FIBER_STACK_PTR_OFFSET RSP]"
  let ?x = "exec ?pre (step Ret v)"
  have x: "mc_mem ?x = (mc_mem v)(fiber + 40 := 0, sched := parent)" "mc_reg ?x RSP = mc_reg s RSP - 104"
    "mc_reg ?x RAX = mc_reg v RAX"
    using assms(1-6,10-12) by (simp_all add: machine_defs offset_defs Let_def word_offsets)
  have "map (mc_mem ?x) (frame_cells (mc_reg s RSP)) = map (mc_mem v) (frame_cells (mc_reg s RSP))"
    using assms(9) unfolding x(1) by (intro map_cong refl) auto
  then have kept: "map (mc_mem ?x) (frame_cells (mc_reg s RSP)) = map (mc_mem (exec save_code s)) (frame_cells (mc_reg s RSP))"
    using assms(8) by (simp only: swap_mem)
  have w: "exec ef_fiber_exit_code (step Ret v) = exec restore_code ?x"
    by (simp only: ef_fiber_exit_code_def exec_append)
  have "mc_mem (exec restore_code ?x) = mc_mem ?x" by (rule restore_frame(1) [OF x(2)])
  then have "mc_mem (exec restore_code ?x) (fiber + 40) = 0" "mc_mem (exec restore_code ?x) sched = parent"
    using assms(12) by (simp_all add: x(1) del: exec.simps step.simps)
  moreover have "mc_reg (step Ret v) RIP = exit_addr"
    using assms(1,2) by (simp add: machine_defs Let_def)
  ultimately show ?thesis
    using restore_saved [OF assms(7) x(2) kept] x(3) unfolding w Let_def by (simp del: exec.simps step.simps)
qed

definition sample_exit :: machine where
  "sample_exit = \<lparr>mc_reg = (\<lambda>r. 0)(RSP := 8176, RAX := 3),
     mc_mem = (mc_mem (exec save_code sample_call))(8176 := 500, 8184 := 8192, 8240 := 0, 8248 := 16384)\<rparr>"

theorem fiber_exit_resumes_parent_witness:
  "let w = exec ef_fiber_exit_code (step Ret sample_exit) in
     mc_mem w 8232 = 0 \<and> mc_mem w 16384 = 0 \<and> mc_reg w RBX = 5 \<and> mc_reg w RIP = 77 \<and> mc_reg w RAX = 3"
proof -
  have own: "mc_reg sample_call RSI \<notin> set (frame_cells (mc_reg sample_call RSP))"
    by (simp add: sample_call_def frame_cells_def)
  have sp: "mc_mem (exec save_code sample_call) 32 = 3992"
    using save_sp [of sample_call] by (simp add: sample_call_def)
  have kept: "map (mc_mem sample_exit) (frame_cells (mc_reg sample_call RSP)) =
      map (mc_mem (exec ef_fiber_internal_swap sample_call)) (frame_cells (mc_reg sample_call RSP))"
    unfolding swap_mem by (simp add: sample_exit_def sample_call_def frame_cells_def)
  have regs: "mc_reg sample_call RBX = 5" "mc_reg sample_call RSP = 4096" "mc_mem sample_call 4096 = 77"
    "mc_reg sample_exit RAX = 3" by (simp_all add: sample_call_def sample_exit_def)
  have "set (frame_cells 4096) \<inter> {8232, 16384} = {}" by (simp add: frame_cells_def)
  with fiber_exit_resumes_parent [of sample_exit 8192 500 0 16384 sample_call, OF _ _ _ _ _ _ own kept] sp regs
  show ?thesis by (simp add: sample_exit_def saved_regs_def Int_commute Let_def del: exec.simps step.simps)
qed

end
