(* ===== verification/EfFiber.thy ===== *)
theory EfFiber
  imports Prelude
begin

text \<open>
  \<^verbatim>\<open>fiber.c\<close>: fibers with their own stacks.  A fiber is known by the address of its
  struct; \<open>fw_fibers\<close> holds the structs that exist, so an access to a deleted fiber or
  through an unset parent has no result.  What a context switch does to registers and stack is
  the matter of \<open>FiberSwitch\<close>; here it stores the stack pointer \<open>sp\<close> the caller has then.
  The answers of the system calls are arguments.
\<close>

section \<open>State\<close>

definition ERROR_FIBER_EXITED :: int where "ERROR_FIBER_EXITED = - 1"
definition ERROR_FIBER_NOT_INITED :: int where "ERROR_FIBER_NOT_INITED = - 2"
definition FIBER_STATUS_EXITED :: int where "FIBER_STATUS_EXITED = 0"
definition FIBER_STATUS_INITED :: int where "FIBER_STATUS_INITED = 1"

text \<open>\<open>fb_start\<close> is what the initial frame holds: the procedure and its argument.\<close>

record ef_fiber =
  fb_stack_size :: u64
  fb_stack_area :: u64
  fb_stack_upper :: u64
  fb_stack_lower :: u64
  fb_stack_ptr :: u64
  fb_status :: int
  fb_parent :: "u64 option"
  fb_start :: "u64 \<times> u64"

record fibers =
  fw_fibers :: "u64 \<rightharpoonup> ef_fiber"
  fw_current :: u64
  fw_thread :: u64
  fw_page :: int

definition put_fiber :: "u64 \<Rightarrow> ef_fiber \<Rightarrow> fibers \<Rightarrow> fibers" where
  "put_fiber a f w = w\<lparr>fw_fibers := (fw_fibers w)(a \<mapsto> f)\<rparr>"

lemma put_fiber_simps [simp]:
  "fw_fibers (put_fiber a f w) = (fw_fibers w)(a \<mapsto> f)" "fw_current (put_fiber a f w) = fw_current w"
  "fw_thread (put_fiber a f w) = fw_thread w" "fw_page (put_fiber a f w) = fw_page w"
  by (simp_all add: put_fiber_def)

definition ef_fiber_is_exited :: "ef_fiber \<Rightarrow> bool" where
  "ef_fiber_is_exited f \<longleftrightarrow> fb_status f = FIBER_STATUS_EXITED"

section \<open>Creation and deletion\<close>

text \<open>The frame \<^verbatim>\<open>ef_fiber_internal_init\<close> writes has 128 bytes; a NULL parameter is 0.\<close>

definition ef_fiber_init :: "fibers \<Rightarrow> u64 \<Rightarrow> u64 \<Rightarrow> u64 \<Rightarrow> fibers option" where
  "ef_fiber_init w fiber fiber_proc param =
     do { f \<leftarrow> fw_fibers w fiber;
          Some (put_fiber fiber
            (f\<lparr>fb_status := FIBER_STATUS_INITED, fb_stack_ptr := fb_stack_upper f - 128,
               fb_start := (fiber_proc, if param \<noteq> 0 then param else fiber)\<rparr>) w) }"

definition round_stack :: "int \<Rightarrow> u64 \<Rightarrow> u64" where
  "round_stack page_size stack_size =
     (let p = of_int page_size;
          stack_size = (if stack_size = 0 then p else stack_size)
      in (stack_size + p - 1) AND NOT (p - 1))"

text \<open>
  \<open>stack\<close> is the answer of \<^verbatim>\<open>mmap\<close> (\<open>None\<close> for \<^verbatim>\<open>MAP_FAILED\<close>), \<open>mapped\<close> that of
  \<^verbatim>\<open>mprotect\<close>.  Only the highest page can be written: the struct of 64 bytes and the initial
  frame below it must lie in it.
\<close>

definition ef_fiber_create ::
    "fibers \<Rightarrow> u64 option \<Rightarrow> bool \<Rightarrow> u64 \<Rightarrow> u64 \<Rightarrow> u64 \<Rightarrow> u64 \<Rightarrow> (u64 option \<times> fibers) option" where
  "ef_fiber_create w stack mapped stack_size header_size fiber_proc param =
     (let page_size = of_int (fw_page w);
          stack_size = round_stack (fw_page w) stack_size
      in case stack of
           None \<Rightarrow> Some (None, w)
         | Some stack \<Rightarrow>
             if \<not> mapped then Some (None, w)
             else do {
               check (64 \<le> unat header_size \<and> uint header_size + 128 \<le> fw_page w);
               let fiber = stack + stack_size - header_size;
               let f = \<lparr>fb_stack_size = stack_size, fb_stack_area = stack,
                        fb_stack_upper = stack + stack_size - header_size,
                        fb_stack_lower = stack + stack_size - page_size,
                        fb_stack_ptr = 0, fb_status = 0, fb_parent = None, fb_start = (0, 0)\<rparr>;
               w \<leftarrow> ef_fiber_init (put_fiber fiber f w) fiber fiber_proc param;
               Some (Some fiber, w) })"

definition ef_fiber_delete :: "fibers \<Rightarrow> u64 \<Rightarrow> fibers option" where
  "ef_fiber_delete w fiber =
     do { _ \<leftarrow> fw_fibers w fiber; Some (w\<lparr>fw_fibers := (fw_fibers w)(fiber := None)\<rparr>) }"

section \<open>Switching\<close>

text \<open>
  \<open>Inl\<close> is an error return; \<open>Inr\<close> is the state in which \<open>to\<close> runs on.  The call itself
  returns when a later switch restores the caller.
\<close>

definition ef_fiber_resume :: "fibers \<Rightarrow> u64 \<Rightarrow> u64 \<Rightarrow> (int + fibers) option" where
  "ef_fiber_resume w to sp =
     do { t \<leftarrow> fw_fibers w to;
          if fb_status t \<noteq> FIBER_STATUS_INITED
          then Some (Inl (if fb_status t = FIBER_STATUS_EXITED then ERROR_FIBER_EXITED else ERROR_FIBER_NOT_INITED))
          else do {
            let current = fw_current w;
            let w = put_fiber to (t\<lparr>fb_parent := Some current\<rparr>) w;
            c \<leftarrow> fw_fibers w current;
            Some (Inr ((put_fiber current (c\<lparr>fb_stack_ptr := sp\<rparr>) w)\<lparr>fw_current := to\<rparr>)) } }"

definition ef_fiber_yield :: "fibers \<Rightarrow> u64 \<Rightarrow> fibers option" where
  "ef_fiber_yield w sp =
     do { let current = fw_current w;
          c \<leftarrow> fw_fibers w current;
          parent \<leftarrow> fb_parent c;
          _ \<leftarrow> fw_fibers w parent;
          Some ((put_fiber current (c\<lparr>fb_stack_ptr := sp\<rparr>) w)\<lparr>fw_current := parent\<rparr>) }"

text \<open>\<^verbatim>\<open>_ef_fiber_exit\<close>, run when the procedure of the current fiber returns.\<close>

definition ef_fiber_exit :: "fibers \<Rightarrow> fibers option" where
  "ef_fiber_exit w =
     do { let current = fw_current w;
          c \<leftarrow> fw_fibers w current;
          parent \<leftarrow> fb_parent c;
          _ \<leftarrow> fw_fibers w parent;
          Some ((put_fiber current (c\<lparr>fb_status := FIBER_STATUS_EXITED\<rparr>) w)\<lparr>fw_current := parent\<rparr>) }"

section \<open>Growing a stack\<close>

definition ef_fiber_expand_stack :: "fibers \<Rightarrow> u64 \<Rightarrow> u64 \<Rightarrow> int \<Rightarrow> (int \<times> fibers) option" where
  "ef_fiber_expand_stack w fiber addr protect =
     do { f \<leftarrow> fw_fibers w fiber;
          let lower = addr AND NOT (of_int (fw_page w) - 1);
          if sint (lower - fb_stack_area f) \<ge> fw_page w \<and> lower < fb_stack_lower f
          then (if protect \<ge> 0 then Some (protect, put_fiber fiber (f\<lparr>fb_stack_lower := lower\<rparr>) w)
                else Some (protect, w))
          else Some (- 1, w) }"

definition SIGSEGV :: int where
  "SIGSEGV = 11"

text \<open>Whether the handler raises \<^verbatim>\<open>SIGABRT\<close>.\<close>

definition ef_fiber_sigsegv_handler :: "fibers \<Rightarrow> int \<Rightarrow> u64 \<Rightarrow> int \<Rightarrow> (bool \<times> fibers) option" where
  "ef_fiber_sigsegv_handler w sig addr protect =
     (if sig \<noteq> SIGSEGV then Some (True, w)
      else do { (r, w) \<leftarrow> ef_fiber_expand_stack w (fw_current w) addr protect; Some (r < 0, w) })"

text \<open>
  \<open>page\<close> answers \<^verbatim>\<open>sysconf\<close>, \<open>ss\<close> is the address \<^verbatim>\<open>mmap\<close> returns for the signal
  stack (all ones when it fails, which the code does not test for).
\<close>

definition ef_fiber_init_sched :: "fibers \<Rightarrow> bool \<Rightarrow> int \<Rightarrow> u64 \<Rightarrow> int \<Rightarrow> int \<Rightarrow> int \<times> fibers" where
  "ef_fiber_init_sched w handle_sigsegv page ss altstack action =
     (let w = w\<lparr>fw_current := fw_thread w, fw_page := page\<rparr>
      in if page < 0 then (- 1, w)
         else if \<not> handle_sigsegv then (0, w)
         else if ss = 0 then (- 1, w)
         else if altstack = - 1 then (- 1, w)
         else (action, w))"

section \<open>The active fibers\<close>

text \<open>
  From the current fiber the parents lead to the thread: \<open>active w xs\<close> lists them, without
  repetition.  Switching is pushing and popping on this list.
\<close>

fun links_up :: "(u64 \<rightharpoonup> ef_fiber) \<Rightarrow> u64 list \<Rightarrow> bool" where
  "links_up F [] = False"
| "links_up F [x] = (F x \<noteq> None)"
| "links_up F (x # y # xs) = ((\<exists>f. F x = Some f \<and> fb_parent f = Some y) \<and> links_up F (y # xs))"

definition active :: "fibers \<Rightarrow> u64 list \<Rightarrow> bool" where
  "active w xs \<longleftrightarrow> distinct xs \<and> links_up (fw_fibers w) xs \<and> hd xs = fw_current w \<and> last xs = fw_thread w"

lemma links_up_cong:
  "(\<And>x. x \<in> set xs \<Longrightarrow> map_option fb_parent (F x) = map_option fb_parent (G x)) \<Longrightarrow> links_up F xs = links_up G xs"
proof (induction xs rule: links_up.induct [of _ F])
  case (2 F x)
  then show ?case by (metis links_up.simps(2) list.set_intros(1) map_option_is_None)
next
  case (3 F x y xs)
  then have "map_option fb_parent (F x) = map_option fb_parent (G x)" by simp
  then have "(\<exists>f. F x = Some f \<and> fb_parent f = Some y) = (\<exists>f. G x = Some f \<and> fb_parent f = Some y)"
    by (cases "F x"; cases "G x") auto
  with 3 show ?case by simp
qed simp_all

lemma links_up_defined: "links_up F xs \<Longrightarrow> x \<in> set xs \<Longrightarrow> \<exists>f. F x = Some f"
  by (induction xs rule: links_up.induct) auto

lemma active_cases:
  assumes "active w xs"
  obtains (thread) "xs = [fw_thread w]" "fw_current w = fw_thread w"
  | (fiber) p ys f where "xs = fw_current w # p # ys" "fw_fibers w (fw_current w) = Some f" "fb_parent f = Some p"
proof (cases xs)
  case Nil
  with assms show thesis by (simp add: active_def)
next
  case (Cons x zs)
  show thesis
  proof (cases zs)
    case Nil
    with assms Cons show thesis by (intro thread) (auto simp: active_def)
  next
    case (Cons y ys)
    with assms \<open>xs = x # zs\<close> obtain f where "fw_fibers w x = Some f" "fb_parent f = Some y" "x = fw_current w"
      by (auto simp: active_def)
    with Cons \<open>xs = x # zs\<close> show thesis by (intro fiber [of y ys f]) simp_all
  qed
qed

text \<open>One step of each kind.\<close>

lemma resume_active:
  assumes "active w xs" "to \<notin> set xs" "fw_fibers w to = Some t" "fb_status t = FIBER_STATUS_INITED"
  shows "\<exists>w'. ef_fiber_resume w to sp = Some (Inr w') \<and> active w' (to # xs) \<and> fw_thread w' = fw_thread w \<and>
    fw_page w' = fw_page w \<and> dom (fw_fibers w') = dom (fw_fibers w) \<and>
    (\<forall>a. map_option fb_status (fw_fibers w' a) = map_option fb_status (fw_fibers w a))"
proof -
  have cur: "fw_current w \<in> set xs" using assms(1) by (cases xs) (auto simp: active_def)
  then obtain c where c: "fw_fibers w (fw_current w) = Some c"
    using assms(1) links_up_defined by (metis active_def)
  have ne: "fw_current w \<noteq> to" using cur assms(2) by auto
  let ?w = "(put_fiber (fw_current w) (c\<lparr>fb_stack_ptr := sp\<rparr>) (put_fiber to (t\<lparr>fb_parent := Some (fw_current w)\<rparr>) w))\<lparr>fw_current := to\<rparr>"
  have "links_up (fw_fibers ?w) xs = links_up (fw_fibers w) xs"
    using assms(2) c by (intro links_up_cong) auto
  then have "active ?w (to # xs)"
    using assms(1,2) ne by (cases xs) (auto simp: active_def)
  moreover have "ef_fiber_resume w to sp = Some (Inr ?w)"
    using assms(3,4) c ne by (simp add: ef_fiber_resume_def Let_def)
  ultimately show ?thesis using assms(3) c ne by (intro exI [of _ ?w]) auto
qed

text \<open>Leaving the current fiber, by a yield or at its end.\<close>

lemma pop_active:
  assumes "active w (c # p # ys)" "fw_fibers w c = Some f" "fb_parent f' = fb_parent f"
  shows "active ((put_fiber c f' w)\<lparr>fw_current := p\<rparr>) (p # ys)"
proof -
  have "c \<notin> set (p # ys)" using assms(1) by (auto simp: active_def)
  then have "links_up ((fw_fibers w)(c \<mapsto> f')) (p # ys) = links_up (fw_fibers w) (p # ys)"
    by (intro links_up_cong) auto
  with assms(1) show ?thesis by (auto simp: active_def)
qed

lemma leave_active:
  assumes "active w xs" "fw_current w \<noteq> fw_thread w"
  obtains p ys f where "xs = fw_current w # p # ys" "fw_fibers w (fw_current w) = Some f"
    "ef_fiber_yield w sp = Some ((put_fiber (fw_current w) (f\<lparr>fb_stack_ptr := sp\<rparr>) w)\<lparr>fw_current := p\<rparr>)"
    "ef_fiber_exit w = Some ((put_fiber (fw_current w) (f\<lparr>fb_status := FIBER_STATUS_EXITED\<rparr>) w)\<lparr>fw_current := p\<rparr>)"
    "active ((put_fiber (fw_current w) (f\<lparr>fb_stack_ptr := sp\<rparr>) w)\<lparr>fw_current := p\<rparr>) (p # ys)"
    "active ((put_fiber (fw_current w) (f\<lparr>fb_status := FIBER_STATUS_EXITED\<rparr>) w)\<lparr>fw_current := p\<rparr>) (p # ys)"
  using assms(1)
proof (cases rule: active_cases)
  case thread
  with assms(2) show thesis by simp
next
  case (fiber p ys f)
  then have a: "active w (fw_current w # p # ys)" using assms(1) by simp
  then have "\<exists>q. fw_fibers w p = Some q" using links_up_defined by (fastforce simp: active_def)
  then have "ef_fiber_yield w sp = Some ((put_fiber (fw_current w) (f\<lparr>fb_stack_ptr := sp\<rparr>) w)\<lparr>fw_current := p\<rparr>)"
    "ef_fiber_exit w = Some ((put_fiber (fw_current w) (f\<lparr>fb_status := FIBER_STATUS_EXITED\<rparr>) w)\<lparr>fw_current := p\<rparr>)"
    using fiber by (auto simp: ef_fiber_yield_def ef_fiber_exit_def)
  with fiber show thesis
    by (intro that) (auto intro!: pop_active [OF a])
qed

section \<open>Rounding to pages\<close>

lemma unat_exp: "k < 64 \<Longrightarrow> unat (2 ^ k :: u64) = 2 ^ k"
proof -
  assume "k < 64"
  then have "(2::nat) ^ k < 2 ^ LENGTH(64)" by (intro power_strict_increasing) simp_all
  then have "unat (of_nat (2 ^ k) :: u64) = 2 ^ k" by (rule unat_of_nat_small)
  then show ?thesis by simp
qed

lemma unat_page_floor: "unat (x AND NOT (mask k) :: u64) = unat x div 2 ^ k * 2 ^ k"
proof -
  have "x AND NOT (mask k) = push_bit k (drop_bit k x)"
    by (rule bit_eqI) (auto simp: bit_simps)
  moreover have "unat (drop_bit k x) = unat x div 2 ^ k"
    by (simp add: unat_drop_bit_eq flip: drop_bit_eq_div)
  moreover have "unat x div 2 ^ k * 2 ^ k < 2 ^ 64"
    using div_times_less_eq_dividend [of "unat x" "2 ^ k"] unat_less_64 [of x] by linarith
  moreover have "unat x div 2 ^ k = 0" if "64 \<le> k"
  proof -
    have "(2::nat) ^ 64 \<le> 2 ^ k" using that by (intro power_increasing) simp_all
    with unat_less_64 [of x] have "unat x < 2 ^ k" by linarith
    then show ?thesis by simp
  qed
  ultimately show ?thesis
    by (cases "k < 64") (simp_all add: push_bit_eq_mult unat_word_ariths unat_exp)
qed

lemma of_int_page: "of_int (2 ^ k) - 1 = (mask k :: u64)"
  by (simp add: mask_eq_exp_minus_1)

text \<open>The least positive number of whole pages that holds the size asked for.\<close>

lemma round_stack_spec:
  assumes "k \<le> 30" "unat s \<le> 2 ^ 47"
  shows "unat (round_stack (2 ^ k) s) = (if s = 0 then 2 ^ k else (unat s + 2 ^ k - 1) div 2 ^ k * 2 ^ k)"
proof -
  have small: "(2::nat) ^ k \<le> 2 ^ 30" using assms(1) by (intro power_increasing) simp_all
  have pk: "unat (2 ^ k :: u64) = 2 ^ k" by (rule unat_exp) (use assms(1) in simp)
  define n where "n = (if s = 0 then 2 ^ k else s)"
  have n: "unat n \<le> 2 ^ 47" "0 < unat n"
    using assms small pk by (auto simp: n_def unat_gt_0)
  have "unat (n + 2 ^ k) = unat n + 2 ^ k"
    using n small pk by (subst unat_add_small) simp_all
  then have "unat (n + 2 ^ k - 1) = unat n + 2 ^ k - 1"
    using n(2) by (subst unat_minus_small) simp_all
  moreover have "round_stack (2 ^ k) s = (n + 2 ^ k - 1) AND NOT (mask k)"
    unfolding round_stack_def Let_def n_def of_int_page by simp
  ultimately have "unat (round_stack (2 ^ k) s) = (unat n + 2 ^ k - 1) div 2 ^ k * 2 ^ k"
    by (simp only: unat_page_floor)
  moreover have "(2 ^ k + 2 ^ k - 1) div 2 ^ k = (1 :: nat)"
    by (intro div_nat_eqI) auto
  ultimately show ?thesis using pk by (auto simp: n_def)
qed

section \<open>Properties\<close>

lemma round_stack_bounds:
  assumes "k \<le> 30" "unat s \<le> 2 ^ 47"
  shows "2 ^ k dvd unat (round_stack (2 ^ k) s)" and "unat s \<le> unat (round_stack (2 ^ k) s)"
    and "unat (round_stack (2 ^ k) s) \<le> max (2 ^ k) (unat s + 2 ^ k - 1)"
    and "2 ^ k \<le> unat (round_stack (2 ^ k) s)" and "unat (round_stack (2 ^ k) s) < 2 ^ 48"
proof -
  let ?n = "unat (round_stack (2 ^ k) s)"
  have sz: "?n = (if s = 0 then 2 ^ k else (unat s + 2 ^ k - 1) div 2 ^ k * 2 ^ k)"
    by (rule round_stack_spec [OF assms])
  show dvd: "2 ^ k dvd ?n" using sz by simp
  show up: "unat s \<le> ?n"
  proof (cases "s = 0")
    case False
    have "unat s + 2 ^ k - 1 = (unat s + 2 ^ k - 1) div 2 ^ k * 2 ^ k + (unat s + 2 ^ k - 1) mod 2 ^ k"
      by (rule div_mult_mod_eq [symmetric])
    moreover have "(unat s + 2 ^ k - 1) mod 2 ^ k < 2 ^ k" by simp
    moreover have "?n = (unat s + 2 ^ k - 1) div 2 ^ k * 2 ^ k" using False sz by simp
    ultimately show ?thesis by linarith
  qed simp
  show le: "?n \<le> max (2 ^ k) (unat s + 2 ^ k - 1)"
    using sz div_times_less_eq_dividend [of "unat s + 2 ^ k - 1" "2 ^ k"]
    by (cases "s = 0") (simp_all add: le_max_iff_disj)
  have "0 < ?n"
  proof (cases "s = 0")
    case False
    then have "0 < unat s" by (simp add: unat_gt_0)
    with up show ?thesis by linarith
  qed (use sz in simp)
  with dvd show "2 ^ k \<le> ?n" by (rule dvd_imp_le)
  have "(2::nat) ^ k \<le> 2 ^ 30" using assms(1) by (intro power_increasing) simp_all
  then show "?n < 2 ^ 48" using le assms(2) by (auto simp: max_def split: if_splits)
qed


definition sample_fibers :: fibers where
  "sample_fibers = \<lparr>fw_fibers = [100 \<mapsto> \<lparr>fb_stack_size = 0, fb_stack_area = 0, fb_stack_upper = 0, fb_stack_lower = 0,
       fb_stack_ptr = 0, fb_status = 0, fb_parent = None, fb_start = (0, 0)\<rparr>],
     fw_current = 100, fw_thread = 100, fw_page = 4096\<rparr>"


text \<open>The part of the reserved area that is mapped: it starts on a page boundary.\<close>

definition stack_ok :: "nat \<Rightarrow> ef_fiber \<Rightarrow> bool" where
  "stack_ok k f \<longleftrightarrow> 2 ^ k dvd unat (fb_stack_area f) \<and> 2 ^ k dvd unat (fb_stack_lower f) \<and>
     unat (fb_stack_area f) \<le> unat (fb_stack_lower f) \<and> unat (fb_stack_lower f) < 2 ^ 63"

lemma sint_diff_ge:
  fixes l a :: u64
  assumes "0 < p" "p \<le> sint (l - a)" "unat a < 2 ^ 63"
  shows "int (unat a) + p \<le> int (unat l)"
proof -
  let ?d = "l - a"
  have bound: "sint ?d < 2 ^ 63" using sint_lt [of ?d] by simp
  have "take_bit 64 (sint ?d) = take_bit 64 (uint ?d)"
    by (simp add: sint_uint take_bit_signed_take_bit)
  also have "\<dots> = uint ?d"
    using uint_lt2p [of ?d] by (intro take_bit_int_eq_self) simp_all
  finally have "uint ?d = take_bit 64 (sint ?d)" by simp
  also have "\<dots> = sint ?d" using assms(1,2) bound by (intro take_bit_int_eq_self) simp_all
  finally have d: "uint ?d = sint ?d" .
  have u: "uint ?d = int (unat ?d)" "uint l = int (unat l)" by (rule uint_nat)+
  have "int (unat ?d) < 2 ^ 63" using bound d unfolding u(1) by (simp only:)
  then have "unat ?d < 2 ^ 63" by (metis of_nat_less_iff of_nat_numeral of_nat_power)
  then have "unat (a + ?d) = unat a + unat ?d" using assms(3) by (intro unat_add_small) simp
  then have "unat l = unat a + unat ?d" by simp
  then have "int (unat l) = int (unat a) + sint ?d" unfolding d [symmetric] u(1) by (simp only: of_nat_add)
  with assms(2) show ?thesis by linarith
qed

text \<open>
  A fault below the stack extends the mapped part by whole pages down to the page of the
  fault address, and only within the reserved area: the lowest page stays unmapped as a guard,
  the mapped part never shrinks, and any other address is refused without a change.
\<close>

theorem expand_stack_keeps_guard:
  assumes "fw_page w = 2 ^ k" "k \<le> 30" "fw_fibers w a = Some f" "stack_ok k f"
  shows "\<exists>r w' f'. ef_fiber_expand_stack w a addr protect = Some (r, w') \<and>
           fw_fibers w' = (fw_fibers w)(a \<mapsto> f') \<and> stack_ok k f' \<and>
           fb_stack_area f' = fb_stack_area f \<and> unat (fb_stack_lower f') \<le> unat (fb_stack_lower f) \<and>
           (f' = f \<or> unat (fb_stack_area f) + 2 ^ k \<le> unat (fb_stack_lower f')) \<and>
           (0 \<le> r \<longrightarrow> unat (fb_stack_lower f') \<le> unat addr \<and> unat addr < unat (fb_stack_lower f') + 2 ^ k)"
proof -
  define l where "l = addr AND NOT (mask k)"
  have ul: "unat l = unat addr div 2 ^ k * 2 ^ k" by (simp only: l_def unat_page_floor)
  have near: "unat l \<le> unat addr" "unat addr < unat l + 2 ^ k"
  proof -
    have "unat addr div 2 ^ k * 2 ^ k + unat addr mod 2 ^ k = unat addr" by (rule div_mult_mod_eq)
    moreover have "unat addr mod 2 ^ k < 2 ^ k" by simp
    ultimately show "unat l \<le> unat addr" "unat addr < unat l + 2 ^ k" unfolding ul by linarith+
  qed
  show ?thesis
  proof (cases "sint (l - fb_stack_area f) \<ge> 2 ^ k \<and> l < fb_stack_lower f \<and> 0 \<le> protect")
    case True
    let ?f = "f\<lparr>fb_stack_lower := l\<rparr>"
    have "unat (fb_stack_area f) < 2 ^ 63" using assms(4) by (auto simp: stack_ok_def)
    then have "int (unat (fb_stack_area f)) + 2 ^ k \<le> int (unat l)"
      using True by (intro sint_diff_ge) simp_all
    then have "int (unat (fb_stack_area f) + 2 ^ k) \<le> int (unat l)"
      by (simp only: of_nat_add of_nat_power of_nat_numeral)
    then have guard: "unat (fb_stack_area f) + 2 ^ k \<le> unat l" by (simp only: of_nat_le_iff)
    have "stack_ok k ?f" using assms(4) guard True ul by (auto simp: stack_ok_def word_less_nat_alt)
    moreover have "ef_fiber_expand_stack w a addr protect = Some (protect, put_fiber a ?f w)"
      using assms(1,3) True by (simp add: ef_fiber_expand_stack_def l_def flip: mask_eq_exp_minus_1)
    ultimately show ?thesis
      using guard True near
      by (intro exI [of _ protect] exI [of _ "put_fiber a ?f w"] exI [of _ ?f]) (simp add: word_less_nat_alt)
  next
    case False
    then have "\<exists>r. r < 0 \<and> ef_fiber_expand_stack w a addr protect = Some (r, w)"
      using assms(1,3) by (auto simp: ef_fiber_expand_stack_def l_def Let_def simp flip: mask_eq_exp_minus_1)
    then obtain r where "r < 0" "ef_fiber_expand_stack w a addr protect = Some (r, w)" by blast
    then show ?thesis using assms(3,4)
      by (intro exI [of _ r] exI [of _ w] exI [of _ f]) (simp add: fun_upd_idem)
  qed
qed

definition sample_stack :: ef_fiber where
  "sample_stack = \<lparr>fb_stack_size = 65536, fb_stack_area = 65536, fb_stack_upper = 130928, fb_stack_lower = 126976,
     fb_stack_ptr = 130800, fb_status = 1, fb_parent = None, fb_start = (7, 9)\<rparr>"

theorem expand_stack_keeps_guard_witness:
  "\<exists>r w' f'. ef_fiber_expand_stack (put_fiber 130928 sample_stack sample_fibers) 130928 100000 0 = Some (r, w') \<and>
     fw_fibers w' = (fw_fibers (put_fiber 130928 sample_stack sample_fibers))(130928 \<mapsto> f') \<and> stack_ok 12 f'"
proof -
  let ?w = "put_fiber 130928 sample_stack sample_fibers"
  have "fw_page ?w = 2 ^ 12" "fw_fibers ?w 130928 = Some sample_stack" "stack_ok 12 sample_stack"
    by (simp_all add: stack_ok_def sample_stack_def sample_fibers_def)
  from expand_stack_keeps_guard [OF this(1) _ this(2,3), of 100000 0] show ?thesis by (simp del: fun_upd_apply) blast
qed

section \<open>Switching as a stack\<close>

datatype fiber_op = Resume u64 u64 | Yield u64 | Exit

fun do_fiber :: "fiber_op \<Rightarrow> fibers \<Rightarrow> fibers option" where
  "do_fiber (Resume to sp) w =
     do { r \<leftarrow> ef_fiber_resume w to sp; Some (case r of Inl e \<Rightarrow> w | Inr w' \<Rightarrow> w') }"
| "do_fiber (Yield sp) w = ef_fiber_yield w sp"
| "do_fiber Exit w = ef_fiber_exit w"

fun fiber_ops :: "fiber_op list \<Rightarrow> fibers \<Rightarrow> fibers option" where
  "fiber_ops [] w = Some w"
| "fiber_ops (c # cs) w = do { w \<leftarrow> do_fiber c w; fiber_ops cs w }"

text \<open>The specification: a stack of running fibers, and the status of each fiber.\<close>

fun stack_op :: "fiber_op \<Rightarrow> u64 list \<times> (u64 \<rightharpoonup> int) \<Rightarrow> u64 list \<times> (u64 \<rightharpoonup> int)" where
  "stack_op (Resume to sp) (xs, st) = (if st to = Some FIBER_STATUS_INITED then to # xs else xs, st)"
| "stack_op (Yield sp) (xs, st) = (tl xs, st)"
| "stack_op Exit (xs, st) = (tl xs, st(hd xs \<mapsto> FIBER_STATUS_EXITED))"

fun op_legal :: "fiber_op \<Rightarrow> u64 list \<times> (u64 \<rightharpoonup> int) \<Rightarrow> bool" where
  "op_legal (Resume to sp) (xs, st) = (to \<in> dom st \<and> to \<notin> set xs)"
| "op_legal (Yield sp) (xs, st) = (tl xs \<noteq> [])"
| "op_legal Exit (xs, st) = (tl xs \<noteq> [])"

fun ops_legal :: "fiber_op list \<Rightarrow> u64 list \<times> (u64 \<rightharpoonup> int) \<Rightarrow> bool" where
  "ops_legal [] s = True"
| "ops_legal (c # cs) s = (op_legal c s \<and> ops_legal cs (stack_op c s))"

definition statuses :: "fibers \<Rightarrow> u64 \<rightharpoonup> int" where
  "statuses w a = map_option fb_status (fw_fibers w a)"

definition stack_rel :: "fibers \<Rightarrow> u64 list \<times> (u64 \<rightharpoonup> int) \<Rightarrow> bool" where
  "stack_rel w s \<longleftrightarrow> active w (fst s) \<and> snd s = statuses w"

lemma active_not_thread: "active w xs \<Longrightarrow> tl xs \<noteq> [] \<Longrightarrow> fw_current w \<noteq> fw_thread w"
proof
  assume a: "active w xs" "tl xs \<noteq> []" "fw_current w = fw_thread w"
  then have "hd xs = last (tl xs)" by (simp add: active_def last_tl)
  then have "hd xs \<in> set (tl xs)" using a(2) by simp
  moreover have "distinct (hd xs # tl xs)" using a by (cases xs) (auto simp: active_def)
  ultimately show False by simp
qed

lemma fiber_op_refines:
  assumes "stack_rel w s" "op_legal c s"
  shows "\<exists>w'. do_fiber c w = Some w' \<and> stack_rel w' (stack_op c s)"
proof -
  obtain xs st where s: "s = (xs, st)" by (cases s)
  from assms(1) have a: "active w xs" and st: "st = statuses w" by (simp_all add: stack_rel_def s)
  show ?thesis
  proof (cases c)
    case (Resume to sp)
    with assms(2) s st obtain t where t: "fw_fibers w to = Some t" "to \<notin> set xs"
      by (auto simp: statuses_def)
    show ?thesis
    proof (cases "fb_status t = FIBER_STATUS_INITED")
      case True
      with resume_active [OF a t(2,1), of sp] obtain w' where
        "ef_fiber_resume w to sp = Some (Inr w')" "active w' (to # xs)"
        "\<forall>x. map_option fb_status (fw_fibers w' x) = map_option fb_status (fw_fibers w x)" by blast
      with True t st show ?thesis by (auto simp: Resume s stack_rel_def statuses_def fun_eq_iff)
    next
      case False
      with t a st show ?thesis by (auto simp: Resume s stack_rel_def statuses_def ef_fiber_resume_def)
    qed
  next
    case (Yield sp)
    with assms(2) s have "fw_current w \<noteq> fw_thread w" using active_not_thread [OF a] by simp
    from leave_active [OF a this, where sp = sp] obtain p ys f where
      "xs = fw_current w # p # ys" "fw_fibers w (fw_current w) = Some f"
      "ef_fiber_yield w sp = Some ((put_fiber (fw_current w) (f\<lparr>fb_stack_ptr := sp\<rparr>) w)\<lparr>fw_current := p\<rparr>)"
      "active ((put_fiber (fw_current w) (f\<lparr>fb_stack_ptr := sp\<rparr>) w)\<lparr>fw_current := p\<rparr>) (p # ys)" by metis
    then show ?thesis using st by (auto simp: Yield s stack_rel_def statuses_def fun_eq_iff)
  next
    case Exit
    with assms(2) s have "fw_current w \<noteq> fw_thread w" using active_not_thread [OF a] by simp
    from leave_active [OF a this] obtain p ys f where
      "xs = fw_current w # p # ys" "fw_fibers w (fw_current w) = Some f"
      "ef_fiber_exit w = Some ((put_fiber (fw_current w) (f\<lparr>fb_status := FIBER_STATUS_EXITED\<rparr>) w)\<lparr>fw_current := p\<rparr>)"
      "active ((put_fiber (fw_current w) (f\<lparr>fb_status := FIBER_STATUS_EXITED\<rparr>) w)\<lparr>fw_current := p\<rparr>) (p # ys)" by metis
    then show ?thesis using st by (auto simp: Exit s stack_rel_def statuses_def fun_eq_iff)
  qed
qed

text \<open>
  C26. Fibers nest like calls: as long as no fiber is resumed that waits for one it resumed itself,
  any sequence of resumptions, yields and exits runs without a fault, control always goes back to
  the fiber that resumed the one that stops, and a fiber that has exited is not entered again.
\<close>

theorem fiber_switches_are_a_stack:
  assumes "active w xs" "ops_legal ops (xs, statuses w)"
  shows "\<exists>w'. fiber_ops ops w = Some w' \<and>
           active w' (fst (fold stack_op ops (xs, statuses w))) \<and>
           statuses w' = snd (fold stack_op ops (xs, statuses w))"
proof -
  have "stack_rel w s \<Longrightarrow> ops_legal ops s \<Longrightarrow> \<exists>w'. fiber_ops ops w = Some w' \<and> stack_rel w' (fold stack_op ops s)" for s
  proof (induction ops arbitrary: w s)
    case (Cons c cs)
    then obtain w1 where "do_fiber c w = Some w1" "stack_rel w1 (stack_op c s)"
      using fiber_op_refines by (metis ops_legal.simps(2))
    with Cons show ?case by (metis Option.bind.simps(2) fiber_ops.simps(2) fold_simps(2) ops_legal.simps(2))
  qed simp
  from this [of "(xs, statuses w)"] assms show ?thesis by (auto simp: stack_rel_def)
qed

definition sample_two :: fibers where
  "sample_two = put_fiber 200 (sample_stack\<lparr>fb_status := 1\<rparr>) (put_fiber 300 (sample_stack\<lparr>fb_status := 1\<rparr>) sample_fibers)"

theorem fiber_switches_are_a_stack_witness:
  "\<exists>w'. fiber_ops [Resume 200 1, Resume 300 2, Exit, Resume 300 3, Yield 4] sample_two = Some w' \<and> active w' [100] \<and>
     statuses w' 300 = Some 0 \<and> statuses w' 200 = Some 1"
proof -
  have "active sample_two [100]"
    by (simp add: active_def sample_two_def sample_fibers_def)
  moreover have st: "statuses sample_two = [100 \<mapsto> 0, 300 \<mapsto> 1, 200 \<mapsto> 1]"
    by (rule ext) (simp add: statuses_def sample_two_def sample_fibers_def)
  ultimately show ?thesis
    using fiber_switches_are_a_stack [of sample_two "[100]" "[Resume 200 1, Resume 300 2, Exit, Resume 300 3, Yield 4]"]
    unfolding st by (auto simp: FIBER_STATUS_INITED_def FIBER_STATUS_EXITED_def)
qed

end
