(* ===== verification/EfCoroutine.thy ===== *)
theory EfCoroutine
  imports EfFiber EfList "HOL-Library.Signed_Division"
begin

text \<open>
  \<^verbatim>\<open>coroutine.c\<close>: the pool of coroutines on top of the fibers.  A coroutine is known by the
  address of its fiber.  The two lists of the pool share one heap of links, whose entries are
  the heads and the two embedded entries of every coroutine; \<^verbatim>\<open>CAST_PARENT_PTR\<close> is the match
  on the entry.
\<close>

section \<open>State\<close>

datatype entry = Full_list | Free_list | Full_entry u64 | Free_entry u64

record coroutine =
  cr_last_run_time :: "int \<times> int"
  cr_run_count :: u32

record co_pool =
  cp_sched :: fibers
  cp_stack_size :: u64
  cp_limit_min :: int
  cp_limit_max :: int
  cp_links :: "entry links"
  cp_full_count :: int
  cp_free_count :: int
  cp_run_count :: u64
  cp_cos :: "u64 \<rightharpoonup> coroutine"

section \<open>Operations\<close>

definition ef_coroutine_pool_init ::
    "co_pool \<Rightarrow> int \<Rightarrow> u64 \<Rightarrow> int \<Rightarrow> int \<Rightarrow> u64 \<Rightarrow> int \<Rightarrow> int \<Rightarrow> co_pool" where
  "ef_coroutine_pool_init pool page ss altstack action stack_size limit_min limit_max =
     pool\<lparr>cp_sched := snd (ef_fiber_init_sched (cp_sched pool) True page ss altstack action),
          cp_stack_size := stack_size, cp_limit_min := limit_min, cp_limit_max := limit_max,
          cp_links := ef_list_init Free_list (ef_list_init Full_list (cp_links pool)),
          cp_full_count := 0, cp_free_count := 0, cp_run_count := 0\<rparr>"

text \<open>
  A new coroutine is memory fresh from \<^verbatim>\<open>mmap\<close>, so all zero; \<open>stack\<close> and \<open>mapped\<close> are the
  answers of the system calls.
\<close>

definition ef_coroutine_create ::
    "co_pool \<Rightarrow> u64 option \<Rightarrow> bool \<Rightarrow> u64 \<Rightarrow> u64 \<Rightarrow> u64 \<Rightarrow> (u64 option \<times> co_pool) option" where
  "ef_coroutine_create pool stack mapped header_size fiber_proc param =
     (if cp_free_count pool > 0
      then let pool = pool\<lparr>cp_free_count := cp_free_count pool - 1\<rparr>;
               (e, L) = ef_list_remove_after Free_list (cp_links pool)
           in case e of
                Some (Free_entry co) \<Rightarrow>
                  do { w \<leftarrow> ef_fiber_init (cp_sched pool) co fiber_proc param;
                       Some (Some co, pool\<lparr>cp_links := L, cp_sched := w\<rparr>) }
              | _ \<Rightarrow> None
      else if cp_full_count pool \<ge> cp_limit_max pool then Some (None, pool)
      else do {
        (r, w) \<leftarrow> ef_fiber_create (cp_sched pool) stack mapped (cp_stack_size pool) header_size fiber_proc param;
        case r of
          None \<Rightarrow> Some (None, pool\<lparr>cp_sched := w\<rparr>)
        | Some co \<Rightarrow>
            Some (Some co, pool\<lparr>cp_sched := w, cp_cos := (cp_cos pool)(co \<mapsto> \<lparr>cr_last_run_time = (0, 0), cr_run_count = 0\<rparr>),
                                cp_full_count := cp_full_count pool + 1,
                                cp_links := ef_list_insert_after Full_list (Full_entry co) (cp_links pool)\<rparr>) })"

text \<open>
  \<^verbatim>\<open>ef_coroutine_resume\<close> up to the switch: \<open>Inl\<close> is its return value when the fiber cannot be
  resumed, \<open>Inr\<close> the state in which the coroutine runs.
\<close>

definition ef_coroutine_resume :: "co_pool \<Rightarrow> u64 \<Rightarrow> u64 \<Rightarrow> (int + co_pool) option" where
  "ef_coroutine_resume pool co sp =
     do { r \<leftarrow> ef_fiber_resume (cp_sched pool) co sp;
          Some (case r of Inl res \<Rightarrow> Inl 0 | Inr w \<Rightarrow> Inr (pool\<lparr>cp_sched := w\<rparr>)) }"

text \<open>The rest of it, once a switch leads back to it; \<open>now\<close> answers \<^verbatim>\<open>gettimeofday\<close>.\<close>

definition resume_returns :: "co_pool \<Rightarrow> u64 \<Rightarrow> int \<times> int \<Rightarrow> co_pool option" where
  "resume_returns pool co now =
     do { f \<leftarrow> fw_fibers (cp_sched pool) co;
          if ef_fiber_is_exited f
          then do { c \<leftarrow> cp_cos pool co;
                    Some (pool\<lparr>cp_cos := (cp_cos pool)(co \<mapsto> c\<lparr>cr_run_count := cr_run_count c + 1, cr_last_run_time := now\<rparr>),
                               cp_links := ef_list_insert_after Free_list (Free_entry co) (cp_links pool),
                               cp_free_count := cp_free_count pool + 1,
                               cp_run_count := cp_run_count pool + 1\<rparr>) }
          else Some pool }"

text \<open>The current coroutine yields, or its procedure returns: the caller's resume goes on.\<close>

definition coroutine_yields :: "co_pool \<Rightarrow> u64 \<Rightarrow> int \<times> int \<Rightarrow> co_pool option" where
  "coroutine_yields pool sp now =
     do { w \<leftarrow> ef_fiber_yield (cp_sched pool) sp;
          resume_returns (pool\<lparr>cp_sched := w\<rparr>) (fw_current (cp_sched pool)) now }"

definition coroutine_ends :: "co_pool \<Rightarrow> int \<times> int \<Rightarrow> co_pool option" where
  "coroutine_ends pool now =
     do { w \<leftarrow> ef_fiber_exit (cp_sched pool);
          resume_returns (pool\<lparr>cp_sched := w\<rparr>) (fw_current (cp_sched pool)) now }"

definition ef_coroutine_current :: "co_pool \<Rightarrow> u64 option" where
  "ef_coroutine_current pool =
     (if fw_current (cp_sched pool) = fw_thread (cp_sched pool) then None else Some (fw_current (cp_sched pool)))"

text \<open>The test on the idle time.\<close>

definition idle_enough :: "int \<times> int \<Rightarrow> int \<times> int \<Rightarrow> int \<Rightarrow> bool" where
  "idle_enough tv last_run idle_millisecs \<longleftrightarrow>
     (fst tv - fst last_run) * 1000 > idle_millisecs \<or>
     (fst tv - fst last_run) * 1000 = idle_millisecs \<and> snd tv - snd last_run \<ge> idle_millisecs smod 1000"

text \<open>The loop over the tail of the free list; the first argument is \<^verbatim>\<open>max_count\<close>.\<close>

fun shrink_loop :: "nat \<Rightarrow> co_pool \<Rightarrow> entry \<Rightarrow> int \<times> int \<Rightarrow> int \<Rightarrow> int \<Rightarrow> (int \<times> co_pool) option" where
  "shrink_loop 0 pool list_tail tv idle free_count = Some (free_count, pool)"
| "shrink_loop (Suc max_count) pool list_tail tv idle free_count =
     (if list_tail = Free_list then Some (free_count, pool)
      else case list_tail of
             Free_entry co \<Rightarrow>
               do { let prev = ef_list_entry_before (cp_links pool) list_tail;
                    c \<leftarrow> cp_cos pool co;
                    if idle_enough tv (cr_last_run_time c) idle
                    then do {
                      let L = ef_list_remove (Full_entry co) (ef_list_remove (Free_entry co) (cp_links pool));
                      w \<leftarrow> ef_fiber_delete (cp_sched pool) co;
                      shrink_loop max_count
                        (pool\<lparr>cp_free_count := cp_free_count pool - 1, cp_full_count := cp_full_count pool - 1,
                              cp_links := L, cp_sched := w, cp_cos := (cp_cos pool)(co := None)\<rparr>)
                        prev tv idle (free_count + 1) }
                    else Some (free_count, pool) }
           | _ \<Rightarrow> None)"

definition ef_coroutine_pool_shrink :: "co_pool \<Rightarrow> int \<Rightarrow> int \<Rightarrow> int \<times> int \<Rightarrow> (int \<times> co_pool) option" where
  "ef_coroutine_pool_shrink pool idle_millisecs max_count tv =
     (if cp_free_count pool \<le> 0 \<or> (max_count > 0 \<and> cp_full_count pool \<le> cp_limit_min pool) then Some (0, pool)
      else let beyond_min = cp_full_count pool - cp_limit_min pool;
               max_count = (if max_count > beyond_min then beyond_min else max_count);
               max_count = (if max_count < 0 then - max_count else max_count)
           in shrink_loop (nat max_count) pool (ef_list_entry_before (cp_links pool) Free_list) tv idle_millisecs 0)"

section \<open>The invariant\<close>

text \<open>
  \<open>fulls\<close> are the coroutines of the pool, \<open>frees\<close> the exited ones, the last one to exit first;
  \<open>xs\<close> are the active fibers.
\<close>

definition pool_repr :: "co_pool \<Rightarrow> u64 list \<Rightarrow> u64 list \<Rightarrow> u64 list \<Rightarrow> bool" where
  "pool_repr p xs fulls frees \<longleftrightarrow>
     active (cp_sched p) xs \<and>
     ring (cp_links p) Full_list (map Full_entry fulls) \<and> ring (cp_links p) Free_list (map Free_entry frees) \<and>
     cp_full_count p = int (length fulls) \<and> cp_free_count p = int (length frees) \<and>
     (fulls = [] \<or> cp_full_count p \<le> cp_limit_max p) \<and>
     dom (fw_fibers (cp_sched p)) = insert (fw_thread (cp_sched p)) (set fulls) \<and>
     fw_thread (cp_sched p) \<notin> set fulls \<and> dom (cp_cos p) = set fulls \<and>
     (\<forall>co \<in> set fulls. statuses (cp_sched p) co = Some (if co \<in> set frees then FIBER_STATUS_EXITED else FIBER_STATUS_INITED)) \<and>
     set frees \<subseteq> set fulls \<and> set frees \<inter> set xs = {}"

lemma pool_reprD:
  assumes "pool_repr p xs fulls frees"
  shows "active (cp_sched p) xs" "ring (cp_links p) Full_list (map Full_entry fulls)"
    "ring (cp_links p) Free_list (map Free_entry frees)" "cp_full_count p = int (length fulls)"
    "cp_free_count p = int (length frees)" "fulls = [] \<or> cp_full_count p \<le> cp_limit_max p"
    "dom (fw_fibers (cp_sched p)) = insert (fw_thread (cp_sched p)) (set fulls)"
    "fw_thread (cp_sched p) \<notin> set fulls" "dom (cp_cos p) = set fulls"
    "\<And>co. co \<in> set fulls \<Longrightarrow>
       statuses (cp_sched p) co = Some (if co \<in> set frees then FIBER_STATUS_EXITED else FIBER_STATUS_INITED)"
    "set frees \<subseteq> set fulls" "set frees \<inter> set xs = {}" "distinct fulls" "distinct frees"
  using assms by (auto simp: pool_repr_def ring_def distinct_map)

lemma pool_reprI:
  assumes "active (cp_sched p) xs" "ring (cp_links p) Full_list (map Full_entry fulls)"
    "ring (cp_links p) Free_list (map Free_entry frees)" "cp_full_count p = int (length fulls)"
    "cp_free_count p = int (length frees)" "fulls = [] \<or> cp_full_count p \<le> cp_limit_max p"
    "dom (fw_fibers (cp_sched p)) = insert (fw_thread (cp_sched p)) (set fulls)"
    "fw_thread (cp_sched p) \<notin> set fulls" "dom (cp_cos p) = set fulls"
    "\<And>co. co \<in> set fulls \<Longrightarrow>
       statuses (cp_sched p) co = Some (if co \<in> set frees then FIBER_STATUS_EXITED else FIBER_STATUS_INITED)"
    "set frees \<subseteq> set fulls" "set frees \<inter> set xs = {}"
  shows "pool_repr p xs fulls frees"
  using assms by (simp add: pool_repr_def)

lemma statuses_simps [simp]:
  "statuses (put_fiber a f w) = (statuses w)(a \<mapsto> fb_status f)"
  "statuses (w\<lparr>fw_current := c\<rparr>) = statuses w"
  by (auto simp: statuses_def fun_eq_iff)

lemma statuses_dom: "statuses w a = Some s \<Longrightarrow> \<exists>f. fw_fibers w a = Some f \<and> fb_status f = s"
  by (auto simp: statuses_def)

lemma heads_apart [simp]:
  "set (Full_list # map Full_entry xs) \<inter> set (Free_list # map Free_entry ys) = {}"
  "set (Free_list # map Free_entry ys) \<inter> set (Full_list # map Full_entry xs) = {}"
  by auto

text \<open>Changing a fiber without its parent link leaves the active list alone.\<close>

lemma active_put:
  assumes "active w xs" "fw_fibers w a = Some f \<and> fb_parent f' = fb_parent f \<or> a \<notin> set xs"
  shows "active (put_fiber a f' w) xs"
proof -
  have "links_up ((fw_fibers w)(a \<mapsto> f')) xs = links_up (fw_fibers w) xs"
    by (rule links_up_cong) (use assms(2) in auto)
  with assms(1) show ?thesis by (simp add: active_def)
qed

text \<open>A fiber that runs, other than the thread, is a coroutine that has not exited.\<close>

lemma running_coroutine:
  assumes "pool_repr p xs fulls frees" "co \<in> set xs" "co \<noteq> fw_thread (cp_sched p)"
  shows "co \<in> set fulls" "co \<notin> set frees" "statuses (cp_sched p) co = Some FIBER_STATUS_INITED"
proof -
  note R = pool_reprD [OF assms(1)]
  have "\<exists>f. fw_fibers (cp_sched p) co = Some f"
    using R(1) assms(2) links_up_defined by (auto simp: active_def)
  with R(7) assms(3) show "co \<in> set fulls" by blast
  moreover show "co \<notin> set frees" using R(12) assms(2) by blast
  ultimately show "statuses (cp_sched p) co = Some FIBER_STATUS_INITED" using R(10) by simp
qed

section \<open>Each operation\<close>

lemma pool_init_repr:
  assumes "dom (fw_fibers (cp_sched pool)) = {fw_thread (cp_sched pool)}" "dom (cp_cos pool) = {}"
  shows "pool_repr (ef_coroutine_pool_init pool page ss alt act stack_size mn mx) [fw_thread (cp_sched pool)] [] []"
proof -
  have "ring (ef_list_init Free_list (ef_list_init Full_list (cp_links pool))) Full_list []"
    by (rule ring_init_frame) (simp_all add: ring_init)
  moreover have "fw_fibers (cp_sched pool) (fw_thread (cp_sched pool)) \<noteq> None" using assms(1) by blast
  ultimately show ?thesis using assms
    by (simp add: pool_repr_def ef_coroutine_pool_init_def ef_fiber_init_sched_def Let_def active_def ring_init)
qed

lemma create_reuse:
  assumes R: "pool_repr p xs fulls (co # frees)"
  shows "\<exists>p'. ef_coroutine_create p stack mapped h fproc param = Some (Some co, p') \<and> pool_repr p' xs fulls frees \<and>
    cp_cos p' = cp_cos p \<and> cp_limit_max p' = cp_limit_max p \<and> cp_limit_min p' = cp_limit_min p \<and>
    fw_thread (cp_sched p') = fw_thread (cp_sched p)"
proof -
  note D = pool_reprD [OF R]
  have ne: "co \<in> set fulls" "co \<notin> set xs" "co \<notin> set frees" using D(11,12,14) by auto
  then obtain f where f: "fw_fibers (cp_sched p) co = Some f"
    using D(10) statuses_dom by fastforce
  let ?f = "f\<lparr>fb_status := FIBER_STATUS_INITED, fb_stack_ptr := fb_stack_upper f - 128,
      fb_start := (fproc, if param \<noteq> 0 then param else co)\<rparr>"
  have rm: "ef_list_remove_after Free_list (cp_links p) = (Some (Free_entry co), ef_list_remove (Free_entry co) (cp_links p))"
    "ring (ef_list_remove (Free_entry co) (cp_links p)) Free_list (map Free_entry frees)"
    using ring_remove_after D(3) by simp_all
  let ?p = "p\<lparr>cp_free_count := cp_free_count p - 1, cp_links := ef_list_remove (Free_entry co) (cp_links p),
      cp_sched := put_fiber co ?f (cp_sched p)\<rparr>"
  have full: "ring (ef_list_remove (Free_entry co) (cp_links p)) Full_list (map Full_entry fulls)"
    by (rule ring_remove_frame [OF D(3) _ D(2)]) auto
  have "ef_coroutine_create p stack mapped h fproc param = Some (Some co, ?p)"
    using D(5) f by (simp add: ef_coroutine_create_def Let_def rm(1) ef_fiber_init_def)
  moreover have "pool_repr ?p xs fulls frees"
  proof (rule pool_reprI)
    show "active (cp_sched ?p) xs" using active_put [OF D(1), of co f ?f] f by simp
    show "statuses (cp_sched ?p) c = Some (if c \<in> set frees then FIBER_STATUS_EXITED else FIBER_STATUS_INITED)"
      if "c \<in> set fulls" for c
      using D(10) [OF that] ne(3) by simp
    show "dom (fw_fibers (cp_sched ?p)) = insert (fw_thread (cp_sched ?p)) (set fulls)"
      using D(7) f by auto
  qed (use D full rm(2) in simp_all)
  ultimately show ?thesis by auto
qed

lemma ef_fiber_create_outcome:
  assumes "64 \<le> unat h" "uint h + 128 \<le> fw_page w"
  obtains (fail) "ef_fiber_create w stack mapped s h fproc param = Some (None, w)" "stack = None \<or> \<not> mapped"
  | (ok) st f where "stack = Some st" "mapped" "fb_status f = FIBER_STATUS_INITED"
      "ef_fiber_create w stack mapped s h fproc param =
         Some (Some (st + round_stack (fw_page w) s - h), put_fiber (st + round_stack (fw_page w) s - h) f w)"
proof (cases stack)
  case None
  then show thesis by (intro fail) (simp_all add: ef_fiber_create_def)
next
  case (Some st)
  show thesis
  proof (cases mapped)
    case True
    let ?a = "st + round_stack (fw_page w) s - h"
    let ?f = "\<lparr>fb_stack_size = round_stack (fw_page w) s, fb_stack_area = st, fb_stack_upper = ?a,
        fb_stack_lower = st + round_stack (fw_page w) s - of_int (fw_page w), fb_stack_ptr = ?a - 128,
        fb_status = FIBER_STATUS_INITED, fb_parent = None, fb_start = (fproc, if param \<noteq> 0 then param else ?a)\<rparr>"
    have "ef_fiber_create w stack mapped s h fproc param = Some (Some ?a, put_fiber ?a ?f w)"
      using Some True assms by (simp add: ef_fiber_create_def ef_fiber_init_def Let_def put_fiber_def)
    then show thesis using Some True by (intro ok [of st ?f]) simp_all
  qed (use Some in \<open>intro fail; simp add: ef_fiber_create_def\<close>)
qed

definition new_address :: "co_pool \<Rightarrow> u64 option \<Rightarrow> u64 \<Rightarrow> u64" where
  "new_address p stack h = (case stack of None \<Rightarrow> 0 | Some st \<Rightarrow> st + round_stack (fw_page (cp_sched p)) (cp_stack_size p) - h)"

text \<open>What is assumed of a call: the header fits, and the system hands out memory not in use.\<close>

definition create_ok :: "co_pool \<Rightarrow> u64 option \<Rightarrow> u64 \<Rightarrow> bool" where
  "create_ok p stack h \<longleftrightarrow> 64 \<le> unat h \<and> uint h + 128 \<le> fw_page (cp_sched p) \<and>
     (stack \<noteq> None \<longrightarrow> fw_fibers (cp_sched p) (new_address p stack h) = None)"

lemma create_fresh:
  assumes R: "pool_repr p xs fulls []" and ok: "create_ok p stack h"
  shows "\<exists>r p'. ef_coroutine_create p stack mapped h fproc param = Some (r, p') \<and>
    (case r of
       None \<Rightarrow> p' = p \<and> (cp_limit_max p \<le> int (length fulls) \<or> stack = None \<or> \<not> mapped)
     | Some co \<Rightarrow> co \<notin> set fulls \<and> stack \<noteq> None \<and> mapped \<and> pool_repr p' xs (co # fulls) [] \<and>
         cp_limit_max p' = cp_limit_max p \<and> cp_limit_min p' = cp_limit_min p \<and> fw_thread (cp_sched p') = fw_thread (cp_sched p))"
proof (cases "cp_limit_max p \<le> cp_full_count p")
  case True
  with pool_reprD(4,5) [OF R] show ?thesis by (intro exI [of _ None] exI [of _ p]) (simp add: ef_coroutine_create_def)
next
  case False
  note D = pool_reprD [OF R]
  have step: "ef_coroutine_create p stack mapped h fproc param =
      do { (r, w) \<leftarrow> ef_fiber_create (cp_sched p) stack mapped (cp_stack_size p) h fproc param;
           case r of
             None \<Rightarrow> Some (None, p\<lparr>cp_sched := w\<rparr>)
           | Some co \<Rightarrow>
               Some (Some co, p\<lparr>cp_sched := w, cp_cos := (cp_cos p)(co \<mapsto> \<lparr>cr_last_run_time = (0, 0), cr_run_count = 0\<rparr>),
                                cp_full_count := cp_full_count p + 1,
                                cp_links := ef_list_insert_after Full_list (Full_entry co) (cp_links p)\<rparr>) }"
    using D(5) False by (simp add: ef_coroutine_create_def)
  have hdr: "64 \<le> unat h" "uint h + 128 \<le> fw_page (cp_sched p)" using ok by (simp_all add: create_ok_def)
  show ?thesis
  proof (rule ef_fiber_create_outcome [OF hdr, of stack mapped "cp_stack_size p" fproc param])
    assume "ef_fiber_create (cp_sched p) stack mapped (cp_stack_size p) h fproc param = Some (None, cp_sched p)"
      "stack = None \<or> \<not> mapped"
    then show ?thesis by (intro exI [of _ None] exI [of _ p]) (simp add: step)
  next
    fix st f
    let ?a = "st + round_stack (fw_page (cp_sched p)) (cp_stack_size p) - h"
    assume c: "stack = Some st" mapped "fb_status f = FIBER_STATUS_INITED"
      "ef_fiber_create (cp_sched p) stack mapped (cp_stack_size p) h fproc param = Some (Some ?a, put_fiber ?a f (cp_sched p))"
    have "fw_fibers (cp_sched p) ?a = None" using ok c(1) by (simp add: create_ok_def new_address_def)
    then have fresh: "?a \<notin> set fulls" "?a \<noteq> fw_thread (cp_sched p)" using D(7) by blast+
    have nx: "?a \<notin> set xs"
      using D(1) \<open>fw_fibers (cp_sched p) ?a = None\<close> links_up_defined [of "fw_fibers (cp_sched p)" xs ?a]
      by (auto simp: active_def)
    let ?p = "p\<lparr>cp_sched := put_fiber ?a f (cp_sched p), cp_cos := (cp_cos p)(?a \<mapsto> \<lparr>cr_last_run_time = (0, 0), cr_run_count = 0\<rparr>),
        cp_full_count := cp_full_count p + 1, cp_links := ef_list_insert_after Full_list (Full_entry ?a) (cp_links p)\<rparr>"
    have full: "ring (cp_links ?p) Full_list (map Full_entry (?a # fulls))"
      using ring_insert_after [OF D(2), of "Full_entry ?a"] fresh(1) by auto
    have free: "ring (cp_links ?p) Free_list (map Free_entry [])"
      using ring_insert_after_frame [OF D(2) D(3), of "Full_entry ?a"] by auto
    have "pool_repr ?p xs (?a # fulls) []"
    proof (rule pool_reprI)
      show "active (cp_sched ?p) xs" using active_put [OF D(1)] nx by simp
      show "dom (fw_fibers (cp_sched ?p)) = insert (fw_thread (cp_sched ?p)) (set (?a # fulls))"
        using D(7) by auto
      show "statuses (cp_sched ?p) co = Some (if co \<in> set [] then FIBER_STATUS_EXITED else FIBER_STATUS_INITED)"
        if "co \<in> set (?a # fulls)" for co
        using that D(10) [of co] c(3) by auto
    qed (use D full free fresh False in \<open>auto simp del: list.map\<close>)
    then show ?thesis
      unfolding step c(4) using c(1,2) fresh by (intro exI [of _ "Some ?a"] exI [of _ ?p]) simp
  qed
qed

lemma resume_pool:
  assumes R: "pool_repr p xs fulls frees" and co: "co \<in> set fulls"
  shows "co \<in> set frees \<Longrightarrow> ef_coroutine_resume p co sp = Some (Inl 0)"
    and "co \<notin> set frees \<Longrightarrow> co \<notin> set xs \<Longrightarrow>
      \<exists>p'. ef_coroutine_resume p co sp = Some (Inr p') \<and> pool_repr p' (co # xs) fulls frees \<and> fw_current (cp_sched p') = co \<and>
        p' = p\<lparr>cp_sched := cp_sched p'\<rparr> \<and> fw_thread (cp_sched p') = fw_thread (cp_sched p)"
proof -
  note D = pool_reprD [OF R]
  from D(10) [OF co] obtain f where f: "fw_fibers (cp_sched p) co = Some f"
    "fb_status f = (if co \<in> set frees then FIBER_STATUS_EXITED else FIBER_STATUS_INITED)"
    using statuses_dom by blast
  show "co \<in> set frees \<Longrightarrow> ef_coroutine_resume p co sp = Some (Inl 0)"
    using f by (simp add: ef_coroutine_resume_def ef_fiber_resume_def FIBER_STATUS_EXITED_def FIBER_STATUS_INITED_def)
  assume new: "co \<notin> set frees" "co \<notin> set xs"
  then have st: "fb_status f = FIBER_STATUS_INITED" using f(2) by simp
  from resume_active [OF D(1) new(2) f(1) st, of sp] obtain w where w:
    "ef_fiber_resume (cp_sched p) co sp = Some (Inr w)" "active w (co # xs)" "fw_thread w = fw_thread (cp_sched p)"
    "dom (fw_fibers w) = dom (fw_fibers (cp_sched p))"
    "\<forall>a. map_option fb_status (fw_fibers w a) = map_option fb_status (fw_fibers (cp_sched p) a)" by blast
  from w(5) have "statuses w = statuses (cp_sched p)" by (simp add: statuses_def fun_eq_iff)
  then have "pool_repr (p\<lparr>cp_sched := w\<rparr>) (co # xs) fulls frees"
    using D w new by (intro pool_reprI) simp_all
  moreover have "fw_current w = co" using w(2) by (simp add: active_def)
  ultimately show "\<exists>p'. ef_coroutine_resume p co sp = Some (Inr p') \<and> pool_repr p' (co # xs) fulls frees \<and>
      fw_current (cp_sched p') = co \<and> p' = p\<lparr>cp_sched := cp_sched p'\<rparr> \<and> fw_thread (cp_sched p') = fw_thread (cp_sched p)"
    using w(1,3) by (intro exI [of _ "p\<lparr>cp_sched := w\<rparr>"]) (simp add: ef_coroutine_resume_def)
qed

lemma active_tail: "active w xs \<Longrightarrow> fw_current w \<noteq> fw_thread w \<Longrightarrow> \<exists>p ys. xs = fw_current w # p # ys"
  by (erule active_cases) auto

lemma yield_pool:
  assumes R: "pool_repr p xs fulls frees" and cur: "fw_current (cp_sched p) \<noteq> fw_thread (cp_sched p)"
  shows "\<exists>p'. coroutine_yields p sp now = Some p' \<and> pool_repr p' (tl xs) fulls frees \<and>
    p' = p\<lparr>cp_sched := cp_sched p'\<rparr> \<and> fw_thread (cp_sched p') = fw_thread (cp_sched p)"
proof -
  note D = pool_reprD [OF R]
  from leave_active [OF D(1) cur, where sp = sp] obtain q ys f where
    x: "xs = fw_current (cp_sched p) # q # ys" and f: "fw_fibers (cp_sched p) (fw_current (cp_sched p)) = Some f"
    and y: "ef_fiber_yield (cp_sched p) sp =
        Some ((put_fiber (fw_current (cp_sched p)) (f\<lparr>fb_stack_ptr := sp\<rparr>) (cp_sched p))\<lparr>fw_current := q\<rparr>)"
      "active ((put_fiber (fw_current (cp_sched p)) (f\<lparr>fb_stack_ptr := sp\<rparr>) (cp_sched p))\<lparr>fw_current := q\<rparr>) (q # ys)" by metis
  have "fw_current (cp_sched p) \<in> set xs" using x by simp
  note run = running_coroutine [OF R this cur]
  then have st: "fb_status f = FIBER_STATUS_INITED" using f by (simp add: statuses_def)
  let ?p = "p\<lparr>cp_sched := (put_fiber (fw_current (cp_sched p)) (f\<lparr>fb_stack_ptr := sp\<rparr>) (cp_sched p))\<lparr>fw_current := q\<rparr>\<rparr>"
  have "coroutine_yields p sp now = Some ?p"
    using y(1) st
    by (simp add: coroutine_yields_def resume_returns_def ef_fiber_is_exited_def FIBER_STATUS_EXITED_def FIBER_STATUS_INITED_def)
  moreover have "pool_repr ?p (tl xs) fulls frees"
  proof (rule pool_reprI)
    show "dom (fw_fibers (cp_sched ?p)) = insert (fw_thread (cp_sched ?p)) (set fulls)" using D(7) f by auto
    show "statuses (cp_sched ?p) co = Some (if co \<in> set frees then FIBER_STATUS_EXITED else FIBER_STATUS_INITED)"
      if "co \<in> set fulls" for co
      using D(10) [OF that] st run(2) by simp
    show "set frees \<inter> set (tl xs) = {}" using D(12) x by auto
  qed (use D y(2) x in simp_all)
  ultimately show ?thesis by (intro exI [of _ ?p]) simp
qed

lemma end_pool:
  assumes R: "pool_repr p xs fulls frees" and cur: "fw_current (cp_sched p) \<noteq> fw_thread (cp_sched p)"
  shows "\<exists>p'. coroutine_ends p now = Some p' \<and> pool_repr p' (tl xs) fulls (fw_current (cp_sched p) # frees) \<and>
    cp_limit_max p' = cp_limit_max p \<and> cp_limit_min p' = cp_limit_min p \<and> fw_thread (cp_sched p') = fw_thread (cp_sched p) \<and>
    cp_run_count p' = cp_run_count p + 1"
proof -
  note D = pool_reprD [OF R]
  let ?c = "fw_current (cp_sched p)"
  from leave_active [OF D(1) cur] obtain q ys f where
    x: "xs = ?c # q # ys" and f: "fw_fibers (cp_sched p) ?c = Some f"
    and y: "ef_fiber_exit (cp_sched p) =
        Some ((put_fiber ?c (f\<lparr>fb_status := FIBER_STATUS_EXITED\<rparr>) (cp_sched p))\<lparr>fw_current := q\<rparr>)"
      "active ((put_fiber ?c (f\<lparr>fb_status := FIBER_STATUS_EXITED\<rparr>) (cp_sched p))\<lparr>fw_current := q\<rparr>) (q # ys)" by metis
  have "?c \<in> set xs" using x by simp
  note run = running_coroutine [OF R this cur]
  then obtain c where c: "cp_cos p ?c = Some c" using D(9) by blast
  let ?w = "(put_fiber ?c (f\<lparr>fb_status := FIBER_STATUS_EXITED\<rparr>) (cp_sched p))\<lparr>fw_current := q\<rparr>"
  let ?p = "p\<lparr>cp_sched := ?w, cp_cos := (cp_cos p)(?c \<mapsto> c\<lparr>cr_run_count := cr_run_count c + 1, cr_last_run_time := now\<rparr>),
      cp_links := ef_list_insert_after Free_list (Free_entry ?c) (cp_links p), cp_free_count := cp_free_count p + 1,
      cp_run_count := cp_run_count p + 1\<rparr>"
  have free: "ring (cp_links ?p) Free_list (map Free_entry (?c # frees))"
    using ring_insert_after [OF D(3), of "Free_entry ?c"] run(2) by auto
  have full: "ring (cp_links ?p) Full_list (map Full_entry fulls)"
    using ring_insert_after_frame [OF D(3) D(2), of "Free_entry ?c"] by auto
  have "coroutine_ends p now = Some ?p"
    using y(1) c by (simp add: coroutine_ends_def resume_returns_def ef_fiber_is_exited_def Let_def)
  moreover have "pool_repr ?p (tl xs) fulls (?c # frees)"
  proof (rule pool_reprI)
    show "dom (fw_fibers (cp_sched ?p)) = insert (fw_thread (cp_sched ?p)) (set fulls)" using D(7) f by auto
    show "statuses (cp_sched ?p) co = Some (if co \<in> set (?c # frees) then FIBER_STATUS_EXITED else FIBER_STATUS_INITED)"
      if "co \<in> set fulls" for co
      using D(10) [OF that] by auto
    show "set (?c # frees) \<inter> set (tl xs) = {}" using D(1,12) x by (auto simp: active_def)
    show "dom (cp_cos ?p) = set fulls" using D(9) c by auto
  qed (use D y(2) x full free run in \<open>simp_all del: list.map\<close>)
  ultimately show ?thesis by (intro exI [of _ ?p]) simp
qed

section \<open>Shrinking\<close>

text \<open>The coroutines a shrink deletes: from the end of \<open>frees\<close>, while they are idle.\<close>

definition idle_tail :: "co_pool \<Rightarrow> nat \<Rightarrow> int \<times> int \<Rightarrow> int \<Rightarrow> u64 list \<Rightarrow> u64 list" where
  "idle_tail p n tv idle frees =
     takeWhile (\<lambda>co. case cp_cos p co of Some c \<Rightarrow> idle_enough tv (cr_last_run_time c) idle | None \<Rightarrow> False) (take n (rev frees))"

lemma idle_tail_Nil [simp]: "idle_tail p n tv idle [] = []"
  by (simp add: idle_tail_def)

lemma idle_tail_0 [simp]: "idle_tail p 0 tv idle frees = []"
  by (simp add: idle_tail_def)

lemma idle_tail_snoc:
  "cp_cos p co = Some c \<Longrightarrow> idle_tail p (Suc n) tv idle (frees @ [co]) =
     (if idle_enough tv (cr_last_run_time c) idle then co # idle_tail p n tv idle frees else [])"
  by (simp add: idle_tail_def)

lemma idle_tail_cong: "(\<And>co. co \<in> set frees \<Longrightarrow> cp_cos p co = cp_cos q co) \<Longrightarrow> idle_tail p n tv idle frees = idle_tail q n tv idle frees"
  unfolding idle_tail_def by (rule takeWhile_cong) (auto dest: in_set_takeD)

lemma idle_tail_length: "length (idle_tail p n tv idle frees) \<le> n"
  unfolding idle_tail_def using length_takeWhile_le by (metis length_take min.bounded_iff)

lemma shrink_one:
  assumes R: "pool_repr p xs fulls (frees @ [co])"
  defines "q \<equiv> p\<lparr>cp_free_count := cp_free_count p - 1, cp_full_count := cp_full_count p - 1,
      cp_links := ef_list_remove (Full_entry co) (ef_list_remove (Free_entry co) (cp_links p)),
      cp_sched := (cp_sched p)\<lparr>fw_fibers := (fw_fibers (cp_sched p))(co := None)\<rparr>, cp_cos := (cp_cos p)(co := None)\<rparr>"
  shows "pool_repr q xs (remove1 co fulls) frees"
proof -
  note D = pool_reprD [OF R]
  have co: "co \<in> set fulls" "co \<notin> set frees" "co \<notin> set xs" using D(11,12,14) by auto
  then obtain us vs where split: "fulls = us @ co # vs" "co \<notin> set us" by (auto dest: split_list_first)
  then have rest: "remove1 co fulls = us @ vs" by (simp add: remove1_append)
  have nv: "co \<notin> set vs" using D(13) split by auto
  let ?L1 = "ef_list_remove (Free_entry co) (cp_links p)"
  have free1: "ring ?L1 Free_list (map Free_entry frees)"
    using ring_remove [of "cp_links p" Free_list "map Free_entry frees" "Free_entry co" "[]"] D(3) by simp
  have full1: "ring ?L1 Full_list (map Full_entry fulls)"
    by (rule ring_remove_frame [OF D(3) _ D(2)]) auto
  have "ring (ef_list_remove (Full_entry co) ?L1) Full_list (map Full_entry us @ map Full_entry vs)"
    by (rule ring_remove) (use full1 split in simp)
  then have full: "ring (cp_links q) Full_list (map Full_entry (us @ vs))" by (simp add: q_def)
  have "ring (ef_list_remove (Full_entry co) ?L1) Free_list (map Free_entry frees)"
    by (rule ring_remove_frame [OF full1 _ free1]) (use split in auto)
  then have free: "ring (cp_links q) Free_list (map Free_entry frees)" by (simp add: q_def)
  have "links_up ((fw_fibers (cp_sched p))(co := None)) xs = links_up (fw_fibers (cp_sched p)) xs"
    by (rule links_up_cong) (use co(3) in auto)
  then have act: "active (cp_sched q) xs" using D(1) by (simp add: active_def q_def)
  show ?thesis unfolding rest
  proof (rule pool_reprI)
    show "dom (fw_fibers (cp_sched q)) = insert (fw_thread (cp_sched q)) (set (us @ vs))"
      using D(7,8) split nv co by (auto simp: q_def)
    show "statuses (cp_sched q) c = Some (if c \<in> set frees then FIBER_STATUS_EXITED else FIBER_STATUS_INITED)"
      if "c \<in> set (us @ vs)" for c
      using D(10) [of c] that split nv by (auto simp: q_def statuses_def)
    show "dom (cp_cos q) = set (us @ vs)" using D(9) split nv by (auto simp: q_def)
    show "set frees \<subseteq> set (us @ vs)" using D(11) split co by auto
    show "us @ vs = [] \<or> cp_full_count q \<le> cp_limit_max q" using D(6) split by (auto simp: q_def)
  qed (use D full free act split in \<open>auto simp: q_def\<close>)
qed

lemma shrink_loop_correct:
  assumes "pool_repr p xs fulls frees" "list_tail = ef_list_entry_before (cp_links p) Free_list"
  shows "\<exists>p'. shrink_loop n p list_tail tv idle k = Some (k + int (length (idle_tail p n tv idle frees)), p') \<and>
    pool_repr p' xs (foldr remove1 (rev (idle_tail p n tv idle frees)) fulls)
      (take (length frees - length (idle_tail p n tv idle frees)) frees) \<and>
    cp_limit_max p' = cp_limit_max p \<and> cp_limit_min p' = cp_limit_min p \<and> fw_thread (cp_sched p') = fw_thread (cp_sched p)"
  using assms
proof (induction n arbitrary: p fulls frees list_tail k)
  case (Suc n)
  note D = pool_reprD [OF Suc.prems(1)]
  show ?case
  proof (cases frees rule: rev_cases)
    case Nil
    with D(3) Suc.prems have "list_tail = Free_list" by (simp add: ring_Nil_iff ef_list_entry_before_def)
    with Suc.prems(1) Nil show ?thesis by simp
  next
    case (snoc fs co)
    have tail: "list_tail = Free_entry co"
      using Suc.prems(2) ring_last [OF D(3)] snoc by simp
    have "co \<in> set fulls" using D(11) snoc by auto
    then obtain c where c: "cp_cos p co = Some c" using D(9) by blast
    have "\<exists>f. fw_fibers (cp_sched p) co = Some f" using D(10) [OF \<open>co \<in> set fulls\<close>] statuses_dom by blast
    then have del: "ef_fiber_delete (cp_sched p) co = Some ((cp_sched p)\<lparr>fw_fibers := (fw_fibers (cp_sched p))(co := None)\<rparr>)"
      by (auto simp: ef_fiber_delete_def)
    show ?thesis
    proof (cases "idle_enough tv (cr_last_run_time c) idle")
      case False
      then have "shrink_loop (Suc n) p list_tail tv idle k = Some (k, p)"
        by (simp add: tail c)
      moreover have "idle_tail p (Suc n) tv idle frees = []" using False by (simp add: snoc idle_tail_snoc [OF c])
      ultimately show ?thesis using Suc.prems(1) by simp
    next
      case True
      define q where "q = p\<lparr>cp_free_count := cp_free_count p - 1, cp_full_count := cp_full_count p - 1,
          cp_links := ef_list_remove (Full_entry co) (ef_list_remove (Free_entry co) (cp_links p)),
          cp_sched := (cp_sched p)\<lparr>fw_fibers := (fw_fibers (cp_sched p))(co := None)\<rparr>, cp_cos := (cp_cos p)(co := None)\<rparr>"
      have R: "pool_repr q xs (remove1 co fulls) fs"
        unfolding q_def by (rule shrink_one) (use Suc.prems(1) snoc in simp)
      have prev: "ef_list_entry_before (cp_links p) list_tail = ef_list_entry_before (cp_links q) Free_list"
      proof -
        have "ring (cp_links p) (Free_entry co) (Free_list # map Free_entry fs)"
          using D(3) ring_rotate [of "cp_links p" Free_list "map Free_entry fs" "Free_entry co" "[]"] snoc by simp
        then have "ef_list_entry_before (cp_links p) (Free_entry co) = last (Free_list # map Free_entry fs)"
          using ring_last by fastforce
        with ring_last [OF pool_reprD(3) [OF R]] tail show ?thesis by simp
      qed
      have step: "shrink_loop (Suc n) p list_tail tv idle k =
          shrink_loop n q (ef_list_entry_before (cp_links q) Free_list) tv idle (k + 1)"
        using True del unfolding prev [symmetric] by (simp add: tail c q_def Let_def)
      have "co \<notin> set fs" using D(14) snoc by simp
      then have same: "idle_tail q n tv idle fs = idle_tail p n tv idle fs"
        by (intro idle_tail_cong) (auto simp: q_def)
      have it: "idle_tail p (Suc n) tv idle frees = co # idle_tail p n tv idle fs"
        using True by (simp add: snoc idle_tail_snoc [OF c])
      from Suc.IH [OF R refl, of "k + 1"] obtain p' where p': "shrink_loop n q (ef_list_entry_before (cp_links q) Free_list) tv idle (k + 1) =
          Some (k + 1 + int (length (idle_tail p n tv idle fs)), p')"
        "pool_repr p' xs (foldr remove1 (rev (idle_tail p n tv idle fs)) (remove1 co fulls))
          (take (length fs - length (idle_tail p n tv idle fs)) fs)"
        "cp_limit_max p' = cp_limit_max q" "cp_limit_min p' = cp_limit_min q" "fw_thread (cp_sched p') = fw_thread (cp_sched q)"
        unfolding same by blast
      have "take (length frees - length (idle_tail p (Suc n) tv idle frees)) frees = take (length fs - length (idle_tail p n tv idle fs)) fs"
        unfolding it by (simp add: snoc)
      moreover have "cp_limit_max q = cp_limit_max p" "cp_limit_min q = cp_limit_min p"
          "fw_thread (cp_sched q) = fw_thread (cp_sched p)"
        by (simp_all add: q_def)
      ultimately show ?thesis unfolding step p'(1) using p' it by (intro exI [of _ p']) simp
    qed
  qed
qed simp

lemma idle_tail_eq:
  "idle_tail p n tv idle frees = rev (drop (length frees - length (idle_tail p n tv idle frees)) frees)"
proof -
  let ?P = "\<lambda>co. case cp_cos p co of Some c \<Rightarrow> idle_enough tv (cr_last_run_time c) idle | None \<Rightarrow> False"
  have "idle_tail p n tv idle frees = take (length (idle_tail p n tv idle frees)) (take n (rev frees))"
    unfolding idle_tail_def by (metis takeWhile_eq_take)
  then have "idle_tail p n tv idle frees = take (length (idle_tail p n tv idle frees)) (rev frees)"
    using idle_tail_length by (metis min.absorb1 take_take)
  then show ?thesis by (simp add: take_rev)
qed

lemma foldr_remove1: "distinct xs \<Longrightarrow> foldr remove1 ds xs = filter (\<lambda>x. x \<notin> set ds) xs"
  by (induction ds) (auto simp: distinct_remove1_removeAll removeAll_filter_not_eq intro: filter_cong)

section \<open>Reachable pools\<close>

text \<open>
  The steps of a pool, in any order; the second argument lists the active fibers.  A coroutine
  that is active already is not resumed.
\<close>

inductive pool_reach :: "co_pool \<Rightarrow> u64 list \<Rightarrow> bool" where
  init: "dom (fw_fibers (cp_sched pool)) = {fw_thread (cp_sched pool)} \<Longrightarrow> dom (cp_cos pool) = {} \<Longrightarrow>
    pool_reach (ef_coroutine_pool_init pool page ss alt act stack_size mn mx) [fw_thread (cp_sched pool)]"
| create: "pool_reach p xs \<Longrightarrow> create_ok p stack h \<Longrightarrow>
    ef_coroutine_create p stack mapped h fproc param = Some (r, p') \<Longrightarrow> pool_reach p' xs"
| resume: "pool_reach p xs \<Longrightarrow> co \<in> dom (cp_cos p) \<Longrightarrow> co \<notin> set xs \<Longrightarrow>
    ef_coroutine_resume p co sp = Some (Inr p') \<Longrightarrow> pool_reach p' (co # xs)"
| yields: "pool_reach p xs \<Longrightarrow> fw_current (cp_sched p) \<noteq> fw_thread (cp_sched p) \<Longrightarrow>
    coroutine_yields p sp now = Some p' \<Longrightarrow> pool_reach p' (tl xs)"
| ends: "pool_reach p xs \<Longrightarrow> fw_current (cp_sched p) \<noteq> fw_thread (cp_sched p) \<Longrightarrow>
    coroutine_ends p now = Some p' \<Longrightarrow> pool_reach p' (tl xs)"
| shrink: "pool_reach p xs \<Longrightarrow> ef_coroutine_pool_shrink p idle max_count tv = Some (r, p') \<Longrightarrow> pool_reach p' xs"

lemma shrink_repr:
  assumes R: "pool_repr p xs fulls frees"
  shows "\<exists>n p'. ef_coroutine_pool_shrink p idle mc tv = Some (int n, p') \<and> n \<le> length frees \<and>
    pool_repr p' xs (filter (\<lambda>co. co \<notin> set (drop (length frees - n) frees)) fulls) (take (length frees - n) frees) \<and>
    cp_limit_max p' = cp_limit_max p \<and> cp_limit_min p' = cp_limit_min p \<and>
    (\<forall>co \<in> set (drop (length frees - n) frees). \<exists>c. cp_cos p co = Some c \<and> idle_enough tv (cr_last_run_time c) idle) \<and>
    (0 < mc \<longrightarrow> int n \<le> mc \<and> (n = 0 \<or> cp_limit_min p \<le> cp_full_count p'))"
proof (cases "cp_free_count p \<le> 0 \<or> (mc > 0 \<and> cp_full_count p \<le> cp_limit_min p)")
  case True
  with R show ?thesis by (intro exI [of _ 0] exI [of _ p]) (simp add: ef_coroutine_pool_shrink_def)
next
  case False
  note D = pool_reprD [OF R]
  define b where "b = cp_full_count p - cp_limit_min p"
  define m1 where "m1 = (if mc > b then b else mc)"
  define m where "m = (if m1 < 0 then - m1 else m1)"
  define it where "it = idle_tail p (nat m) tv idle frees"
  have eq: "ef_coroutine_pool_shrink p idle mc tv =
      shrink_loop (nat m) p (ef_list_entry_before (cp_links p) Free_list) tv idle 0"
    unfolding ef_coroutine_pool_shrink_def if_not_P [OF False] by (simp add: b_def m1_def m_def Let_def)
  from shrink_loop_correct [OF R refl, of "nat m" tv idle 0] obtain p' where p':
    "shrink_loop (nat m) p (ef_list_entry_before (cp_links p) Free_list) tv idle 0 = Some (int (length it), p')"
    "pool_repr p' xs (foldr remove1 (rev it) fulls) (take (length frees - length it) frees)"
    "cp_limit_max p' = cp_limit_max p" "cp_limit_min p' = cp_limit_min p"
    unfolding it_def by auto
  have it_eq: "it = rev (drop (length frees - length it) frees)"
    unfolding it_def by (rule idle_tail_eq)
  then have le: "length it \<le> length frees" by (metis diff_le_self length_drop length_rev)
  have set_it: "set it = set (drop (length frees - length it) frees)" by (metis it_eq set_rev)
  then have fulls: "foldr remove1 (rev it) fulls = filter (\<lambda>co. co \<notin> set (drop (length frees - length it) frees)) fulls"
    using D(13) by (simp add: foldr_remove1)
  have idle: "\<exists>c. cp_cos p co = Some c \<and> idle_enough tv (cr_last_run_time c) idle" if "co \<in> set it" for co
    using that unfolding it_def idle_tail_def by (auto dest: set_takeWhileD split: option.splits)
  have lim: "int (length it) \<le> mc \<and> (length it = 0 \<or> cp_limit_min p \<le> cp_full_count p')" if "0 < mc"
  proof -
    have b: "0 < b" using False that by (simp add: b_def)
    then have "0 \<le> m" "m \<le> mc" "m \<le> b" using that by (auto simp: m_def m1_def)
    then have n: "int (length it) \<le> m" using idle_tail_length [of p "nat m" tv idle frees] by (simp add: it_def)
    have "card (set fulls - set it) = length fulls - length it"
    proof -
      have "distinct it" using D(14) it_eq by (metis distinct_drop distinct_rev)
      moreover have "set it \<subseteq> set fulls" using set_it D(11) by (metis dual_order.trans set_drop_subset)
      ultimately show ?thesis using D(13) by (simp add: card_Diff_subset distinct_card)
    qed
    moreover have "set (filter (\<lambda>co. co \<notin> set it) fulls) = set fulls - set it" by auto
    then have "length (filter (\<lambda>co. co \<notin> set it) fulls) = card (set fulls - set it)"
      using D(13) distinct_card [of "filter (\<lambda>co. co \<notin> set it) fulls"] by simp
    ultimately have "cp_full_count p' = int (length fulls - length it)"
      using pool_reprD(4) [OF p'(2)] D(13) by (simp add: foldr_remove1)
    with n \<open>m \<le> mc\<close> \<open>m \<le> b\<close> D(4) show ?thesis by (auto simp: b_def)
  qed
  show ?thesis
    using p' le idle lim unfolding eq fulls set_it by (intro exI [of _ "length it"] exI [of _ p']) simp
qed

text \<open>Asking a pool whose coroutines have all exited for all of them, when all have been idle.\<close>

lemma shrink_everything:
  assumes R: "pool_repr p xs fulls frees" and all: "cp_free_count p = cp_full_count p"
    and idle: "\<And>co. co \<in> set frees \<Longrightarrow> \<exists>c. cp_cos p co = Some c \<and> idle_enough tv (cr_last_run_time c) idle"
  shows "\<exists>p'. ef_coroutine_pool_shrink p idle (- cp_full_count p) tv = Some (cp_full_count p, p') \<and> pool_repr p' xs [] []"
proof -
  note D = pool_reprD [OF R]
  have len: "length frees = length fulls" using all D(4,5) by simp
  have same: "set frees = set fulls"
    using card_subset_eq [OF _ D(11)] D(13,14) len by (simp add: distinct_card)
  show ?thesis
  proof (cases "frees = []")
    case True
    then show ?thesis using R D(4,5) len by (intro exI [of _ p]) (simp add: ef_coroutine_pool_shrink_def)
  next
    case False
    define m where "m = (if - cp_full_count p > cp_full_count p - cp_limit_min p then cp_limit_min p - cp_full_count p else cp_full_count p)"
    have pos: "0 < length frees" using False by simp
    have m: "length frees \<le> nat m" using D(4) len by (auto simp: m_def)
    have go: "\<not> (cp_free_count p \<le> 0 \<or> (- cp_full_count p > 0 \<and> cp_full_count p \<le> cp_limit_min p))"
      using pos D(4,5) len by auto
    have eq: "ef_coroutine_pool_shrink p idle (- cp_full_count p) tv =
        shrink_loop (nat m) p (ef_list_entry_before (cp_links p) Free_list) tv idle 0"
      unfolding ef_coroutine_pool_shrink_def if_not_P [OF go] using pos D(4) len by (auto simp: m_def Let_def)
    have "takeWhile (\<lambda>co. case cp_cos p co of Some c \<Rightarrow> idle_enough tv (cr_last_run_time c) idle | None \<Rightarrow> False) (rev frees) = rev frees"
      using idle by (intro takeWhile_eq_all_conv [THEN iffD2] ballI) (fastforce split: option.splits)
    then have it: "idle_tail p (nat m) tv idle frees = rev frees" using m by (simp add: idle_tail_def)
    from shrink_loop_correct [OF R refl, of "nat m" tv idle 0] obtain p' where
      p': "shrink_loop (nat m) p (ef_list_entry_before (cp_links p) Free_list) tv idle 0 = Some (int (length frees), p')"
        "pool_repr p' xs (foldr remove1 frees fulls) []" unfolding it by auto
    have "foldr remove1 frees fulls = []" unfolding foldr_remove1 [OF D(13)] using same by simp
    with p' show ?thesis unfolding eq using D(4) len by auto
  qed
qed

lemma pool_reach_repr: "pool_reach p xs \<Longrightarrow> \<exists>fulls frees. pool_repr p xs fulls frees"
proof (induction rule: pool_reach.induct)
  case init
  then show ?case using pool_init_repr by blast
next
  case (create p xs stack h mapped fproc param r p')
  then obtain fulls frees where R: "pool_repr p xs fulls frees" by blast
  show ?case
  proof (cases frees)
    case Nil
    with create_fresh [of p xs fulls stack h mapped fproc param] R create show ?thesis by (cases r) auto
  next
    case (Cons co fs)
    with create_reuse [of p xs fulls co fs stack mapped h fproc param] R create(3) show ?thesis by auto
  qed
next
  case (resume p xs co sp p')
  then obtain fulls frees where R: "pool_repr p xs fulls frees" by blast
  then have "co \<in> set fulls" using resume(2) pool_reprD(9) by blast
  with resume_pool [OF R this, of sp] resume show ?case by (cases "co \<in> set frees") auto
next
  case (yields p xs sp now p')
  then show ?case using yield_pool by (metis option.inject)
next
  case (ends p xs now p')
  then show ?case using end_pool by (metis option.inject)
next
  case (shrink p xs idle mc tv r p')
  then obtain fulls frees where R: "pool_repr p xs fulls frees" by blast
  from shrink_repr [OF R, of idle mc tv] shrink(2) show ?case by auto
qed

lemma pool_reachE:
  assumes "pool_reach p xs"
  obtains fulls frees where "pool_repr p xs fulls frees"
  using pool_reach_repr [OF assms] by blast

section \<open>Properties\<close>

text \<open>C28. In every state the pool can reach, by any sequence of creations, resumptions, yields, exits
  and shrinks, the two lists, the two counters, the limit and the scheduler agree: the full list
  holds exactly the coroutines, the free list exactly those that have exited, and no exited
  coroutine is active.\<close>

theorem pool_invariant:
  assumes "pool_reach p xs"
  shows "\<exists>fulls frees. pool_repr p xs fulls frees"
  using assms by (rule pool_reach_repr)

text \<open>C29. No operation of a reachable pool faults: whatever the system calls answer, creating,
  resuming a coroutine that is not active, yielding or ending the running coroutine and shrinking
  all return.\<close>

theorem pool_never_faults:
  assumes "pool_reach p xs"
  shows "(\<forall>stack mapped h fproc param. create_ok p stack h \<longrightarrow> ef_coroutine_create p stack mapped h fproc param \<noteq> None) \<and>
    (\<forall>co \<in> dom (cp_cos p) - set xs. \<forall>sp. ef_coroutine_resume p co sp \<noteq> None) \<and>
    (fw_current (cp_sched p) \<noteq> fw_thread (cp_sched p) \<longrightarrow>
       (\<forall>sp now. coroutine_yields p sp now \<noteq> None) \<and> (\<forall>now. coroutine_ends p now \<noteq> None)) \<and>
    (\<forall>idle mc tv. ef_coroutine_pool_shrink p idle mc tv \<noteq> None)"
proof -
  from assms obtain fulls frees where R: "pool_repr p xs fulls frees" by (rule pool_reachE)
  have "ef_coroutine_create p stack mapped h fproc param \<noteq> None" if "create_ok p stack h" for stack mapped h fproc param
  proof (cases frees)
    case Nil
    with create_fresh [of p xs fulls stack h mapped fproc param] R that show ?thesis by auto
  next
    case (Cons co fs)
    with create_reuse [of p xs fulls co fs stack mapped h fproc param] R show ?thesis by auto
  qed
  moreover have "ef_coroutine_resume p co sp \<noteq> None" if "co \<in> dom (cp_cos p) - set xs" for co sp
    using that resume_pool [OF R, of co sp] pool_reprD(9) [OF R] by (cases "co \<in> set frees") auto
  moreover have "ef_coroutine_pool_shrink p idle mc tv \<noteq> None" for idle mc tv
    using shrink_repr [OF R, of idle mc tv] by auto
  ultimately show ?thesis using yield_pool [OF R] end_pool [OF R] by (metis option.distinct(1))
qed

text \<open>Creating a coroutine in a reachable pool fails exactly when no exited coroutine can be reused
  and the pool is full or the system has no memory; it never lets the pool grow past its limit.\<close>

theorem pool_create_outcome:
  assumes "pool_reach p xs" "create_ok p stack h"
  shows "\<exists>r p'. ef_coroutine_create p stack mapped h fproc param = Some (r, p') \<and>
    (r = None \<longleftrightarrow> cp_free_count p = 0 \<and> (cp_limit_max p \<le> cp_full_count p \<or> stack = None \<or> \<not> mapped)) \<and>
    cp_full_count p' = cp_full_count p + (if r \<noteq> None \<and> cp_free_count p = 0 then 1 else 0) \<and>
    (cp_full_count p' = 0 \<or> cp_full_count p' \<le> cp_limit_max p)"
proof -
  from assms(1) obtain fulls frees where R: "pool_repr p xs fulls frees" by (rule pool_reachE)
  show ?thesis
  proof (cases frees)
    case (Cons co fs)
    from create_reuse [OF R [unfolded Cons]] obtain p' where
      p': "ef_coroutine_create p stack mapped h fproc param = Some (Some co, p')" "pool_repr p' xs fulls fs"
        "cp_limit_max p' = cp_limit_max p" by blast
    show ?thesis
      using p' pool_reprD(4,5,6) [OF R] pool_reprD(4,6) [OF p'(2)] Cons by (intro exI [of _ "Some co"] exI [of _ p']) auto
  next
    case Nil
    from create_fresh [OF R [unfolded Nil] assms(2)] obtain r p' where
      c: "ef_coroutine_create p stack mapped h fproc param = Some (r, p')" and
      o: "case r of
         None \<Rightarrow> p' = p \<and> (cp_limit_max p \<le> int (length fulls) \<or> stack = None \<or> \<not> mapped)
       | Some co \<Rightarrow> co \<notin> set fulls \<and> stack \<noteq> None \<and> mapped \<and> pool_repr p' xs (co # fulls) [] \<and>
           cp_limit_max p' = cp_limit_max p \<and> cp_limit_min p' = cp_limit_min p \<and> fw_thread (cp_sched p') = fw_thread (cp_sched p)" by blast
    show ?thesis
    proof (cases r)
      case None
      with c o Nil pool_reprD(4,5,6) [OF R] show ?thesis by (intro exI [of _ None] exI [of _ p]) auto
    next
      case (Some co)
      with o have R': "pool_repr p' xs (co # fulls) []" "cp_limit_max p' = cp_limit_max p" by simp_all
      then have "\<not> cp_limit_max p \<le> cp_full_count p" using pool_reprD(4,6) [OF R'(1)] pool_reprD(4) [OF R] by simp
      moreover have "stack \<noteq> None \<and> mapped" using o Some by simp
      ultimately show ?thesis
        using c Some R'(2) pool_reprD(4,5) [OF R] pool_reprD(4,6) [OF R'(1)] Nil
        by (intro exI [of _ "Some co"] exI [of _ p']) auto
    qed
  qed
qed

text \<open>Exited coroutines are reused last in, first out: the coroutine that has just returned from its
  procedure is the one the next creation hands out, and that creation needs no system call.\<close>

theorem pool_reuses_last_exited:
  assumes "pool_reach p xs" "fw_current (cp_sched p) \<noteq> fw_thread (cp_sched p)"
  shows "\<exists>p' p''. coroutine_ends p now = Some p' \<and>
    ef_coroutine_create p' None mapped h fproc param = Some (Some (fw_current (cp_sched p)), p'') \<and>
    cp_full_count p'' = cp_full_count p \<and> cp_free_count p'' = cp_free_count p \<and> cp_run_count p' = cp_run_count p + 1"
proof -
  from assms(1) obtain fulls frees where R: "pool_repr p xs fulls frees" by (rule pool_reachE)
  from end_pool [OF R assms(2), of now] obtain p' where
    e: "coroutine_ends p now = Some p'" "pool_repr p' (tl xs) fulls (fw_current (cp_sched p) # frees)"
      "cp_run_count p' = cp_run_count p + 1" by blast
  from create_reuse [OF e(2)] obtain p'' where
    "ef_coroutine_create p' None mapped h fproc param = Some (Some (fw_current (cp_sched p)), p'')"
    "pool_repr p'' (tl xs) fulls frees" by blast
  then show ?thesis using e pool_reprD(4,5) [OF R] pool_reprD(4,5) [of p''] by auto
qed

text \<open>Shrinking a reachable pool with a positive bound deletes at most that many coroutines, only exited
  ones that have been idle long enough, and never leaves fewer than the minimum of the pool.\<close>

theorem pool_shrink_keeps_minimum:
  assumes "pool_reach p xs" "0 < max_count"
  shows "\<exists>n p'. ef_coroutine_pool_shrink p idle max_count tv = Some (int n, p') \<and> int n \<le> max_count \<and>
    cp_free_count p' = cp_free_count p - int n \<and> (n = 0 \<or> cp_limit_min p \<le> cp_full_count p') \<and>
    (\<forall>co \<in> dom (cp_cos p) - dom (cp_cos p'). statuses (cp_sched p) co = Some FIBER_STATUS_EXITED \<and>
       (\<exists>c. cp_cos p co = Some c \<and> idle_enough tv (cr_last_run_time c) idle))"
proof -
  from assms(1) obtain fulls frees where R: "pool_repr p xs fulls frees" by (rule pool_reachE)
  from shrink_repr [OF R, of idle max_count tv] assms(2) obtain n p' where s:
    "ef_coroutine_pool_shrink p idle max_count tv = Some (int n, p')" "n \<le> length frees"
    "pool_repr p' xs (filter (\<lambda>co. co \<notin> set (drop (length frees - n) frees)) fulls) (take (length frees - n) frees)"
    "\<forall>co \<in> set (drop (length frees - n) frees). \<exists>c. cp_cos p co = Some c \<and> idle_enough tv (cr_last_run_time c) idle"
    "int n \<le> max_count \<and> (n = 0 \<or> cp_limit_min p \<le> cp_full_count p')" by blast
  have gone: "dom (cp_cos p) - dom (cp_cos p') \<subseteq> set (drop (length frees - n) frees)"
    using pool_reprD(9) [OF R] pool_reprD(9) [OF s(3)] by auto
  have "statuses (cp_sched p) co = Some FIBER_STATUS_EXITED" if "co \<in> set (drop (length frees - n) frees)" for co
  proof -
    have "co \<in> set frees" using that by (rule in_set_dropD)
    then show ?thesis using pool_reprD(10,11) [OF R] by auto
  qed
  then show ?thesis
    using s(1,2,4,5) gone pool_reprD(5) [OF R] pool_reprD(5) [OF s(3)]
    by (intro exI [of _ n] exI [of _ p']) (auto simp: min_def of_nat_diff)
qed

section \<open>A pool at work\<close>

text \<open>A pool of at least no and at most two coroutines, one of which has been created and resumed.\<close>

definition thread0 :: fibers where
  "thread0 = \<lparr>fw_fibers = [8 \<mapsto> \<lparr>fb_stack_size = 0, fb_stack_area = 0, fb_stack_upper = 0, fb_stack_lower = 0,
      fb_stack_ptr = 0, fb_status = FIBER_STATUS_INITED, fb_parent = None, fb_start = (0, 0)\<rparr>],
     fw_current = 8, fw_thread = 8, fw_page = 4096\<rparr>"

definition blank_pool :: co_pool where
  "blank_pool = \<lparr>cp_sched = thread0, cp_stack_size = 0, cp_limit_min = 0, cp_limit_max = 0,
     cp_links = \<lparr>prev_of = (\<lambda>_. Full_list), next_of = (\<lambda>_. Full_list)\<rparr>,
     cp_full_count = 0, cp_free_count = 0, cp_run_count = 0, cp_cos = Map.empty\<rparr>"

definition pool0 :: co_pool where
  "pool0 = ef_coroutine_pool_init blank_pool 4096 8192 0 0 8192 0 2"

definition pool1 :: co_pool where
  "pool1 = snd (the (ef_coroutine_create pool0 (Some 65536) True 144 7 9))"

definition pool2 :: co_pool where
  "pool2 = (case the (ef_coroutine_resume pool1 73584 1) of Inl _ \<Rightarrow> pool1 | Inr p \<Rightarrow> p)"

lemmas pool_evals = pool2_def pool1_def pool0_def blank_pool_def thread0_def Let_def put_fiber_def round_stack_def
  ef_coroutine_pool_init_def ef_fiber_init_sched_def ef_coroutine_create_def ef_fiber_create_def ef_fiber_init_def
  ef_coroutine_resume_def ef_fiber_resume_def FIBER_STATUS_INITED_def FIBER_STATUS_EXITED_def

lemma pool0_reach: "pool_reach pool0 [8]"
  using pool_reach.init [of blank_pool 4096 8192 0 0 8192 0 2]
  by (simp add: pool0_def blank_pool_def thread0_def)

lemma create_ok0: "create_ok pool0 (Some 65536) 144"
  by (simp add: create_ok_def new_address_def pool_evals)

lemma pool1_create: "ef_coroutine_create pool0 (Some 65536) True 144 7 9 = Some (Some 73584, pool1)"
  by (simp add: pool_evals)

lemma pool1_reach: "pool_reach pool1 [8]"
  by (rule pool_reach.create [OF pool0_reach create_ok0 pool1_create])

lemma pool1_co: "73584 \<in> dom (cp_cos pool1)"
  by (simp add: pool_evals)

lemma pool2_resume: "ef_coroutine_resume pool1 73584 1 = Some (Inr pool2)"
  by (simp add: pool_evals)

lemma pool2_reach: "pool_reach pool2 [73584, 8]"
  by (rule pool_reach.resume [OF pool1_reach pool1_co _ pool2_resume]) simp

lemma pool2_current: "fw_current (cp_sched pool2) = 73584" "fw_thread (cp_sched pool2) = 8"
  by (simp_all add: pool_evals)

theorem pool_invariant_witness:
  "\<exists>fulls frees. pool_repr pool2 [73584, 8] fulls frees"
  by (rule pool_invariant) (rule pool2_reach)

theorem pool_never_faults_witness:
  "coroutine_ends pool2 (3, 5) \<noteq> None \<and> ef_coroutine_pool_shrink pool2 1000 1 (9, 0) \<noteq> None"
  using pool_never_faults [OF pool2_reach] by (simp add: pool2_current)

theorem pool_create_outcome_witness:
  "\<exists>r p'. ef_coroutine_create pool0 (Some 65536) True 144 7 9 = Some (r, p') \<and> r \<noteq> None \<and>
    cp_full_count p' = 1"
proof -
  have "cp_free_count pool0 = 0 \<and> cp_full_count pool0 = 0 \<and> cp_limit_max pool0 = 2" by (simp add: pool_evals)
  with pool_create_outcome [OF pool0_reach create_ok0, of True 7 9] show ?thesis by auto
qed

theorem pool_reuses_last_exited_witness:
  "\<exists>p' p''. coroutine_ends pool2 (3, 5) = Some p' \<and>
    ef_coroutine_create p' None False 144 11 0 = Some (Some 73584, p'')"
  using pool_reuses_last_exited [OF pool2_reach, of "(3, 5)" False 144 11 0] by (auto simp: pool2_current)

definition pool3 :: co_pool where
  "pool3 = the (coroutine_ends pool2 (3, 5))"

lemma pool3_reach: "pool_reach pool3 [8]"
proof -
  have cur: "fw_current (cp_sched pool2) \<noteq> fw_thread (cp_sched pool2)" by (simp add: pool2_current)
  have "coroutine_ends pool2 (3, 5) = Some pool3"
    using pool_reach_repr [OF pool2_reach] end_pool [OF _ cur] unfolding pool3_def by (metis option.sel)
  then show ?thesis using pool_reach.ends [OF pool2_reach, of "(3, 5)" pool3] by (simp add: pool2_current)
qed

theorem pool_shrink_keeps_minimum_witness:
  "\<exists>n p'. ef_coroutine_pool_shrink pool3 1000 1 (9, 0) = Some (int n, p') \<and> int n \<le> 1"
  using pool_shrink_keeps_minimum [OF pool3_reach, of 1 1000 "(9, 0)"] by auto

end
