(* ===== verification/EfRoutine.thy ===== *)
theory EfRoutine
  imports EventSource
begin

text \<open>
  The second half of \<^verbatim>\<open>framework.c\<close>: the calls a routine makes in place of \<^verbatim>\<open>read\<close>,
  \<^verbatim>\<open>write\<close>, \<^verbatim>\<open>recv\<close>, \<^verbatim>\<open>send\<close>, \<^verbatim>\<open>connect\<close> and \<^verbatim>\<open>close\<close>.  They
  register with the event source and yield until the loop resumes the routine with the events
  that were reported.  Each call is given as what it does up to a yield, and what it does after one.
\<close>

section \<open>The event source as the framework sees it\<close>

text \<open>
  The function pointers of \<^verbatim>\<open>struct _ef_poll\<close>.  \<open>'e\<close> is what the allocator and the kernel
  answer during a call, \<open>'s\<close> the state of the source, \<open>'ans\<close> what the kernel answers to a wait.
  A pointer handed to the source is the address of the \<^verbatim>\<open>poll_data\<close> of a routine or of a
  listening socket.
\<close>

datatype poll_ptr = Routine_data u64 | Listen_data u64

record ('e, 's, 'ans) ef_poll =
  po_associate :: "'e \<Rightarrow> 's \<Rightarrow> int \<Rightarrow> u32 \<Rightarrow> poll_ptr \<Rightarrow> bool \<Rightarrow> (int \<times> 's) option"
  po_dissociate :: "'e \<Rightarrow> 's \<Rightarrow> int \<Rightarrow> bool \<Rightarrow> bool \<Rightarrow> (int \<times> 's) option"
  po_unset :: "'s \<Rightarrow> int \<Rightarrow> u32 \<Rightarrow> (int \<times> 's) option"
  po_wait :: "'ans \<Rightarrow> 's \<Rightarrow> int \<Rightarrow> (int \<times> poll_ptr option ef_event list \<times> 's) option"

section \<open>State\<close>

definition FD_TYPE_LISTEN :: int where "FD_TYPE_LISTEN = 1"
definition FD_TYPE_RWC :: int where "FD_TYPE_RWC = 2"

text \<open>\<^verbatim>\<open>routine_ptr\<close> is the address of the routine itself and \<^verbatim>\<open>runtime_ptr\<close> the one runtime.\<close>

record ef_poll_data =
  pd_type :: int
  pd_fd :: int
  pd_proc :: u64

text \<open>The routines that exist, the one that runs, and the event source of the runtime.\<close>

record 's routines =
  ro_source :: 's
  ro_data :: "u64 \<rightharpoonup> ef_poll_data"
  ro_current :: "u64 option"

text \<open>\<^verbatim>\<open>if (er == NULL) er = ef_routine_current()\<close>, which must give a routine.\<close>

definition the_routine :: "'s routines \<Rightarrow> u64 option \<Rightarrow> u64 option" where
  "the_routine rt er = (case er of Some co \<Rightarrow> Some co | None \<Rightarrow> ro_current rt)"

definition set_fd :: "'s routines \<Rightarrow> u64 \<Rightarrow> int \<Rightarrow> 's routines option" where
  "set_fd rt co fd =
     do { d \<leftarrow> ro_data rt co;
          Some (rt\<lparr>ro_data := (ro_data rt)(co \<mapsto> d\<lparr>pd_type := FD_TYPE_RWC, pd_fd := fd\<rparr>)\<rparr>) }"

section \<open>Reading and writing\<close>

text \<open>
  What a call has come to: a value returned, with the value given to \<^verbatim>\<open>errno\<close> if it is set,
  or a yield, with the local variable \<^verbatim>\<open>retval\<close> kept on the stack.
\<close>

datatype io = Returns int "int option" | Yields int

definition EAGAIN :: int where "EAGAIN = 11"
definition EBADF :: int where "EBADF = 9"
definition EINPROGRESS :: int where "EINPROGRESS = 115"

text \<open>The four calls differ in the system call they make and in these masks.\<close>

record direction =
  di_want :: u32
  di_clear :: u32
  di_fail :: u32
  di_go :: u32

definition reading :: direction where
  "reading = \<lparr>di_want = EF_POLLIN, di_clear = EF_POLLIN OR EF_POLLHUP, di_fail = EF_POLLERR, di_go = EF_POLLIN OR EF_POLLHUP\<rparr>"

definition writing :: direction where
  "writing = \<lparr>di_want = EF_POLLOUT, di_clear = EF_POLLOUT, di_fail = EF_POLLERR OR EF_POLLHUP, di_go = EF_POLLOUT\<rparr>"

text \<open>The end of a call: dissociate, set \<^verbatim>\<open>errno\<close>, return.\<close>

definition io_finish :: "('e, 's, 'ans) ef_poll \<Rightarrow> 'e \<Rightarrow> 's routines \<Rightarrow> int \<Rightarrow> int \<Rightarrow> int \<Rightarrow> (io \<times> 's routines) option" where
  "io_finish P e rt fd retval error =
     do { (_, s) \<leftarrow> po_dissociate P e (ro_source rt) fd True False;
          Some (Returns retval (Some error), rt\<lparr>ro_source := s\<rparr>) }"

text \<open>From the label \<^verbatim>\<open>ready\<close>: \<open>answer\<close> is the result of the system call and \<^verbatim>\<open>errno\<close>.\<close>

definition io_ready ::
    "('e, 's, 'ans) ef_poll \<Rightarrow> direction \<Rightarrow> 'e \<Rightarrow> 's routines \<Rightarrow> int \<Rightarrow> int \<times> int \<Rightarrow> (io \<times> 's routines) option" where
  "io_ready P k e rt fd answer =
     (let (retval, err) = answer
      in if retval < 0 \<and> err = EAGAIN
         then do { (_, s) \<leftarrow> po_unset P (ro_source rt) fd (di_clear k); Some (Yields retval, rt\<lparr>ro_source := s\<rparr>) }
         else io_finish P e rt fd retval (if retval < 0 then err else 0))"

definition io_call ::
    "('e, 's, 'ans) ef_poll \<Rightarrow> direction \<Rightarrow> 'e \<Rightarrow> 's routines \<Rightarrow> u64 option \<Rightarrow> int \<Rightarrow> int \<times> int \<Rightarrow> (io \<times> 's routines) option" where
  "io_call P k e rt er fd answer =
     do { co \<leftarrow> the_routine rt er;
          rt \<leftarrow> set_fd rt co fd;
          (retval, s) \<leftarrow> po_associate P e (ro_source rt) fd (di_want k) (Routine_data co) False;
          let rt = rt\<lparr>ro_source := s\<rparr>;
          if retval < 0 then Some (Returns retval None, rt)
          else if retval > 0 then io_ready P k e rt fd answer
          else Some (Yields retval, rt) }"

text \<open>After a yield, which returns \<open>events\<close>.\<close>

definition io_resumed ::
    "('e, 's, 'ans) ef_poll \<Rightarrow> direction \<Rightarrow> 'e \<Rightarrow> 's routines \<Rightarrow> int \<Rightarrow> int \<Rightarrow> u32 \<Rightarrow> int \<times> int \<Rightarrow> (io \<times> 's routines) option" where
  "io_resumed P k e rt fd retval events answer =
     (if events AND di_fail k \<noteq> 0 then io_finish P e rt fd (- 1) EBADF
      else if events AND di_go k \<noteq> 0 then io_ready P k e rt fd answer
      else io_finish P e rt fd retval 0)"

definition ef_routine_read ::
    "('e, 's, 'ans) ef_poll \<Rightarrow> 'e \<Rightarrow> 's routines \<Rightarrow> u64 option \<Rightarrow> int \<Rightarrow> int \<times> int \<Rightarrow> (io \<times> 's routines) option" where
  "ef_routine_read P = io_call P reading"

definition ef_routine_write ::
    "('e, 's, 'ans) ef_poll \<Rightarrow> 'e \<Rightarrow> 's routines \<Rightarrow> u64 option \<Rightarrow> int \<Rightarrow> int \<times> int \<Rightarrow> (io \<times> 's routines) option" where
  "ef_routine_write P = io_call P writing"

text \<open>\<^verbatim>\<open>recv\<close> and \<^verbatim>\<open>send\<close> are called with the result stored in an \<^verbatim>\<open>int\<close>.\<close>

definition to_int32 :: "int \<Rightarrow> int" where
  "to_int32 n = sint (word_of_int n :: u32)"

definition ef_routine_recv ::
    "('e, 's, 'ans) ef_poll \<Rightarrow> 'e \<Rightarrow> 's routines \<Rightarrow> u64 option \<Rightarrow> int \<Rightarrow> int \<times> int \<Rightarrow> (io \<times> 's routines) option" where
  "ef_routine_recv P e rt er fd answer = io_call P reading e rt er fd (to_int32 (fst answer), snd answer)"

definition ef_routine_send ::
    "('e, 's, 'ans) ef_poll \<Rightarrow> 'e \<Rightarrow> 's routines \<Rightarrow> u64 option \<Rightarrow> int \<Rightarrow> int \<times> int \<Rightarrow> (io \<times> 's routines) option" where
  "ef_routine_send P e rt er fd answer = io_call P writing e rt er fd (to_int32 (fst answer), snd answer)"

text \<open>The four calls after a yield; the loop back to the label is a further yield.\<close>

definition read_resumed ::
    "('e, 's, 'ans) ef_poll \<Rightarrow> 'e \<Rightarrow> 's routines \<Rightarrow> int \<Rightarrow> int \<Rightarrow> u32 \<Rightarrow> int \<times> int \<Rightarrow> (io \<times> 's routines) option" where
  "read_resumed P = io_resumed P reading"

definition write_resumed ::
    "('e, 's, 'ans) ef_poll \<Rightarrow> 'e \<Rightarrow> 's routines \<Rightarrow> int \<Rightarrow> int \<Rightarrow> u32 \<Rightarrow> int \<times> int \<Rightarrow> (io \<times> 's routines) option" where
  "write_resumed P = io_resumed P writing"

definition recv_resumed ::
    "('e, 's, 'ans) ef_poll \<Rightarrow> 'e \<Rightarrow> 's routines \<Rightarrow> int \<Rightarrow> int \<Rightarrow> u32 \<Rightarrow> int \<times> int \<Rightarrow> (io \<times> 's routines) option" where
  "recv_resumed P e rt fd retval events answer =
     io_resumed P reading e rt fd retval events (to_int32 (fst answer), snd answer)"

definition send_resumed ::
    "('e, 's, 'ans) ef_poll \<Rightarrow> 'e \<Rightarrow> 's routines \<Rightarrow> int \<Rightarrow> int \<Rightarrow> u32 \<Rightarrow> int \<times> int \<Rightarrow> (io \<times> 's routines) option" where
  "send_resumed P e rt fd retval events answer =
     io_resumed P writing e rt fd retval events (to_int32 (fst answer), snd answer)"

section \<open>Connecting and closing\<close>

definition O_NONBLOCK :: u32 where "O_NONBLOCK = 0x800"

text \<open>
  \<open>flags\<close> answers \<^verbatim>\<open>F_GETFL\<close>, \<open>setfl\<close> \<^verbatim>\<open>F_SETFL\<close> and \<open>answer\<close> \<^verbatim>\<open>connect\<close>, each
  with \<^verbatim>\<open>errno\<close>; \<open>err\<close> is \<^verbatim>\<open>errno\<close> after a failed association.
\<close>

definition ef_routine_connect ::
    "('e, 's, 'ans) ef_poll \<Rightarrow> 'e \<Rightarrow> 's routines \<Rightarrow> u64 option \<Rightarrow> int \<Rightarrow> u32 \<Rightarrow> int \<times> int \<Rightarrow> int \<times> int \<Rightarrow> int \<Rightarrow>
     (io \<times> 's routines) option" where
  "ef_routine_connect P e rt er sockfd flags setfl answer err =
     do { co \<leftarrow> the_routine rt er;
          rt \<leftarrow> set_fd rt co sockfd;
          if flags AND O_NONBLOCK = 0 \<and> fst setfl < 0 then Some (Returns (fst setfl) (Some (snd setfl)), rt)
          else if 0 \<le> fst answer then Some (Returns (fst answer) None, rt)
          else if snd answer \<noteq> EINPROGRESS then Some (Returns (fst answer) (Some (snd answer)), rt)
          else do {
            (retval, s) \<leftarrow> po_associate P e (ro_source rt) sockfd EF_POLLOUT (Routine_data co) False;
            let rt = rt\<lparr>ro_source := s\<rparr>;
            if retval < 0 then Some (Returns retval (Some err), rt) else Some (Yields retval, rt) } }"

text \<open>After the yield; \<open>so_error\<close> is what \<^verbatim>\<open>getsockopt\<close> stores.\<close>

definition connect_resumed ::
    "('e, 's, 'ans) ef_poll \<Rightarrow> 'e \<Rightarrow> 's routines \<Rightarrow> int \<Rightarrow> int \<Rightarrow> u32 \<Rightarrow> int \<Rightarrow> (io \<times> 's routines) option" where
  "connect_resumed P e rt sockfd retval events so_error =
     (if events AND (EF_POLLERR OR EF_POLLHUP) \<noteq> 0 then io_finish P e rt sockfd (- 1) EBADF
      else if events AND EF_POLLOUT \<noteq> 0 then io_finish P e rt sockfd retval so_error
      else io_finish P e rt sockfd retval 0)"

text \<open>\<open>closed\<close> is the result of \<^verbatim>\<open>close\<close>.\<close>

definition ef_routine_close ::
    "('e, 's, 'ans) ef_poll \<Rightarrow> 'e \<Rightarrow> 's routines \<Rightarrow> u64 option \<Rightarrow> int \<Rightarrow> int \<Rightarrow> (int \<times> 's routines) option" where
  "ef_routine_close P e rt er fd closed =
     do { co \<leftarrow> the_routine rt er;
          _ \<leftarrow> ro_data rt co;
          (_, s) \<leftarrow> po_dissociate P e (ro_source rt) fd False True;
          Some (closed, rt\<lparr>ro_source := s\<rparr>) }"

section \<open>The two event sources behind the interface\<close>

definition epollet_source :: "(mem \<times> int, poll_ptr ef_epollet, int \<times> (int \<times> u32) list) ef_poll" where
  "epollet_source = \<lparr>
     po_associate = (\<lambda>(m, ctl) s fd ev p fired.
       do { (r, s, _) \<leftarrow> ef_epoll_associate m ctl s fd ev p fired; Some (r, s) }),
     po_dissociate = (\<lambda>(m, ctl) s fd fired onclose. ef_epoll_dissociate ctl s fd fired onclose),
     po_unset = ef_epoll_unset,
     po_wait = (\<lambda>ans s count.
       do { (r, es, s) \<leftarrow> ef_epoll_wait ans s count;
            Some (r, map (\<lambda>e. \<lparr>ev_events = ev_events e, ev_data = Some (ev_data e)\<rparr>) es, s) })\<rparr>"

definition poll_source :: "(mem \<times> int, poll_ptr ef_pollsys, int \<times> u16 list) ef_poll" where
  "poll_source = \<lparr>
     po_associate = (\<lambda>(m, ctl) s fd ev p fired.
       do { (r, s, _) \<leftarrow> ef_poll_associate m s fd ev p fired; Some (r, s) }),
     po_dissociate = (\<lambda>(m, ctl) s fd fired onclose. ef_poll_dissociate s fd fired onclose),
     po_unset = (\<lambda>s fd ev. Some (ef_poll_unset s fd ev)),
     po_wait = ef_poll_wait\<rparr>"

end
