(* ===== verification/EfFramework.thy ===== *)
theory EfFramework
  imports EfRoutine EfCoroutine
begin

text \<open>
  The first half of \<^verbatim>\<open>framework.c\<close>: the runtime, its listening sockets and their queues of
  accepted connections, and the event loop that runs a routine for each connection.  The kernel,
  the allocator and the user's procedures are the functions of \<open>kernel\<close>, over a state \<open>'o\<close> of
  theirs; a loop over a list that would not end has no result.
\<close>

section \<open>State\<close>

text \<open>The entries of the lists: two heads in the runtime, one head in each listening socket.\<close>

datatype fentry = Listen_list | Free_fd_list | Listen_entry u64 | Fd_list u64 | Fd_entry u64

text \<open>\<open>li_fd\<close> is \<^verbatim>\<open>poll_data.fd\<close>; the type in \<^verbatim>\<open>poll_data\<close> is \<^verbatim>\<open>FD_TYPE_LISTEN\<close>.\<close>

record ef_listen_info =
  li_fd :: int
  li_proc :: u64

text \<open>
  \<open>rt_data\<close> is the \<^verbatim>\<open>poll_data\<close> of the routines, which lie in the memory of the coroutines;
  \<open>rt_frames\<close> is the local variable \<^verbatim>\<open>fd\<close> of \<^verbatim>\<open>ef_proc\<close> on the stack of a routine that
  has begun; \<open>rt_listens\<close> and \<open>rt_fds\<close> are what \<^verbatim>\<open>malloc\<close> has handed out.
\<close>

record 's ef_runtime =
  rt_source :: 's
  rt_shrink_millisecs :: int
  rt_count_per_shrink :: int
  rt_pool :: co_pool
  rt_data :: "u64 \<rightharpoonup> ef_poll_data"
  rt_frames :: "u64 \<rightharpoonup> int"
  rt_listens :: "u64 \<rightharpoonup> ef_listen_info"
  rt_fds :: "u64 \<rightharpoonup> int"
  rt_links :: "fentry links"

text \<open>
  What the code calls.  \<open>k_accept\<close> gives the connections \<^verbatim>\<open>accept\<close> returns before it fails;
  \<open>k_map\<close> answers the two system calls for a new stack; \<open>k_run\<close> runs the user's procedure of a
  routine, from its start or from a yield that returns the events, up to its next yield (then
  with its stack pointer) or its end (\<open>None\<close>); \<open>k_ef_proc\<close> is the address of \<^verbatim>\<open>ef_proc\<close>.  \<open>k_stopping\<close> reads the field \<^verbatim>\<open>stopping\<close>,
  which the loop never writes.
\<close>

record ('e, 's, 'ans, 'o) kernel =
  k_getfl :: "'o \<Rightarrow> int \<Rightarrow> u32 \<times> 'o"
  k_setfl :: "'o \<Rightarrow> int \<Rightarrow> u32 \<Rightarrow> int \<times> 'o"
  k_accept :: "'o \<Rightarrow> int \<Rightarrow> int list \<times> 'o"
  k_close :: "'o \<Rightarrow> int \<Rightarrow> int \<times> 'o"
  k_malloc :: "'o \<Rightarrow> u64 set \<Rightarrow> u64 option \<times> 'o"
  k_map :: "'o \<Rightarrow> co_pool \<Rightarrow> (u64 option \<times> bool) \<times> 'o"
  k_sp :: "'o \<Rightarrow> u64 \<times> 'o"
  k_time :: "'o \<Rightarrow> (int \<times> int) \<times> 'o"
  k_env :: "'o \<Rightarrow> 'e \<times> 'o"
  k_wait :: "'o \<Rightarrow> 'ans \<times> 'o"
  k_interrupted :: "'o \<Rightarrow> bool \<times> 'o"
  k_stopping :: "'o \<Rightarrow> bool"
  k_ef_proc :: u64
  k_run :: "'o \<Rightarrow> 's routines \<Rightarrow> u64 \<Rightarrow> u32 \<Rightarrow> u64 option \<times> 's routines \<times> 'o"

section \<open>Running a routine\<close>

definition ROUTINE_SIZE :: u64 where "ROUTINE_SIZE = 152"

definition routines_of :: "'s ef_runtime \<Rightarrow> 's routines" where
  "routines_of rt = \<lparr>ro_source = rt_source rt, ro_data = rt_data rt, ro_current = ef_coroutine_current (rt_pool rt)\<rparr>"

definition with_routines :: "'s routines \<Rightarrow> 's ef_runtime \<Rightarrow> 's ef_runtime" where
  "with_routines ro rt = rt\<lparr>rt_source := ro_source ro, rt_data := ro_data ro\<rparr>"

text \<open>
  \<^verbatim>\<open>ef_proc\<close>, from its start or from a yield, to the next yield or the end: it remembers the
  descriptor it began with, runs the user's procedure if there is one, and closes.
\<close>

definition ef_proc ::
    "('e, 's, 'ans) ef_poll \<Rightarrow> ('e, 's, 'ans, 'o) kernel \<Rightarrow> 'o \<Rightarrow> 's ef_runtime \<Rightarrow> u64 \<Rightarrow> u32 \<Rightarrow> ('s ef_runtime \<times> 'o) option" where
  "ef_proc P k os rt co events =
     do { d \<leftarrow> rt_data rt co;
          let started = rt_frames rt co \<noteq> None;
          let fd = (case rt_frames rt co of Some fd \<Rightarrow> fd | None \<Rightarrow> pd_fd d);
          let (act, ro, os) = (if \<not> started \<and> pd_proc d = 0 then (None, routines_of rt, os) else k_run k os (routines_of rt) co events);
          let rt = with_routines ro rt;
          case act of
            Some sp \<Rightarrow>
              do { let (now, os) = k_time k os;
                   p \<leftarrow> coroutine_yields (rt_pool rt) sp now;
                   Some (rt\<lparr>rt_pool := p, rt_frames := (rt_frames rt)(co \<mapsto> fd)\<rparr>, os) }
          | None \<Rightarrow>
              do { let (e, os) = k_env k os;
                   let (closed, os) = k_close k os fd;
                   (_, ro) \<leftarrow> ef_routine_close P e (routines_of rt) (Some co) fd closed;
                   let rt = with_routines ro rt;
                   let (now, os) = k_time k os;
                   p \<leftarrow> coroutine_ends (rt_pool rt) now;
                   Some (rt\<lparr>rt_pool := p, rt_frames := (rt_frames rt)(co := None)\<rparr>, os) } }"

text \<open>\<^verbatim>\<open>ef_coroutine_resume\<close> on a routine, until it comes back.\<close>

definition resume_routine ::
    "('e, 's, 'ans) ef_poll \<Rightarrow> ('e, 's, 'ans, 'o) kernel \<Rightarrow> 'o \<Rightarrow> 's ef_runtime \<Rightarrow> u64 \<Rightarrow> u32 \<Rightarrow> ('s ef_runtime \<times> 'o) option" where
  "resume_routine P k os rt co events =
     do { let (sp, os) = k_sp k os;
          r \<leftarrow> ef_coroutine_resume (rt_pool rt) co sp;
          case r of
            Inl _ \<Rightarrow> Some (rt, os)
          | Inr p \<Rightarrow> ef_proc P k os (rt\<lparr>rt_pool := p\<rparr>) co events }"

definition ef_routine_run ::
    "('e, 's, 'ans) ef_poll \<Rightarrow> ('e, 's, 'ans, 'o) kernel \<Rightarrow> 'o \<Rightarrow> 's ef_runtime \<Rightarrow> u64 \<Rightarrow> int \<Rightarrow> (int \<times> 's ef_runtime \<times> 'o) option" where
  "ef_routine_run P k os rt proc socket =
     do { let ((stack, mapped), os) = k_map k os (rt_pool rt);
          (r, p) \<leftarrow> ef_coroutine_create (rt_pool rt) stack mapped ROUTINE_SIZE (k_ef_proc k) 0;
          case r of
            None \<Rightarrow> Some (- 1, rt\<lparr>rt_pool := p\<rparr>, os)
          | Some co \<Rightarrow>
              do { let rt = rt\<lparr>rt_pool := p, rt_frames := (rt_frames rt)(co := None),
                               rt_data := (rt_data rt)(co \<mapsto> \<lparr>pd_type = FD_TYPE_RWC, pd_fd = socket, pd_proc = proc\<rparr>)\<rparr>;
                   (rt, os) \<leftarrow> resume_routine P k os rt co 0;
                   Some (0, rt, os) } }"

section \<open>Accepted connections\<close>

definition ef_queue_fd ::
    "('e, 's, 'ans, 'o) kernel \<Rightarrow> 'o \<Rightarrow> 's ef_runtime \<Rightarrow> u64 \<Rightarrow> int \<Rightarrow> (int \<times> 's ef_runtime \<times> 'o) option" where
  "ef_queue_fd k os rt li fd =
     do { let (flags, os) = k_getfl k os fd;
          let (retval, os) = (if flags AND O_NONBLOCK = 0 then k_setfl k os fd (flags OR O_NONBLOCK) else (0, os));
          if retval < 0 then Some (retval, rt, os)
          else do {
            (qf, rt, os) \<leftarrow>
              (if \<not> ef_list_empty (rt_links rt) Free_fd_list
               then (case ef_list_remove_after Free_fd_list (rt_links rt) of
                       (Some (Fd_entry qf), L) \<Rightarrow> Some (Some qf, rt\<lparr>rt_links := L\<rparr>, os)
                     | _ \<Rightarrow> None)
               else let (a, os) = k_malloc k os (dom (rt_fds rt)) in Some (a, rt, os));
            case qf of
              None \<Rightarrow> let (_, os) = k_close k os fd in Some (- 1, rt, os)
            | Some qf \<Rightarrow>
                Some (0, rt\<lparr>rt_fds := (rt_fds rt)(qf \<mapsto> fd),
                            rt_links := ef_list_insert_before (Fd_list li) (Fd_entry qf) (rt_links rt)\<rparr>, os) } }"

text \<open>The loop around \<^verbatim>\<open>accept\<close>, over what it returns.\<close>

fun accept_loop ::
    "('e, 's, 'ans) ef_poll \<Rightarrow> ('e, 's, 'ans, 'o) kernel \<Rightarrow> u64 \<Rightarrow> int \<Rightarrow> int list \<Rightarrow> 'o \<Rightarrow> 's ef_runtime \<Rightarrow> ('s ef_runtime \<times> 'o) option" where
  "accept_loop P k li fd [] os rt =
     do { (_, s) \<leftarrow> po_unset P (rt_source rt) fd EF_POLLIN; Some (rt\<lparr>rt_source := s\<rparr>, os) }"
| "accept_loop P k li fd (socket # socks) os rt =
     do { (ret, rt, os) \<leftarrow> ef_queue_fd k os rt li socket;
          if ret < 0 then Some (rt, os) else accept_loop P k li fd socks os rt }"

text \<open>One event: the pointer leads to a listening socket or to a routine.\<close>

definition handle_event ::
    "('e, 's, 'ans) ef_poll \<Rightarrow> ('e, 's, 'ans, 'o) kernel \<Rightarrow> poll_ptr option ef_event \<Rightarrow> 'o \<Rightarrow> 's ef_runtime \<Rightarrow> ('s ef_runtime \<times> 'o) option" where
  "handle_event P k ev os rt =
     do { p \<leftarrow> ev_data ev;
          case p of
            Listen_data li \<Rightarrow>
              do { ed \<leftarrow> rt_listens rt li;
                   let (socks, os) = k_accept k os (li_fd ed);
                   (rt, os) \<leftarrow> accept_loop P k li (li_fd ed) socks os rt;
                   let (e, os) = k_env k os;
                   (_, s) \<leftarrow> po_associate P e (rt_source rt) (li_fd ed) EF_POLLIN (Listen_data li) True;
                   Some (rt\<lparr>rt_source := s\<rparr>, os) }
          | Routine_data co \<Rightarrow>
              do { _ \<leftarrow> rt_data rt co; resume_routine P k os rt co (ev_events ev) } }"

fun handle_events ::
    "('e, 's, 'ans) ef_poll \<Rightarrow> ('e, 's, 'ans, 'o) kernel \<Rightarrow> poll_ptr option ef_event list \<Rightarrow> 'o \<Rightarrow> 's ef_runtime \<Rightarrow> ('s ef_runtime \<times> 'o) option" where
  "handle_events P k [] os rt = Some (rt, os)"
| "handle_events P k (ev # evs) os rt =
     do { (rt, os) \<leftarrow> handle_event P k ev os rt; handle_events P k evs os rt }"

section \<open>Handing queued connections to routines\<close>

text \<open>\<^verbatim>\<open>CAST_PARENT_PTR\<close> from an entry of the queue, and from one of the list of sockets.\<close>

definition fd_of :: "fentry \<Rightarrow> u64 option" where
  "fd_of e = (case e of Fd_entry qf \<Rightarrow> Some qf | _ \<Rightarrow> None)"

definition listen_of :: "fentry \<Rightarrow> u64 option" where
  "listen_of e = (case e of Listen_entry li \<Rightarrow> Some li | _ \<Rightarrow> None)"

text \<open>The inner loop; \<open>False\<close> is the jump to \<^verbatim>\<open>exit_queue\<close>.\<close>

partial_function (option) queue_loop ::
    "('e, 's, 'ans) ef_poll \<Rightarrow> ('e, 's, 'ans, 'o) kernel \<Rightarrow> u64 \<Rightarrow> fentry \<Rightarrow> 'o \<Rightarrow> 's ef_runtime \<Rightarrow> (bool \<times> 's ef_runtime \<times> 'o) option" where
  "queue_loop P k li enf os rt =
     (if enf = Fd_list li then Some (True, rt, os)
      else do {
        qf \<leftarrow> fd_of enf;
        let enf' = ef_list_entry_after (rt_links rt) enf;
        l \<leftarrow> rt_listens rt li;
        fd \<leftarrow> rt_fds rt qf;
        (ret, rt, os) \<leftarrow> ef_routine_run P k os rt (li_proc l) fd;
        if ret < 0 then Some (False, rt, os)
        else queue_loop P k li enf' os
               (rt\<lparr>rt_links := ef_list_insert_after Free_fd_list (Fd_entry qf) (ef_list_remove (Fd_entry qf) (rt_links rt))\<rparr>) })"

partial_function (option) listen_loop ::
    "('e, 's, 'ans) ef_poll \<Rightarrow> ('e, 's, 'ans, 'o) kernel \<Rightarrow> fentry \<Rightarrow> 'o \<Rightarrow> 's ef_runtime \<Rightarrow> ('s ef_runtime \<times> 'o) option" where
  "listen_loop P k ent os rt =
     (if ent = Listen_list then Some (rt, os)
      else do {
        li \<leftarrow> listen_of ent;
        (on, rt, os) \<leftarrow> queue_loop P k li (ef_list_entry_after (rt_links rt) (Fd_list li)) os rt;
        if \<not> on then Some (rt, os)
        else listen_loop P k (ef_list_entry_after (rt_links rt) ent) os rt })"

section \<open>Stopping\<close>

text \<open>One listening socket is closed, and freed when its queue is empty.\<close>

definition close_listen ::
    "('e, 's, 'ans) ef_poll \<Rightarrow> ('e, 's, 'ans, 'o) kernel \<Rightarrow> u64 \<Rightarrow> 'o \<Rightarrow> 's ef_runtime \<Rightarrow> ('s ef_runtime \<times> 'o) option" where
  "close_listen P k li os rt =
     do { l \<leftarrow> rt_listens rt li;
          (rt, os) \<leftarrow>
            (if li_fd l \<ge> 0
             then do { let (e, os) = k_env k os;
                       (_, s) \<leftarrow> po_dissociate P e (rt_source rt) (li_fd l) False False;
                       let (_, os) = k_close k os (li_fd l);
                       Some (rt\<lparr>rt_source := s, rt_listens := (rt_listens rt)(li \<mapsto> l\<lparr>li_fd := - 1\<rparr>)\<rparr>, os) }
             else Some (rt, os));
          if ef_list_empty (rt_links rt) (Fd_list li)
          then Some (rt\<lparr>rt_links := ef_list_remove (Listen_entry li) (rt_links rt), rt_listens := (rt_listens rt)(li := None)\<rparr>, os)
          else Some (rt, os) }"

partial_function (option) close_loop ::
    "('e, 's, 'ans) ef_poll \<Rightarrow> ('e, 's, 'ans, 'o) kernel \<Rightarrow> fentry \<Rightarrow> 'o \<Rightarrow> 's ef_runtime \<Rightarrow> ('s ef_runtime \<times> 'o) option" where
  "close_loop P k ent os rt =
     (if ent = Listen_list then Some (rt, os)
      else do {
        li \<leftarrow> listen_of ent;
        let ent' = ef_list_entry_after (rt_links rt) ent;
        (rt, os) \<leftarrow> close_listen P k li os rt;
        close_loop P k ent' os rt })"

partial_function (option) free_fds :: "fentry option \<Rightarrow> 's ef_runtime \<Rightarrow> 's ef_runtime option" where
  "free_fds ent rt =
     (case ent of
        None \<Rightarrow> Some rt
      | Some e \<Rightarrow>
          do { qf \<leftarrow> fd_of e;
               _ \<leftarrow> rt_fds rt qf;
               let (ent', L) = ef_list_remove_after Free_fd_list (rt_links rt);
               free_fds ent' (rt\<lparr>rt_links := L, rt_fds := (rt_fds rt)(qf := None)\<rparr>) })"

text \<open>The memory of a deleted coroutine holds its routine.\<close>

definition shrink_pool :: "('e, 's, 'ans, 'o) kernel \<Rightarrow> int \<Rightarrow> int \<Rightarrow> 'o \<Rightarrow> 's ef_runtime \<Rightarrow> ('s ef_runtime \<times> 'o) option" where
  "shrink_pool k idle_millisecs max_count os rt =
     do { let (now, os) = k_time k os;
          (_, p) \<leftarrow> ef_coroutine_pool_shrink (rt_pool rt) idle_millisecs max_count now;
          Some (rt\<lparr>rt_pool := p, rt_data := rt_data rt |` dom (cp_cos p)\<rparr>, os) }"

text \<open>From the label \<^verbatim>\<open>exit_queue\<close>; \<open>True\<close> is the \<^verbatim>\<open>break\<close> of the loop.\<close>

definition exit_queue ::
    "('e, 's, 'ans) ef_poll \<Rightarrow> ('e, 's, 'ans, 'o) kernel \<Rightarrow> 'o \<Rightarrow> 's ef_runtime \<Rightarrow> (bool \<times> 's ef_runtime \<times> 'o) option" where
  "exit_queue P k os rt =
     do { (fin, rt, os) \<leftarrow>
            (if k_stopping k os
             then do {
               (rt, os) \<leftarrow>
                 (if \<not> ef_list_empty (rt_links rt) Listen_list
                  then close_loop P k (ef_list_entry_after (rt_links rt) Listen_list) os rt else Some (rt, os));
               rt \<leftarrow>
                 (if \<not> ef_list_empty (rt_links rt) Free_fd_list
                  then (let (ent, L) = ef_list_remove_after Free_fd_list (rt_links rt) in free_fds ent (rt\<lparr>rt_links := L\<rparr>))
                  else Some rt);
               if cp_free_count (rt_pool rt) = cp_full_count (rt_pool rt)
               then do { (rt, os) \<leftarrow> shrink_pool k 0 (- cp_full_count (rt_pool rt)) os rt; Some (True, rt, os) }
               else do { (rt, os) \<leftarrow> shrink_pool k 0 (- cp_free_count (rt_pool rt)) os rt; Some (False, rt, os) } }
             else Some (False, rt, os));
          if fin then Some (True, rt, os)
          else if cp_free_count (rt_pool rt) > 0 \<and> cp_full_count (rt_pool rt) > cp_limit_min (rt_pool rt)
          then do { (rt, os) \<leftarrow> shrink_pool k (rt_shrink_millisecs rt) (rt_count_per_shrink rt) os rt; Some (False, rt, os) }
          else Some (False, rt, os) }"

section \<open>The runtime\<close>

definition ef_init ::
    "'s option \<Rightarrow> 's ef_runtime \<Rightarrow> int \<Rightarrow> u64 \<Rightarrow> int \<Rightarrow> int \<Rightarrow> u64 \<Rightarrow> int \<Rightarrow> int \<Rightarrow> int \<Rightarrow> int \<Rightarrow> int \<times> 's ef_runtime" where
  "ef_init poll rt page ss alt act stack_size limit_min limit_max shrink_millisecs count_per_shrink =
     (case poll of
        None \<Rightarrow> (- 1, rt)
      | Some p \<Rightarrow>
          (1, rt\<lparr>rt_source := p, rt_shrink_millisecs := shrink_millisecs, rt_count_per_shrink := count_per_shrink,
                 rt_pool := ef_coroutine_pool_init (rt_pool rt) page ss alt act stack_size limit_min limit_max,
                 rt_links := ef_list_init Free_fd_list (ef_list_init Listen_list (rt_links rt))\<rparr>))"

definition ef_add_listen ::
    "('e, 's, 'ans, 'o) kernel \<Rightarrow> 'o \<Rightarrow> 's ef_runtime \<Rightarrow> int \<Rightarrow> u64 \<Rightarrow> int \<times> 's ef_runtime \<times> 'o" where
  "ef_add_listen k os rt socket proc =
     (let (flags, os) = k_getfl k os socket;
          (retval, os) = k_setfl k os socket (flags OR O_NONBLOCK)
      in if retval < 0 then (retval, rt, os)
         else let (li, os) = k_malloc k os (dom (rt_listens rt))
              in case li of
                   None \<Rightarrow> (- 1, rt, os)
                 | Some li \<Rightarrow>
                     (0, rt\<lparr>rt_listens := (rt_listens rt)(li \<mapsto> \<lparr>li_fd = socket, li_proc = proc\<rparr>),
                            rt_links := ef_list_insert_after Listen_list (Listen_entry li) (ef_list_init (Fd_list li) (rt_links rt))\<rparr>, os))"

text \<open>The first loop of \<^verbatim>\<open>ef_run_loop\<close>: every listening socket is registered.\<close>

partial_function (option) add_loop ::
    "('e, 's, 'ans) ef_poll \<Rightarrow> ('e, 's, 'ans, 'o) kernel \<Rightarrow> fentry \<Rightarrow> 'o \<Rightarrow> 's ef_runtime \<Rightarrow> (int \<times> 's ef_runtime \<times> 'o) option" where
  "add_loop P k ent os rt =
     (if ent = Listen_list then Some (0, rt, os)
      else do {
        li \<leftarrow> listen_of ent;
        l \<leftarrow> rt_listens rt li;
        let (e, os) = k_env k os;
        (ret, s) \<leftarrow> po_associate P e (rt_source rt) (li_fd l) EF_POLLIN (Listen_data li) False;
        let rt = rt\<lparr>rt_source := s\<rparr>;
        if ret < 0 then Some (ret, rt, os)
        else add_loop P k (ef_list_entry_after (rt_links rt) ent) os rt })"

text \<open>One round of the event loop: \<open>Some ret\<close> when \<^verbatim>\<open>ef_run_loop\<close> returns.\<close>

definition loop_round ::
    "('e, 's, 'ans) ef_poll \<Rightarrow> ('e, 's, 'ans, 'o) kernel \<Rightarrow> 'o \<Rightarrow> 's ef_runtime \<Rightarrow> (int option \<times> 's ef_runtime \<times> 'o) option" where
  "loop_round P k os rt =
     do { let (ans, os) = k_wait k os;
          (cnt, evts, s) \<leftarrow> po_wait P ans (rt_source rt) 1024;
          let rt = rt\<lparr>rt_source := s\<rparr>;
          let (eintr, os) = k_interrupted k os;
          if cnt < 0 \<and> \<not> eintr then Some (Some cnt, rt, os)
          else do {
            check (cnt \<le> int (length evts));
            (rt, os) \<leftarrow> handle_events P k (take (nat cnt) evts) os rt;
            (rt, os) \<leftarrow> listen_loop P k (ef_list_entry_after (rt_links rt) Listen_list) os rt;
            (fin, rt, os) \<leftarrow> exit_queue P k os rt;
            Some (if fin then Some 0 else None, rt, os) } }"

text \<open>At most \<open>n\<close> rounds: \<open>None\<close> in the first place means that it still runs.\<close>

fun loop_rounds ::
    "('e, 's, 'ans) ef_poll \<Rightarrow> ('e, 's, 'ans, 'o) kernel \<Rightarrow> nat \<Rightarrow> 'o \<Rightarrow> 's ef_runtime \<Rightarrow> (int option \<times> 's ef_runtime \<times> 'o) option" where
  "loop_rounds P k 0 os rt = Some (None, rt, os)"
| "loop_rounds P k (Suc n) os rt =
     do { (r, rt, os) \<leftarrow> loop_round P k os rt;
          case r of Some ret \<Rightarrow> Some (Some ret, rt, os) | None \<Rightarrow> loop_rounds P k n os rt }"

definition ef_run_loop ::
    "('e, 's, 'ans) ef_poll \<Rightarrow> ('e, 's, 'ans, 'o) kernel \<Rightarrow> nat \<Rightarrow> 'o \<Rightarrow> 's ef_runtime \<Rightarrow> (int option \<times> 's ef_runtime \<times> 'o) option" where
  "ef_run_loop P k n os rt =
     do { (ret, rt, os) \<leftarrow> add_loop P k (ef_list_entry_after (rt_links rt) Listen_list) os rt;
          if ret < 0 then Some (Some ret, rt, os) else loop_rounds P k n os rt }"

end
