(* ===== verification/FrameworkCorrect.thy ===== *)
theory FrameworkCorrect
  imports EfFramework
begin

text \<open>
  The queues of accepted connections: the loops of the framework over linked lists act as
  operations on one sequence of connections for each listening socket.
\<close>

section \<open>What running a routine leaves alone\<close>

lemma bind_map_out: "map_option f (x \<bind> g) = x \<bind> (\<lambda>y. map_option f (g y))"
  by (cases x) simp_all

lemma bind_map_in: "map_option f x \<bind> g = x \<bind> (\<lambda>y. g (f y))"
  by (cases x) simp_all

lemma routines_links [simp]:
  "routines_of (rt\<lparr>rt_links := L\<rparr>) = routines_of rt"
  "with_routines ro (rt\<lparr>rt_links := L\<rparr>) = (with_routines ro rt)\<lparr>rt_links := L\<rparr>"
  "rt_links (with_routines ro rt) = rt_links rt" "rt_listens (with_routines ro rt) = rt_listens rt"
  "rt_fds (with_routines ro rt) = rt_fds rt" "rt_pool (with_routines ro rt) = rt_pool rt"
  "rt_frames (with_routines ro rt) = rt_frames rt" "rt_source (with_routines ro rt) = ro_source ro"
  "rt_data (with_routines ro rt) = ro_data ro"
  by (simp_all add: routines_of_def with_routines_def)

text \<open>Running a routine commutes with a change to the lists: it does not look at them.\<close>

lemma ef_proc_links:
  "ef_proc P k os (rt\<lparr>rt_links := L\<rparr>) co ev = map_option (\<lambda>(rt, os). (rt\<lparr>rt_links := L\<rparr>, os)) (ef_proc P k os rt co ev)"
proof (cases "rt_data rt co")
  case (Some d)
  obtain act ro os1 where A: "(if rt_frames rt co = None \<and> pd_proc d = 0 then (None, routines_of rt, os)
      else k_run k os (routines_of rt) co ev) = (act, ro, os1)" by (metis prod_cases3)
  have c: "routines_of ((with_routines ro rt)\<lparr>rt_links := L\<rparr>) = routines_of (with_routines ro rt)"
    "\<And>ro'. with_routines ro' ((with_routines ro rt)\<lparr>rt_links := L\<rparr>) = (with_routines ro' (with_routines ro rt))\<lparr>rt_links := L\<rparr>"
    by simp_all
  show ?thesis
  proof (cases act)
    case None
    then show ?thesis using Some A
      by (auto simp: ef_proc_def Let_def bind_map_out split: prod.split intro!: Option.bind_cong)
  next
    case (Some sp)
    then show ?thesis using \<open>rt_data rt co = Some d\<close> A
      by (auto simp: ef_proc_def Let_def bind_map_out split: prod.split intro!: Option.bind_cong)
  qed
qed (simp add: ef_proc_def)

lemma resume_routine_links:
  "resume_routine P k os (rt\<lparr>rt_links := L\<rparr>) co ev =
     map_option (\<lambda>(rt, os). (rt\<lparr>rt_links := L\<rparr>, os)) (resume_routine P k os rt co ev)"
proof -
  have c: "(rt\<lparr>rt_links := L\<rparr>)\<lparr>rt_pool := p\<rparr> = (rt\<lparr>rt_pool := p\<rparr>)\<lparr>rt_links := L\<rparr>" for p by simp
  show ?thesis
    by (auto simp: resume_routine_def bind_map_out c ef_proc_links Let_def split: sum.split prod.split intro!: Option.bind_cong)
qed

lemma ef_routine_run_links:
  "ef_routine_run P k os (rt\<lparr>rt_links := L\<rparr>) proc fd =
     map_option (\<lambda>(r, rt, os). (r, rt\<lparr>rt_links := L\<rparr>, os)) (ef_routine_run P k os rt proc fd)"
proof -
  have c: "(rt\<lparr>rt_links := L\<rparr>)\<lparr>rt_pool := p, rt_frames := f, rt_data := d\<rparr> = (rt\<lparr>rt_pool := p, rt_frames := f, rt_data := d\<rparr>)\<lparr>rt_links := L\<rparr>"
    for p f d by simp
  have c1: "(rt\<lparr>rt_links := L\<rparr>)\<lparr>rt_pool := p\<rparr> = (rt\<lparr>rt_pool := p\<rparr>)\<lparr>rt_links := L\<rparr>" for p by simp
  show ?thesis
    by (auto simp: ef_routine_run_def bind_map_out bind_map_in c resume_routine_links Let_def option.map_comp o_def
        split: option.split prod.split intro!: Option.bind_cong)
qed

lemma ef_proc_frame:
  assumes "ef_proc P k os rt co ev = Some (rt', os')"
  shows "rt_links rt' = rt_links rt \<and> rt_listens rt' = rt_listens rt \<and> rt_fds rt' = rt_fds rt"
proof -
  obtain d where d: "rt_data rt co = Some d" using assms by (cases "rt_data rt co") (simp_all add: ef_proc_def)
  obtain act ro os1 where A: "(if rt_frames rt co = None \<and> pd_proc d = 0 then (None, routines_of rt, os)
      else k_run k os (routines_of rt) co ev) = (act, ro, os1)" by (metis prod_cases3)
  let ?fd = "case rt_frames rt co of None \<Rightarrow> pd_fd d | Some fd \<Rightarrow> fd"
  obtain e os2 where e: "k_env k os1 = (e, os2)" by (cases "k_env k os1")
  obtain cl os3 where cl: "k_close k os2 ?fd = (cl, os3)" by (cases "k_close k os2 ?fd")
  obtain now os4 where t: "k_time k os3 = (now, os4)" by (cases "k_time k os3")
  obtain now' os5 where t': "k_time k os1 = (now', os5)" by (cases "k_time k os1")
  show ?thesis using assms d A e cl t t'
    by (cases act) (auto simp: ef_proc_def Let_def bind_Some_iff)
qed

lemma resume_routine_frame:
  assumes "resume_routine P k os rt co ev = Some (rt', os')"
  shows "rt_links rt' = rt_links rt \<and> rt_listens rt' = rt_listens rt \<and> rt_fds rt' = rt_fds rt"
proof -
  obtain sp os1 where sp: "k_sp k os = (sp, os1)" by (cases "k_sp k os")
  show ?thesis using assms sp
    by (cases "ef_coroutine_resume (rt_pool rt) co sp")
      (auto simp: resume_routine_def Let_def dest!: ef_proc_frame split: sum.split_asm)
qed

lemma ef_routine_run_frame:
  assumes "ef_routine_run P k os rt proc fd = Some (r, rt', os')"
  shows "rt_links rt' = rt_links rt \<and> rt_listens rt' = rt_listens rt \<and> rt_fds rt' = rt_fds rt"
proof -
  obtain st mp os1 where m: "k_map k os (rt_pool rt) = ((st, mp), os1)" by (metis prod.exhaust)
  show ?thesis using assms m
    by (cases "ef_coroutine_create (rt_pool rt) st mp ROUTINE_SIZE (k_ef_proc k) 0")
      (auto simp: ef_routine_run_def Let_def bind_Some_iff dest!: resume_routine_frame split: option.split_asm)
qed

section \<open>The queues as sequences\<close>

text \<open>
  \<open>lis\<close> are the listening sockets, \<open>qs\<close> the queue items of each, \<open>frees\<close> the unused items.
\<close>

definition queues_repr :: "'s ef_runtime \<Rightarrow> u64 list \<Rightarrow> (u64 \<Rightarrow> u64 list) \<Rightarrow> u64 list \<Rightarrow> bool" where
  "queues_repr rt lis qs frees \<longleftrightarrow>
     ring (rt_links rt) Listen_list (map Listen_entry lis) \<and> ring (rt_links rt) Free_fd_list (map Fd_entry frees) \<and>
     (\<forall>li \<in> set lis. ring (rt_links rt) (Fd_list li) (map Fd_entry (qs li))) \<and>
     dom (rt_listens rt) = set lis \<and> set frees \<subseteq> dom (rt_fds rt) \<and>
     (\<forall>li \<in> set lis. set (qs li) \<subseteq> dom (rt_fds rt) \<and> set (qs li) \<inter> set frees = {} \<and>
        (\<forall>li' \<in> set lis. li' \<noteq> li \<longrightarrow> set (qs li) \<inter> set (qs li') = {}))"

lemma queues_reprD:
  assumes "queues_repr rt lis qs frees"
  shows "ring (rt_links rt) Listen_list (map Listen_entry lis)" "ring (rt_links rt) Free_fd_list (map Fd_entry frees)"
    "\<And>li. li \<in> set lis \<Longrightarrow> ring (rt_links rt) (Fd_list li) (map Fd_entry (qs li))"
    "dom (rt_listens rt) = set lis" "set frees \<subseteq> dom (rt_fds rt)"
    "\<And>li. li \<in> set lis \<Longrightarrow> set (qs li) \<subseteq> dom (rt_fds rt)" "\<And>li. li \<in> set lis \<Longrightarrow> set (qs li) \<inter> set frees = {}"
    "\<And>li li'. li \<in> set lis \<Longrightarrow> li' \<in> set lis \<Longrightarrow> li' \<noteq> li \<Longrightarrow> set (qs li) \<inter> set (qs li') = {}"
    "distinct frees" "distinct lis" "\<And>li. li \<in> set lis \<Longrightarrow> distinct (qs li)"
  using assms by (auto simp: queues_repr_def ring_def distinct_map)

lemma queues_repr_cong:
  assumes "queues_repr rt lis qs frees" "rt_links rt' = rt_links rt" "rt_listens rt' = rt_listens rt" "rt_fds rt' = rt_fds rt"
  shows "queues_repr rt' lis qs frees"
  using assms by (simp add: queues_repr_def)

text \<open>The connections that wait at a socket, the first accepted first.\<close>

definition queue_of :: "'s ef_runtime \<Rightarrow> (u64 \<Rightarrow> u64 list) \<Rightarrow> u64 \<Rightarrow> int list" where
  "queue_of rt qs li = map (\<lambda>q. the (rt_fds rt q)) (qs li)"

text \<open>
  The specification of the inner loop: one routine after the other for the connections of a
  sequence, until one cannot be created; the result says how many there were.
\<close>

fun hand_over ::
    "('e, 's, 'ans) ef_poll \<Rightarrow> ('e, 's, 'ans, 'o) kernel \<Rightarrow> u64 \<Rightarrow> int list \<Rightarrow> 'o \<Rightarrow> 's ef_runtime \<Rightarrow> (nat \<times> 's ef_runtime \<times> 'o) option" where
  "hand_over P k proc [] os rt = Some (0, rt, os)"
| "hand_over P k proc (fd # fds) os rt =
     do { (ret, rt, os) \<leftarrow> ef_routine_run P k os rt proc fd;
          if ret < 0 then Some (0, rt, os)
          else do { (n, rt, os) \<leftarrow> hand_over P k proc fds os rt; Some (Suc n, rt, os) } }"

lemma hand_over_links:
  "hand_over P k proc fds os (rt\<lparr>rt_links := L\<rparr>) =
     map_option (\<lambda>(n, rt, os). (n, rt\<lparr>rt_links := L\<rparr>, os)) (hand_over P k proc fds os rt)"
proof (induction fds arbitrary: os rt)
  case (Cons fd fds)
  show ?case
    by (cases "ef_routine_run P k os rt proc fd")
      (auto simp: ef_routine_run_links Cons.IH bind_map_out bind_map_in split: prod.split intro!: Option.bind_cong)
qed simp

lemma hand_over_frame:
  assumes "hand_over P k proc fds os rt = Some (n, rt', os')"
  shows "n \<le> length fds \<and> rt_links rt' = rt_links rt \<and> rt_listens rt' = rt_listens rt \<and> rt_fds rt' = rt_fds rt"
  using assms
proof (induction fds arbitrary: os rt n rt' os')
  case (Cons fd fds)
  from Cons.prems obtain ret rt1 os1 where r: "ef_routine_run P k os rt proc fd = Some (ret, rt1, os1)"
    by (auto simp: bind_Some_iff)
  note f = ef_routine_run_frame [OF r]
  show ?case
  proof (cases "ret < 0")
    case False
    with Cons.prems r obtain n1 where "hand_over P k proc fds os1 rt1 = Some (n1, rt', os')" "n = Suc n1"
      by (auto simp: bind_Some_iff)
    with Cons.IH f show ?thesis by fastforce
  qed (use Cons.prems r f in simp)
qed simp

text \<open>Moving the first item of a queue to the unused ones.\<close>

lemma recycle_first:
  assumes R: "queues_repr rt lis qs frees" and li: "li \<in> set lis" "qs li = q # rest"
  shows "queues_repr (rt\<lparr>rt_links := ef_list_insert_after Free_fd_list (Fd_entry q) (ef_list_remove (Fd_entry q) (rt_links rt))\<rparr>)
    lis (qs(li := rest)) (q # frees)"
proof -
  note D = queues_reprD [OF R]
  let ?L1 = "ef_list_remove (Fd_entry q) (rt_links rt)"
  let ?L2 = "ef_list_insert_after Free_fd_list (Fd_entry q) ?L1"
  have q: "q \<in> set (qs li)" "q \<notin> set rest" "q \<notin> set frees" using li(2) D(7,11) [OF li(1)] by auto
  have other: "q \<notin> set (qs li')" if "li' \<in> set lis" "li' \<noteq> li" for li'
    using D(8) [OF li(1) that] q(1) by auto
  have rq: "ring (rt_links rt) (Fd_list li) (Fd_entry q # map Fd_entry rest)" using D(3) [OF li(1)] li(2) by simp
  have own: "ring ?L1 (Fd_list li) (map Fd_entry rest)" using ring_remove [of "rt_links rt" "Fd_list li" "[]"] rq by simp
  have frame1: "ring ?L1 g ys" if "ring (rt_links rt) g ys" "set (g # ys) \<inter> set (Fd_list li # Fd_entry q # map Fd_entry rest) = {}" for g ys
    by (rule ring_remove_frame [OF rq _ that]) simp
  have free1: "ring ?L1 Free_fd_list (map Fd_entry frees)"
    by (rule frame1 [OF D(2)]) (use D(7) [OF li(1)] li(2) in auto)
  have frame2: "ring ?L2 g ys" if "ring ?L1 g ys" "set (g # ys) \<inter> set (Fd_entry q # Free_fd_list # map Fd_entry frees) = {}" for g ys
    by (rule ring_insert_after_frame [OF free1 that])
  have "ring ?L2 Free_fd_list (map Fd_entry (q # frees))"
    using ring_insert_after [OF free1, of "Fd_entry q"] q(3) by auto
  moreover have "ring ?L2 Listen_list (map Listen_entry lis)"
    by (rule frame2, rule frame1 [OF D(1)]) auto
  moreover have "ring ?L2 (Fd_list li') (map Fd_entry ((qs(li := rest)) li'))" if l: "li' \<in> set lis" for li'
  proof (cases "li' = li")
    case True
    have "ring ?L2 (Fd_list li) (map Fd_entry rest)"
      by (rule frame2 [OF own]) (use q D(7) [OF li(1)] li(2) in auto)
    with True show ?thesis by simp
  next
    case False
    have "ring ?L2 (Fd_list li') (map Fd_entry (qs li'))"
      by (rule frame2, rule frame1 [OF D(3) [OF l]])
        (use False other [OF l False] D(7) [OF l] D(8) [OF li(1) l False] li(2) in auto)
    with False show ?thesis by simp
  qed
  moreover have sub: "set ((qs(li := rest)) li') \<subseteq> set (qs li') - {q}" if "li' \<in> set lis" for li'
    using that li(2) q(2) other [of li'] by (cases "li' = li") auto
  have "set ((qs(li := rest)) li') \<subseteq> dom (rt_fds rt) \<and> set ((qs(li := rest)) li') \<inter> set (q # frees) = {} \<and>
      (\<forall>l \<in> set lis. l \<noteq> li' \<longrightarrow> set ((qs(li := rest)) li') \<inter> set ((qs(li := rest)) l) = {})" if l: "li' \<in> set lis" for li'
  proof (intro conjI ballI impI)
    show "set ((qs(li := rest)) li') \<subseteq> dom (rt_fds rt)" using sub [OF l] D(6) [OF l] by blast
    show "set ((qs(li := rest)) li') \<inter> set (q # frees) = {}" using sub [OF l] D(7) [OF l] by auto
    show "set ((qs(li := rest)) li') \<inter> set ((qs(li := rest)) l') = {}" if l': "l' \<in> set lis" "l' \<noteq> li'" for l'
      using sub [OF l] sub [OF l'(1)] D(8) [OF l l'] by blast
  qed
  moreover have "set (q # frees) \<subseteq> dom (rt_fds rt)" using D(5) D(6) [OF li(1)] q(1) by auto
  ultimately show ?thesis
    using D(4) unfolding queues_repr_def by (intro conjI ballI) (simp_all del: fun_upd_apply)
qed

lemma queue_loop_hands_over:
  assumes "queues_repr rt lis qs frees" "li \<in> set lis" "rt_listens rt li = Some l"
    and "hand_over P k (li_proc l) (queue_of rt qs li) os rt = Some (n, rt', os')"
  shows "\<exists>L. queue_loop P k li (hd (map Fd_entry (qs li) @ [Fd_list li])) os rt =
      Some (n = length (qs li), rt'\<lparr>rt_links := L\<rparr>, os') \<and>
    queues_repr (rt'\<lparr>rt_links := L\<rparr>) lis (qs(li := drop n (qs li))) (rev (take n (qs li)) @ frees)"
  using assms
proof (induction "qs li" arbitrary: qs os rt frees n rt' os')
  case Nil
  then have "n = 0" "rt' = rt" "os' = os" by (simp_all add: queue_of_def)
  moreover have "queues_repr rt lis (qs(li := [])) frees"
    using Nil.prems(1) Nil.hyps by (metis fun_upd_triv)
  ultimately show ?case
    using Nil.hyps [symmetric]
    by (intro exI [of _ "rt_links rt"]) (simp add: queue_loop.simps del: fun_upd_apply)
next
  case (Cons q rest)
  note D = queues_reprD [OF Cons.prems(1)]
  have qs: "qs li = q # rest" using Cons.hyps(2) by simp
  have "q \<in> dom (rt_fds rt)" using D(6) [OF Cons.prems(2)] qs by auto
  then obtain fd where fd: "rt_fds rt q = Some fd" by blast
  have queue: "queue_of rt qs li = fd # queue_of rt (qs(li := rest)) li" by (simp add: queue_of_def qs fd)
  have succ: "ef_list_entry_after (rt_links rt) (Fd_entry q) = hd (map Fd_entry rest @ [Fd_list li])"
  proof -
    have "ring (rt_links rt) (Fd_entry q) (map Fd_entry rest @ [Fd_list li])"
      using ring_rotate [of "rt_links rt" "Fd_list li" "[]" "Fd_entry q" "map Fd_entry rest"] D(3) [OF Cons.prems(2)] qs by simp
    from ring_first [OF this] show ?thesis by (cases rest) simp_all
  qed
  obtain ret rt1 os1 where r: "ef_routine_run P k os rt (li_proc l) fd = Some (ret, rt1, os1)"
    using Cons.prems(4) queue by (auto simp: bind_Some_iff)
  note f = ef_routine_run_frame [OF r]
  have step: "queue_loop P k li (hd (map Fd_entry (qs li) @ [Fd_list li])) os rt =
      (if ret < 0 then Some (False, rt1, os1)
       else queue_loop P k li (hd (map Fd_entry rest @ [Fd_list li])) os1
         (rt1\<lparr>rt_links := ef_list_insert_after Free_fd_list (Fd_entry q) (ef_list_remove (Fd_entry q) (rt_links rt1))\<rparr>))"
    by (subst queue_loop.simps) (simp add: qs fd_of_def succ Cons.prems(3) fd r Let_def)
  show ?case
  proof (cases "ret < 0")
    case True
    then have "n = 0" "rt' = rt1" "os' = os1" using Cons.prems(4) queue r by simp_all
    moreover have "queues_repr rt1 lis qs frees"
      by (rule queues_repr_cong [OF Cons.prems(1)]) (use f in simp_all)
    moreover have "qs(li := q # rest) = qs" using qs by (metis fun_upd_triv)
    ultimately show ?thesis unfolding step using True qs
      by (intro exI [of _ "rt_links rt1"]) (simp del: fun_upd_apply)
  next
    case False
    let ?rt2 = "rt1\<lparr>rt_links := ef_list_insert_after Free_fd_list (Fd_entry q) (ef_list_remove (Fd_entry q) (rt_links rt1))\<rparr>"
    have "queues_repr rt1 lis qs frees"
      by (rule queues_repr_cong [OF Cons.prems(1)]) (use f in simp_all)
    from recycle_first [OF this Cons.prems(2) qs] have R2: "queues_repr ?rt2 lis (qs(li := rest)) (q # frees)" .
    have q2: "queue_of ?rt2 (qs(li := rest)) li = queue_of rt (qs(li := rest)) li" using f by (simp add: queue_of_def)
    obtain n1 where h: "hand_over P k (li_proc l) (queue_of rt (qs(li := rest)) li) os1 rt1 = Some (n1, rt', os')" "n = Suc n1"
      using Cons.prems(4) queue r False by (auto simp: bind_Some_iff)
    have "hand_over P k (li_proc l) (queue_of ?rt2 (qs(li := rest)) li) os1 ?rt2 =
        Some (n1, rt'\<lparr>rt_links := rt_links ?rt2\<rparr>, os')"
      unfolding q2 hand_over_links h(1) by simp
    from Cons.hyps(1) [of "qs(li := rest)", OF _ R2 Cons.prems(2) _ this] obtain L where
      "queue_loop P k li (hd (map Fd_entry rest @ [Fd_list li])) os1 ?rt2 = Some (n1 = length rest, rt'\<lparr>rt_links := L\<rparr>, os')"
      "queues_repr (rt'\<lparr>rt_links := L\<rparr>) lis (qs(li := drop n1 rest)) (rev (take n1 rest) @ q # frees)"
      using Cons.prems(3) f by auto
    then show ?thesis unfolding step using False h(2) qs by (intro exI [of _ L]) simp
  qed
qed

text \<open>The specification of the outer loop: socket after socket, until a routine cannot be created.\<close>

fun hand_over_all ::
    "('e, 's, 'ans) ef_poll \<Rightarrow> ('e, 's, 'ans, 'o) kernel \<Rightarrow> (u64 \<times> int list) list \<Rightarrow> 'o \<Rightarrow> 's ef_runtime \<Rightarrow> (nat list \<times> 's ef_runtime \<times> 'o) option" where
  "hand_over_all P k [] os rt = Some ([], rt, os)"
| "hand_over_all P k ((proc, fds) # qs) os rt =
     do { (n, rt, os) \<leftarrow> hand_over P k proc fds os rt;
          if n < length fds then Some (n # replicate (length qs) 0, rt, os)
          else do { (ns, rt, os) \<leftarrow> hand_over_all P k qs os rt; Some (n # ns, rt, os) } }"

definition waiting_queues :: "'s ef_runtime \<Rightarrow> (u64 \<Rightarrow> u64 list) \<Rightarrow> u64 list \<Rightarrow> (u64 \<times> int list) list" where
  "waiting_queues rt qs lis = map (\<lambda>li. (li_proc (the (rt_listens rt li)), queue_of rt qs li)) lis"

lemma hand_over_all_links:
  "hand_over_all P k qs os (rt\<lparr>rt_links := L\<rparr>) =
     map_option (\<lambda>(n, rt, os). (n, rt\<lparr>rt_links := L\<rparr>, os)) (hand_over_all P k qs os rt)"
proof (induction qs arbitrary: os rt)
  case (Cons x qs)
  obtain proc fds where x: "x = (proc, fds)" by (cases x)
  show ?case unfolding x
    by (cases "hand_over P k proc fds os rt")
      (auto simp: hand_over_links Cons.IH bind_map_out bind_map_in split: prod.split intro!: Option.bind_cong)
qed simp

text \<open>The queues after \<open>ns\<close> connections of each have been handed over.\<close>

fun handed :: "nat list \<Rightarrow> u64 list \<Rightarrow> (u64 \<Rightarrow> u64 list) \<Rightarrow> u64 \<Rightarrow> u64 list" where
  "handed (n # ns) (li # lis) qs = handed ns lis (qs(li := drop n (qs li)))"
| "handed ns lis qs = qs"

lemma handed_other: "li \<notin> set lis \<Longrightarrow> handed ns lis qs li = qs li"
  by (induction ns lis qs rule: handed.induct) auto

lemma handed_nth:
  "distinct lis \<Longrightarrow> i < length lis \<Longrightarrow> length ns = length lis \<Longrightarrow> handed ns lis qs (lis ! i) = drop (ns ! i) (qs (lis ! i))"
proof (induction ns lis qs arbitrary: i rule: handed.induct)
  case (1 n ns li lis qs)
  show ?case
  proof (cases i)
    case (Suc j)
    then have "handed ns lis (qs(li := drop n (qs li))) (lis ! j) = drop (ns ! j) ((qs(li := drop n (qs li))) (lis ! j))"
      using 1(1) [of j] 1(2-4) by (simp del: fun_upd_apply)
    moreover have "lis ! j \<noteq> li" using 1(2,3) Suc nth_mem by fastforce
    ultimately show ?thesis using Suc by simp
  qed (use 1(2) in \<open>simp add: handed_other\<close>)
qed simp_all

lemma handed_zero: "handed (replicate n 0) lis qs = qs"
proof (induction n arbitrary: lis)
  case (Suc n)
  then show ?case by (cases lis) simp_all
qed simp

lemma listen_loop_hands_over:
  assumes "queues_repr rt (done @ lis) qs frees"
    and "hand_over_all P k (waiting_queues rt qs lis) os rt = Some (ns, rt', os')"
  shows "length ns = length lis \<and> (\<exists>L frees'.
    listen_loop P k (hd (map Listen_entry lis @ [Listen_list])) os rt = Some (rt'\<lparr>rt_links := L\<rparr>, os') \<and>
    queues_repr (rt'\<lparr>rt_links := L\<rparr>) (done @ lis) (handed ns lis qs) frees')"
  using assms
proof (induction lis arbitrary: "done" qs os rt frees ns rt' os')
  case Nil
  then show ?case by (intro conjI exI [of _ "rt_links rt"] exI [of _ frees])
      (simp_all add: waiting_queues_def listen_loop.simps)
next
  case (Cons li lis)
  note D = queues_reprD [OF Cons.prems(1)]
  have li: "li \<in> set (done @ li # lis)" "li \<notin> set lis" using D(10) by auto
  then obtain l where l: "rt_listens rt li = Some l" using D(4) by blast
  have first: "ef_list_entry_after (rt_links rt) (Fd_list li) = hd (map Fd_entry (qs li) @ [Fd_list li])"
    using ring_first [OF D(3) [OF li(1)]] .
  have wq: "waiting_queues rt qs (li # lis) = (li_proc l, queue_of rt qs li) # waiting_queues rt qs lis"
    by (simp add: waiting_queues_def l)
  obtain n rt1 os1 where h: "hand_over P k (li_proc l) (queue_of rt qs li) os rt = Some (n, rt1, os1)"
    using Cons.prems(2) unfolding wq by (auto simp: bind_Some_iff)
  note f = hand_over_frame [OF h]
  have len: "length (queue_of rt qs li) = length (qs li)" by (simp add: queue_of_def)
  from queue_loop_hands_over [OF Cons.prems(1) li(1) l h] obtain L where
    L: "queue_loop P k li (hd (map Fd_entry (qs li) @ [Fd_list li])) os rt = Some (n = length (qs li), rt1\<lparr>rt_links := L\<rparr>, os1)"
      "queues_repr (rt1\<lparr>rt_links := L\<rparr>) (done @ li # lis) (qs(li := drop n (qs li))) (rev (take n (qs li)) @ frees)" by blast
  let ?rt1 = "rt1\<lparr>rt_links := L\<rparr>" and ?qs1 = "qs(li := drop n (qs li))"
  have succ: "ef_list_entry_after L (Listen_entry li) = hd (map Listen_entry lis @ [Listen_list])"
  proof -
    have "ring L (Listen_entry li) (map Listen_entry lis @ Listen_list # map Listen_entry done)"
      using ring_rotate [of L Listen_list "map Listen_entry done" "Listen_entry li" "map Listen_entry lis"]
        queues_reprD(1) [OF L(2)] by simp
    from ring_first [OF this] show ?thesis by (cases lis) simp_all
  qed
  have step: "listen_loop P k (hd (map Listen_entry (li # lis) @ [Listen_list])) os rt =
      (if n \<noteq> length (qs li) then Some (?rt1, os1) else listen_loop P k (hd (map Listen_entry lis @ [Listen_list])) os1 ?rt1)"
    by (subst listen_loop.simps) (simp add: listen_of_def first L(1) succ)
  show ?case
  proof (cases "n < length (qs li)")
    case True
    then have "ns = n # replicate (length lis) 0" "rt' = rt1" "os' = os1"
      using Cons.prems(2) h len unfolding wq by (simp_all add: waiting_queues_def)
    then show ?thesis unfolding step using True L(2)
      by (auto simp: handed_zero simp del: fun_upd_apply intro!: exI [of _ L])
  next
    case False
    then have n: "n = length (qs li)" using f len by simp
    obtain ns1 where a: "hand_over_all P k (waiting_queues rt qs lis) os1 rt1 = Some (ns1, rt', os')" "ns = n # ns1"
      using Cons.prems(2) h len n unfolding wq by (auto simp: bind_Some_iff)
    have wq1: "waiting_queues ?rt1 ?qs1 lis = waiting_queues rt qs lis"
      using f li(2) by (auto simp: waiting_queues_def queue_of_def)
    have h1: "hand_over_all P k (waiting_queues ?rt1 ?qs1 lis) os1 ?rt1 = Some (ns1, rt'\<lparr>rt_links := L\<rparr>, os')"
      unfolding wq1 hand_over_all_links a(1) by simp
    have R1: "queues_repr ?rt1 ((done @ [li]) @ lis) ?qs1 (rev (take n (qs li)) @ frees)" using L(2) by simp
    note ih = Cons.IH [OF R1 h1]
    then obtain La frees' where "length ns1 = length lis"
      "listen_loop P k (hd (map Listen_entry lis @ [Listen_list])) os1 ?rt1 = Some ((rt'\<lparr>rt_links := L\<rparr>)\<lparr>rt_links := La\<rparr>, os')"
      "queues_repr ((rt'\<lparr>rt_links := L\<rparr>)\<lparr>rt_links := La\<rparr>) ((done @ [li]) @ lis) (handed ns1 lis ?qs1) frees'" by metis
    then show ?thesis unfolding step using n a(2)
      by (intro conjI exI [of _ La] exI [of _ frees']) (simp_all del: fun_upd_apply)
  qed
qed

lemma hand_over_all_frame:
  "hand_over_all P k qs os rt = Some (ns, rt', os') \<Longrightarrow> rt_listens rt' = rt_listens rt \<and> rt_fds rt' = rt_fds rt"
proof (induction qs arbitrary: os rt ns)
  case (Cons q qs)
  obtain proc fds where q: "q = (proc, fds)" by (cases q)
  from Cons.prems obtain n rt1 os1 where h: "hand_over P k proc fds os rt = Some (n, rt1, os1)"
    unfolding q by (auto simp: bind_Some_iff)
  note f = hand_over_frame [OF h]
  show ?case
  proof (cases "n < length fds")
    case False
    then obtain ns1 where "hand_over_all P k qs os1 rt1 = Some (ns1, rt', os')"
      using Cons.prems h unfolding q by (auto simp: bind_Some_iff)
    from Cons.IH [OF this] f show ?thesis by simp
  qed (use Cons.prems h f q in simp)
qed simp

end
