(* ===== verification/RoutineWaits.thy ===== *)
theory RoutineWaits
  imports EfRoutine
begin

text \<open>
  Routines and event source together: whenever a routine has yielded inside a call, the source
  holds its descriptor with its own pointer and the events it waits for.  The laws of the source
  this needs are a locale; both sources of the repository satisfy them.
\<close>

section \<open>Steps\<close>

text \<open>A routine that has yielded, with its descriptor and its \<^verbatim>\<open>retval\<close>.\<close>

datatype pending = Reading int int | Writing int int | Connecting int int

fun pending_fd :: "pending \<Rightarrow> int" where
  "pending_fd (Reading fd r) = fd"
| "pending_fd (Writing fd r) = fd"
| "pending_fd (Connecting fd r) = fd"

fun pending_want :: "pending \<Rightarrow> u32" where
  "pending_want (Reading fd r) = EF_POLLIN"
| "pending_want (Writing fd r) = EF_POLLOUT"
| "pending_want (Connecting fd r) = EF_POLLOUT"

definition after :: "io \<Rightarrow> u64 \<Rightarrow> (int \<Rightarrow> pending) \<Rightarrow> (u64 \<rightharpoonup> pending) \<Rightarrow> u64 \<rightharpoonup> pending" where
  "after res co w W = (case res of Yields r \<Rightarrow> W(co \<mapsto> w r) | Returns _ _ \<Rightarrow> W(co := None))"

definition unwaited :: "(u64 \<rightharpoonup> pending) \<Rightarrow> int \<Rightarrow> bool" where
  "unwaited W fd \<longleftrightarrow> (\<forall>w \<in> ran W. pending_fd w \<noteq> fd)"

definition fd_ok :: "int \<Rightarrow> bool" where
  "fd_ok fd \<longleftrightarrow> 0 \<le> fd \<and> fd < 2 ^ 30"

text \<open>A call may begin: the routine is not inside another, and no other waits for the descriptor.\<close>

definition may_call :: "'s routines \<Rightarrow> (u64 \<rightharpoonup> pending) \<Rightarrow> u64 option \<Rightarrow> u64 \<Rightarrow> int \<Rightarrow> bool" where
  "may_call rt W er co fd \<longleftrightarrow> the_routine rt er = Some co \<and> W co = None \<and> unwaited W fd \<and> fd_ok fd"

text \<open>
  What can happen, in any order: routines come, go and are switched to, begin and continue calls,
  close descriptors, and the loop waits.  \<open>env\<close> and \<open>sane\<close> say what the allocator and the
  kernel may answer.
\<close>

inductive io_reach :: "('e, 's, 'ans) ef_poll \<Rightarrow> ('e \<Rightarrow> bool) \<Rightarrow> ('s \<Rightarrow> 'ans \<Rightarrow> bool) \<Rightarrow> 's \<Rightarrow>
    's routines \<Rightarrow> (u64 \<rightharpoonup> pending) \<Rightarrow> bool"
  for P env sane s0 where
  start: "ro_source rt = s0 \<Longrightarrow> io_reach P env sane s0 rt Map.empty"
| routine: "io_reach P env sane s0 rt W \<Longrightarrow> W co = None \<Longrightarrow>
    io_reach P env sane s0 (rt\<lparr>ro_data := (ro_data rt)(co := d)\<rparr>) W"
| switches: "io_reach P env sane s0 rt W \<Longrightarrow> io_reach P env sane s0 (rt\<lparr>ro_current := c\<rparr>) W"
| reads: "io_reach P env sane s0 rt W \<Longrightarrow> may_call rt W er co fd \<Longrightarrow> env e \<Longrightarrow>
    ef_routine_read P e rt er fd a = Some (res, rt') \<or> ef_routine_recv P e rt er fd a = Some (res, rt') \<Longrightarrow>
    io_reach P env sane s0 rt' (after res co (Reading fd) W)"
| writes: "io_reach P env sane s0 rt W \<Longrightarrow> may_call rt W er co fd \<Longrightarrow> env e \<Longrightarrow>
    ef_routine_write P e rt er fd a = Some (res, rt') \<or> ef_routine_send P e rt er fd a = Some (res, rt') \<Longrightarrow>
    io_reach P env sane s0 rt' (after res co (Writing fd) W)"
| connects: "io_reach P env sane s0 rt W \<Longrightarrow> may_call rt W er co fd \<Longrightarrow> env e \<Longrightarrow>
    ef_routine_connect P e rt er fd flags setfl a err = Some (res, rt') \<Longrightarrow>
    io_reach P env sane s0 rt' (after res co (Connecting fd) W)"
| read_on: "io_reach P env sane s0 rt W \<Longrightarrow> W co = Some (Reading fd r) \<Longrightarrow> env e \<Longrightarrow>
    io_resumed P reading e rt fd r ev a = Some (res, rt') \<Longrightarrow>
    io_reach P env sane s0 rt' (after res co (Reading fd) W)"
| write_on: "io_reach P env sane s0 rt W \<Longrightarrow> W co = Some (Writing fd r) \<Longrightarrow> env e \<Longrightarrow>
    io_resumed P writing e rt fd r ev a = Some (res, rt') \<Longrightarrow>
    io_reach P env sane s0 rt' (after res co (Writing fd) W)"
| connect_on: "io_reach P env sane s0 rt W \<Longrightarrow> W co = Some (Connecting fd r) \<Longrightarrow> env e \<Longrightarrow>
    connect_resumed P e rt fd r ev so = Some (res, rt') \<Longrightarrow>
    io_reach P env sane s0 rt' (after res co (Connecting fd) W)"
| closes: "io_reach P env sane s0 rt W \<Longrightarrow> unwaited W fd \<Longrightarrow> fd_ok fd \<Longrightarrow> env e \<Longrightarrow>
    ef_routine_close P e rt er fd closed = Some (r, rt') \<Longrightarrow> io_reach P env sane s0 rt' W"
| waits: "io_reach P env sane s0 rt W \<Longrightarrow> sane (ro_source rt) ans \<Longrightarrow>
    po_wait P ans (ro_source rt) count = Some (r, es, s) \<Longrightarrow> io_reach P env sane s0 (rt\<lparr>ro_source := s\<rparr>) W"

section \<open>The laws and what follows from them\<close>

definition registered :: "('s \<Rightarrow> int \<Rightarrow> (u32 \<times> poll_ptr) option) \<Rightarrow> 's routines \<Rightarrow> (u64 \<rightharpoonup> pending) \<Rightarrow> bool" where
  "registered want rt W \<longleftrightarrow>
     (\<forall>co w. W co = Some w \<longrightarrow> fd_ok (pending_fd w) \<and>
        want (ro_source rt) (pending_fd w) = Some (pending_want w, Routine_data co))"

lemma registeredD:
  assumes "registered want rt W" "W co = Some w"
  shows "fd_ok (pending_fd w)" "want (ro_source rt) (pending_fd w) = Some (pending_want w, Routine_data co)"
  using assms by (auto simp: registered_def)

lemma registered_keep:
  assumes "registered want rt W" "\<And>fd. \<not> unwaited W fd \<Longrightarrow> want (ro_source rt') fd = want (ro_source rt) fd"
  shows "registered want rt' W"
proof -
  have "\<not> unwaited W (pending_fd w)" if "W co = Some w" for co w
    using that by (auto simp: unwaited_def ran_def)
  then show ?thesis using assms by (auto simp: registered_def)
qed

text \<open>Whom a descriptor wakes is unique, so a routine waits for its descriptor alone.\<close>

lemma registered_alone:
  assumes "registered want rt W" "W co = Some w"
  shows "unwaited (W(co := None)) (pending_fd w)"
  unfolding unwaited_def
proof (intro ballI notI)
  fix v assume "v \<in> ran (W(co := None))" and fd: "pending_fd v = pending_fd w"
  then obtain co' where v: "co' \<noteq> co" "W co' = Some v" by (auto simp: ran_def split: if_splits)
  show False using registeredD(2) [OF assms] registeredD(2) [OF assms(1) v(2)] fd v(1) by simp
qed

text \<open>A call of \<open>co\<close> on a descriptor nobody else waits for.\<close>

lemma registered_after:
  assumes "registered want rt (W(co := None))" "unwaited (W(co := None)) fd" "fd_ok fd"
    and "\<And>r. pending_fd (w r) = fd"
    and "\<And>fd'. fd' \<noteq> fd \<Longrightarrow> want (ro_source rt') fd' = want (ro_source rt) fd'"
    and "\<And>r. res = Yields r \<Longrightarrow> want (ro_source rt') fd = Some (pending_want (w r), Routine_data co)"
  shows "registered want rt' (after res co w W)"
proof -
  have "registered want rt' (W(co := None))"
    by (rule registered_keep [OF assms(1)]) (use assms(2,5) in metis)
  then show ?thesis
    using assms(3,4,6) by (auto simp: registered_def after_def split: io.splits if_splits)
qed

text \<open>A call that gives a result was made by a routine that exists.\<close>

lemma routine_exists:
  assumes "the_routine rt er = Some co"
  shows "io_call P k e rt er fd a = Some x \<Longrightarrow> ro_data rt co \<noteq> None"
    and "ef_routine_connect P e rt er fd flags setfl a err = Some x \<Longrightarrow> ro_data rt co \<noteq> None"
  using assms by (cases "ro_data rt co"; simp add: io_call_def ef_routine_connect_def set_fd_def)+

lemma closing_exists:
  "ef_routine_close P e rt er fd closed = Some y \<Longrightarrow> \<exists>co. the_routine rt er = Some co \<and> ro_data rt co \<noteq> None"
  by (auto simp: ef_routine_close_def bind_Some_iff)

locale waiting =
  fixes P :: "('e, 's, 'ans) ef_poll" and inv :: "'s \<Rightarrow> bool" and want :: "'s \<Rightarrow> int \<Rightarrow> (u32 \<times> poll_ptr) option"
    and env :: "'e \<Rightarrow> bool" and sane :: "'s \<Rightarrow> 'ans \<Rightarrow> bool"
  assumes associate_law: "inv s \<Longrightarrow> fd_ok fd \<Longrightarrow> env e \<Longrightarrow> ev = EF_POLLIN \<or> ev = EF_POLLOUT \<Longrightarrow>
      \<exists>r s'. po_associate P e s fd ev p False = Some (r, s') \<and> inv s' \<and>
        (\<forall>fd'. fd' \<noteq> fd \<longrightarrow> want s' fd' = want s fd') \<and> (0 \<le> r \<longrightarrow> want s' fd = Some (ev, p))"
    and reassociate_law: "inv s \<Longrightarrow> fd_ok fd \<Longrightarrow> env e \<Longrightarrow> \<exists>r s'. po_associate P e s fd ev p True = Some (r, s') \<and> inv s'"
    and dissociate_law: "inv s \<Longrightarrow> fd_ok fd \<Longrightarrow> env e \<Longrightarrow>
      \<exists>r s'. po_dissociate P e s fd fired onclose = Some (r, s') \<and> inv s' \<and> (\<forall>fd'. fd' \<noteq> fd \<longrightarrow> want s' fd' = want s fd')"
    and unset_law: "inv s \<Longrightarrow> fd_ok fd \<Longrightarrow> \<exists>r s'. po_unset P s fd ev = Some (r, s') \<and> inv s' \<and> want s' = want s"
    and wait_law: "inv s \<Longrightarrow> sane s ans \<Longrightarrow> \<exists>r es s'. po_wait P ans s count = Some (r, es, s') \<and> inv s' \<and> want s' = want s"
begin

lemma finish_ok:
  assumes "inv (ro_source rt)" "fd_ok fd" "env e"
  shows "\<exists>rt'. io_finish P e rt fd r err = Some (Returns r (Some err), rt') \<and> inv (ro_source rt') \<and>
    (\<forall>fd'. fd' \<noteq> fd \<longrightarrow> want (ro_source rt') fd' = want (ro_source rt) fd')"
  using dissociate_law [OF assms, of True False] by (auto simp: io_finish_def)

lemma ready_ok:
  assumes "inv (ro_source rt)" "fd_ok fd" "env e"
  shows "\<exists>res rt'. io_ready P k e rt fd a = Some (res, rt') \<and> inv (ro_source rt') \<and>
    (\<forall>fd'. fd' \<noteq> fd \<longrightarrow> want (ro_source rt') fd' = want (ro_source rt) fd') \<and>
    (\<forall>r. res = Yields r \<longrightarrow> want (ro_source rt') fd = want (ro_source rt) fd)"
proof (cases "fst a < 0 \<and> snd a = EAGAIN")
  case True
  then show ?thesis
    using unset_law [OF assms(1,2), of "di_clear k"] by (auto simp: io_ready_def split: prod.splits)
next
  case False
  then have "io_ready P k e rt fd a = io_finish P e rt fd (fst a) (if fst a < 0 then snd a else 0)"
    by (auto simp: io_ready_def split: prod.splits)
  then show ?thesis using finish_ok [OF assms] by (metis io.distinct(1))
qed

lemma resumed_ok:
  assumes "inv (ro_source rt)" "fd_ok fd" "env e"
  shows "\<exists>res rt'. io_resumed P k e rt fd r ev a = Some (res, rt') \<and> inv (ro_source rt') \<and>
    (\<forall>fd'. fd' \<noteq> fd \<longrightarrow> want (ro_source rt') fd' = want (ro_source rt) fd') \<and>
    (\<forall>r. res = Yields r \<longrightarrow> want (ro_source rt') fd = want (ro_source rt) fd)"
  using finish_ok [OF assms] ready_ok [OF assms, of k a] unfolding io_resumed_def
  by (metis (full_types) io.distinct(1))

lemma connect_resumed_ok:
  assumes "inv (ro_source rt)" "fd_ok fd" "env e"
  shows "\<exists>r' err rt'. connect_resumed P e rt fd r ev so = Some (Returns r' (Some err), rt') \<and> inv (ro_source rt') \<and>
    (\<forall>fd'. fd' \<noteq> fd \<longrightarrow> want (ro_source rt') fd' = want (ro_source rt) fd')"
  using finish_ok [OF assms] unfolding connect_resumed_def by (metis (full_types))

lemma call_ok:
  assumes "inv (ro_source rt)" "fd_ok fd" "env e" "the_routine rt er = Some co" "ro_data rt co \<noteq> None"
    and "di_want k = EF_POLLIN \<or> di_want k = EF_POLLOUT"
  shows "\<exists>res rt'. io_call P k e rt er fd a = Some (res, rt') \<and> inv (ro_source rt') \<and>
    (\<forall>fd'. fd' \<noteq> fd \<longrightarrow> want (ro_source rt') fd' = want (ro_source rt) fd') \<and>
    (\<forall>r. res = Yields r \<longrightarrow> want (ro_source rt') fd = Some (di_want k, Routine_data co))"
proof -
  from assms(5) obtain d where d: "ro_data rt co = Some d" by blast
  let ?rt = "rt\<lparr>ro_data := (ro_data rt)(co \<mapsto> d\<lparr>pd_type := FD_TYPE_RWC, pd_fd := fd\<rparr>)\<rparr>"
  from associate_law [OF assms(1,2,3,6), of "Routine_data co"] obtain r s' where
    s: "po_associate P e (ro_source rt) fd (di_want k) (Routine_data co) False = Some (r, s')" "inv s'"
      "\<forall>fd'. fd' \<noteq> fd \<longrightarrow> want s' fd' = want (ro_source rt) fd'" "0 \<le> r \<longrightarrow> want s' fd = Some (di_want k, Routine_data co)"
    by blast
  have step: "io_call P k e rt er fd a =
      (if r < 0 then Some (Returns r None, ?rt\<lparr>ro_source := s'\<rparr>)
       else if r > 0 then io_ready P k e (?rt\<lparr>ro_source := s'\<rparr>) fd a else Some (Yields r, ?rt\<lparr>ro_source := s'\<rparr>))"
    using assms(4) d s(1) by (simp add: io_call_def set_fd_def Let_def)
  consider "r < 0" | "r = 0" | "0 < r" by linarith
  then show ?thesis
  proof cases
    case 3
    from ready_ok [of "?rt\<lparr>ro_source := s'\<rparr>", OF _ assms(2,3), of k a] s(2)
    show ?thesis using 3 s(3,4) unfolding step by auto
  qed (use s in \<open>auto simp: step\<close>)
qed

lemma connect_ok:
  assumes "inv (ro_source rt)" "fd_ok fd" "env e" "the_routine rt er = Some co" "ro_data rt co \<noteq> None"
  shows "\<exists>res rt'. ef_routine_connect P e rt er fd flags setfl a err = Some (res, rt') \<and> inv (ro_source rt') \<and>
    (\<forall>fd'. fd' \<noteq> fd \<longrightarrow> want (ro_source rt') fd' = want (ro_source rt) fd') \<and>
    (\<forall>r. res = Yields r \<longrightarrow> want (ro_source rt') fd = Some (EF_POLLOUT, Routine_data co))"
proof -
  from assms(5) obtain d where d: "ro_data rt co = Some d" by blast
  from associate_law [OF assms(1,2,3), of EF_POLLOUT "Routine_data co"] obtain r s' where
    s: "po_associate P e (ro_source rt) fd EF_POLLOUT (Routine_data co) False = Some (r, s')" "inv s'"
      "\<forall>fd'. fd' \<noteq> fd \<longrightarrow> want s' fd' = want (ro_source rt) fd'" "0 \<le> r \<longrightarrow> want s' fd = Some (EF_POLLOUT, Routine_data co)"
    by blast
  show ?thesis using assms(1,4) d s by (auto simp: ef_routine_connect_def set_fd_def Let_def)
qed

lemma close_ok:
  assumes "inv (ro_source rt)" "fd_ok fd" "env e" "the_routine rt er = Some co" "ro_data rt co \<noteq> None"
  shows "\<exists>rt'. ef_routine_close P e rt er fd closed = Some (closed, rt') \<and> inv (ro_source rt') \<and>
    (\<forall>fd'. fd' \<noteq> fd \<longrightarrow> want (ro_source rt') fd' = want (ro_source rt) fd')"
  using dissociate_law [OF assms(1-3), of False True] assms(4,5) by (auto simp: ef_routine_close_def)

lemma called:
  assumes "registered want rt W" "may_call rt W er co fd" "\<And>r. pending_fd (w r) = fd"
    and "\<forall>fd'. fd' \<noteq> fd \<longrightarrow> want (ro_source rt') fd' = want (ro_source rt) fd'"
    and "\<forall>r. res = Yields r \<longrightarrow> want (ro_source rt') fd = Some (pending_want (w r), Routine_data co)"
  shows "registered want rt' (after res co w W)"
proof (rule registered_after [of want rt])
  have "W(co := None) = W" using assms(2) by (auto simp: may_call_def)
  then show "registered want rt (W(co := None))" "unwaited (W(co := None)) fd" "fd_ok fd"
    using assms(1,2) by (simp_all add: may_call_def)
qed (use assms in auto)

lemma continued:
  assumes "registered want rt W" "W co = Some v" "\<And>r. pending_fd (w r) = pending_fd v \<and> pending_want (w r) = pending_want v"
    and "\<forall>fd'. fd' \<noteq> pending_fd v \<longrightarrow> want (ro_source rt') fd' = want (ro_source rt) fd'"
    and "\<forall>r. res = Yields r \<longrightarrow> want (ro_source rt') (pending_fd v) = want (ro_source rt) (pending_fd v)"
  shows "registered want rt' (after res co w W)"
proof (rule registered_after [of want rt])
  show "registered want rt (W(co := None))" using assms(1) by (auto simp: registered_def)
  show "unwaited (W(co := None)) (pending_fd v)" by (rule registered_alone [OF assms(1,2)])
  show "fd_ok (pending_fd v)" by (rule registeredD [OF assms(1,2)])
qed (use assms registeredD [OF assms(1,2)] in auto)

lemma reach_registered:
  assumes "inv s0" "io_reach P env sane s0 rt W"
  shows "inv (ro_source rt) \<and> registered want rt W"
  using assms(2)
proof (induction rule: io_reach.induct)
  case (start rt)
  with assms(1) show ?case by (simp add: registered_def)
next
  case (routine rt W co d)
  then show ?case by (auto simp: registered_def)
next
  case (switches rt W c)
  then show ?case by (auto simp: registered_def)
next
  case (reads rt W er co fd e a res rt')
  then obtain a' where "io_call P reading e rt er fd a' = Some (res, rt')"
    unfolding ef_routine_read_def ef_routine_recv_def by blast
  moreover from this have "ro_data rt co \<noteq> None"
    by (rule routine_exists(1) [rotated]) (use reads(2) in \<open>simp add: may_call_def\<close>)
  ultimately have "inv (ro_source rt') \<and> (\<forall>fd'. fd' \<noteq> fd \<longrightarrow> want (ro_source rt') fd' = want (ro_source rt) fd') \<and>
      (\<forall>r. res = Yields r \<longrightarrow> want (ro_source rt') fd = Some (EF_POLLIN, Routine_data co))"
    using call_ok [of rt fd e er co reading a'] reads by (auto simp: may_call_def reading_def)
  then show ?case using called [of rt W er co fd "Reading fd" rt' res] reads by auto
next
  case (writes rt W er co fd e a res rt')
  then obtain a' where "io_call P writing e rt er fd a' = Some (res, rt')"
    unfolding ef_routine_write_def ef_routine_send_def by blast
  moreover from this have "ro_data rt co \<noteq> None"
    by (rule routine_exists(1) [rotated]) (use writes(2) in \<open>simp add: may_call_def\<close>)
  ultimately have "inv (ro_source rt') \<and> (\<forall>fd'. fd' \<noteq> fd \<longrightarrow> want (ro_source rt') fd' = want (ro_source rt) fd') \<and>
      (\<forall>r. res = Yields r \<longrightarrow> want (ro_source rt') fd = Some (EF_POLLOUT, Routine_data co))"
    using call_ok [of rt fd e er co writing a'] writes by (auto simp: may_call_def writing_def)
  then show ?case using called [of rt W er co fd "Writing fd" rt' res] writes by auto
next
  case (connects rt W er co fd e flags setfl a err res rt')
  have "ro_data rt co \<noteq> None"
    by (rule routine_exists(2) [OF _ connects(4)]) (use connects(2) in \<open>simp add: may_call_def\<close>)
  with connects have "inv (ro_source rt') \<and> (\<forall>fd'. fd' \<noteq> fd \<longrightarrow> want (ro_source rt') fd' = want (ro_source rt) fd') \<and>
      (\<forall>r. res = Yields r \<longrightarrow> want (ro_source rt') fd = Some (EF_POLLOUT, Routine_data co))"
    using connect_ok [of rt fd e er co flags setfl a err] by (auto simp: may_call_def)
  then show ?case using called [of rt W er co fd "Connecting fd" rt' res] connects by auto
next
  case (read_on rt W co fd r e ev a res rt')
  then have "fd_ok fd" using registeredD(1) by fastforce
  with read_on have "inv (ro_source rt') \<and> (\<forall>fd'. fd' \<noteq> fd \<longrightarrow> want (ro_source rt') fd' = want (ro_source rt) fd') \<and>
      (\<forall>r. res = Yields r \<longrightarrow> want (ro_source rt') fd = want (ro_source rt) fd)"
    using resumed_ok [of rt fd e reading r ev a] by auto
  then show ?case using continued [of rt W co "Reading fd r" "Reading fd" rt' res] read_on by auto
next
  case (write_on rt W co fd r e ev a res rt')
  then have "fd_ok fd" using registeredD(1) by fastforce
  with write_on have "inv (ro_source rt') \<and> (\<forall>fd'. fd' \<noteq> fd \<longrightarrow> want (ro_source rt') fd' = want (ro_source rt) fd') \<and>
      (\<forall>r. res = Yields r \<longrightarrow> want (ro_source rt') fd = want (ro_source rt) fd)"
    using resumed_ok [of rt fd e writing r ev a] by auto
  then show ?case using continued [of rt W co "Writing fd r" "Writing fd" rt' res] write_on by auto
next
  case (connect_on rt W co fd r e ev so res rt')
  then have "fd_ok fd" using registeredD(1) by fastforce
  with connect_on have "inv (ro_source rt') \<and> (\<forall>fd'. fd' \<noteq> fd \<longrightarrow> want (ro_source rt') fd' = want (ro_source rt) fd') \<and>
      (\<forall>r. res = Yields r \<longrightarrow> want (ro_source rt') fd = want (ro_source rt) fd)"
    using connect_resumed_ok [of rt fd e r ev so] by auto
  then show ?case using continued [of rt W co "Connecting fd r" "Connecting fd" rt' res] connect_on by auto
next
  case (closes rt W fd e er closed r rt')
  obtain co where co: "the_routine rt er = Some co" "ro_data rt co \<noteq> None"
    using closing_exists [OF closes(5)] by blast
  have "inv (ro_source rt') \<and> (\<forall>fd'. fd' \<noteq> fd \<longrightarrow> want (ro_source rt') fd' = want (ro_source rt) fd')"
    using close_ok [OF _ closes(3,4) co, of closed] closes by auto
  moreover have "fd' \<noteq> fd" if "\<not> unwaited W fd'" for fd' using that closes(2) by blast
  ultimately show ?case using registered_keep [of want rt W rt'] closes by auto
next
  case (waits rt W ans count r es s)
  then have "inv s \<and> want s = want (ro_source rt)" using wait_law by (metis option.inject prod.inject)
  then show ?case using waits by (auto simp: registered_def)
qed

lemma waiting_calls_return:
  assumes "inv s0" "io_reach P env sane s0 rt W" "W co = Some w" "env e"
  shows "(case w of Reading fd r \<Rightarrow> io_resumed P reading e rt fd r ev a \<noteq> None
    | Writing fd r \<Rightarrow> io_resumed P writing e rt fd r ev a \<noteq> None
    | Connecting fd r \<Rightarrow> connect_resumed P e rt fd r ev so \<noteq> None)"
proof -
  from reach_registered [OF assms(1,2)] have "inv (ro_source rt)" "registered want rt W" by auto
  moreover from this have "fd_ok (pending_fd w)" using registeredD assms(3) by blast
  ultimately have "\<And>k r a. io_resumed P k e rt (pending_fd w) r ev a \<noteq> None"
      "\<And>r. connect_resumed P e rt (pending_fd w) r ev so \<noteq> None"
    using resumed_ok [of rt "pending_fd w" e] connect_resumed_ok [of rt "pending_fd w" e] assms(4)
    by (metis option.distinct(1))+
  then show ?thesis by (cases w) (simp_all)
qed

end

end
