(* ===== verification/RoutineSources.thy ===== *)
theory RoutineSources
  imports RoutineWaits
begin

text \<open>
  Both event sources of the repository satisfy the laws of \<open>RoutineWaits\<close>; what follows for the
  routines of \<^verbatim>\<open>framework.c\<close> on each of them.
\<close>

section \<open>The edge-triggered source\<close>

definition et_want :: "poll_ptr ef_epollet \<Rightarrow> int \<Rightarrow> (u32 \<times> poll_ptr) option" where
  "et_want s fd = map_option (\<lambda>it. (it_waiting it, it_ptr it)) (ee_reg s fd)"

definition accepts :: "mem \<times> int \<Rightarrow> bool" where
  "accepts e \<longleftrightarrow> 0 \<le> snd e"

lemma note_reg_want:
  "map_option (\<lambda>it. (it_waiting it, it_ptr it)) (note_reg R evs fd) = map_option (\<lambda>it. (it_waiting it, it_ptr it)) (R fd)"
proof (induction R evs rule: note_reg.induct)
  case (2 R fd' w evs)
  then show ?case by (cases "R fd'"; cases "fd = fd'") (simp_all del: fun_upd_apply, simp_all)
qed simp

lemma note_reg_fired:
  assumes "R fd = Some it" "(fd, w) \<in> set evs \<or> it_fired it OR w = it_fired it"
  shows "\<exists>it'. note_reg R evs fd = Some it' \<and> it_fired it' OR w = it_fired it'"
  using assms
proof (induction R evs arbitrary: it rule: note_reg.induct)
  case (2 R fd' w' evs)
  show ?case
  proof (cases "fd' = fd")
    case True
    let ?it = "it\<lparr>it_fired := it_fired it OR w'\<rparr>"
    have "(fd, w) \<in> set evs \<or> it_fired ?it OR w = it_fired ?it"
      unfolding ef_epoll_item.simps using 2(3) by (auto simp: or.assoc) (metis or.assoc or.commute)
    moreover have "(R(fd' := map_option (\<lambda>it. it\<lparr>it_fired := it_fired it OR w'\<rparr>) (R fd'))) fd = Some ?it"
      using 2(2) True by simp
    ultimately show ?thesis unfolding note_reg.simps by (rule 2(1) [rotated])
  next
    case False
    then show ?thesis unfolding note_reg.simps by (intro 2(1)) (use 2(2,3) in auto)
  qed
qed auto

interpretation et: waiting epollet_source "\<lambda>s. ee_inv s \<and> ee_quiet s" et_want accepts et_sane
proof
  fix s :: "poll_ptr ef_epollet" and fd ev p fired onclose ans count and e :: "mem \<times> int"
  assume iq: "ee_inv s \<and> ee_quiet s"
  then have inv: "ee_inv s" and q: "ee_quiet s" by auto
  obtain m ctl where e: "e = (m, ctl)" by (cases e) auto
  show "\<exists>r s'. po_associate epollet_source e s fd ev p False = Some (r, s') \<and> (ee_inv s' \<and> ee_quiet s') \<and>
      (\<forall>fd'. fd' \<noteq> fd \<longrightarrow> et_want s' fd' = et_want s fd') \<and> (0 \<le> r \<longrightarrow> et_want s' fd = Some (ev, p))"
    if "fd_ok fd" "accepts e"
    by (rule ef_epoll_associate_cases [OF inv _ _ q, of fd m ctl ev p False])
      (use that in \<open>auto simp: epollet_source_def e accepts_def fd_ok_def et_want_def associated_def fresh_item_def
         split: option.splits\<close>)
  show "\<exists>r s'. po_associate epollet_source e s fd any p True = Some (r, s') \<and> (ee_inv s' \<and> ee_quiet s')"
    if "fd_ok fd" "accepts e" for any
    by (rule ef_epoll_associate_cases [OF inv _ _ q, of fd m ctl any p True])
      (use that in \<open>auto simp: epollet_source_def e accepts_def fd_ok_def\<close>)
  show "\<exists>r s'. po_dissociate epollet_source e s fd fired onclose = Some (r, s') \<and> (ee_inv s' \<and> ee_quiet s') \<and>
      (\<forall>fd'. fd' \<noteq> fd \<longrightarrow> et_want s' fd' = et_want s fd')" if "fd_ok fd"
  proof (cases onclose)
    case True
    show ?thesis
      by (rule ef_epoll_dissociate_close [OF inv, of fd ctl fired])
        (use True q that in \<open>auto simp: epollet_source_def e fd_ok_def et_want_def\<close>)
  next
    case False
    show ?thesis
      by (rule ef_epoll_dissociate_keep [OF inv, of fd ctl fired])
        (use False q that in \<open>auto simp: epollet_source_def e fd_ok_def et_want_def\<close>)
  qed
  show "\<exists>r s'. po_unset epollet_source s fd ev = Some (r, s') \<and> (ee_inv s' \<and> ee_quiet s') \<and> et_want s' = et_want s"
    if "fd_ok fd"
    by (rule ef_epoll_unset_ok [OF inv, of fd ev])
      (use q that in \<open>auto simp: epollet_source_def fd_ok_def et_want_def fun_eq_iff option.map_comp o_def\<close>)
  show "\<exists>r es s'. po_wait epollet_source ans s count = Some (r, es, s') \<and> (ee_inv s' \<and> ee_quiet s') \<and> et_want s' = et_want s"
    if sane: "et_sane s ans"
  proof -
    obtain ret evs where ans: "ans = (ret, evs)" by (cases ans) auto
    have k: "\<forall>e \<in> set evs. ee_reg s (fst e) \<noteq> None" using sane by (simp add: et_sane_def ans)
    show ?thesis
      by (rule ef_epoll_wait_cases [OF inv q k, of ret count])
        (use iq in \<open>auto simp: epollet_source_def ans et_want_def note_reg_want fun_eq_iff\<close>)
  qed
qed

section \<open>The source over poll\<close>

definition poll_want :: "poll_ptr ef_pollsys \<Rightarrow> int \<Rightarrow> (u32 \<times> poll_ptr) option" where
  "poll_want s fd = map_option (\<lambda>(w, p). (ucast w, p)) (pl_reg s fd)"

interpretation pl: waiting poll_source pl_inv poll_want "\<lambda>_. True" "\<lambda>_ _. True"
proof
  fix s :: "poll_ptr ef_pollsys" and fd ev p fired onclose ans count and e :: "mem \<times> int"
  assume inv: "pl_inv s"
  obtain m ctl where e: "e = (m, ctl)" by (cases e) auto
  show "\<exists>r s'. po_associate poll_source e s fd ev p False = Some (r, s') \<and> pl_inv s' \<and>
      (\<forall>fd'. fd' \<noteq> fd \<longrightarrow> poll_want s' fd' = poll_want s fd') \<and> (0 \<le> r \<longrightarrow> poll_want s' fd = Some (ev, p))"
    if "fd_ok fd" "ev = EF_POLLIN \<or> ev = EF_POLLOUT"
    by (rule ef_poll_associate_cases [OF inv, of fd m ev p])
      (use that in \<open>auto simp: poll_source_def e fd_ok_def poll_want_def EF_POLLIN_def EF_POLLOUT_def\<close>)
  show "\<exists>r s'. po_associate poll_source e s fd any p True = Some (r, s') \<and> pl_inv s'" for any
    using inv by (simp add: poll_source_def e ef_poll_associate_def)
  show "\<exists>r s'. po_dissociate poll_source e s fd fired onclose = Some (r, s') \<and> pl_inv s' \<and>
      (\<forall>fd'. fd' \<noteq> fd \<longrightarrow> poll_want s' fd' = poll_want s fd')" if "fd_ok fd"
    by (rule ef_poll_dissociate_correct [OF inv, of fd fired onclose])
      (use that in \<open>auto simp: poll_source_def e fd_ok_def poll_want_def\<close>)
  show "\<exists>r s'. po_unset poll_source s fd ev = Some (r, s') \<and> pl_inv s' \<and> poll_want s' = poll_want s"
    using inv by (simp add: poll_source_def ef_poll_unset_def)
  show "\<exists>r es s'. po_wait poll_source ans s count = Some (r, es, s') \<and> pl_inv s' \<and> poll_want s' = poll_want s"
  proof -
    obtain r0 res where ans: "ans = (r0, res)" by (cases ans) auto
    show ?thesis
      by (rule ef_poll_wait_correct [OF inv, of r0 res count])
        (auto simp: poll_source_def ans poll_want_def fun_eq_iff)
  qed
qed

section \<open>Properties\<close>

text \<open>On the source over \<^verbatim>\<open>poll(2)\<close>, whatever routines do and in whatever order, a routine
  that has yielded inside a call is registered under its descriptor, with its own pointer and the
  events it waits for, and resuming it with any events returns.\<close>

theorem poll_waiters_registered:
  assumes "ef_poll_create m cap = (Some s0, m')"
    and "io_reach poll_source (\<lambda>_. True) (\<lambda>_ _. True) s0 rt W" "W co = Some w"
  shows "(\<exists>v. pl_reg (ro_source rt) (pending_fd w) = Some (v, Routine_data co) \<and> ucast v = pending_want w) \<and>
    (case w of Reading fd r \<Rightarrow> io_resumed poll_source reading e rt fd r ev a \<noteq> None
      | Writing fd r \<Rightarrow> io_resumed poll_source writing e rt fd r ev a \<noteq> None
      | Connecting fd r \<Rightarrow> connect_resumed poll_source e rt fd r ev so \<noteq> None)"
proof
  note c = ef_poll_create_inv(1) [OF assms(1)]
  show "case w of Reading fd r \<Rightarrow> io_resumed poll_source reading e rt fd r ev a \<noteq> None
      | Writing fd r \<Rightarrow> io_resumed poll_source writing e rt fd r ev a \<noteq> None
      | Connecting fd r \<Rightarrow> connect_resumed poll_source e rt fd r ev so \<noteq> None"
    by (rule pl.waiting_calls_return [OF c assms(2,3)]) simp
  have "registered poll_want rt W" using pl.reach_registered [OF c assms(2)] by simp
  from registeredD(2) [OF this assms(3)]
  show "\<exists>v. pl_reg (ro_source rt) (pending_fd w) = Some (v, Routine_data co) \<and> ucast v = pending_want w"
    by (auto simp: poll_want_def)
qed

lemma want_nonzero: "pending_want w \<noteq> 0"
  by (cases w) (simp_all add: EF_POLLIN_def EF_POLLOUT_def)

lemma and_or_part: "(f :: u32) OR w = f \<Longrightarrow> (w AND k) AND (k AND f) = w AND k"
  unfolding bit_eq_iff by (auto simp: bit_simps)


section \<open>A routine at work on each source\<close>

definition one_routine :: "'s \<Rightarrow> 's routines" where
  "one_routine s = \<lparr>ro_source = s, ro_data = [100 \<mapsto> \<lparr>pd_type = 0, pd_fd = 0, pd_proc = 7\<rparr>], ro_current = Some 100\<rparr>"

lemma one_routine_may: "fd_ok fd \<Longrightarrow> may_call (one_routine s) Map.empty None 100 fd"
  by (simp add: may_call_def the_routine_def one_routine_def unwaited_def)

definition poll_start :: "poll_ptr ef_pollsys" where
  "poll_start = the (fst (ef_poll_create [] 16))"

lemma poll_start: "ef_poll_create [] 16 = (Some poll_start, [])"
  by (simp add: poll_start_def ef_poll_create_def)

definition poll_reading :: "poll_ptr ef_pollsys routines" where
  "poll_reading = snd (the (ef_routine_read poll_source ([], 0) (one_routine poll_start) None 5 (0, 0)))"

lemma poll_reading: "ef_routine_read poll_source ([], 0) (one_routine poll_start) None 5 (0, 0) = Some (Yields 0, poll_reading)"
proof -
  let ?x = "ef_routine_read poll_source ([], 0) (one_routine poll_start) None 5 (0, 0)"
  have "?x \<noteq> None \<and> fst (the ?x) = Yields 0" by code_simp
  then show ?thesis unfolding poll_reading_def by (metis option.collapse prod.collapse)
qed

lemma poll_reading_reach: "io_reach poll_source (\<lambda>_. True) (\<lambda>_ _. True) poll_start poll_reading [100 \<mapsto> Reading 5 0]"
proof -
  have "io_reach poll_source (\<lambda>_. True) (\<lambda>_ _. True) poll_start (one_routine poll_start) Map.empty"
    by (rule io_reach.start) (simp add: one_routine_def)
  from io_reach.reads [OF this one_routine_may [of 5] TrueI disjI1 [OF poll_reading]]
  show ?thesis by (simp add: fd_ok_def after_def)
qed

theorem poll_waiters_registered_witness:
  "\<exists>v. pl_reg (ro_source poll_reading) 5 = Some (v, Routine_data 100) \<and> ucast v = EF_POLLIN"
  using poll_waiters_registered [OF poll_start poll_reading_reach, of 100 "Reading 5 0"] by simp

definition et_start :: "poll_ptr ef_epollet" where
  "et_start = the (fst (ef_epoll_create [] 3 16))"

lemma et_start: "ef_epoll_create [] 3 16 = (Some et_start, [])"
  by (simp add: et_start_def ef_epoll_create_def)

definition et_reading :: "poll_ptr ef_epollet routines" where
  "et_reading = snd (the (ef_routine_read epollet_source ([], 0) (one_routine et_start) None 5 (0, 0)))"

lemma et_reading: "ef_routine_read epollet_source ([], 0) (one_routine et_start) None 5 (0, 0) = Some (Yields 0, et_reading)"
proof -
  let ?x = "ef_routine_read epollet_source ([], 0) (one_routine et_start) None 5 (0, 0)"
  have "?x \<noteq> None \<and> fst (the ?x) = Yields 0" by code_simp
  then show ?thesis unfolding et_reading_def by (metis option.collapse prod.collapse)
qed

lemma et_reading_reach: "io_reach epollet_source accepts et_sane et_start et_reading [100 \<mapsto> Reading 5 0]"
proof -
  have "io_reach epollet_source accepts et_sane et_start (one_routine et_start) Map.empty"
    by (rule io_reach.start) (simp add: one_routine_def)
  from io_reach.reads [OF this one_routine_may [of 5] _ disjI1 [OF et_reading]]
  show ?thesis by (simp add: fd_ok_def after_def accepts_def)
qed


section \<open>Two surprises of the edge-triggered source\<close>

lemma wait_filled:
  assumes "ee_fill ep \<noteq> 0"
  shows "ef_epoll_wait ans ep count = ef_epoll_wait (0, []) ep count"
    and "ef_epoll_wait ans ep count = Some (r, es, ep') \<Longrightarrow> ep' = ep"
  using assms by (auto simp: ef_epoll_wait_def bind_Some_iff Let_def split: if_splits)

text \<open>C10. A connection in progress is taken for established at once: the edge-triggered source assumes that a
  descriptor it has not seen can be written, so the very next wait, whatever the kernel would
  answer, resumes the routine without asking it, and the call returns 1.\<close>

theorem connect_resumes_before_established:
  assumes "ef_epoll_create m epfd cap = (Some s0, m')" "io_reach epollet_source accepts et_sane s0 rt W"
    and "may_call rt W er co fd" "ro_data rt co \<noteq> None" "ee_reg (ro_source rt) fd = None" "0 \<le> ctl"
    and "flags AND O_NONBLOCK \<noteq> 0 \<or> 0 \<le> fst setfl" "fst a < 0" "snd a = EINPROGRESS"
  shows "\<exists>rt'. ef_routine_connect epollet_source ([], ctl) rt er fd flags setfl a err = Some (Yields 1, rt') \<and>
    (\<forall>ans count. ee_cap (ro_source rt') \<le> count \<longrightarrow>
       (\<exists>r es. po_wait epollet_source ans (ro_source rt') count = Some (r, es, ro_source rt') \<and>
          \<lparr>ev_events = EF_POLLOUT, ev_data = Some (Routine_data co)\<rparr> \<in> set es)) \<and>
    (\<forall>e so. accepts e \<longrightarrow>
       (\<exists>rt''. connect_resumed epollet_source e rt' fd 1 EF_POLLOUT so = Some (Returns 1 (Some so), rt'')))"
proof -
  have "ee_inv s0 \<and> ee_quiet s0" using ef_epoll_create_inv(1,2) [OF assms(1)] by simp
  from et.reach_registered [OF this assms(2)] have iq: "ee_inv (ro_source rt)" "ee_quiet (ro_source rt)" by auto
  from assms(4) obtain d where d: "ro_data rt co = Some d" by blast
  have fd: "0 \<le> fd" "fd < 2 ^ 30" "the_routine rt er = Some co" using assms(3) by (simp_all add: may_call_def fd_ok_def)
  let ?it = "fresh_item fd EF_POLLOUT (Routine_data co)"
  have ready: "it_ready ?it = EF_POLLOUT" "EF_POLLOUT \<noteq> 0"
    by (simp_all add: it_ready_def fresh_item_def EF_POLLOUT_def EPOLLOUT_def EPOLLERR_def EPOLLHUP_def)
  obtain s' m1 where s: "ef_epoll_associate [] ctl (ro_source rt) fd EF_POLLOUT (Routine_data co) False = Some (1, s', m1)"
    "ee_inv s'" "ee_quiet s'" "ee_reg s' fd = Some ?it"
    by (rule ef_epoll_associate_cases [OF iq(1) fd(1,2) iq(2), of "[]" ctl EF_POLLOUT "Routine_data co" False])
      (use assms(5,6) ready in \<open>auto simp: associated_def\<close>)
  let ?rt = "rt\<lparr>ro_data := (ro_data rt)(co \<mapsto> d\<lparr>pd_type := FD_TYPE_RWC, pd_fd := fd\<rparr>), ro_source := s'\<rparr>"
  have "ef_routine_connect epollet_source ([], ctl) rt er fd flags setfl a err = Some (Yields 1, ?rt)"
    using s(1) d fd(3) assms(7-9) by (auto simp: ef_routine_connect_def set_fd_def epollet_source_def)
  moreover have "\<exists>r es. po_wait epollet_source ans s' count = Some (r, es, s') \<and>
      \<lparr>ev_events = EF_POLLOUT, ev_data = Some (Routine_data co)\<rparr> \<in> set es" if c: "ee_cap s' \<le> count" for ans count
  proof -
    have w: "it_waiting ?it \<noteq> 0" using ready(2) by (simp add: fresh_item_def)
    have fill: "ee_fill s' \<noteq> 0"
    proof
      assume z: "ee_fill s' = 0"
      have A: "ee_arr s' {..<nat (ee_used s')}" using s(2) by (simp add: ee_inv_def)
      obtain i where "i \<in> {..<nat (ee_used s')}" "ee_items s' ! i = Some ?it"
        by (rule arr_reg_Some [OF ee_arrD(5) [OF A] s(4) [unfolded ee_reg_def]])
      with s(3) z w ready show False by (auto simp: ee_quiet_def quiet_def)
    qed
    show ?thesis
    proof (rule ef_epoll_wait_cases [OF s(2,3), of "[]" 0 count])
      fix r es s2
      assume v: "ef_epoll_wait (0, []) s' count = Some (r, es, s2)"
        "\<And>fd it. ee_reg s2 fd = Some it \<Longrightarrow> it_waiting it \<noteq> 0 \<Longrightarrow> it_ready it \<noteq> 0 \<Longrightarrow> ee_fill s2 \<le> count \<Longrightarrow> event_of it \<in> set es"
      have "s2 = s'" by (rule wait_filled(2) [OF fill v(1)])
      moreover have "ee_fill s' \<le> ee_cap s'" using s(2) by (auto simp: ee_inv_def ee_arr_def lessThan_subset_iff)
      ultimately have "event_of ?it \<in> set es" using v(2) s(4) w ready c by fastforce
      moreover have "event_of ?it = \<lparr>ev_events = EF_POLLOUT, ev_data = Routine_data co\<rparr>"
        using ready(1) by (simp add: event_of_def fresh_item_def)
      ultimately show ?thesis
        using v(1) \<open>s2 = s'\<close> wait_filled(1) [OF fill, of ans count]
        by (auto simp: epollet_source_def intro!: rev_image_eqI)
    qed simp_all
  qed
  moreover have "\<exists>rt''. connect_resumed epollet_source e ?rt fd 1 EF_POLLOUT so = Some (Returns 1 (Some so), rt'')"
    if "accepts e" for e so
    using et.finish_ok [of ?rt fd e 1 so] s(2,3) assms(3) that
    by (auto simp: connect_resumed_def may_call_def EF_POLLOUT_def EF_POLLERR_def EF_POLLHUP_def)
  ultimately show ?thesis by auto
qed

theorem connect_resumes_before_established_witness:
  "\<exists>rt'. ef_routine_connect epollet_source ([], 0) (one_routine et_start) None 6 O_NONBLOCK (0, 0) (- 1, EINPROGRESS) 0 =
      Some (Yields 1, rt')"
proof -
  have "io_reach epollet_source accepts et_sane et_start (one_routine et_start) Map.empty"
    by (rule io_reach.start) (simp add: one_routine_def)
  moreover have "ro_data (one_routine et_start) 100 \<noteq> None" by (simp add: one_routine_def)
  moreover have "ee_reg (ro_source (one_routine et_start)) 6 = None" "O_NONBLOCK AND O_NONBLOCK \<noteq> 0" by code_simp+
  ultimately show ?thesis
    using connect_resumes_before_established [OF et_start, of "one_routine et_start" Map.empty None 100 6 0 O_NONBLOCK "(0, 0)" "(- 1, EINPROGRESS)" 0]
      one_routine_may [of 6 et_start] by (auto simp: fd_ok_def)
qed

text \<open>A hang-up on a descriptor at rest ends a call on another: a routine that has read from descriptor 5
  and is now writing to 6 has the write fail with \<^verbatim>\<open>EBADF\<close> when the peer of 5 hangs up, although
  nothing was reported for 6.\<close>

theorem idle_hangup_fails_write:
  "do { (r0, rt) \<leftarrow> ef_routine_read epollet_source ([], 0) (one_routine et_start) None 5 (0, 0);
        (_, es1, s) \<leftarrow> po_wait epollet_source (1, [(5, EF_POLLIN)]) (ro_source rt) 1024;
        (r1, rt) \<leftarrow> read_resumed epollet_source ([], 0) (rt\<lparr>ro_source := s\<rparr>) 5 0 (ev_events (hd es1)) (3, 0);
        (w0, rt) \<leftarrow> ef_routine_write epollet_source ([], 0) rt None 6 (- 1, EAGAIN);
        (_, es2, s) \<leftarrow> po_wait epollet_source (1, [(5, EPOLLHUP)]) (ro_source rt) 1024;
        (w1, rt) \<leftarrow> write_resumed epollet_source ([], 0) (rt\<lparr>ro_source := s\<rparr>) 6 (- 1) (ev_events (hd es2)) (4, 0);
        Some (r0, r1, w0, map ev_data es2, w1) } =
   Some (Yields 0, Returns 3 (Some 0), Yields (- 1), [Some (Routine_data 100)], Returns (- 1) (Some EBADF))"
  by code_simp

end
