(* ===== verification/FrameworkServe.thy ===== *)
theory FrameworkServe
  imports FrameworkCorrect RoutineSources
begin

text \<open>
  Serving connections never faults: what the event loop needs of the coroutine pool, of the
  event source and of its surroundings to run a routine, and that running one keeps it.
\<close>

section \<open>The page size never changes\<close>

lemma fiber_page_kept:
  "ef_fiber_init w a fproc param = Some w' \<Longrightarrow> fw_page w' = fw_page w"
  "ef_fiber_create w stack mapped s h fproc param = Some (r, w') \<Longrightarrow> fw_page w' = fw_page w"
  "ef_fiber_resume w a sp = Some (Inr w') \<Longrightarrow> fw_page w' = fw_page w"
  "ef_fiber_yield w sp = Some w' \<Longrightarrow> fw_page w' = fw_page w"
  "ef_fiber_exit w = Some w' \<Longrightarrow> fw_page w' = fw_page w"
  by (auto simp: ef_fiber_init_def ef_fiber_create_def ef_fiber_resume_def ef_fiber_yield_def ef_fiber_exit_def
      bind_Some_iff Let_def check_def split: option.split_asm if_split_asm)

lemma returns_sched: "resume_returns p co now = Some p' \<Longrightarrow> cp_sched p' = cp_sched p"
  by (auto simp: resume_returns_def bind_Some_iff Let_def split: if_split_asm)

lemma create_page:
  assumes "ef_coroutine_create p stack mapped h fproc param = Some (r, p')"
  shows "fw_page (cp_sched p') = fw_page (cp_sched p)"
proof -
  obtain e L where eL: "ef_list_remove_after Free_list (cp_links p) = (e, L)" by (cases "ef_list_remove_after Free_list (cp_links p)")
  show ?thesis
  proof (cases "0 < cp_free_count p")
    case True
    with assms eL obtain co where "e = Some (Free_entry co)"
      by (cases e; simp add: ef_coroutine_create_def Let_def; cases "the e") (auto simp: ef_coroutine_create_def Let_def)
    with assms eL True show ?thesis
      by (auto simp: ef_coroutine_create_def Let_def bind_Some_iff dest: fiber_page_kept)
  next
    case False
    then show ?thesis using assms
      by (cases "ef_fiber_create (cp_sched p) stack mapped (cp_stack_size p) h fproc param")
        (auto simp: ef_coroutine_create_def dest!: fiber_page_kept(2) split: if_split_asm option.split_asm)
  qed
qed

lemma page_kept:
  "ef_coroutine_resume p co sp = Some (Inr p') \<Longrightarrow> fw_page (cp_sched p') = fw_page (cp_sched p)"
  "coroutine_yields p sp now = Some p' \<Longrightarrow> fw_page (cp_sched p') = fw_page (cp_sched p)"
  "coroutine_ends p now = Some p' \<Longrightarrow> fw_page (cp_sched p') = fw_page (cp_sched p)"
  by (cases "ef_fiber_resume (cp_sched p) co sp";
      auto simp: ef_coroutine_resume_def dest!: fiber_page_kept(3) split: sum.split_asm)
    (auto simp: coroutine_yields_def coroutine_ends_def bind_Some_iff dest!: returns_sched fiber_page_kept(4,5))

section \<open>The state between two steps of the loop\<close>

definition data_ok :: "(u64 \<rightharpoonup> ef_poll_data) \<Rightarrow> bool" where
  "data_ok D \<longleftrightarrow> (\<forall>d \<in> ran D. fd_ok (pd_fd d))"

lemma data_ok_upd: "data_ok D \<Longrightarrow> fd_ok (pd_fd d) \<Longrightarrow> data_ok (D(co \<mapsto> d))"
  by (auto simp: data_ok_def ran_def)

lemma data_okD: "data_ok D \<Longrightarrow> D co = Some d \<Longrightarrow> fd_ok (pd_fd d)"
  by (auto simp: data_ok_def ran_def)

text \<open>No routine runs, every coroutine holds a routine, and a page holds one with its first frame.\<close>

definition runtime_ok :: "('s \<Rightarrow> bool) \<Rightarrow> 's ef_runtime \<Rightarrow> bool" where
  "runtime_ok ok rt \<longleftrightarrow> ok (rt_source rt) \<and> 280 \<le> fw_page (cp_sched (rt_pool rt)) \<and>
     (\<exists>fulls frees. pool_repr (rt_pool rt) [fw_thread (cp_sched (rt_pool rt))] fulls frees \<and> dom (rt_data rt) = set fulls) \<and>
     (\<forall>fd \<in> ran (rt_frames rt). fd_ok fd) \<and> data_ok (rt_data rt)"

text \<open>
  What is assumed of the surroundings: \<^verbatim>\<open>mmap\<close> and \<^verbatim>\<open>malloc\<close> hand out memory that is not
  in use, \<^verbatim>\<open>accept\<close> returns descriptors in range, the user's procedures use the source only
  through its operations and leave the routines in place, with descriptors in range, and the
  answers given to the source are among those it copes with.
\<close>

definition serves :: "('s \<Rightarrow> bool) \<Rightarrow> ('e \<Rightarrow> bool) \<Rightarrow> ('e, 's, 'ans, 'o) kernel \<Rightarrow> bool" where
  "serves ok env k \<longleftrightarrow>
     (\<forall>os p. 280 \<le> fw_page (cp_sched p) \<longrightarrow> create_ok p (fst (fst (k_map k os p))) ROUTINE_SIZE) \<and>
     (\<forall>os S a. fst (k_malloc k os S) = Some a \<longrightarrow> a \<notin> S) \<and>
     (\<forall>os fd. \<forall>socket \<in> set (fst (k_accept k os fd)). fd_ok socket) \<and>
     (\<forall>os ro co ev. ok (ro_source ro) \<longrightarrow> data_ok (ro_data ro) \<longrightarrow>
        ok (ro_source (fst (snd (k_run k os ro co ev)))) \<and> data_ok (ro_data (fst (snd (k_run k os ro co ev)))) \<and>
        dom (ro_data (fst (snd (k_run k os ro co ev)))) = dom (ro_data ro)) \<and>
     (\<forall>os. env (fst (k_env k os)))"

lemma servesD:
  assumes "serves ok env k"
  shows "280 \<le> fw_page (cp_sched p) \<Longrightarrow> create_ok p (fst (fst (k_map k os p))) ROUTINE_SIZE"
    and "fst (k_malloc k os S) = Some a \<Longrightarrow> a \<notin> S"
    and "socket \<in> set (fst (k_accept k os fd)) \<Longrightarrow> fd_ok socket"
    and "ok (ro_source ro) \<Longrightarrow> data_ok (ro_data ro) \<Longrightarrow> ok (ro_source (fst (snd (k_run k os ro co ev))))"
    and "ok (ro_source ro) \<Longrightarrow> data_ok (ro_data ro) \<Longrightarrow> data_ok (ro_data (fst (snd (k_run k os ro co ev))))"
    and "ok (ro_source ro) \<Longrightarrow> data_ok (ro_data ro) \<Longrightarrow> dom (ro_data (fst (snd (k_run k os ro co ev)))) = dom (ro_data ro)"
    and "env (fst (k_env k os))"
  using assms unfolding serves_def by simp_all

text \<open>A routine that runs: what \<^verbatim>\<open>ef_proc\<close> starts from.\<close>

definition running_ok :: "('s \<Rightarrow> bool) \<Rightarrow> 's ef_runtime \<Rightarrow> u64 \<Rightarrow> bool" where
  "running_ok ok rt co \<longleftrightarrow> ok (rt_source rt) \<and> 280 \<le> fw_page (cp_sched (rt_pool rt)) \<and>
     (\<exists>fulls frees. pool_repr (rt_pool rt) [co, fw_thread (cp_sched (rt_pool rt))] fulls frees \<and> dom (rt_data rt) = set fulls \<and>
        fw_current (cp_sched (rt_pool rt)) = co \<and> co \<noteq> fw_thread (cp_sched (rt_pool rt)) \<and> co \<in> set fulls) \<and>
     (\<forall>fd \<in> ran (rt_frames rt). fd_ok fd) \<and> data_ok (rt_data rt)"

context waiting
begin

lemma proc_ok:
  assumes run: "running_ok inv rt co" and k: "serves inv env k"
  shows "\<exists>rt' os'. ef_proc P k os rt co ev = Some (rt', os') \<and> runtime_ok inv rt' \<and> dom (rt_data rt') = dom (rt_data rt)"
proof -
  let ?t = "fw_thread (cp_sched (rt_pool rt))"
  from run obtain fulls frees where R: "inv (rt_source rt)" "280 \<le> fw_page (cp_sched (rt_pool rt))"
    "pool_repr (rt_pool rt) [co, ?t] fulls frees" "dom (rt_data rt) = set fulls"
    "fw_current (cp_sched (rt_pool rt)) = co" "co \<noteq> ?t" "co \<in> set fulls"
    "\<forall>fd \<in> ran (rt_frames rt). fd_ok fd" "data_ok (rt_data rt)"
    unfolding running_ok_def by (elim conjE exE) metis
  obtain d where d: "rt_data rt co = Some d" using R(4,7) by blast
  have cur: "fw_current (cp_sched (rt_pool rt)) \<noteq> ?t" using R(5,6) by simp
  obtain act ro os1 where A: "(if rt_frames rt co = None \<and> pd_proc d = 0 then (None, routines_of rt, os)
      else k_run k os (routines_of rt) co ev) = (act, ro, os1)" by (metis prod_cases3)
  have from_k: "ro = routines_of rt \<or> ro = fst (snd (k_run k os (routines_of rt) co ev))"
    using A by (auto split: if_splits)
  have start: "inv (ro_source (routines_of rt))" "data_ok (ro_data (routines_of rt))" "dom (ro_data (routines_of rt)) = set fulls"
    using R(1,4,9) by (simp_all add: routines_of_def)
  have inv: "inv (ro_source ro)" and dok: "data_ok (ro_data ro)" and data: "dom (ro_data ro) = set fulls"
    using from_k start servesD(4-6) [OF k start(1,2)] by (elim disjE; simp)+
  define fd where "fd = (case rt_frames rt co of None \<Rightarrow> pd_fd d | Some fd \<Rightarrow> fd)"
  have fd: "fd_ok fd" using R(8) data_okD [OF R(9) d] by (auto simp: fd_def ran_def split: option.split)
  show ?thesis
  proof (cases act)
    case (Some sp)
    obtain now os2 where t: "k_time k os1 = (now, os2)" by (cases "k_time k os1")
    from yield_pool [OF R(3) cur, of sp now] obtain p where p: "coroutine_yields (rt_pool rt) sp now = Some p"
      "pool_repr p [?t] fulls frees" "fw_thread (cp_sched p) = ?t" by auto
    let ?rt = "(with_routines ro rt)\<lparr>rt_pool := p, rt_frames := (rt_frames rt)(co \<mapsto> fd)\<rparr>"
    have "ef_proc P k os rt co ev = Some (?rt, os2)"
      using A d Some t p(1) by (simp add: ef_proc_def Let_def fd_def)
    moreover have "runtime_ok inv ?rt"
      using inv dok data p(2,3) page_kept(2) [OF p(1)] R(2,8) fd by (auto simp: runtime_ok_def ran_def)
    moreover have "dom (rt_data ?rt) = dom (rt_data rt)" using data R(4) by simp
    ultimately show ?thesis by blast
  next
    case None
    obtain e os2 where e: "k_env k os1 = (e, os2)" by (cases "k_env k os1")
    obtain cl os3 where cl: "k_close k os2 fd = (cl, os3)" by (cases "k_close k os2 fd")
    obtain now os4 where t: "k_time k os3 = (now, os4)" by (cases "k_time k os3")
    have env: "env e" using servesD(7) [OF k, of os1] e by simp
    have "ro_data ro co \<noteq> None" using data R(7) by blast
    then have er: "ro_data (routines_of (with_routines ro rt)) co \<noteq> None" "inv (ro_source (routines_of (with_routines ro rt)))"
      "the_routine (routines_of (with_routines ro rt)) (Some co) = Some co"
      using inv by (simp_all add: routines_of_def the_routine_def)
    from close_ok [OF er(2) fd env er(3,1), of cl] obtain ro2 where c:
      "ef_routine_close P e (routines_of (with_routines ro rt)) (Some co) fd cl = Some (cl, ro2)" "inv (ro_source ro2)" by blast
    have d2: "ro_data ro2 = ro_data ro"
      using c(1) by (auto simp: ef_routine_close_def bind_Some_iff routines_of_def)
    from end_pool [OF R(3) cur, of now] obtain p where p: "coroutine_ends (rt_pool rt) now = Some p"
      "pool_repr p [?t] fulls (co # frees)" "fw_thread (cp_sched p) = ?t" using R(5) by auto
    let ?rt = "(with_routines ro2 (with_routines ro rt))\<lparr>rt_pool := p, rt_frames := (rt_frames rt)(co := None)\<rparr>"
    have "ef_proc P k os rt co ev = Some (?rt, os4)"
      using A d None e cl t p(1) c(1) by (simp add: ef_proc_def Let_def fd_def)
    moreover have "runtime_ok inv ?rt"
      using c(2) d2 dok data p(2,3) page_kept(3) [OF p(1)] R(2,8) by (auto simp: runtime_ok_def ran_def)
    moreover have "dom (rt_data ?rt) = dom (rt_data rt)" using data R(4) d2 by simp
    ultimately show ?thesis by blast
  qed
qed

lemma resume_routine_ok:
  assumes ok: "runtime_ok inv rt" and k: "serves inv env k" and co: "rt_data rt co = Some d"
  shows "\<exists>rt' os'. resume_routine P k os rt co ev = Some (rt', os') \<and> runtime_ok inv rt' \<and> dom (rt_data rt') = dom (rt_data rt)"
proof -
  let ?t = "fw_thread (cp_sched (rt_pool rt))"
  from ok obtain fulls frees where R: "inv (rt_source rt)" "280 \<le> fw_page (cp_sched (rt_pool rt))"
    "pool_repr (rt_pool rt) [?t] fulls frees" "dom (rt_data rt) = set fulls" "\<forall>fd \<in> ran (rt_frames rt). fd_ok fd"
    "data_ok (rt_data rt)" unfolding runtime_ok_def by (elim conjE exE) metis
  obtain sp os1 where sp: "k_sp k os = (sp, os1)" by (cases "k_sp k os")
  have c: "co \<in> set fulls" using R(4) co by blast
  then have nt: "co \<noteq> ?t" using pool_reprD(8) [OF R(3)] by auto
  show ?thesis
  proof (cases "co \<in> set frees")
    case True
    then have "resume_routine P k os rt co ev = Some (rt, os1)"
      using resume_pool(1) [OF R(3) c] sp by (simp add: resume_routine_def)
    then show ?thesis using ok by blast
  next
    case False
    from resume_pool(2) [OF R(3) c False, of sp] nt obtain p where p: "ef_coroutine_resume (rt_pool rt) co sp = Some (Inr p)"
      "pool_repr p [co, ?t] fulls frees" "fw_current (cp_sched p) = co" "fw_thread (cp_sched p) = ?t" by auto
    have "running_ok inv (rt\<lparr>rt_pool := p\<rparr>) co"
      using R p nt c page_kept(1) [OF p(1)] by (auto simp: running_ok_def)
    from proc_ok [OF this k] show ?thesis using sp p(1) by (simp add: resume_routine_def)
  qed
qed

text \<open>Running a routine for a connection fails exactly when the pool cannot give a coroutine.\<close>

lemma routine_run_ok:
  assumes ok: "runtime_ok inv rt" and k: "serves inv env k" and fd: "fd_ok socket"
  shows "\<exists>ret rt' os'. ef_routine_run P k os rt proc socket = Some (ret, rt', os') \<and> runtime_ok inv rt' \<and>
    (ret = 0 \<or> ret = - 1) \<and>
    (ret < 0 \<longrightarrow> cp_free_count (rt_pool rt) = 0 \<and>
       (cp_limit_max (rt_pool rt) \<le> cp_full_count (rt_pool rt) \<or>
        fst (fst (k_map k os (rt_pool rt))) = None \<or> \<not> snd (fst (k_map k os (rt_pool rt)))))"
proof -
  let ?t = "fw_thread (cp_sched (rt_pool rt))"
  from ok obtain fulls frees where R: "inv (rt_source rt)" "280 \<le> fw_page (cp_sched (rt_pool rt))"
    "pool_repr (rt_pool rt) [?t] fulls frees" "dom (rt_data rt) = set fulls" "\<forall>fd \<in> ran (rt_frames rt). fd_ok fd"
    "data_ok (rt_data rt)" unfolding runtime_ok_def by (elim conjE exE) metis
  obtain st mp os1 where m: "k_map k os (rt_pool rt) = ((st, mp), os1)" by (metis prod.exhaust)
  have started: "\<exists>ret rt' os'. ef_routine_run P k os rt proc socket = Some (ret, rt', os') \<and> runtime_ok inv rt' \<and> ret = 0"
    if c: "ef_coroutine_create (rt_pool rt) st mp ROUTINE_SIZE (k_ef_proc k) 0 = Some (Some co, p)"
      and p: "pool_repr p [?t] fulls' frees'" "fw_thread (cp_sched p) = ?t" "set fulls' = insert co (set fulls)" for co p fulls' frees'
  proof -
    let ?d = "\<lparr>pd_type = FD_TYPE_RWC, pd_fd = socket, pd_proc = proc\<rparr>"
    let ?rt = "rt\<lparr>rt_pool := p, rt_frames := (rt_frames rt)(co := None), rt_data := (rt_data rt)(co \<mapsto> ?d)\<rparr>"
    have "runtime_ok inv ?rt"
      using R p create_page [OF c] fd by (auto simp: runtime_ok_def ran_def intro: data_ok_upd)
    from resume_routine_ok [OF this k, of co ?d os1 0] obtain rt' os' where
      "resume_routine P k os1 ?rt co 0 = Some (rt', os')" "runtime_ok inv rt'" by auto
    then show ?thesis using m c by (simp add: ef_routine_run_def)
  qed
  have okc: "create_ok (rt_pool rt) st ROUTINE_SIZE" using servesD(1) [OF k R(2), of os] m by simp
  show ?thesis
  proof (cases frees)
    case (Cons co fs)
    from create_reuse [OF R(3) [unfolded Cons], of st mp ROUTINE_SIZE "k_ef_proc k" 0] obtain p where
      p: "ef_coroutine_create (rt_pool rt) st mp ROUTINE_SIZE (k_ef_proc k) 0 = Some (Some co, p)"
        "pool_repr p [?t] fulls fs" "fw_thread (cp_sched p) = ?t" by blast
    have "co \<in> set fulls" using pool_reprD(11) [OF R(3)] Cons by auto
    then show ?thesis using started [OF p] by auto
  next
    case Nil
    from create_fresh [OF R(3) [unfolded Nil] okc, of mp "k_ef_proc k" 0] obtain r p where
      c: "ef_coroutine_create (rt_pool rt) st mp ROUTINE_SIZE (k_ef_proc k) 0 = Some (r, p)" and
      o: "case r of None \<Rightarrow> p = rt_pool rt \<and> (cp_limit_max (rt_pool rt) \<le> int (length fulls) \<or> st = None \<or> \<not> mp)
        | Some co \<Rightarrow> co \<notin> set fulls \<and> st \<noteq> None \<and> mp \<and> pool_repr p [?t] (co # fulls) [] \<and>
            cp_limit_max p = cp_limit_max (rt_pool rt) \<and> cp_limit_min p = cp_limit_min (rt_pool rt) \<and> fw_thread (cp_sched p) = ?t"
      by blast
    show ?thesis
    proof (cases r)
      case None
      then show ?thesis
        using c o m ok pool_reprD(4,5) [OF R(3)] Nil by (auto simp: ef_routine_run_def)
    next
      case (Some co)
      then show ?thesis using started [of co p "co # fulls" "[]"] c o by auto
    qed
  qed
qed

lemma hand_over_ok:
  assumes "runtime_ok inv rt" "serves inv env k" "\<forall>fd \<in> set fds. fd_ok fd"
  shows "\<exists>n rt' os'. hand_over P k proc fds os rt = Some (n, rt', os') \<and> runtime_ok inv rt'"
  using assms
proof (induction fds arbitrary: os rt)
  case (Cons fd fds)
  from routine_run_ok [OF Cons.prems(1,2), of fd os proc] Cons.prems(3) obtain ret rt1 os1 where
    r: "ef_routine_run P k os rt proc fd = Some (ret, rt1, os1)" "runtime_ok inv rt1" by auto
  from Cons.IH [OF r(2) Cons.prems(2), of os1] Cons.prems(3) r show ?case by (cases "ret < 0") auto
qed simp

lemma hand_over_all_ok:
  assumes "runtime_ok inv rt" "serves inv env k" "\<forall>q \<in> set qs. \<forall>fd \<in> set (snd q). fd_ok fd"
  shows "\<exists>ns rt' os'. hand_over_all P k qs os rt = Some (ns, rt', os') \<and> runtime_ok inv rt'"
  using assms
proof (induction qs arbitrary: os rt)
  case (Cons q qs)
  obtain proc fds where q: "q = (proc, fds)" by (cases q)
  from hand_over_ok [OF Cons.prems(1,2), of fds proc os] Cons.prems(3) q obtain n rt1 os1 where
    r: "hand_over P k proc fds os rt = Some (n, rt1, os1)" "runtime_ok inv rt1" by auto
  from Cons.IH [OF r(2) Cons.prems(2), of os1] Cons.prems(3) q r show ?case by (cases "n < length fds") auto
qed simp

lemma runtime_ok_links: "runtime_ok inv (rt\<lparr>rt_links := L\<rparr>) = runtime_ok inv rt"
  by (simp add: runtime_ok_def)

lemma listen_loop_ok:
  assumes Q: "queues_repr rt lis qs frees" and ok: "runtime_ok inv rt" and k: "serves inv env k"
    and fds: "\<forall>li \<in> set lis. \<forall>fd \<in> set (queue_of rt qs li). fd_ok fd"
  shows "\<exists>ns rt1 rt' os' frees'. hand_over_all P k (waiting_queues rt qs lis) os rt = Some (ns, rt1, os') \<and>
    listen_loop P k (ef_list_entry_after (rt_links rt) Listen_list) os rt = Some (rt', os') \<and>
    rt1 = rt'\<lparr>rt_links := rt_links rt1\<rparr> \<and> length ns = length lis \<and>
    queues_repr rt' lis (handed ns lis qs) frees' \<and> runtime_ok inv rt'"
proof -
  have "\<forall>q \<in> set (waiting_queues rt qs lis). \<forall>fd \<in> set (snd q). fd_ok fd"
    using fds by (auto simp: waiting_queues_def)
  from hand_over_all_ok [OF ok k this, of os] obtain ns rt1 os1 where
    h: "hand_over_all P k (waiting_queues rt qs lis) os rt = Some (ns, rt1, os1)" "runtime_ok inv rt1" by blast
  have "queues_repr rt ([] @ lis) qs frees" using Q by simp
  from listen_loop_hands_over [OF this h(1)] obtain L frees' where l: "length ns = length lis"
    "listen_loop P k (hd (map Listen_entry lis @ [Listen_list])) os rt = Some (rt1\<lparr>rt_links := L\<rparr>, os1)"
    "queues_repr (rt1\<lparr>rt_links := L\<rparr>) lis (handed ns lis qs) frees'" by auto
  moreover have "ef_list_entry_after (rt_links rt) Listen_list = hd (map Listen_entry lis @ [Listen_list])"
    using ring_first [OF queues_reprD(1) [OF Q]] .
  moreover have "runtime_ok inv (rt1\<lparr>rt_links := L\<rparr>)" using h(2) by (simp add: runtime_ok_links)
  ultimately show ?thesis using h(1)
    by (intro exI [of _ ns] exI [of _ rt1] exI [of _ "rt1\<lparr>rt_links := L\<rparr>"] exI [of _ os1] exI [of _ frees']) simp
qed

end

section \<open>Queueing what is accepted\<close>

lemma add_to_queue:
  fixes fd :: int
  assumes R: "queues_repr rt lis qs frees" and li: "li \<in> set lis"
    and q: "q \<notin> set frees" "\<And>l. l \<in> set lis \<Longrightarrow> q \<notin> set (qs l)"
  defines "rt' \<equiv> rt\<lparr>rt_fds := (rt_fds rt)(q \<mapsto> fd), rt_links := ef_list_insert_before (Fd_list li) (Fd_entry q) (rt_links rt)\<rparr>"
  shows "queues_repr rt' lis (qs(li := qs li @ [q])) frees"
    and "\<And>l. l \<in> set lis \<Longrightarrow> queue_of rt' (qs(li := qs li @ [q])) l = queue_of rt qs l @ (if l = li then [fd] else [])"
proof -
  note D = queues_reprD [OF R]
  let ?L = "ef_list_insert_before (Fd_list li) (Fd_entry q) (rt_links rt)"
  have frame: "ring ?L g ys" if "ring (rt_links rt) g ys" "set (g # ys) \<inter> set (Fd_entry q # Fd_list li # map Fd_entry (qs li)) = {}" for g ys
    by (rule ring_insert_before_frame [OF D(3) [OF li] that])
  have own: "ring ?L (Fd_list li) (map Fd_entry (qs li @ [q]))"
    using ring_insert_before [OF D(3) [OF li], of "Fd_entry q"] q(2) [OF li] by auto
  have "ring ?L Listen_list (map Listen_entry lis)" by (rule frame [OF D(1)]) auto
  moreover have "ring ?L Free_fd_list (map Fd_entry frees)"
    by (rule frame [OF D(2)]) (use q(1) D(7) [OF li] in auto)
  moreover have "ring ?L (Fd_list l) (map Fd_entry ((qs(li := qs li @ [q])) l))" if l: "l \<in> set lis" for l
  proof (cases "l = li")
    case False
    have "ring ?L (Fd_list l) (map Fd_entry (qs l))"
      by (rule frame [OF D(3) [OF l]]) (use False q(2) [OF l] D(8) [OF li l False] in auto)
    with False show ?thesis by simp
  qed (use own in simp)
  moreover have "set ((qs(li := qs li @ [q])) l) \<subseteq> insert q (dom (rt_fds rt)) \<and> set ((qs(li := qs li @ [q])) l) \<inter> set frees = {} \<and>
      (\<forall>l' \<in> set lis. l' \<noteq> l \<longrightarrow> set ((qs(li := qs li @ [q])) l) \<inter> set ((qs(li := qs li @ [q])) l') = {})" if l: "l \<in> set lis" for l
    using D(6) [OF l] D(7) [OF l] D(8) [OF l] q(1) q(2) [OF l] q(2) by auto
  ultimately show "queues_repr rt' lis (qs(li := qs li @ [q])) frees"
    unfolding queues_repr_def rt'_def using D(4,5) by (intro conjI ballI) (auto simp del: fun_upd_apply simp: subset_insertI2)
  show "queue_of rt' (qs(li := qs li @ [q])) l = queue_of rt qs l @ (if l = li then [fd] else [])" if l: "l \<in> set lis" for l
    using q(2) [OF l] by (auto simp: queue_of_def rt'_def)
qed

lemma take_free:
  assumes R: "queues_repr rt lis qs (q # fs)"
  shows "queues_repr (rt\<lparr>rt_links := ef_list_remove (Fd_entry q) (rt_links rt)\<rparr>) lis qs fs"
proof -
  note D = queues_reprD [OF R]
  let ?L = "ef_list_remove (Fd_entry q) (rt_links rt)"
  have frame: "ring ?L g ys" if "ring (rt_links rt) g ys" "set (g # ys) \<inter> set (Free_fd_list # map Fd_entry (q # fs)) = {}" for g ys
    by (rule ring_remove_frame [OF D(2) _ that]) simp
  have "ring ?L Free_fd_list (map Fd_entry fs)" using ring_remove_after(2) D(2) by simp
  moreover have "ring ?L Listen_list (map Listen_entry lis)" by (rule frame [OF D(1)]) auto
  moreover have "ring ?L (Fd_list l) (map Fd_entry (qs l))" if "l \<in> set lis" for l
    by (rule frame [OF D(3) [OF that]]) (use D(7) [OF that] in auto)
  ultimately show ?thesis using R by (auto simp: queues_repr_def)
qed

lemma queue_fd_ok:
  assumes R: "queues_repr rt lis qs frees" and li: "li \<in> set lis"
    and fresh: "\<And>os S a. fst (k_malloc k os S) = Some a \<Longrightarrow> a \<notin> S"
  shows "\<exists>ret rt' os' qs' frees'. ef_queue_fd k os rt li fd = Some (ret, rt', os') \<and> queues_repr rt' lis qs' frees' \<and>
    rt' = rt\<lparr>rt_fds := rt_fds rt', rt_links := rt_links rt'\<rparr> \<and>
    (\<forall>l \<in> set lis. queue_of rt' qs' l = queue_of rt qs l @ (if l = li \<and> 0 \<le> ret then [fd] else [])) \<and>
    (0 \<le> ret \<or> (\<exists>os fl. fst (k_setfl k os fd fl) < 0) \<or> (\<exists>os S. fst (k_malloc k os S) = None))"
proof -
  note D = queues_reprD [OF R]
  obtain flags os1 where gf: "k_getfl k os fd = (flags, os1)" by (cases "k_getfl k os fd")
  obtain sf os2 where sf: "(if flags AND O_NONBLOCK = 0 then k_setfl k os1 fd (flags OR O_NONBLOCK) else (0, os1)) = (sf, os2)"
    by (metis prod.exhaust)
  show ?thesis
  proof (cases "sf < 0")
    case True
    have "ef_queue_fd k os rt li fd = Some (sf, rt, os2)" using gf sf True by (simp add: ef_queue_fd_def)
    moreover have "fst (k_setfl k os1 fd (flags OR O_NONBLOCK)) < 0" using sf True by (auto split: if_splits)
    ultimately show ?thesis using R True by (intro exI [of _ sf] exI [of _ rt] exI [of _ os2] exI [of _ qs] exI [of _ frees]) auto
  next
    case False
    show ?thesis
    proof (cases frees)
      case (Cons q fs)
      have rm: "ef_list_remove_after Free_fd_list (rt_links rt) = (Some (Fd_entry q), ef_list_remove (Fd_entry q) (rt_links rt))"
        "ring (ef_list_remove (Fd_entry q) (rt_links rt)) Free_fd_list (map Fd_entry fs)"
        using ring_remove_after D(2) Cons by simp_all
      let ?rt1 = "rt\<lparr>rt_links := ef_list_remove (Fd_entry q) (rt_links rt)\<rparr>"
      have "queues_repr ?rt1 lis qs fs" using take_free [of rt lis qs q fs] R Cons by simp
      moreover have nq: "q \<notin> set fs" "\<And>l. l \<in> set lis \<Longrightarrow> q \<notin> set (qs l)" using D(7,9) Cons by auto
      ultimately have A: "queues_repr (?rt1\<lparr>rt_fds := (rt_fds rt)(q \<mapsto> fd),
            rt_links := ef_list_insert_before (Fd_list li) (Fd_entry q) (rt_links ?rt1)\<rparr>) lis (qs(li := qs li @ [q])) fs"
          "\<And>l. l \<in> set lis \<Longrightarrow> queue_of (?rt1\<lparr>rt_fds := (rt_fds rt)(q \<mapsto> fd),
            rt_links := ef_list_insert_before (Fd_list li) (Fd_entry q) (rt_links ?rt1)\<rparr>) (qs(li := qs li @ [q])) l =
            queue_of rt qs l @ (if l = li then [fd] else [])"
        using add_to_queue [where rt = ?rt1 and lis = lis and qs = qs and frees = fs and li = li and q = q and fd = fd] li by (simp_all add: queue_of_def)
      have "\<not> ef_list_empty (rt_links rt) Free_fd_list" using ring_empty [OF D(2)] Cons by simp
      then have "ef_queue_fd k os rt li fd = Some (0, ?rt1\<lparr>rt_fds := (rt_fds rt)(q \<mapsto> fd),
          rt_links := ef_list_insert_before (Fd_list li) (Fd_entry q) (rt_links ?rt1)\<rparr>, os2)"
        using gf sf False rm(1) by (simp add: ef_queue_fd_def)
      then show ?thesis using A by (intro exI conjI) (assumption, auto)
    next
      case Nil
      obtain a os3 where m: "k_malloc k os2 (dom (rt_fds rt)) = (a, os3)" by (cases "k_malloc k os2 (dom (rt_fds rt))")
      have e: "ef_list_empty (rt_links rt) Free_fd_list" using ring_empty [OF D(2)] Nil by simp
      show ?thesis
      proof (cases a)
        case None
        obtain r os4 where "k_close k os3 fd = (r, os4)" by (cases "k_close k os3 fd")
        then have "ef_queue_fd k os rt li fd = Some (- 1, rt, os4)"
          using gf sf False e m None by (simp add: ef_queue_fd_def)
        moreover have "fst (k_malloc k os2 (dom (rt_fds rt))) = None" using m None by simp
        ultimately show ?thesis using R by (intro exI [of _ "- 1"] exI [of _ rt] exI [of _ os4] exI [of _ qs] exI [of _ frees]) auto
      next
        case (Some q)
        have "q \<notin> dom (rt_fds rt)" using fresh [of os2 "dom (rt_fds rt)" q] m Some by simp
        then have "q \<notin> set frees" "\<And>l. l \<in> set lis \<Longrightarrow> q \<notin> set (qs l)" using D(5,6) by auto
        note A = add_to_queue [OF R li this, where fd = fd]
        have "ef_queue_fd k os rt li fd = Some (0, rt\<lparr>rt_fds := (rt_fds rt)(q \<mapsto> fd),
            rt_links := ef_list_insert_before (Fd_list li) (Fd_entry q) (rt_links rt)\<rparr>, os3)"
          using gf sf False e m Some by (simp add: ef_queue_fd_def)
        then show ?thesis using A by (intro exI conjI) (assumption, auto)
      qed
    qed
  qed
qed

end
