(* ===== verification/FrameworkLoop.thy ===== *)
theory FrameworkLoop
  imports FrameworkServe
begin

text \<open>
  The event loop as a whole: every round keeps the invariant of the runtime and returns, its
  queues are first in, first out, and stopping empties the pool.
\<close>

section \<open>The invariant\<close>

definition loop_ok :: "('s \<Rightarrow> bool) \<Rightarrow> 's ef_runtime \<Rightarrow> u64 list \<Rightarrow> (u64 \<Rightarrow> u64 list) \<Rightarrow> u64 list \<Rightarrow> bool" where
  "loop_ok ok rt lis qs frees \<longleftrightarrow> queues_repr rt lis qs frees \<and> runtime_ok ok rt \<and>
     (\<forall>li \<in> set lis. \<forall>fd \<in> set (queue_of rt qs li). fd_ok fd) \<and>
     (\<forall>l \<in> ran (rt_listens rt). li_fd l = - 1 \<or> fd_ok (li_fd l))"

lemma loop_okD:
  assumes "loop_ok ok rt lis qs frees"
  shows "queues_repr rt lis qs frees" "runtime_ok ok rt" "ok (rt_source rt)"
    "\<And>li fd. li \<in> set lis \<Longrightarrow> fd \<in> set (queue_of rt qs li) \<Longrightarrow> fd_ok fd"
    "\<And>li l. rt_listens rt li = Some l \<Longrightarrow> li_fd l = - 1 \<or> fd_ok (li_fd l)"
  using assms by (auto simp: loop_ok_def runtime_ok_def ran_def)

lemma loop_ok_source:
  "loop_ok ok rt lis qs frees \<Longrightarrow> ok s \<Longrightarrow> loop_ok ok (rt\<lparr>rt_source := s\<rparr>) lis qs frees"
  by (auto simp: loop_ok_def runtime_ok_def queues_repr_def queue_of_def)

text \<open>An event leads to a routine or an open listening socket that exists.\<close>

definition event_live :: "'s ef_runtime \<Rightarrow> poll_ptr option ef_event \<Rightarrow> bool" where
  "event_live rt ev \<longleftrightarrow> (case ev_data ev of
     Some (Listen_data li) \<Rightarrow> (\<exists>l. rt_listens rt li = Some l \<and> fd_ok (li_fd l))
   | Some (Routine_data co) \<Rightarrow> rt_data rt co \<noteq> None
   | None \<Rightarrow> False)"

lemma event_live_mono:
  "event_live rt ev \<Longrightarrow> dom (rt_data rt') = dom (rt_data rt) \<Longrightarrow> rt_listens rt' = rt_listens rt \<Longrightarrow> event_live rt' ev"
  by (auto simp: event_live_def split: option.splits poll_ptr.splits)

context waiting
begin

text \<open>What a listening socket's event does: the connections accepted join the queue in order.\<close>

lemma accept_loop_ok:
  assumes "loop_ok inv rt lis qs frees" "serves inv env k" "li \<in> set lis" "fd_ok fd" "\<forall>s \<in> set socks. fd_ok s"
  shows "\<exists>rt' os' qs' frees' n. accept_loop P k li fd socks os rt = Some (rt', os') \<and> loop_ok inv rt' lis qs' frees' \<and>
    n \<le> length socks \<and> (\<forall>l \<in> set lis. queue_of rt' qs' l = queue_of rt qs l @ (if l = li then take n socks else [])) \<and>
    (n = length socks \<or> (\<exists>os fd fl. fst (k_setfl k os fd fl) < 0) \<or> (\<exists>os S. fst (k_malloc k os S) = None)) \<and>
    rt_listens rt' = rt_listens rt \<and> rt_data rt' = rt_data rt"
  using assms
proof (induction socks arbitrary: os rt qs frees)
  case Nil
  from unset_law [OF loop_okD(3) [OF Nil.prems(1)] Nil.prems(4), of EF_POLLIN] obtain r s where
    s: "po_unset P (rt_source rt) fd EF_POLLIN = Some (r, s)" "inv s" by blast
  from loop_ok_source [OF Nil.prems(1) s(2)] s(1) show ?case
    by (intro exI [of _ "rt\<lparr>rt_source := s\<rparr>"] exI [of _ os] exI [of _ qs] exI [of _ frees] exI [of _ 0])
      (simp add: queue_of_def)
next
  case (Cons socket socks)
  note L = loop_okD [OF Cons.prems(1)]
  from queue_fd_ok [OF L(1) Cons.prems(3), of k os socket] servesD(2) [OF Cons.prems(2)] obtain ret rt1 os1 qs1 frees1 where
    q: "ef_queue_fd k os rt li socket = Some (ret, rt1, os1)" "queues_repr rt1 lis qs1 frees1"
      "rt1 = rt\<lparr>rt_fds := rt_fds rt1, rt_links := rt_links rt1\<rparr>"
      "\<forall>l \<in> set lis. queue_of rt1 qs1 l = queue_of rt qs l @ (if l = li \<and> 0 \<le> ret then [socket] else [])"
      "0 \<le> ret \<or> (\<exists>os fl. fst (k_setfl k os socket fl) < 0) \<or> (\<exists>os S. fst (k_malloc k os S) = None)" by metis
  have same: "rt_listens rt1 = rt_listens rt" "rt_data rt1 = rt_data rt" "rt_source rt1 = rt_source rt"
      "rt_pool rt1 = rt_pool rt" "rt_frames rt1 = rt_frames rt"
    by (subst q(3), simp)+
  have "runtime_ok inv rt1" using L(2) by (simp add: runtime_ok_def same)
  then have L1: "loop_ok inv rt1 lis qs1 frees1"
    using Cons.prems(1,5) q(2,4) same(1) by (auto simp: loop_ok_def split: if_splits)
  show ?case
  proof (cases "ret < 0")
    case True
    then show ?thesis using q L1 same
      by (intro exI [of _ rt1] exI [of _ os1] exI [of _ qs1] exI [of _ frees1] exI [of _ 0]) auto
  next
    case False
    have socks: "\<forall>s \<in> set socks. fd_ok s" using Cons.prems(5) by simp
    from Cons.IH [OF L1 Cons.prems(2-4) socks, of os1] obtain rt' os' qs' frees' n where
      i: "accept_loop P k li fd socks os1 rt1 = Some (rt', os')" "loop_ok inv rt' lis qs' frees'" "n \<le> length socks"
        "\<forall>l \<in> set lis. queue_of rt' qs' l = queue_of rt1 qs1 l @ (if l = li then take n socks else [])"
        "n = length socks \<or> (\<exists>os fd fl. fst (k_setfl k os fd fl) < 0) \<or> (\<exists>os S. fst (k_malloc k os S) = None)"
        "rt_listens rt' = rt_listens rt1" "rt_data rt' = rt_data rt1" by metis
    then show ?thesis using q(1,4) False same
      by (intro exI [of _ rt'] exI [of _ os'] exI [of _ qs'] exI [of _ frees'] exI [of _ "Suc n"]) auto
  qed
qed

lemma handle_event_ok:
  assumes L: "loop_ok inv rt lis qs frees" and k: "serves inv env k" and live: "event_live rt ev"
  shows "\<exists>rt' os' qs' frees'. handle_event P k ev os rt = Some (rt', os') \<and> loop_ok inv rt' lis qs' frees' \<and>
    dom (rt_data rt') = dom (rt_data rt) \<and> rt_listens rt' = rt_listens rt"
proof -
  note D = loop_okD [OF L]
  from live obtain p where p: "ev_data ev = Some p" by (auto simp: event_live_def split: option.splits)
  show ?thesis
  proof (cases p)
    case (Listen_data li)
    with live p obtain l where l: "rt_listens rt li = Some l" "fd_ok (li_fd l)" by (auto simp: event_live_def)
    have li: "li \<in> set lis" using queues_reprD(4) [OF D(1)] l(1) by blast
    obtain socks os1 where a: "k_accept k os (li_fd l) = (socks, os1)" by (cases "k_accept k os (li_fd l)")
    have "\<forall>s \<in> set socks. fd_ok s" using servesD(3) [OF k, of _ os "li_fd l"] a by simp
    from accept_loop_ok [OF L k li l(2) this, of os1] obtain rt1 os2 qs1 frees1 where
      r: "accept_loop P k li (li_fd l) socks os1 rt = Some (rt1, os2)" "loop_ok inv rt1 lis qs1 frees1"
        "rt_listens rt1 = rt_listens rt" "rt_data rt1 = rt_data rt" by blast
    obtain e os3 where e: "k_env k os2 = (e, os3)" by (cases "k_env k os2")
    have "env e" using servesD(7) [OF k, of os2] e by simp
    from reassociate_law [OF loop_okD(3) [OF r(2)] l(2) this, of EF_POLLIN "Listen_data li"] obtain x s where
      s: "po_associate P e (rt_source rt1) (li_fd l) EF_POLLIN (Listen_data li) True = Some (x, s)" "inv s" by blast
    have "handle_event P k ev os rt = Some (rt1\<lparr>rt_source := s\<rparr>, os3)"
      using p Listen_data l(1) a r(1) e s(1) by (simp add: handle_event_def)
    with loop_ok_source [OF r(2) s(2)] r(3,4) show ?thesis
      by (intro exI [of _ "rt1\<lparr>rt_source := s\<rparr>"] exI [of _ os3] exI [of _ qs1] exI [of _ frees1]) simp
  next
    case (Routine_data co)
    with live p obtain d where d: "rt_data rt co = Some d" by (auto simp: event_live_def)
    from resume_routine_ok [OF D(2) k d, of os "ev_events ev"] obtain rt1 os1 where
      r: "resume_routine P k os rt co (ev_events ev) = Some (rt1, os1)" "runtime_ok inv rt1"
        "dom (rt_data rt1) = dom (rt_data rt)" by blast
    have "loop_ok inv rt1 lis qs frees"
      using L r(2) resume_routine_frame [OF r(1)] by (auto simp: loop_ok_def queues_repr_def queue_of_def)
    moreover have "handle_event P k ev os rt = Some (rt1, os1)"
      using p Routine_data d r(1) by (simp add: handle_event_def)
    ultimately show ?thesis using r(3) resume_routine_frame [OF r(1)] by blast
  qed
qed

lemma handle_events_ok:
  assumes "loop_ok inv rt lis qs frees" "serves inv env k" "\<forall>ev \<in> set evs. event_live rt ev"
  shows "\<exists>rt' os' qs' frees'. handle_events P k evs os rt = Some (rt', os') \<and> loop_ok inv rt' lis qs' frees'"
  using assms
proof (induction evs arbitrary: os rt qs frees)
  case (Cons ev evs)
  from handle_event_ok [OF Cons.prems(1,2), of ev os] Cons.prems(3) obtain rt1 os1 qs1 frees1 where
    h: "handle_event P k ev os rt = Some (rt1, os1)" "loop_ok inv rt1 lis qs1 frees1"
      "dom (rt_data rt1) = dom (rt_data rt)" "rt_listens rt1 = rt_listens rt" by auto
  have "\<forall>ev \<in> set evs. event_live rt1 ev" using Cons.prems(3) event_live_mono [OF _ h(3,4)] by auto
  from Cons.IH [OF h(2) Cons.prems(2) this, of os1] h(1) show ?case by auto
qed auto

lemma serve_queues_ok:
  assumes L: "loop_ok inv rt lis qs frees" and k: "serves inv env k"
  shows "\<exists>ns rt1 rt' os' frees'. hand_over_all P k (waiting_queues rt qs lis) os rt = Some (ns, rt1, os') \<and>
    listen_loop P k (ef_list_entry_after (rt_links rt) Listen_list) os rt = Some (rt', os') \<and>
    rt1 = rt'\<lparr>rt_links := rt_links rt1\<rparr> \<and> length ns = length lis \<and>
    rt_fds rt' = rt_fds rt \<and> loop_ok inv rt' lis (handed ns lis qs) frees'"
proof -
  note D = loop_okD [OF L]
  have "\<forall>li \<in> set lis. \<forall>fd \<in> set (queue_of rt qs li). fd_ok fd" using D(4) by blast
  from listen_loop_ok [OF D(1,2) k this, of os] obtain ns rt1 rt' os' frees' where
    h: "hand_over_all P k (waiting_queues rt qs lis) os rt = Some (ns, rt1, os')"
      "listen_loop P k (ef_list_entry_after (rt_links rt) Listen_list) os rt = Some (rt', os')"
      "rt1 = rt'\<lparr>rt_links := rt_links rt1\<rparr>" "length ns = length lis"
      "queues_repr rt' lis (handed ns lis qs) frees'" "runtime_ok inv rt'" by blast
  have f: "rt_listens rt1 = rt_listens rt \<and> rt_fds rt1 = rt_fds rt" by (rule hand_over_all_frame [OF h(1)])
  moreover have "rt_listens rt1 = rt_listens rt'" "rt_fds rt1 = rt_fds rt'"
    using arg_cong [OF h(3), of rt_listens] arg_cong [OF h(3), of rt_fds] by simp_all
  ultimately have f': "rt_listens rt' = rt_listens rt" "rt_fds rt' = rt_fds rt" by simp_all
  have "set (handed ns lis qs li) \<subseteq> set (qs li)" if "li \<in> set lis" for li
  proof -
    from that obtain i where i: "i < length lis" "li = lis ! i" unfolding in_set_conv_nth by blast
    show ?thesis unfolding i(2) handed_nth [OF queues_reprD(10) [OF D(1)] i(1) h(4)] by (rule set_drop_subset)
  qed
  then have "loop_ok inv rt' lis (handed ns lis qs) frees'"
    using h(5,6) D(4,5) f' by (fastforce simp: loop_ok_def queue_of_def ran_def)
  then show ?thesis using h f'(2) by blast
qed

end

section \<open>Stopping\<close>

text \<open>Freeing the unused items.\<close>

lemma drop_item:
  assumes "queues_repr rt lis qs fs" "q \<notin> set fs" "\<And>li. li \<in> set lis \<Longrightarrow> q \<notin> set (qs li)"
  shows "queues_repr (rt\<lparr>rt_fds := (rt_fds rt)(q := None)\<rparr>) lis qs fs"
proof -
  have "set (qs li) \<subseteq> dom ((rt_fds rt)(q := None))" if "li \<in> set lis" for li
    using queues_reprD(6) [OF assms(1) that] assms(3) [OF that] by auto
  moreover have "set fs \<subseteq> dom ((rt_fds rt)(q := None))" using queues_reprD(5) [OF assms(1)] assms(2) by auto
  ultimately show ?thesis using assms(1) by (simp add: queues_repr_def del: fun_upd_apply)
qed

lemma free_fds_ok:
  assumes "queues_repr rt lis qs fs" "q \<in> dom (rt_fds rt)" "q \<notin> set fs" "\<And>li. li \<in> set lis \<Longrightarrow> q \<notin> set (qs li)"
  shows "\<exists>rt'. free_fds (Some (Fd_entry q)) rt = Some rt' \<and> queues_repr rt' lis qs [] \<and>
    (\<forall>li \<in> set lis. queue_of rt' qs li = queue_of rt qs li) \<and> rt' = rt\<lparr>rt_links := rt_links rt', rt_fds := rt_fds rt'\<rparr>"
  using assms
proof (induction fs arbitrary: rt q)
  case Nil
  let ?rt = "rt\<lparr>rt_fds := (rt_fds rt)(q := None)\<rparr>"
  have "free_fds (Some (Fd_entry q)) rt = Some ?rt"
    using Nil.prems(2) ring_remove_after_Nil [OF queues_reprD(2) [OF Nil.prems(1), simplified]]
    by (auto simp: free_fds.simps fd_of_def)
  moreover have "queues_repr ?rt lis qs []"
    by (rule drop_item [OF Nil.prems(1,3,4)])
  moreover have "queue_of ?rt qs li = queue_of rt qs li" if "li \<in> set lis" for li
    using Nil.prems(4) [OF that] by (auto simp: queue_of_def)
  ultimately show ?case by (intro exI [of _ ?rt]) (simp del: fun_upd_apply)
next
  case (Cons p fs)
  note D = queues_reprD [OF Cons.prems(1)]
  let ?rt = "rt\<lparr>rt_links := ef_list_remove (Fd_entry p) (rt_links rt), rt_fds := (rt_fds rt)(q := None)\<rparr>"
  have "ef_list_remove_after Free_fd_list (rt_links rt) = (Some (Fd_entry p), ef_list_remove (Fd_entry p) (rt_links rt))"
    using ring_remove_after(1) D(2) by simp
  then have step: "free_fds (Some (Fd_entry q)) rt = free_fds (Some (Fd_entry p)) ?rt"
    using Cons.prems(2) by (subst free_fds.simps) (auto simp: fd_of_def)
  have R: "queues_repr ?rt lis qs fs"
    using drop_item [OF take_free [OF Cons.prems(1)], of q] Cons.prems(3,4) by simp
  have "p \<in> dom (rt_fds ?rt)" "p \<notin> set fs" "\<And>li. li \<in> set lis \<Longrightarrow> p \<notin> set (qs li)"
    using D(5,7,9) Cons.prems(3) by auto
  from Cons.IH [OF R this] obtain rt' where
    r: "free_fds (Some (Fd_entry p)) ?rt = Some rt'" "queues_repr rt' lis qs []"
      "\<forall>li \<in> set lis. queue_of rt' qs li = queue_of ?rt qs li" "rt' = ?rt\<lparr>rt_links := rt_links rt', rt_fds := rt_fds rt'\<rparr>" by blast
  have "queue_of ?rt qs li = queue_of rt qs li" if "li \<in> set lis" for li
    using Cons.prems(4) [OF that] by (auto simp: queue_of_def)
  moreover have "rt' = rt\<lparr>rt_links := rt_links rt', rt_fds := rt_fds rt'\<rparr>" using r(4) by simp
  ultimately show ?case unfolding step using r(1-3) by auto
qed

lemma shrink_loop_page: "shrink_loop n p e tv idle c = Some (r, p') \<Longrightarrow> fw_page (cp_sched p') = fw_page (cp_sched p)"
proof (induction n p e tv idle c rule: shrink_loop.induct)
  case (2 n p e tv idle c)
  show ?case
  proof (cases e)
    case (Free_entry co)
    with 2 show ?thesis
      by (cases "cp_cos p co") (auto simp: ef_fiber_delete_def Let_def bind_Some_iff split: if_split_asm)
  qed (use 2 in \<open>auto split: if_split_asm\<close>)
qed auto

lemma shrink_pool_ok:
  assumes "runtime_ok ok rt"
  shows "\<exists>rt' os'. shrink_pool k idle mc os rt = Some (rt', os') \<and> runtime_ok ok rt' \<and>
    rt' = rt\<lparr>rt_pool := rt_pool rt', rt_data := rt_data rt'\<rparr>"
proof -
  let ?t = "fw_thread (cp_sched (rt_pool rt))"
  from assms obtain fulls frees where R: "ok (rt_source rt)" "280 \<le> fw_page (cp_sched (rt_pool rt))"
    "pool_repr (rt_pool rt) [?t] fulls frees" "dom (rt_data rt) = set fulls" "\<forall>fd \<in> ran (rt_frames rt). fd_ok fd"
    "data_ok (rt_data rt)" unfolding runtime_ok_def by (elim conjE exE) metis
  obtain now os1 where t: "k_time k os = (now, os1)" by (cases "k_time k os")
  from shrink_repr [OF R(3), of idle mc now] obtain n p where
    p: "ef_coroutine_pool_shrink (rt_pool rt) idle mc now = Some (int n, p)"
      "pool_repr p [?t] (filter (\<lambda>co. co \<notin> set (drop (length frees - n) frees)) fulls) (take (length frees - n) frees)" by blast
  have th: "fw_thread (cp_sched p) = ?t" using pool_reprD(1) [OF p(2)] by (auto simp: active_def)
  have page: "fw_page (cp_sched p) = fw_page (cp_sched (rt_pool rt))"
    using p(1) by (auto simp: ef_coroutine_pool_shrink_def Let_def dest: shrink_loop_page split: if_split_asm)
  let ?rt = "rt\<lparr>rt_pool := p, rt_data := rt_data rt |` dom (cp_cos p)\<rparr>"
  have "shrink_pool k idle mc os rt = Some (?rt, os1)" using t p(1) by (simp add: shrink_pool_def)
  moreover have "runtime_ok ok ?rt"
  proof -
    have "dom (rt_data ?rt) = set (filter (\<lambda>co. co \<notin> set (drop (length frees - n) frees)) fulls)"
      using R(4) pool_reprD(9) [OF p(2)] by auto
    moreover have "data_ok (rt_data ?rt)" using R(6) by (auto simp: data_ok_def ran_def restrict_map_def split: if_splits)
    ultimately show ?thesis using R p(2) th page unfolding runtime_ok_def by auto
  qed
  ultimately show ?thesis by (intro exI [of _ ?rt] exI [of _ os1]) simp
qed

text \<open>Taking a socket with an empty queue off the list.\<close>

lemma drop_listen:
  assumes R: "queues_repr rt (done @ li # rest) qs frees" and e: "qs li = []"
  shows "queues_repr (rt\<lparr>rt_links := ef_list_remove (Listen_entry li) (rt_links rt), rt_listens := (rt_listens rt)(li := None)\<rparr>)
    (done @ rest) qs frees"
proof -
  note D = queues_reprD [OF R]
  let ?L = "ef_list_remove (Listen_entry li) (rt_links rt)"
  have split: "ring (rt_links rt) Listen_list (map Listen_entry done @ Listen_entry li # map Listen_entry rest)" using D(1) by simp
  have frame: "ring ?L g ys" if "ring (rt_links rt) g ys" "set (g # ys) \<inter> set (Listen_list # map Listen_entry (done @ li # rest)) = {}" for g ys
    by (rule ring_remove_frame [OF D(1) _ that]) simp
  have "ring ?L Listen_list (map Listen_entry (done @ rest))" using ring_remove [OF split] by simp
  moreover have "ring ?L Free_fd_list (map Fd_entry frees)" by (rule frame [OF D(2)]) auto
  moreover have "ring ?L (Fd_list l) (map Fd_entry (qs l))" if "l \<in> set (done @ rest)" for l
    by (rule frame [OF D(3)]) (use that in auto)
  moreover have "dom ((rt_listens rt)(li := None)) = set (done @ rest)" using D(4,10) by auto
  ultimately show ?thesis using D(5-8) unfolding queues_repr_def by (simp del: fun_upd_apply)
qed

context waiting
begin

text \<open>One socket is closed; it stays while connections wait for it.\<close>

lemma close_listen_ok:
  assumes L: "loop_ok inv rt (done @ li # rest) qs frees" and k: "serves inv env k"
  shows "\<exists>rt' os'. close_listen P k li os rt = Some (rt', os') \<and>
    loop_ok inv rt' (done @ (if qs li = [] then [] else [li]) @ rest) qs frees \<and> rt_pool rt' = rt_pool rt \<and>
    (\<forall>l \<in> set (done @ rest). rt_listens rt' l = rt_listens rt l \<and> queue_of rt' qs l = queue_of rt qs l) \<and>
    (qs li \<noteq> [] \<longrightarrow> map_option li_fd (rt_listens rt' li) = Some (- 1))"
proof -
  note D = loop_okD [OF L]
  note Q = queues_reprD [OF D(1)]
  have "li \<in> dom (rt_listens rt)" using Q(4) by simp
  then obtain l where l: "rt_listens rt li = Some l" by blast
  have notin: "li \<notin> set done" "li \<notin> set rest" using Q(10) by auto
  have empty: "ef_list_empty (rt_links rt) (Fd_list li) \<longleftrightarrow> qs li = []" using ring_empty [OF Q(3), of li] by simp
  have closed: "\<exists>rt1 os1. (if li_fd l \<ge> 0
       then do { let (e, os) = k_env k os;
                 (_, s) \<leftarrow> po_dissociate P e (rt_source rt) (li_fd l) False False;
                 let (_, os) = k_close k os (li_fd l);
                 Some (rt\<lparr>rt_source := s, rt_listens := (rt_listens rt)(li \<mapsto> l\<lparr>li_fd := - 1\<rparr>)\<rparr>, os) }
       else Some (rt, os)) = Some (rt1, os1) \<and> (\<exists>s. inv s \<and>
       rt1 = rt\<lparr>rt_source := s, rt_listens := (rt_listens rt)(li \<mapsto> l\<lparr>li_fd := - 1\<rparr>)\<rparr>)"
  proof (cases "0 \<le> li_fd l")
    case True
    then have fd: "fd_ok (li_fd l)" using D(5) [OF l] by auto
    obtain e os1 where e: "k_env k os = (e, os1)" by (cases "k_env k os")
    have "env e" using servesD(7) [OF k, of os] e by simp
    from dissociate_law [OF D(3) fd this, of False False] obtain r s where
      s: "po_dissociate P e (rt_source rt) (li_fd l) False False = Some (r, s)" "inv s" by blast
    obtain c os2 where "k_close k os1 (li_fd l) = (c, os2)" by (cases "k_close k os1 (li_fd l)")
    then show ?thesis using True e s by auto
  next
    case False
    then have "li_fd l = - 1" using D(5) [OF l] by (auto simp: fd_ok_def)
    then have "rt = rt\<lparr>rt_source := rt_source rt, rt_listens := (rt_listens rt)(li \<mapsto> l\<lparr>li_fd := - 1\<rparr>)\<rparr>"
      using l by (cases l) (simp add: fun_upd_idem)
    then show ?thesis using False D(3) by auto
  qed
  then obtain rt1 os1 s where c: "(if li_fd l \<ge> 0
       then do { let (e, os) = k_env k os;
                 (_, s) \<leftarrow> po_dissociate P e (rt_source rt) (li_fd l) False False;
                 let (_, os) = k_close k os (li_fd l);
                 Some (rt\<lparr>rt_source := s, rt_listens := (rt_listens rt)(li \<mapsto> l\<lparr>li_fd := - 1\<rparr>)\<rparr>, os) }
       else Some (rt, os)) = Some (rt1, os1)" "inv s"
      "rt1 = rt\<lparr>rt_source := s, rt_listens := (rt_listens rt)(li \<mapsto> l\<lparr>li_fd := - 1\<rparr>)\<rparr>" by blast
  have Q1: "queues_repr rt1 (done @ li # rest) qs frees"
    using D(1) c(3) by (auto simp: queues_repr_def)
  have L1: "loop_ok inv rt1 (done @ li # rest) qs frees"
    using L Q1 c(2) by (auto simp: c(3) loop_ok_def runtime_ok_def queue_of_def ran_def)
  have code: "close_listen P k li os rt = (if qs li = []
      then Some (rt1\<lparr>rt_links := ef_list_remove (Listen_entry li) (rt_links rt1), rt_listens := (rt_listens rt1)(li := None)\<rparr>, os1)
      else Some (rt1, os1))"
    unfolding close_listen_def l bind.bind_lunit c(1) using empty by (simp add: c(3))
  show ?thesis
  proof (cases "qs li = []")
    case True
    let ?rt2 = "rt1\<lparr>rt_links := ef_list_remove (Listen_entry li) (rt_links rt1), rt_listens := (rt_listens rt1)(li := None)\<rparr>"
    have "loop_ok inv ?rt2 (done @ rest) qs frees"
      using L1 drop_listen [OF Q1 True] by (auto simp: loop_ok_def runtime_ok_def queue_of_def ran_def)
    then show ?thesis unfolding code using True notin
      by (intro exI [of _ ?rt2] exI [of _ os1]) (auto simp: c(3) queue_of_def)
  next
    case False
    then show ?thesis unfolding code using L1 notin
      by (intro exI [of _ rt1] exI [of _ os1]) (auto simp: c(3) queue_of_def)
  qed
qed

lemma close_loop_ok:
  assumes "loop_ok inv rt (done @ rest) qs frees" "serves inv env k"
  shows "\<exists>rt' os'. close_loop P k (hd (map Listen_entry rest @ [Listen_list])) os rt = Some (rt', os') \<and>
    loop_ok inv rt' (done @ filter (\<lambda>li. qs li \<noteq> []) rest) qs frees \<and> rt_pool rt' = rt_pool rt \<and>
    (\<forall>l \<in> set done. rt_listens rt' l = rt_listens rt l) \<and>
    (\<forall>l \<in> set rest. qs l \<noteq> [] \<longrightarrow> map_option li_fd (rt_listens rt' l) = Some (- 1))"
  using assms
proof (induction rest arbitrary: "done" os rt)
  case Nil
  then show ?case by (simp add: close_loop.simps)
next
  case (Cons li rest)
  note Q = queues_reprD [OF loop_okD(1) [OF Cons.prems(1)]]
  have notin: "li \<notin> set done" "li \<notin> set rest" "set done \<inter> set rest = {}" using Q(10) by auto
  have succ: "ef_list_entry_after (rt_links rt) (Listen_entry li) = hd (map Listen_entry rest @ [Listen_list])"
  proof -
    have "ring (rt_links rt) (Listen_entry li) (map Listen_entry rest @ Listen_list # map Listen_entry done)"
      using ring_rotate [of "rt_links rt" Listen_list "map Listen_entry done" "Listen_entry li" "map Listen_entry rest"] Q(1) by simp
    from ring_first [OF this] show ?thesis by (cases rest) simp_all
  qed
  from close_listen_ok [OF Cons.prems, of os] obtain rt1 os1 where
    c: "close_listen P k li os rt = Some (rt1, os1)"
      "loop_ok inv rt1 (done @ (if qs li = [] then [] else [li]) @ rest) qs frees" "rt_pool rt1 = rt_pool rt"
      "\<forall>l \<in> set (done @ rest). rt_listens rt1 l = rt_listens rt l \<and> queue_of rt1 qs l = queue_of rt qs l"
      "qs li \<noteq> [] \<longrightarrow> map_option li_fd (rt_listens rt1 li) = Some (- 1)" by blast
  have step: "close_loop P k (hd (map Listen_entry (li # rest) @ [Listen_list])) os rt =
      close_loop P k (hd (map Listen_entry rest @ [Listen_list])) os1 rt1"
    by (subst close_loop.simps) (simp add: listen_of_def succ c(1))
  have "loop_ok inv rt1 ((done @ (if qs li = [] then [] else [li])) @ rest) qs frees" using c(2) by simp
  from Cons.IH [OF this Cons.prems(2), of os1] obtain rt' os' where
    i: "close_loop P k (hd (map Listen_entry rest @ [Listen_list])) os1 rt1 = Some (rt', os')"
      "loop_ok inv rt' ((done @ (if qs li = [] then [] else [li])) @ filter (\<lambda>li. qs li \<noteq> []) rest) qs frees"
      "rt_pool rt' = rt_pool rt1" "\<forall>l \<in> set (done @ (if qs li = [] then [] else [li])). rt_listens rt' l = rt_listens rt1 l"
      "\<forall>l \<in> set rest. qs l \<noteq> [] \<longrightarrow> map_option li_fd (rt_listens rt' l) = Some (- 1)" by blast
  show ?case unfolding step
    using i c(3-5) by (intro exI [of _ rt'] exI [of _ os']) (auto split: if_splits)
qed

end

lemma exit_queue_plain:
  "exit_queue P k os rt =
     do { (fin, rt, os) \<leftarrow>
            (if k_stopping k os
             then do {
               (rt, os) \<leftarrow> close_loop P k (ef_list_entry_after (rt_links rt) Listen_list) os rt;
               rt \<leftarrow> (let (ent, L) = ef_list_remove_after Free_fd_list (rt_links rt) in free_fds ent (rt\<lparr>rt_links := L\<rparr>));
               if cp_free_count (rt_pool rt) = cp_full_count (rt_pool rt)
               then do { (rt, os) \<leftarrow> shrink_pool k 0 (- cp_full_count (rt_pool rt)) os rt; Some (True, rt, os) }
               else do { (rt, os) \<leftarrow> shrink_pool k 0 (- cp_free_count (rt_pool rt)) os rt; Some (False, rt, os) } }
             else Some (False, rt, os));
          if fin then Some (True, rt, os)
          else if cp_free_count (rt_pool rt) > 0 \<and> cp_full_count (rt_pool rt) > cp_limit_min (rt_pool rt)
          then do { (rt, os) \<leftarrow> shrink_pool k (rt_shrink_millisecs rt) (rt_count_per_shrink rt) os rt; Some (False, rt, os) }
          else Some (False, rt, os) }"
proof -
  have a: "(if \<not> ef_list_empty (rt_links rt) Listen_list then close_loop P k (ef_list_entry_after (rt_links rt) Listen_list) os rt
      else Some (rt, os)) = close_loop P k (ef_list_entry_after (rt_links rt) Listen_list) os rt" for rt os
    by (cases "ef_list_empty (rt_links rt) Listen_list")
      (simp_all add: close_loop.simps [of P k Listen_list] ef_list_empty_def ef_list_entry_after_def)
  have b: "(if \<not> ef_list_empty (rt_links rt) Free_fd_list
      then (let (ent, L) = ef_list_remove_after Free_fd_list (rt_links rt) in free_fds ent (rt\<lparr>rt_links := L\<rparr>)) else Some rt) =
      (let (ent, L) = ef_list_remove_after Free_fd_list (rt_links rt) in free_fds ent (rt\<lparr>rt_links := L\<rparr>))" for rt
    by (simp add: ef_list_remove_after_def free_fds.simps)
  show ?thesis unfolding exit_queue_def a b by (rule refl)
qed

context waiting
begin

text \<open>The work of a stopping round before the pool is shrunk.\<close>

lemma stop_listening:
  assumes L: "loop_ok inv rt lis qs frees" and k: "serves inv env k"
  shows "\<exists>rt1 os1 rt2. close_loop P k (ef_list_entry_after (rt_links rt) Listen_list) os rt = Some (rt1, os1) \<and>
    (let (ent, L) = ef_list_remove_after Free_fd_list (rt_links rt1) in free_fds ent (rt1\<lparr>rt_links := L\<rparr>)) = Some rt2 \<and>
    loop_ok inv rt2 (filter (\<lambda>li. qs li \<noteq> []) lis) qs [] \<and> rt_pool rt2 = rt_pool rt \<and>
    (\<forall>l \<in> ran (rt_listens rt2). li_fd l = - 1)"
proof -
  have first: "ef_list_entry_after (rt_links rt) Listen_list = hd (map Listen_entry lis @ [Listen_list])"
    using ring_first [OF queues_reprD(1) [OF loop_okD(1) [OF L]]] .
  have "loop_ok inv rt ([] @ lis) qs frees" using L by simp
  from close_loop_ok [OF this k, of os] obtain rt1 os1 where
    c: "close_loop P k (hd (map Listen_entry lis @ [Listen_list])) os rt = Some (rt1, os1)"
      "loop_ok inv rt1 (filter (\<lambda>li. qs li \<noteq> []) lis) qs frees" "rt_pool rt1 = rt_pool rt"
      "\<forall>l \<in> set lis. qs l \<noteq> [] \<longrightarrow> map_option li_fd (rt_listens rt1 l) = Some (- 1)" by auto
  note Q = queues_reprD [OF loop_okD(1) [OF c(2)]]
  have "\<exists>rt2. (let (ent, L) = ef_list_remove_after Free_fd_list (rt_links rt1) in free_fds ent (rt1\<lparr>rt_links := L\<rparr>)) = Some rt2 \<and>
    loop_ok inv rt2 (filter (\<lambda>li. qs li \<noteq> []) lis) qs [] \<and> rt_pool rt2 = rt_pool rt1 \<and> rt_listens rt2 = rt_listens rt1"
  proof (cases frees)
    case Nil
    then show ?thesis using c(2) ring_remove_after_Nil [of "rt_links rt1" Free_fd_list] Q(2)
      by (simp add: free_fds.simps)
  next
    case (Cons q fs)
    let ?rt = "rt1\<lparr>rt_links := ef_list_remove (Fd_entry q) (rt_links rt1)\<rparr>"
    have rm: "ef_list_remove_after Free_fd_list (rt_links rt1) = (Some (Fd_entry q), ef_list_remove (Fd_entry q) (rt_links rt1))"
      using ring_remove_after(1) Q(2) Cons by simp
    have R: "queues_repr ?rt (filter (\<lambda>li. qs li \<noteq> []) lis) qs fs"
      using take_free loop_okD(1) [OF c(2)] Cons by blast
    have "q \<in> dom (rt_fds ?rt)" and "q \<notin> set fs" and "\<And>li. li \<in> set (filter (\<lambda>li. qs li \<noteq> []) lis) \<Longrightarrow> q \<notin> set (qs li)"
      using Q(5,7,9) Cons by auto
    from free_fds_ok [OF R this] obtain rt2 where f: "free_fds (Some (Fd_entry q)) ?rt = Some rt2"
      "queues_repr rt2 (filter (\<lambda>li. qs li \<noteq> []) lis) qs []"
      "\<forall>li \<in> set (filter (\<lambda>li. qs li \<noteq> []) lis). queue_of rt2 qs li = queue_of ?rt qs li"
      "rt2 = ?rt\<lparr>rt_links := rt_links rt2, rt_fds := rt_fds rt2\<rparr>" by blast
    have same: "rt_listens rt2 = rt_listens rt1" "rt_pool rt2 = rt_pool rt1" "rt_source rt2 = rt_source rt1"
      "rt_data rt2 = rt_data rt1" "rt_frames rt2 = rt_frames rt1"
      using arg_cong [OF f(4), of rt_listens] arg_cong [OF f(4), of rt_pool] arg_cong [OF f(4), of rt_source]
        arg_cong [OF f(4), of rt_data] arg_cong [OF f(4), of rt_frames] by simp_all
    have "queue_of ?rt qs li = queue_of rt1 qs li" for li by (simp add: queue_of_def)
    then have "loop_ok inv rt2 (filter (\<lambda>li. qs li \<noteq> []) lis) qs []"
      using c(2) f(2,3) same by (simp add: loop_ok_def runtime_ok_def)
    then show ?thesis using rm f(1) same by simp
  qed
  then obtain rt2 where r: "(let (ent, L) = ef_list_remove_after Free_fd_list (rt_links rt1) in free_fds ent (rt1\<lparr>rt_links := L\<rparr>)) = Some rt2"
    "loop_ok inv rt2 (filter (\<lambda>li. qs li \<noteq> []) lis) qs []" "rt_pool rt2 = rt_pool rt1" "rt_listens rt2 = rt_listens rt1" by blast
  have "li_fd l = - 1" if "l \<in> ran (rt_listens rt2)" for l
  proof -
    from that obtain a where a: "rt_listens rt1 a = Some l" using r(4) by (auto simp: ran_def)
    then have "a \<in> set (filter (\<lambda>li. qs li \<noteq> []) lis)" using Q(4) by blast
    then show ?thesis using c(4) a by auto
  qed
  then show ?thesis unfolding first using c(1,3) r by auto
qed

lemma shrink_loop_ok:
  assumes "loop_ok inv rt lis qs frees"
  shows "\<exists>rt' os'. shrink_pool k idle mc os rt = Some (rt', os') \<and> loop_ok inv rt' lis qs frees \<and> rt_listens rt' = rt_listens rt"
proof -
  from shrink_pool_ok [OF loop_okD(2) [OF assms], of k idle mc os] obtain rt' os' where
    s: "shrink_pool k idle mc os rt = Some (rt', os')" "runtime_ok inv rt'"
      "rt' = rt\<lparr>rt_pool := rt_pool rt', rt_data := rt_data rt'\<rparr>" by blast
  have same: "rt_links rt' = rt_links rt" "rt_listens rt' = rt_listens rt" "rt_fds rt' = rt_fds rt"
    using arg_cong [OF s(3), of rt_links] arg_cong [OF s(3), of rt_listens] arg_cong [OF s(3), of rt_fds] by simp_all
  have "queue_of rt' qs li = queue_of rt qs li" for li by (simp add: queue_of_def same)
  with assms s(2) same have "loop_ok inv rt' lis qs frees" by (simp add: loop_ok_def queues_repr_def)
  with s(1) same show ?thesis by blast
qed

lemma exit_queue_ok:
  assumes L: "loop_ok inv rt lis qs frees" and k: "serves inv env k"
  shows "\<exists>fin rt' os' frees'. exit_queue P k os rt = Some (fin, rt', os') \<and>
    loop_ok inv rt' (if k_stopping k os then filter (\<lambda>li. qs li \<noteq> []) lis else lis) qs frees' \<and>
    (k_stopping k os \<longrightarrow> (\<forall>l \<in> ran (rt_listens rt'). li_fd l = - 1)) \<and>
    (fin \<longleftrightarrow> k_stopping k os \<and> cp_free_count (rt_pool rt) = cp_full_count (rt_pool rt))"
proof -
  have last: "\<exists>rt' os'. (if cp_free_count (rt_pool rt) > 0 \<and> cp_full_count (rt_pool rt) > cp_limit_min (rt_pool rt)
      then do { (rt, os) \<leftarrow> shrink_pool k (rt_shrink_millisecs rt) (rt_count_per_shrink rt) os rt; Some (False, rt, os) }
      else Some (False, rt, os)) = Some (False, rt', os') \<and> loop_ok inv rt' lis qs frees \<and> rt_listens rt' = rt_listens rt"
    if "loop_ok inv rt lis qs frees" for rt os lis frees
    using shrink_loop_ok [OF that, of k "rt_shrink_millisecs rt" "rt_count_per_shrink rt" os] that by auto
  show ?thesis
  proof (cases "k_stopping k os")
    case False
    from last [OF L, of os] obtain rt' os' where
      l: "(if cp_free_count (rt_pool rt) > 0 \<and> cp_full_count (rt_pool rt) > cp_limit_min (rt_pool rt)
        then do { (rt, os) \<leftarrow> shrink_pool k (rt_shrink_millisecs rt) (rt_count_per_shrink rt) os rt; Some (False, rt, os) }
        else Some (False, rt, os)) = Some (False, rt', os')" "loop_ok inv rt' lis qs frees" by blast
    have "exit_queue P k os rt = Some (False, rt', os')"
      unfolding exit_queue_plain using False l(1) by simp
    with False l(2) show ?thesis by auto
  next
    case True
    from stop_listening [OF L k, of os] obtain rt1 os1 rt2 where s:
      "close_loop P k (ef_list_entry_after (rt_links rt) Listen_list) os rt = Some (rt1, os1)"
      "(let (ent, L) = ef_list_remove_after Free_fd_list (rt_links rt1) in free_fds ent (rt1\<lparr>rt_links := L\<rparr>)) = Some rt2"
      "loop_ok inv rt2 (filter (\<lambda>li. qs li \<noteq> []) lis) qs []" "rt_pool rt2 = rt_pool rt"
      "\<forall>l \<in> ran (rt_listens rt2). li_fd l = - 1" by blast
    show ?thesis
    proof (cases "cp_free_count (rt_pool rt) = cp_full_count (rt_pool rt)")
      case all: True
      from shrink_loop_ok [OF s(3), of k 0 "- cp_full_count (rt_pool rt2)" os1] obtain rt3 os3 where
        t: "shrink_pool k 0 (- cp_full_count (rt_pool rt2)) os1 rt2 = Some (rt3, os3)"
          "loop_ok inv rt3 (filter (\<lambda>li. qs li \<noteq> []) lis) qs []" "rt_listens rt3 = rt_listens rt2" by blast
      have "exit_queue P k os rt = Some (True, rt3, os3)"
        unfolding exit_queue_plain using True s(1,2,4) all t(1) by simp
      then show ?thesis using True all t(2,3) s(5) by auto
    next
      case some: False
      from shrink_loop_ok [OF s(3), of k 0 "- cp_free_count (rt_pool rt2)" os1] obtain rt3 os3 where
        t: "shrink_pool k 0 (- cp_free_count (rt_pool rt2)) os1 rt2 = Some (rt3, os3)"
          "loop_ok inv rt3 (filter (\<lambda>li. qs li \<noteq> []) lis) qs []" "rt_listens rt3 = rt_listens rt2" by blast
      from last [OF t(2), of os3] obtain rt4 os4 where
        l: "(if cp_free_count (rt_pool rt3) > 0 \<and> cp_full_count (rt_pool rt3) > cp_limit_min (rt_pool rt3)
          then do { (rt, os) \<leftarrow> shrink_pool k (rt_shrink_millisecs rt3) (rt_count_per_shrink rt3) os3 rt3; Some (False, rt, os) }
          else Some (False, rt3, os3)) = Some (False, rt4, os4)" "loop_ok inv rt4 (filter (\<lambda>li. qs li \<noteq> []) lis) qs []"
          "rt_listens rt4 = rt_listens rt3" by blast
      have "exit_queue P k os rt = Some (False, rt4, os4)"
        unfolding exit_queue_plain using True s(1,2,4) some t(1) l(1) by simp
      then show ?thesis using True some l(2,3) t(3) s(5) by auto
    qed
  qed
qed

end

text \<open>
  What a round needs of its wait: the kernel's answer is one the source copes with, the number
  of events is not more than what was written, and every event leads to something that exists.
\<close>

definition reports_live ::
    "('e, 's, 'ans) ef_poll \<Rightarrow> ('s \<Rightarrow> 'ans \<Rightarrow> bool) \<Rightarrow> ('e, 's, 'ans, 'o) kernel \<Rightarrow> 'o \<Rightarrow> 's ef_runtime \<Rightarrow> bool" where
  "reports_live P sane k os rt \<longleftrightarrow> sane (rt_source rt) (fst (k_wait k os)) \<and>
     (case po_wait P (fst (k_wait k os)) (rt_source rt) 1024 of
        None \<Rightarrow> True
      | Some (cnt, evts, s) \<Rightarrow> cnt \<le> int (length evts) \<and> (\<forall>ev \<in> set (take (nat cnt) evts). event_live rt ev))"

context waiting
begin

lemma loop_round_ok:
  assumes L: "loop_ok inv rt lis qs frees" and k: "serves inv env k" and live: "reports_live P sane k os rt"
  shows "\<exists>r rt' os' lis' qs' frees'. loop_round P k os rt = Some (r, rt', os') \<and> loop_ok inv rt' lis' qs' frees' \<and>
    set lis' \<subseteq> set lis \<and> (\<forall>x. r = Some x \<longrightarrow> x < 0 \<or> x = 0 \<and> (\<forall>l \<in> ran (rt_listens rt'). li_fd l = - 1))"
proof -
  obtain ans os1 where w: "k_wait k os = (ans, os1)" by (cases "k_wait k os")
  from live w have sane: "sane (rt_source rt) ans" by (simp add: reports_live_def)
  from wait_law [OF loop_okD(3) [OF L] sane, of 1024] obtain cnt evts s where
    p: "po_wait P ans (rt_source rt) 1024 = Some (cnt, evts, s)" "inv s" by blast
  have ev: "cnt \<le> int (length evts)" "\<forall>ev \<in> set (take (nat cnt) evts). event_live rt ev"
    using live w p(1) by (simp_all add: reports_live_def)
  let ?rt = "rt\<lparr>rt_source := s\<rparr>"
  have L0: "loop_ok inv ?rt lis qs frees" by (rule loop_ok_source [OF L p(2)])
  obtain eintr os2 where i: "k_interrupted k os1 = (eintr, os2)" by (cases "k_interrupted k os1")
  show ?thesis
  proof (cases "cnt < 0 \<and> \<not> eintr")
    case True
    then have "loop_round P k os rt = Some (Some cnt, ?rt, os2)"
      using w p(1) i by (simp add: loop_round_def)
    with L0 True show ?thesis
      by (intro exI [of _ "Some cnt"] exI [of _ ?rt] exI [of _ os2] exI [of _ lis] exI [of _ qs] exI [of _ frees]) simp
  next
    case False
    have "\<forall>ev \<in> set (take (nat cnt) evts). event_live ?rt ev"
      using ev(2) by (auto intro: event_live_mono [of rt])
    from handle_events_ok [OF L0 k this, of os2] obtain rt1 os3 qs1 frees1 where
      h: "handle_events P k (take (nat cnt) evts) os2 ?rt = Some (rt1, os3)" "loop_ok inv rt1 lis qs1 frees1" by blast
    from serve_queues_ok [OF h(2) k, of os3] obtain ns rt2 os4 frees2 where
      q: "listen_loop P k (ef_list_entry_after (rt_links rt1) Listen_list) os3 rt1 = Some (rt2, os4)"
        "loop_ok inv rt2 lis (handed ns lis qs1) frees2" by blast
    from exit_queue_ok [OF q(2) k, of os4] obtain fin rt3 os5 frees3 where
      e: "exit_queue P k os4 rt2 = Some (fin, rt3, os5)"
        "loop_ok inv rt3 (if k_stopping k os4 then filter (\<lambda>li. handed ns lis qs1 li \<noteq> []) lis else lis) (handed ns lis qs1) frees3"
        "k_stopping k os4 \<longrightarrow> (\<forall>l \<in> ran (rt_listens rt3). li_fd l = - 1)" "fin \<longrightarrow> k_stopping k os4" by blast
    have "loop_round P k os rt = Some (if fin then Some 0 else None, rt3, os5)"
      using w p(1) i False ev(1) h(1) q(1) e(1) by (auto simp: loop_round_def check_def)
    with e(2-4) show ?thesis
      by (intro exI [of _ "if fin then Some 0 else None"] exI [of _ rt3] exI [of _ os5]
          exI [of _ "if k_stopping k os4 then filter (\<lambda>li. handed ns lis qs1 li \<noteq> []) lis else lis"]
          exI [of _ "handed ns lis qs1"] exI [of _ frees3]) auto
  qed
qed

text \<open>
  Stopping, with all routines at their end and a clock that has not gone back: the pool is empty
  afterwards.
\<close>

lemma stop_empties:
  assumes L: "loop_ok inv rt lis qs frees" and k: "serves inv env k"
    and stop: "k_stopping k os" "cp_free_count (rt_pool rt) = cp_full_count (rt_pool rt)"
    and clock: "\<And>os co c. cp_cos (rt_pool rt) co = Some c \<Longrightarrow>
      fst (cr_last_run_time c) < fst (fst (k_time k os)) \<or>
      fst (cr_last_run_time c) = fst (fst (k_time k os)) \<and> snd (cr_last_run_time c) \<le> snd (fst (k_time k os))"
  shows "\<exists>rt' os'. exit_queue P k os rt = Some (True, rt', os') \<and> cp_full_count (rt_pool rt') = 0 \<and>
    cp_cos (rt_pool rt') = Map.empty \<and> dom (fw_fibers (cp_sched (rt_pool rt'))) = {fw_thread (cp_sched (rt_pool rt'))} \<and>
    rt_data rt' = Map.empty \<and> (\<forall>l \<in> ran (rt_listens rt'). li_fd l = - 1)"
proof -
  let ?t = "fw_thread (cp_sched (rt_pool rt))"
  from stop_listening [OF L k, of os] obtain rt1 os1 rt2 where s:
    "close_loop P k (ef_list_entry_after (rt_links rt) Listen_list) os rt = Some (rt1, os1)"
    "(let (ent, L) = ef_list_remove_after Free_fd_list (rt_links rt1) in free_fds ent (rt1\<lparr>rt_links := L\<rparr>)) = Some rt2"
    "rt_pool rt2 = rt_pool rt" "\<forall>l \<in> ran (rt_listens rt2). li_fd l = - 1" by blast
  from loop_okD(2) [OF L] obtain fulls fs where R: "pool_repr (rt_pool rt) [?t] fulls fs"
    unfolding runtime_ok_def by blast
  obtain now os2 where t: "k_time k os1 = (now, os2)" by (cases "k_time k os1")
  have "\<exists>c. cp_cos (rt_pool rt) co = Some c \<and> idle_enough now (cr_last_run_time c) 0" if "co \<in> set fs" for co
  proof -
    have "co \<in> dom (cp_cos (rt_pool rt))" using that pool_reprD(9,11) [OF R] by auto
    then obtain c where c: "cp_cos (rt_pool rt) co = Some c" by blast
    from clock [OF c, of os1] t have "idle_enough now (cr_last_run_time c) 0"
      by (auto simp: idle_enough_def signed_modulo_int_def)
    with c show ?thesis by blast
  qed
  from shrink_everything [OF R stop(2) this] obtain p where
    p: "ef_coroutine_pool_shrink (rt_pool rt) 0 (- cp_full_count (rt_pool rt)) now = Some (cp_full_count (rt_pool rt), p)"
      "pool_repr p [?t] [] []" by blast
  let ?rt = "rt2\<lparr>rt_pool := p, rt_data := rt_data rt2 |` dom (cp_cos p)\<rparr>"
  have "shrink_pool k 0 (- cp_full_count (rt_pool rt2)) os1 rt2 = Some (?rt, os2)"
    using t p(1) s(3) by (simp add: shrink_pool_def)
  then have "exit_queue P k os rt = Some (True, ?rt, os2)"
    unfolding exit_queue_plain using stop s(1-3) by simp
  moreover have "cp_cos p = Map.empty" using pool_reprD(9) [OF p(2)] by simp
  moreover have "dom (fw_fibers (cp_sched p)) = {fw_thread (cp_sched p)}" using pool_reprD(7) [OF p(2)] by simp
  ultimately show ?thesis using pool_reprD(4) [OF p(2)] s(4)
    by (intro exI [of _ ?rt] exI [of _ os2]) simp
qed

end

end
