(* ===== verification/FrameworkProps.thy ===== *)
theory FrameworkProps
  imports FrameworkLoop
begin

text \<open>
  Setting up a runtime, and the properties of the event loop on the edge-triggered source.
\<close>

section \<open>Setting up\<close>

text \<open>Before \<^verbatim>\<open>ef_init\<close> only the thread exists.\<close>

lemma init_ok:
  assumes "ok s" "280 \<le> page" "dom (fw_fibers (cp_sched (rt_pool rt))) = {fw_thread (cp_sched (rt_pool rt))}"
    "dom (cp_cos (rt_pool rt)) = {}" "rt_data rt = Map.empty" "rt_frames rt = Map.empty" "rt_listens rt = Map.empty"
  shows "loop_ok ok (snd (ef_init (Some s) rt page ss alt act stack_size mn mx millis cnt)) [] (\<lambda>_. []) []"
proof -
  have "ring (ef_list_init Free_fd_list (ef_list_init Listen_list (rt_links rt))) Listen_list []"
    by (rule ring_init_frame) (simp_all add: ring_init)
  moreover note pool_init_repr [OF assms(3,4), of page ss alt act stack_size mn mx]
  moreover have "fw_page (cp_sched (ef_coroutine_pool_init (rt_pool rt) page ss alt act stack_size mn mx)) = page"
    "fw_thread (cp_sched (ef_coroutine_pool_init (rt_pool rt) page ss alt act stack_size mn mx)) = fw_thread (cp_sched (rt_pool rt))"
    by (simp_all add: ef_coroutine_pool_init_def ef_fiber_init_sched_def Let_def)
  ultimately show ?thesis using assms
    unfolding loop_ok_def runtime_ok_def queues_repr_def data_ok_def
    by (auto simp: ef_init_def ring_init ran_def intro!: exI [of _ "[]"])
qed

lemma add_listen_ok:
  assumes L: "loop_ok ok rt lis qs frees" and k: "serves ok env k" and fd: "fd_ok socket"
  shows "\<exists>ret rt' os'. ef_add_listen k os rt socket proc = (ret, rt', os') \<and>
    (ret < 0 \<and> rt' = rt \<and> ((\<exists>os fl. fst (k_setfl k os socket fl) < 0) \<or> (\<exists>os S. fst (k_malloc k os S) = None)) \<or>
     ret = 0 \<and> (\<exists>li. li \<notin> set lis \<and> rt_listens rt' = (rt_listens rt)(li \<mapsto> \<lparr>li_fd = socket, li_proc = proc\<rparr>) \<and>
        loop_ok ok rt' (li # lis) (qs(li := [])) frees))"
proof -
  note D = queues_reprD [OF loop_okD(1) [OF L]]
  obtain flags os1 where g: "k_getfl k os socket = (flags, os1)" by (cases "k_getfl k os socket")
  obtain r os2 where s: "k_setfl k os1 socket (flags OR O_NONBLOCK) = (r, os2)" by (cases "k_setfl k os1 socket (flags OR O_NONBLOCK)")
  obtain a os3 where m: "k_malloc k os2 (dom (rt_listens rt)) = (a, os3)" by (cases "k_malloc k os2 (dom (rt_listens rt))")
  show ?thesis
  proof (cases "r < 0 \<or> a = None")
    case True
    have "fst (k_setfl k os1 socket (flags OR O_NONBLOCK)) = r" "fst (k_malloc k os2 (dom (rt_listens rt))) = a" using s m by simp_all
    with True have "(\<exists>os fl. fst (k_setfl k os socket fl) < 0) \<or> (\<exists>os S. fst (k_malloc k os S) = None)" by blast
    with True show ?thesis using g s m by (auto simp: ef_add_listen_def)
  next
    case False
    then obtain li where li: "a = Some li" by blast
    have new: "li \<notin> set lis" using servesD(2) [OF k, of os2 "dom (rt_listens rt)" li] m li D(4) by simp
    let ?L1 = "ef_list_init (Fd_list li) (rt_links rt)"
    let ?L2 = "ef_list_insert_after Listen_list (Listen_entry li) ?L1"
    let ?rt = "rt\<lparr>rt_listens := (rt_listens rt)(li \<mapsto> \<lparr>li_fd = socket, li_proc = proc\<rparr>), rt_links := ?L2\<rparr>"
    have lis1: "ring ?L1 Listen_list (map Listen_entry lis)" by (rule ring_init_frame [OF D(1)]) auto
    have frame: "ring ?L2 h ys" if "ring ?L1 h ys" "set (h # ys) \<inter> set (Listen_entry li # Listen_list # map Listen_entry lis) = {}" for h ys
      by (rule ring_insert_after_frame [OF lis1 that])
    have "ring ?L2 Listen_list (map Listen_entry (li # lis))"
      using ring_insert_after [OF lis1, of "Listen_entry li"] new by auto
    moreover have "ring ?L2 Free_fd_list (map Fd_entry frees)"
      by (rule frame, rule ring_init_frame [OF D(2)]) auto
    moreover have "ring ?L2 (Fd_list l) (map Fd_entry ((qs(li := [])) l))" if "l \<in> set (li # lis)" for l
    proof (cases "l = li")
      case True
      have "ring ?L2 (Fd_list li) []" by (rule frame [OF ring_init]) auto
      with True show ?thesis by simp
    next
      case False
      have "ring ?L2 (Fd_list l) (map Fd_entry (qs l))"
        by (rule frame, rule ring_init_frame [OF D(3)]) (use False that in auto)
      with False show ?thesis by simp
    qed
    moreover have "\<forall>l \<in> set (li # lis). set ((qs(li := [])) l) \<subseteq> dom (rt_fds rt) \<and> set ((qs(li := [])) l) \<inter> set frees = {} \<and>
        (\<forall>l' \<in> set (li # lis). l' \<noteq> l \<longrightarrow> set ((qs(li := [])) l) \<inter> set ((qs(li := [])) l') = {})"
      using D(6-8) by auto
    ultimately have "queues_repr ?rt (li # lis) (qs(li := [])) frees"
      using D(4,5) unfolding queues_repr_def by (simp del: fun_upd_apply)
    then have "loop_ok ok ?rt (li # lis) (qs(li := [])) frees"
      using L fd new by (auto simp: loop_ok_def runtime_ok_def queue_of_def ran_def)
    moreover have "ef_add_listen k os rt socket proc = (0, ?rt, os3)"
      using g s m False li by (simp add: ef_add_listen_def)
    ultimately show ?thesis using new by auto
  qed
qed

section \<open>Properties\<close>

definition et_ok :: "poll_ptr ef_epollet \<Rightarrow> bool" where
  "et_ok s \<longleftrightarrow> ee_inv s \<and> ee_quiet s"

lemma et_ok_fun: "et_ok = (\<lambda>s. ee_inv s \<and> ee_quiet s)"
  by (simp add: et_ok_def fun_eq_iff)


text \<open>C2. Queued connections are served in order: the loops over the linked lists do exactly what creating
  routines for the queues, socket after socket and first in first out, does; a connection leaves
  its queue only when its routine has been created, and the first failure leaves all the
  later ones queued.\<close>

theorem connections_served_in_order:
  assumes "loop_ok et_ok rt lis qs frees" "serves et_ok accepts k"
  shows "\<exists>ns rt1 rt' os' frees' qs'. hand_over_all epollet_source k (waiting_queues rt qs lis) os rt = Some (ns, rt1, os') \<and>
    listen_loop epollet_source k (ef_list_entry_after (rt_links rt) Listen_list) os rt = Some (rt', os') \<and>
    rt1 = rt'\<lparr>rt_links := rt_links rt1\<rparr> \<and> loop_ok et_ok rt' lis qs' frees' \<and> length ns = length lis \<and>
    (\<forall>i < length lis. queue_of rt' qs' (lis ! i) = drop (ns ! i) (queue_of rt qs (lis ! i)))"
proof -
  from et.serve_queues_ok [of rt lis qs frees k os] assms obtain ns rt1 rt' os' frees' where
    s: "hand_over_all epollet_source k (waiting_queues rt qs lis) os rt = Some (ns, rt1, os')"
      "listen_loop epollet_source k (ef_list_entry_after (rt_links rt) Listen_list) os rt = Some (rt', os')"
      "rt1 = rt'\<lparr>rt_links := rt_links rt1\<rparr>" "length ns = length lis" "rt_fds rt' = rt_fds rt"
      "loop_ok et_ok rt' lis (handed ns lis qs) frees'" unfolding et_ok_fun by blast
  have "distinct lis" by (rule queues_reprD(10) [OF loop_okD(1) [OF assms(1)]])
  then have "queue_of rt' (handed ns lis qs) (lis ! i) = drop (ns ! i) (queue_of rt qs (lis ! i))" if "i < length lis" for i
    using handed_nth that s(4,5) by (simp add: queue_of_def drop_map)
  with s show ?thesis by blast
qed



text \<open>A socket added to a runtime is listened to with an empty queue, and a failure changes nothing.\<close>

theorem add_listen_outcome:
  assumes "loop_ok et_ok rt lis qs frees" "serves et_ok accepts k" "fd_ok socket"
  shows "\<exists>ret rt' os'. ef_add_listen k os rt socket proc = (ret, rt', os') \<and>
    (ret < 0 \<and> rt' = rt \<or>
     ret = 0 \<and> (\<exists>li. li \<notin> set lis \<and> rt_listens rt' = (rt_listens rt)(li \<mapsto> \<lparr>li_fd = socket, li_proc = proc\<rparr>) \<and>
        loop_ok et_ok rt' (li # lis) (qs(li := [])) frees))"
  using add_listen_ok [OF assms, of os proc] by blast

section \<open>A runtime at work\<close>

text \<open>
  Surroundings whose state is a clock: \<^verbatim>\<open>mmap\<close> has one area, \<^verbatim>\<open>malloc\<close> two blocks, every
  descriptor is non-blocking already, two connections are accepted, and a procedure returns at once.
\<close>

definition sample_kernel :: "(mem \<times> int, poll_ptr ef_epollet, int \<times> (int \<times> u32) list, nat) kernel" where
  "sample_kernel = \<lparr>
     k_getfl = (\<lambda>os fd. (O_NONBLOCK, Suc os)), k_setfl = (\<lambda>os fd fl. (0, Suc os)),
     k_accept = (\<lambda>os fd. ([7, 8], Suc os)), k_close = (\<lambda>os fd. (0, Suc os)),
     k_malloc = (\<lambda>os S. (if 500 \<notin> S then Some 500 else if 600 \<notin> S then Some 600 else None, Suc os)),
     k_map = (\<lambda>os p. ((if fw_fibers (cp_sched p) (new_address p (Some 65536) ROUTINE_SIZE) = None then Some 65536 else None, True), Suc os)),
     k_sp = (\<lambda>os. (1, Suc os)), k_time = (\<lambda>os. ((int os, 0), Suc os)), k_env = (\<lambda>os. (([], 0), Suc os)),
     k_wait = (\<lambda>os. ((0, []), Suc os)), k_interrupted = (\<lambda>os. (False, Suc os)), k_stopping = (\<lambda>os. True), k_ef_proc = 4096,
     k_run = (\<lambda>os ro co ev. (None, ro, Suc os))\<rparr>"

lemma sample_serves: "serves et_ok accepts sample_kernel"
proof -
  have "create_ok p (fst (fst (k_map sample_kernel os p))) ROUTINE_SIZE" if "280 \<le> fw_page (cp_sched p)" for os p
    using that by (simp add: sample_kernel_def create_ok_def ROUTINE_SIZE_def)
  then show ?thesis unfolding serves_def
    by (auto simp: sample_kernel_def accepts_def fd_ok_def split: if_splits)
qed

definition blank_runtime :: "poll_ptr ef_epollet ef_runtime" where
  "blank_runtime = \<lparr>rt_source = et_start, rt_shrink_millisecs = 0, rt_count_per_shrink = 0, rt_pool = blank_pool,
     rt_data = Map.empty, rt_frames = Map.empty, rt_listens = Map.empty, rt_fds = Map.empty,
     rt_links = \<lparr>prev_of = (\<lambda>_. Listen_list), next_of = (\<lambda>_. Listen_list)\<rparr>\<rparr>"

definition runtime0 :: "poll_ptr ef_epollet ef_runtime" where
  "runtime0 = snd (ef_init (Some et_start) blank_runtime 4096 8192 0 0 8192 0 4 1000 10)"

lemma et_start_ok: "et_ok et_start"
  using ef_epoll_create_inv(1,2) [OF et_start] by (simp add: et_ok_def)

lemma runtime0_ok: "loop_ok et_ok runtime0 [] (\<lambda>_. []) []"
  unfolding runtime0_def
  by (rule init_ok) (simp_all add: et_start_ok blank_runtime_def blank_pool_def thread0_def)

lemma runtime0_pool: "rt_source runtime0 = et_start" "rt_pool runtime0 = ef_coroutine_pool_init blank_pool 4096 8192 0 0 8192 0 4"
  by (simp_all add: runtime0_def ef_init_def blank_runtime_def)

theorem add_listen_outcome_witness:
  "\<exists>ret rt' os'. ef_add_listen sample_kernel 0 runtime0 5 9 = (ret, rt', os') \<and>
    (ret < 0 \<and> rt' = runtime0 \<or> ret = 0 \<and> (\<exists>li. rt_listens rt' = (rt_listens runtime0)(li \<mapsto> \<lparr>li_fd = 5, li_proc = 9\<rparr>)))"
proof -
  have "fd_ok 5" by (simp add: fd_ok_def)
  from add_listen_outcome [OF runtime0_ok sample_serves this, where os = 0 and proc = 9] show ?thesis by blast
qed

text \<open>A runtime with one socket.\<close>

definition runtime1 :: "poll_ptr ef_epollet ef_runtime" where
  "runtime1 = fst (snd (ef_add_listen sample_kernel 0 runtime0 5 9))"

lemma runtime1_ok: "loop_ok et_ok runtime1 [500] (\<lambda>_. []) []" "queue_of runtime1 (\<lambda>_. []) 500 = []"
proof -
  have fd: "fd_ok 5" by (simp add: fd_ok_def)
  have new: "rt_listens runtime0 = Map.empty" by (simp add: runtime0_def ef_init_def blank_runtime_def)
  have r: "fst (ef_add_listen sample_kernel 0 runtime0 5 9) = 0"
    "rt_listens runtime1 = [500 \<mapsto> \<lparr>li_fd = 5, li_proc = 9\<rparr>]"
    by (simp_all add: runtime1_def ef_add_listen_def sample_kernel_def new)
  note add_listen_ok [OF runtime0_ok sample_serves fd, of 0 9]
  with r new obtain li where li: "[li \<mapsto> \<lparr>li_fd = 5, li_proc = 9\<rparr>] = [500 \<mapsto> \<lparr>li_fd = 5, li_proc = 9\<rparr>]"
      "loop_ok et_ok runtime1 [li] ((\<lambda>_. [])(li := [])) []" by (auto simp: runtime1_def)
  have "li = 500" using arg_cong [OF li(1), of dom] by simp
  moreover have "(\<lambda>_. [])(500 := []) = (\<lambda>_ :: u64. [] :: u64 list)" by auto
  ultimately show "loop_ok et_ok runtime1 [500] (\<lambda>_. []) []" using li(2) by simp
  show "queue_of runtime1 (\<lambda>_. []) 500 = []" by (simp add: queue_of_def)
qed


theorem connections_served_in_order_witness:
  "\<exists>ns rt1 rt' os'. hand_over_all epollet_source sample_kernel (waiting_queues runtime1 (\<lambda>_. []) [500]) 0 runtime1 = Some (ns, rt1, os') \<and>
    listen_loop epollet_source sample_kernel (ef_list_entry_after (rt_links runtime1) Listen_list) 0 runtime1 = Some (rt', os') \<and>
    length ns = 1"
  using connections_served_in_order [OF runtime1_ok(1) sample_serves, where os = 0] by auto



end
