(* ===== verification/EfFastcgi.thy ===== *)
theory EfFastcgi
  imports EfBufferio EfStringtab EfHeadertab
begin

text \<open>
  \<^verbatim>\<open>fastcgi.c\<close> and \<^verbatim>\<open>fastcgi.h\<close>: reading a FastCGI request from a descriptor and writing
  the response.  The structs of the protocol are made of \<^verbatim>\<open>unsigned char\<close> fields only, so their
  memory is the sequence of their fields.  A local pointer the code does not initialise is an
  argument of the function that declares it: \<open>Null\<close>, or \<open>Uninit\<close> for any other value.
\<close>

section \<open>The structs\<close>

definition FCGI_BEGIN_REQUEST :: byte where "FCGI_BEGIN_REQUEST = 1"
definition FCGI_END_REQUEST :: byte where "FCGI_END_REQUEST = 3"
definition FCGI_PARAMS :: byte where "FCGI_PARAMS = 4"
definition FCGI_STDIN :: byte where "FCGI_STDIN = 5"
definition FCGI_STDOUT :: byte where "FCGI_STDOUT = 6"

record fcgi_header =
  fh_version :: byte
  fh_type :: byte
  fh_requestIdB1 :: byte
  fh_requestIdB0 :: byte
  fh_contentLengthB1 :: byte
  fh_contentLengthB0 :: byte
  fh_paddingLength :: byte
  fh_reserved :: byte

record fcgi_begin_request =
  bg_roleB1 :: byte
  bg_roleB0 :: byte
  bg_flags :: byte

text \<open>The structs read from and written to memory.\<close>

definition header_of :: "byte list \<Rightarrow> fcgi_header option" where
  "header_of b =
     (case b of
        [v, t, i1, i0, l1, l0, p, r] \<Rightarrow>
          Some \<lparr>fh_version = v, fh_type = t, fh_requestIdB1 = i1, fh_requestIdB0 = i0,
                fh_contentLengthB1 = l1, fh_contentLengthB0 = l0, fh_paddingLength = p, fh_reserved = r\<rparr>
      | _ \<Rightarrow> None)"

definition header_bytes :: "fcgi_header \<Rightarrow> byte list" where
  "header_bytes h =
     [fh_version h, fh_type h, fh_requestIdB1 h, fh_requestIdB0 h, fh_contentLengthB1 h, fh_contentLengthB0 h,
      fh_paddingLength h, fh_reserved h]"

definition begin_of :: "byte list \<Rightarrow> fcgi_begin_request option" where
  "begin_of b =
     (case b of
        [r1, r0, f, _, _, _, _, _] \<Rightarrow> Some \<lparr>bg_roleB1 = r1, bg_roleB0 = r0, bg_flags = f\<rparr>
      | _ \<Rightarrow> None)"

definition MAKE_UINT16 :: "byte \<Rightarrow> byte \<Rightarrow> u16" where
  "MAKE_UINT16 x y = ucast x OR push_bit 8 (ucast y)"

record fcgi_request =
  rq_request_id :: u16
  rq_role :: u16
  rq_flags :: byte
  rq_params :: "ef_stringtab option"
  rq_data :: "ef_buffer option"

record fcgi_response =
  rs_request :: "fcgi_request option"
  rs_headers :: "ef_headertab option"
  rs_data :: "ef_buffer option"

section \<open>The parameters\<close>

text \<open>
  A length at \<open>ptr\<close>: one byte, or four when the first is 128 or more; and the place behind it.
\<close>

definition read_length :: "byte list \<Rightarrow> nat \<Rightarrow> (u64 \<times> nat) option" where
  "read_length data ptr =
     do { b3 \<leftarrow> cell_get data ptr;
          if (ucast b3 :: u64) \<ge> 128
          then do { b2 \<leftarrow> cell_get data (ptr + 1);
                    b1 \<leftarrow> cell_get data (ptr + 2);
                    b0 \<leftarrow> cell_get data (ptr + 3);
                    Some (push_bit 24 (ucast b3 AND 0x7f) OR push_bit 16 (ucast b2) OR push_bit 8 (ucast b1) OR ucast b0, ptr + 4) }
          else Some (ucast b3, ptr + 1) }"

lemma read_length_moves: "read_length data ptr = Some (n, ptr') \<Longrightarrow> ptr < ptr'"
  by (auto simp: read_length_def bind_Some_iff split: if_splits)

text \<open>
  The loop of \<^verbatim>\<open>fcgi_parse_params\<close> at \<open>ptr\<close>; \<open>data\<close> is the whole block the pointer leads
  to, \<open>len\<close> the length handed over.  A pointer past the end of the block has no value.  \<open>dead\<close>
  collects the strings that were replaced.
\<close>

function parse_loop ::
    "mem \<Rightarrow> ef_stringtab option \<Rightarrow> byte list \<Rightarrow> nat \<Rightarrow> nat \<Rightarrow> ef_string list \<Rightarrow>
     (ef_stringtab option \<times> ef_string list \<times> mem) option" where
  "parse_loop m tbl data len ptr dead =
     (if ptr < len
      then do {
        (name_len, ptr1) \<leftarrow> read_length data ptr;
        (value_len, name) \<leftarrow> read_length data ptr1;
        let value = name + unat name_len;
        let ptr' = value + unat value_len;
        check (ptr' \<le> length data);
        tb \<leftarrow> tbl;
        (_, tb, d, m) \<leftarrow> ef_stringtab_set m tb (drop name data) (unat name_len)
          (if value_len \<noteq> 0 then Some (drop value data) else None) (unat value_len);
        parse_loop m (Some tb) data len ptr' (dead @ d) }
      else Some (tbl, dead, m))"
  by pat_completeness auto
termination
  by (relation "measure (\<lambda>(_, _, _, len, ptr, _). len - ptr)") (auto dest!: read_length_moves)

declare parse_loop.simps [simp del]

definition fcgi_parse_params ::
    "mem \<Rightarrow> ef_stringtab option \<Rightarrow> byte list \<Rightarrow> nat \<Rightarrow> (int \<times> ef_stringtab option \<times> ef_string list \<times> mem) option" where
  "fcgi_parse_params m tbl data len =
     do { (tbl, dead, m) \<leftarrow> parse_loop m tbl data len 0 []; Some (0, tbl, dead, m) }"

section \<open>Reading a request\<close>

definition BUFFER_SIZE :: u64 where "BUFFER_SIZE = 8192"

text \<open>
  \<^verbatim>\<open>ef_bio_read\<close> of \<open>n\<close> bytes behind the contents of a buffer.  The result is stored in a
  \<^verbatim>\<open>size_t\<close>, so an error counts as a large number.
\<close>

definition read_behind ::
    "ef_bio_reader \<Rightarrow> resp list \<Rightarrow> ef_buffer \<Rightarrow> nat \<Rightarrow> (u64 \<times> ef_buffer \<times> ef_bio_reader \<times> resp list) option" where
  "read_behind reader inp buf n =
     do { let len = unat (eb_len buf);
          b \<leftarrow> eb_ptr buf;
          check (len \<le> length b);
          (r, d, reader, inp) \<leftarrow> ef_bio_read reader inp (drop len b) n;
          Some (word_of_int r, buf\<lparr>eb_ptr := Some (take len b @ d)\<rparr>, reader, inp) }"

text \<open>Room for the next record: the buffer is created, or grown.\<close>

definition room_for :: "mem \<Rightarrow> ef_buffer slot \<Rightarrow> u64 \<Rightarrow> (ef_buffer slot \<times> bool \<times> mem) option" where
  "room_for m buffer n =
     (case buffer of
        Uninit \<Rightarrow> None
      | Null \<Rightarrow> (case ef_buffer_new m n of (None, m) \<Rightarrow> Some (Null, True, m) | (Some b, m) \<Rightarrow> Some (Ptr b, False, m))
      | Ptr b \<Rightarrow> do { (r, b, m) \<leftarrow> ef_buffer_expand m b n; Some (Ptr b, r < 0, m) })"

text \<open>
  The loop over the records with the parameters; \<open>hdr\<close> is the memory of \<^verbatim>\<open>fcgi_hdr\<close>.  The
  result says whether the loop was left by \<^verbatim>\<open>break\<close> (\<open>True\<close>) or to \<^verbatim>\<open>exit_request\<close>.  The
  fuel bounds the records and the reads of a padding.
\<close>

fun params_loop ::
    "nat \<Rightarrow> mem \<Rightarrow> ef_bio_reader \<Rightarrow> resp list \<Rightarrow> byte list \<Rightarrow> ef_buffer slot \<Rightarrow>
     (bool \<times> mem \<times> ef_bio_reader \<times> resp list \<times> byte list \<times> ef_buffer slot) option" where
  "params_loop 0 m reader inp hdr buffer = None"
| "params_loop (Suc fuel) m reader inp hdr buffer =
     do { (r, hdr, reader, inp) \<leftarrow> ef_bio_read reader inp hdr 8;
          if (word_of_int r :: u64) < 8 then Some (False, m, reader, inp, hdr, buffer)
          else do {
            h \<leftarrow> header_of hdr;
            if fh_version h \<noteq> 1 \<or> fh_type h \<noteq> FCGI_PARAMS then Some (True, m, reader, inp, hdr, buffer)
            else let n = (ucast (MAKE_UINT16 (fh_contentLengthB0 h) (fh_contentLengthB1 h)) :: u64)
            in if n = 0 then Some (True, m, reader, inp, hdr, buffer)
            else do {
              (buffer, failed, m) \<leftarrow> room_for m buffer n;
              case buffer of
                Ptr b \<Rightarrow>
                  if failed then Some (False, m, reader, inp, hdr, buffer)
                  else do {
                    (reads, b, reader, inp) \<leftarrow> read_behind reader inp b (unat n);
                    let b = b\<lparr>eb_len := eb_len b + reads\<rparr>;
                    if reads < n then Some (False, m, reader, inp, hdr, Null)
                    else do {
                      (_, reader, inp) \<leftarrow>
                        (if fh_paddingLength h \<noteq> 0 then ef_bio_reader_skip fuel reader inp (unat (fh_paddingLength h))
                         else Some (0, reader, inp));
                      params_loop fuel m reader inp hdr (Ptr b) } }
              | _ \<Rightarrow> Some (False, m, reader, inp, hdr, buffer) } } }"

text \<open>
  The loop for the body.  As in the source it goes on while the records are of the type
  \<^verbatim>\<open>FCGI_BEGIN_REQUEST\<close>, and the length of the buffer is set, not increased.
\<close>

fun stdin_loop ::
    "nat \<Rightarrow> mem \<Rightarrow> ef_bio_reader \<Rightarrow> resp list \<Rightarrow> byte list \<Rightarrow> ef_buffer option \<Rightarrow>
     (bool \<times> mem \<times> ef_bio_reader \<times> resp list \<times> ef_buffer option) option" where
  "stdin_loop 0 m reader inp hdr data = None"
| "stdin_loop (Suc fuel) m reader inp hdr data =
     do { (r, hdr, reader, inp) \<leftarrow> ef_bio_read reader inp hdr 8;
          if (word_of_int r :: u64) < 8 then Some (False, m, reader, inp, data)
          else do {
            h \<leftarrow> header_of hdr;
            if fh_version h \<noteq> 1 \<or> fh_type h \<noteq> FCGI_BEGIN_REQUEST then Some (True, m, reader, inp, data)
            else let n = (ucast (MAKE_UINT16 (fh_contentLengthB0 h) (fh_contentLengthB1 h)) :: u64)
            in if n = 0 then Some (True, m, reader, inp, data)
            else do {
              (data, failed, m) \<leftarrow>
                (case data of
                   None \<Rightarrow> (case ef_buffer_new m n of (b, m) \<Rightarrow> Some (b, b = None, m))
                 | Some b \<Rightarrow> do { (r, b, m) \<leftarrow> ef_buffer_expand m b n; Some (Some b, r < 0, m) });
              if failed then Some (False, m, reader, inp, data)
              else do {
                b \<leftarrow> data;
                (reads, b, reader, inp) \<leftarrow> read_behind reader inp b (unat n);
                let b = b\<lparr>eb_len := reads\<rparr>;
                if reads < n then Some (False, m, reader, inp, Some b)
                else do {
                  (_, reader, inp) \<leftarrow>
                    (if fh_paddingLength h \<noteq> 0 then ef_bio_reader_skip fuel reader inp (unat (fh_paddingLength h))
                     else Some (0, reader, inp));
                  stdin_loop fuel m reader inp hdr (Some b) } } } } }"

text \<open>The strings that are destroyed with a request.\<close>

definition fcgi_free_request :: "fcgi_request \<Rightarrow> ef_string list option" where
  "fcgi_free_request request =
     (case rq_params request of Some tb \<Rightarrow> ef_stringtab_free tb | None \<Rightarrow> Some [])"

text \<open>
  \<open>hdr0\<close> and \<open>bg0\<close> are the memory of the local structs, \<open>buffer0\<close> and \<open>request0\<close> the values of
  the two pointers that are not initialised.  The result is the value returned and the rest of
  the input.
\<close>

definition fcgi_read_request ::
    "nat \<Rightarrow> mem \<Rightarrow> int \<Rightarrow> resp list \<Rightarrow> byte list \<Rightarrow> byte list \<Rightarrow> ef_buffer slot \<Rightarrow> fcgi_request slot \<Rightarrow>
     (fcgi_request slot \<times> resp list \<times> mem) option" where
  "fcgi_read_request fuel m sockfd inp hdr0 bg0 buffer0 request0 =
     (case ef_bio_reader_new m sockfd BUFFER_SIZE of
        (None, m) \<Rightarrow> Some (Null, inp, m)
      | (Some reader, m) \<Rightarrow>
          do { (r, hdr, reader, inp) \<leftarrow> ef_bio_read reader inp hdr0 8;
               if (word_of_int r :: u64) < 8 then Some (request0, inp, m)
               else do {
                 h \<leftarrow> header_of hdr;
                 if fh_version h \<noteq> 1 \<or> fh_type h \<noteq> FCGI_BEGIN_REQUEST then Some (request0, inp, m)
                 else if MAKE_UINT16 (fh_contentLengthB0 h) (fh_contentLengthB1 h) \<noteq> 8 then Some (request0, inp, m)
                 else do {
                   (r, bg, reader, inp) \<leftarrow> ef_bio_read reader inp bg0 8;
                   if (word_of_int r :: u64) < 8 then Some (request0, inp, m)
                   else do {
                     b \<leftarrow> begin_of bg;
                     let (ok, m) = malloc_obj m;
                     if \<not> ok then Some (Null, inp, m)
                     else do {
                       let (params, m) = ef_stringtab_new m 0;
                       let request = \<lparr>rq_request_id = MAKE_UINT16 (fh_requestIdB0 h) (fh_requestIdB1 h),
                         rq_role = MAKE_UINT16 (bg_roleB0 b) (bg_roleB1 b), rq_flags = bg_flags b,
                         rq_params = params, rq_data = None\<rparr>;
                       (more, m, reader, inp, hdr, buffer) \<leftarrow> params_loop fuel m reader inp hdr buffer0;
                       if \<not> more then do { _ \<leftarrow> fcgi_free_request request; Some (Null, inp, m) }
                       else do {
                         (params, m) \<leftarrow>
                           (case buffer of
                              Uninit \<Rightarrow> None
                            | Null \<Rightarrow> Some (params, m)
                            | Ptr buf \<Rightarrow>
                                do { (_, params, _, m) \<leftarrow> fcgi_parse_params m params (eb_block buf) (unat (eb_len buf));
                                     Some (params, m) });
                         let request = request\<lparr>rq_params := params\<rparr>;
                         (done, m, reader, inp, data) \<leftarrow> stdin_loop fuel m reader inp hdr None;
                         let request = request\<lparr>rq_data := data\<rparr>;
                         if \<not> done then do { _ \<leftarrow> fcgi_free_request request; Some (Null, inp, m) }
                         else Some (Ptr request, inp, m) } } } } } })"

section \<open>The response\<close>

definition fcgi_new_response :: "mem \<Rightarrow> fcgi_request option \<Rightarrow> fcgi_response option \<times> mem" where
  "fcgi_new_response m request =
     (let (ok, m) = malloc_obj m
      in if \<not> ok then (None, m)
         else let (data, m) = ef_buffer_new m 0
              in if data = None then (None, m)
                 else let (headers, m) = ef_headertab_new m 0
                      in if headers = None then (None, m)
                         else (Some \<lparr>rs_request = request, rs_headers = headers, rs_data = data\<rparr>, m))"

definition fcgi_free_response :: "fcgi_response \<Rightarrow> bool \<Rightarrow> ef_string list option" where
  "fcgi_free_response response free_request =
     do { d1 \<leftarrow> (case rs_headers response of Some tb \<Rightarrow> ef_headertab_free tb | None \<Rightarrow> Some []);
          d2 \<leftarrow> (case rs_request response of
                    Some rq \<Rightarrow> if free_request then fcgi_free_request rq else Some []
                  | None \<Rightarrow> Some []);
          Some (d1 @ d2) }"

text \<open>The four appends for one value, whose results the code drops.\<close>

definition header_line :: "mem \<Rightarrow> ef_buffer \<Rightarrow> ef_string \<Rightarrow> ef_string \<Rightarrow> (ef_buffer \<times> mem) option" where
  "header_line m buf key str =
     do { k \<leftarrow> read_ptr (es_str key) 0 (es_len key);
          (_, buf, m) \<leftarrow> ef_buffer_append m buf k;
          (_, buf, m) \<leftarrow> ef_buffer_append m buf [58, 32];
          s \<leftarrow> read_ptr (es_str str) 0 (es_len str);
          (_, buf, m) \<leftarrow> ef_buffer_append m buf s;
          (_, buf, m) \<leftarrow> ef_buffer_append m buf [13, 10];
          Some (buf, m) }"

text \<open>The values of one name: the elements \<^verbatim>\<open>vec->ptr[i]\<close>.\<close>

fun header_values :: "mem \<Rightarrow> ef_buffer \<Rightarrow> ef_string \<Rightarrow> ef_string slot list \<Rightarrow> (ef_buffer \<times> mem) option" where
  "header_values m buf key [] = Some (buf, m)"
| "header_values m buf key (x # xs) =
     (case x of
        Ptr str \<Rightarrow> do { (buf, m) \<leftarrow> header_line m buf key str; header_values m buf key xs }
      | _ \<Rightarrow> None)"

fun header_lines :: "mem \<Rightarrow> ef_buffer \<Rightarrow> ef_string ef_vector ef_bucket list \<Rightarrow> (ef_buffer \<times> mem) option" where
  "header_lines m buf [] = Some (buf, m)"
| "header_lines m buf (pb # bks) =
     (case bk_key pb of
        None \<Rightarrow> header_lines m buf bks
      | Some key \<Rightarrow>
          (case bk_val pb of
             None \<Rightarrow> header_lines m buf bks
           | Some vec \<Rightarrow>
               do { xs \<leftarrow> (if ev_len vec = 0 then Some []
                            else do { b \<leftarrow> ev_ptr vec;
                                      check (unat (ev_len vec) \<le> length b);
                                      Some (take (unat (ev_len vec)) b) });
                    (buf, m) \<leftarrow> header_values m buf key xs;
                    header_lines m buf bks }))"

text \<open>
  The loop from the label \<^verbatim>\<open>next_buf\<close>: a packet of \<open>pksz\<close> bytes is taken from the buffers
  \<^verbatim>\<open>*pbuf, pbuf[1], \<dots>\<close>, the first from \<open>offset\<close> on.  \<open>False\<close> is the \<^verbatim>\<open>break\<close>.
\<close>

function fill_packet ::
    "mem \<Rightarrow> ef_bio_writer \<Rightarrow> wresp list \<Rightarrow> u64 \<Rightarrow> u64 \<Rightarrow> ef_buffer option list \<Rightarrow>
     (bool \<times> u64 \<times> ef_buffer option list \<times> ef_bio_writer \<times> byte list \<times> wresp list \<times> mem) option" where
  "fill_packet m writer scr pksz offset pbuf =
     (case pbuf of
        [] \<Rightarrow> None
      | None # _ \<Rightarrow> Some (False, offset, pbuf, writer, [], scr, m)
      | Some buffer # pbuf' \<Rightarrow>
          do { let wtsz = (if eb_len buffer - offset > pksz then pksz else eb_len buffer - offset);
               d \<leftarrow> read_ptr (eb_ptr buffer) (unat offset) (unat wtsz);
               (_, writer, out, scr, m) \<leftarrow> ef_bio_write m writer scr d;
               let (offset', pbuf') = (if offset + wtsz = eb_len buffer then (0, pbuf') else (offset + wtsz, pbuf));
               if pksz - wtsz \<noteq> 0
               then do { (more, offset', pbuf', writer, out', scr, m) \<leftarrow> fill_packet m writer scr (pksz - wtsz) offset' pbuf';
                         Some (more, offset', pbuf', writer, out @ out', scr, m) }
               else Some (True, offset', pbuf', writer, out, scr, m) })"
  by pat_completeness auto
termination
  by (relation "measure (\<lambda>(_, _, _, _, _, pbuf). length pbuf)") (auto split: if_splits)

declare fill_packet.simps [simp del]

definition stdout_header :: "u16 \<Rightarrow> u64 \<Rightarrow> fcgi_header" where
  "stdout_header rid pksz =
     \<lparr>fh_version = 1, fh_type = FCGI_STDOUT, fh_requestIdB1 = ucast (drop_bit 8 rid), fh_requestIdB0 = ucast (rid AND 0xff),
      fh_contentLengthB1 = ucast (drop_bit 8 pksz), fh_contentLengthB0 = ucast (pksz AND 0xff),
      fh_paddingLength = ucast ((8 - pksz mod 8) AND 7), fh_reserved = 0\<rparr>"

text \<open>The loop over the packets.\<close>

function packets_loop ::
    "mem \<Rightarrow> ef_bio_writer \<Rightarrow> wresp list \<Rightarrow> u16 \<Rightarrow> u64 \<Rightarrow> u64 \<Rightarrow> ef_buffer option list \<Rightarrow>
     (ef_bio_writer \<times> byte list \<times> wresp list \<times> mem) option" where
  "packets_loop m writer scr rid n offset pbuf =
     (if n = 0 then Some (writer, [], scr, m)
      else do {
        let pksz = (if n \<le> 65535 then n else 65535);
        let h = stdout_header rid pksz;
        (_, writer, out1, scr, m) \<leftarrow> ef_bio_write m writer scr (header_bytes h);
        (more, offset, pbuf, writer, out2, scr, m) \<leftarrow> fill_packet m writer scr pksz offset pbuf;
        if \<not> more then Some (writer, out1 @ out2, scr, m)
        else do {
          (_, writer, out3, scr, m) \<leftarrow>
            (if fh_paddingLength h \<noteq> 0 then ef_bio_write m writer scr (replicate (unat (fh_paddingLength h)) 0)
             else Some (0, writer, [], scr, m));
          (writer, out, scr, m) \<leftarrow> packets_loop m writer scr rid (n - pksz) offset pbuf;
          Some (writer, out1 @ out2 @ out3 @ out, scr, m) } })"
  by pat_completeness auto
termination
  by (relation "measure (\<lambda>(_, _, _, _, n, _, _). unat n)")
    (auto simp: unat_sub_if' word_le_nat_alt unat_gt_0 split: if_splits)

declare packets_loop.simps [simp del]

text \<open>
  The result: the value returned, the bytes sent, the strings destroyed.  Without a table of
  headers the number of bytes to send is not initialised.
\<close>

definition fcgi_write_response ::
    "mem \<Rightarrow> wresp list \<Rightarrow> int \<Rightarrow> fcgi_response \<Rightarrow> bool \<Rightarrow> (int \<times> byte list \<times> ef_string list \<times> wresp list \<times> mem) option" where
  "fcgi_write_response m scr sockfd response free =
     (case ef_buffer_new m BUFFER_SIZE of
        (None, m) \<Rightarrow> Some (- 1, [], [], scr, m)
      | (Some buf0, m) \<Rightarrow>
          do { tb \<leftarrow> rs_headers response;
               check (unat (ht_cap tb) \<le> length (ht_data tb));
               (buf0, m) \<leftarrow> header_lines m buf0 (take (unat (ht_cap tb)) (ht_data tb));
               (_, buf0, m) \<leftarrow> ef_buffer_append m buf0 [13, 10];
               let n = eb_len buf0 + (case rs_data response of Some b \<Rightarrow> eb_len b | None \<Rightarrow> 0);
               case ef_bio_writer_new m sockfd BUFFER_SIZE of
                 (None, m) \<Rightarrow> Some (- 1, [], [], scr, m)
               | (Some writer, m) \<Rightarrow>
                   do { rq \<leftarrow> rs_request response;
                        let rid = rq_request_id rq;
                        (writer, out1, scr, m) \<leftarrow> packets_loop m writer scr rid n 0 [Some buf0, rs_data response, None];
                        let h = (stdout_header rid 8)\<lparr>fh_type := FCGI_END_REQUEST, fh_contentLengthB1 := 0,
                                                      fh_contentLengthB0 := 8, fh_paddingLength := 0\<rparr>;
                        (_, writer, out2, scr, m) \<leftarrow> ef_bio_write m writer scr (header_bytes h);
                        (_, writer, out3, scr, m) \<leftarrow> ef_bio_write m writer scr (replicate 8 0);
                        (_, writer, out4, scr) \<leftarrow> ef_bio_writer_flush writer scr;
                        dead \<leftarrow> (if free then fcgi_free_response response True else Some []);
                        Some (0, out1 @ out2 @ out3 @ out4, dead, scr, m) } })"

end
