(* ===== verification/FastcgiParams.thy ===== *)
theory FastcgiParams
  imports EfFastcgi HashtableDict
begin

text \<open>
  The parameters of a request: \<^verbatim>\<open>fcgi_parse_params\<close> decodes what the protocol encodes, name
  by name, and where the lengths lead outside the data it does not stay inside.
\<close>

section \<open>Insertions when memory is granted\<close>

lemma ef_string_new_granted: "ef_string_new [] sz n = Some (s, m') \<Longrightarrow> m' = [] \<and> s \<noteq> None"
  by (auto simp: ef_string_new_def bind_Some_iff)

lemma rehash_used: "rehash old j ht = Some ht' \<Longrightarrow> ht_used ht' = ht_used ht"
  by (induction old j ht rule: rehash.induct) (auto simp: bind_Some_iff split: if_splits)

lemma resize_granted:
  "ef_hashtable_resize [] ht cap = Some (r, ht', m') \<Longrightarrow> m' = [] \<and> ht_used ht' = ht_used ht"
  by (auto simp: ef_hashtable_resize_def alloc_hash_data_def Let_def bind_Some_iff dest: rehash_used split: if_splits)

lemma alloc_bucket_memory:
  "alloc_bucket n [] ht = Some (r, ht', m') \<Longrightarrow> m' = [] \<and> ht_used ht' = ht_used ht"
proof (induction n arbitrary: ht)
  case (Suc n)
  show ?case
  proof (cases "ht_next ht < ht_cap ht \<or> ht_removed ht \<noteq> - 1")
    case True
    then show ?thesis using Suc.prems by (auto simp: bind_Some_iff split: if_splits)
  next
    case False
    with Suc.prems obtain q ht1 m1 where r: "ef_hashtable_resize [] ht (push_bit 1 (ht_cap ht)) = Some (q, ht1, m1)"
      "(if q = 0 then alloc_bucket n m1 ht1 else Some (None, ht1, m1)) = Some (r, ht', m')"
      by (auto simp: bind_Some_iff)
    then show ?thesis using resize_granted [OF r(1)] Suc.IH [of ht1] by (auto split: if_splits)
  qed
qed simp

lemma alloc_bucket_room:
  assumes R: "ht_repr {} ht ch rs" and room: "unat (ht_used ht) < 2 ^ 31"
  shows "alloc_bucket 2 [] ht \<noteq> Some (None, ht', m')"
proof
  assume n: "alloc_bucket 2 [] ht = Some (None, ht', m')"
  have full: "\<not> ht_next ht < ht_cap ht" "ht_removed ht = - 1"
    using n by (auto simp: numeral_2_eq_2 bind_Some_iff split: if_splits)
  with all_live_used [OF R] have used: "ht_used ht = ht_cap ht" by simp
  show False
    by (rule alloc_bucket_cases [OF R, of "[]"]) (use n used room in auto)
qed

lemma set_granted:
  assumes inv: "ht_inv ht" and key: "key_ok key n" and room: "unat (ht_used ht) < 2 ^ 31"
  obtains i ht' where "ef_hashtable_set_key_value [] ht key n val = Some (Some i, ht', dead_val ht (take n key), [])"
    "ht_inv ht'" "ht_map ht' = (ht_map ht)(take n key \<mapsto> val)" "ht_dtor ht' = ht_dtor ht"
    "unat (ht_used ht') \<le> Suc (unat (ht_used ht))"
proof -
  obtain ch rs where R: "ht_repr {} ht ch rs" using inv by (auto simp: ht_inv_def)
  have grow: "unat (ht_used ht + 1) \<le> Suc (unat (ht_used ht))" by (simp add: unat_word_ariths)
  have side: "m' = [] \<and> r \<noteq> None \<and> unat (ht_used ht') \<le> Suc (unat (ht_used ht))"
    if s: "ef_hashtable_set_key_value [] ht key n val = Some (r, ht', d, m')" for r ht' d m'
  proof -
    from s obtain found where f: "ef_hashtable_find_key ht key n = Some found"
      by (auto simp: ef_hashtable_set_key_value_def bind_Some_iff)
    show ?thesis
    proof (cases found)
      case None
      with s f obtain slot ht1 m1 where a: "alloc_bucket 2 [] ht = Some (slot, ht1, m1)"
        by (auto simp: ef_hashtable_set_key_value_def bind_Some_iff)
      with alloc_bucket_room [OF R room] obtain i where i: "slot = Some i" by (cases slot) auto
      have m1: "m1 = []" "ht_used ht1 = ht_used ht" using alloc_bucket_memory [OF a] by auto
      from s f None a i m1 obtain k m2 where k: "ef_string_new [] (Some key) n = Some (k, m2)"
        by (auto simp: ef_hashtable_set_key_value_def bind_Some_iff Let_def)
      with ef_string_new_granted [OF k] obtain str where "k = Some str" "m2 = []" by auto
      with s f None a i m1 k show ?thesis
        using grow by (auto simp: ef_hashtable_set_key_value_def bind_Some_iff Let_def)
    qed (use s f in \<open>auto simp: ef_hashtable_set_key_value_def bind_Some_iff\<close>)
  qed
  show thesis
    by (rule set_cases [OF inv key, of "[]" val]) (use side that in \<open>(blast | fastforce)+\<close>)
qed

lemma stringtab_set_granted:
  assumes inv: "st_inv tb" and key: "key_ok key klen" and room: "unat (ht_used tb) < 2 ^ 31"
    and v: "case val of None \<Rightarrow> True | Some s \<Rightarrow> 0 < vlen \<and> vlen \<le> length s"
  obtains r tb' d where "ef_stringtab_set [] tb key klen val vlen = Some (r, tb', d, [])" "st_inv tb'"
    "st_map tb' = (st_map tb)(take klen key := map_option (take vlen) val)"
    "unat (ht_used tb') \<le> Suc (unat (ht_used tb))"
proof (cases val)
  case None
  from inv have hi: "ht_inv tb" by (simp add: st_inv_def)
  show thesis
  proof (rule set_granted [OF hi key room, of None])
    fix i tb' assume s: "ef_hashtable_set_key_value [] tb key klen None = Some (Some i, tb', dead_val tb (take klen key), [])"
      "ht_inv tb'" "ht_map tb' = (ht_map tb)(take klen key \<mapsto> None)" "ht_dtor tb' = ht_dtor tb"
      "unat (ht_used tb') \<le> Suc (unat (ht_used tb))"
    show thesis
    proof (rule that)
      show "ef_stringtab_set [] tb key klen val vlen = Some (None, tb', dead_val tb (take klen key), [])"
        using s(1) set_result [OF hi key s(1)] None by (simp add: ef_stringtab_set_def)
    qed (use s inv None in \<open>auto simp: st_inv_def st_map_def fun_eq_iff\<close>)
  qed
next
  case (Some s)
  with v have a: "arg_ok (Some s) vlen" "arg_bytes (Some s) vlen = take vlen s" by (auto simp: arg_ok_def arg_bytes_pos)
  from inv have hi: "ht_inv tb" by (simp add: st_inv_def)
  obtain str where str: "ef_string_new [] (Some s) vlen = Some (Some str, [])" "es_inv str" "es_bytes str = take vlen s"
    by (rule ef_string_new_cases [OF a(1), of "[]"]) (use a(2) ef_string_new_granted in auto)
  show thesis
  proof (rule set_granted [OF hi key room, of "Some str"])
    fix i tb' assume o: "ef_hashtable_set_key_value [] tb key klen (Some str) = Some (Some i, tb', dead_val tb (take klen key), [])"
      "ht_inv tb'" "ht_map tb' = (ht_map tb)(take klen key \<mapsto> Some str)" "ht_dtor tb' = ht_dtor tb"
      "unat (ht_used tb') \<le> Suc (unat (ht_used tb))"
    show thesis
    proof (rule that)
      show "ef_stringtab_set [] tb key klen val vlen = Some (Some str, tb', dead_val tb (take klen key), [])"
        using str(1) o(1) set_result [OF hi key o(1)] Some by (simp add: ef_stringtab_set_def)
    qed (use o str inv Some in \<open>auto simp: st_inv_def st_map_def fun_eq_iff\<close>)
  qed
qed

section \<open>The encoding\<close>

text \<open>The name-value pairs of the protocol: both lengths, then both strings.\<close>

definition enc_length :: "nat \<Rightarrow> byte list" where
  "enc_length n =
     (if n < 128 then [of_nat n]
      else let w = of_nat n :: u32
           in [ucast (drop_bit 24 w) OR 0x80, ucast (drop_bit 16 w), ucast (drop_bit 8 w), ucast w])"

definition enc_param :: "byte list \<times> byte list \<Rightarrow> byte list" where
  "enc_param p = enc_length (length (fst p)) @ enc_length (length (snd p)) @ fst p @ snd p"

definition enc_params :: "(byte list \<times> byte list) list \<Rightarrow> byte list" where
  "enc_params ps = concat (map enc_param ps)"

definition param_ok :: "byte list \<times> byte list \<Rightarrow> bool" where
  "param_ok p \<longleftrightarrow> fst p \<noteq> [] \<and> length (fst p) < 2 ^ 31 \<and> length (snd p) < 2 ^ 31"

text \<open>The map the pairs stand for, the later value of a name winning; an empty value is none.\<close>

definition params_map :: "(byte list \<times> byte list) list \<Rightarrow> (byte list \<rightharpoonup> byte list) \<Rightarrow> byte list \<rightharpoonup> byte list" where
  "params_map ps M = foldl (\<lambda>M (n, v). M(n := if v = [] then None else Some v)) M ps"

lemma cell_get_append: "cell_get (pre @ xs) (length pre + i) = cell_get xs i"
  by (simp add: cell_get_def nth_append)

lemma cell_get_pre: "i = length pre + j \<Longrightarrow> cell_get (pre @ xs) i = cell_get xs j"
  by (simp add: cell_get_append)

lemma four_bytes:
  fixes w :: u32
  assumes "unat w < 2 ^ 31"
  shows "push_bit 24 (ucast (ucast (drop_bit 24 w) OR 0x80 :: byte) AND 0x7f) OR push_bit 16 (ucast (ucast (drop_bit 16 w) :: byte)) OR
      push_bit 8 (ucast (ucast (drop_bit 8 w) :: byte)) OR ucast (ucast w :: byte) = (ucast w :: u64)"
proof -
  have "take_bit 31 w = w" using assms by (intro word_unat_eq_iff [THEN iffD2]) (simp add: unsigned_take_bit_eq take_bit_nat_eq_self)
  then have top: "\<not> bit w 31" by (metis bit_take_bit_iff less_irrefl_nat)
  have b80: "bit (0x80 :: byte) j \<longleftrightarrow> j = 7" if "j < 8" for j
  proof -
    from that have "j \<in> {0, 1, 2, 3, 4, 5, 6, 7}" by auto
    then show ?thesis by auto
  qed
  have b7f: "bit (0x7f000000 :: u64) (j + 24) \<longleftrightarrow> j < 7" if "j < 8" for j
  proof -
    from that have "j \<in> {0, 1, 2, 3, 4, 5, 6, 7}" by auto
    then show ?thesis by auto
  qed
  let ?r = "push_bit 24 (ucast (ucast (drop_bit 24 w) OR 0x80 :: byte) AND 0x7f) OR push_bit 16 (ucast (ucast (drop_bit 16 w) :: byte)) OR
      push_bit 8 (ucast (ucast (drop_bit 8 w) :: byte)) OR ucast (ucast w :: byte) :: u64"
  have low: "bit ?r i = bit (ucast w :: u64) i" if "i < 24" for i
    using that by (cases "i < 8"; cases "i < 16") (auto simp: bit_simps)
  have high: "bit ?r (24 + j) = bit (ucast w :: u64) (24 + j)" if "j < 8" for j
    using that b80 [OF that] b7f [OF that] top by (cases "j = 7") (simp_all add: bit_simps add.commute)
  show ?thesis
  proof (rule bit_word_eqI)
    fix i :: nat
    consider "i < 24" | j where "j < 8" "i = 24 + j" | "32 \<le> i" using that(2) [of "i - 24"] by linarith
    then show "bit ?r i = bit (ucast w :: u64) i"
    proof cases
      case 3
      then show ?thesis by (auto simp: bit_simps dest: bit_imp_le_length)
    qed (use low high in blast)+
  qed
qed

lemma read_length_enc:
  assumes "n < 2 ^ 31"
  shows "read_length (pre @ enc_length n @ rest) (length pre) = Some (of_nat n, length pre + length (enc_length n))"
proof (cases "n < 128")
  case True
  then have b: "enc_length n = [of_nat n]" "unat (of_nat n :: byte) = n" by (simp_all add: enc_length_def unat_of_nat)
  then have "(ucast (of_nat n :: byte) :: u64) = of_nat n" by (metis of_nat_unat)
  moreover have "\<not> (128 :: u64) \<le> of_nat n" using True by (simp add: word_le_nat_alt unat_of_nat)
  ultimately show ?thesis using b by (simp add: read_length_def)
next
  case False
  define w where "w = (of_nat n :: u32)"
  have w: "unat w = n" using assms by (simp add: w_def unat_of_nat)
  have enc: "enc_length n = [ucast (drop_bit 24 w) OR 0x80, ucast (drop_bit 16 w), ucast (drop_bit 8 w), ucast w]"
    using False by (simp add: enc_length_def w_def Let_def)
  have big: "128 \<le> (ucast (ucast (drop_bit 24 w) OR 0x80 :: byte) :: u64)"
  proof -
    have "uint (0x80 :: byte) \<le> uint (ucast (drop_bit 24 w) OR 0x80 :: byte)"
      unfolding uint_or by (subst or.commute) (rule or_greater_eq, simp)
    then show ?thesis by (simp add: word_le_def uint_up_ucast is_up)
  qed
  have "(ucast w :: u64) = of_nat n" using w by (metis of_nat_unat)
  then show ?thesis using big four_bytes [of w] w assms
    by (simp add: read_length_def enc nth_append)
qed

lemma enc_length_pos: "0 < length (enc_length n)"
  by (simp add: enc_length_def Let_def)

text \<open>One pair: it is read as it was encoded and the table gets its value.\<close>

lemma parse_loop_param:
  assumes p: "param_ok p" and inv: "st_inv tb" and room: "unat (ht_used tb) < 2 ^ 31"
    and len: "length pre + length (enc_param p) \<le> len"
  obtains tb' d where
    "parse_loop [] (Some tb) (pre @ enc_param p @ rest) len (length pre) dead =
     parse_loop [] (Some tb') (pre @ enc_param p @ rest) len (length (pre @ enc_param p)) (dead @ d)"
    "st_inv tb'" "st_map tb' = params_map [p] (st_map tb)" "unat (ht_used tb') \<le> Suc (unat (ht_used tb))"
proof -
  obtain n v where nv: "p = (n, v)" by (cases p)
  let ?data = "pre @ enc_param p @ rest" and ?l1 = "enc_length (length n)" and ?l2 = "enc_length (length v)"
  have small: "length n < 2 ^ 31" "length v < 2 ^ 31" "n \<noteq> []" using p nv by (simp_all add: param_ok_def)
  have u: "unat (of_nat (length n) :: u64) = length n" "unat (of_nat (length v) :: u64) = length v"
    using small by (simp_all add: unat_of_nat)
  have data: "?data = pre @ ?l1 @ ?l2 @ n @ v @ rest" by (simp add: nv enc_param_def)
  have r1: "read_length ?data (length pre) = Some (of_nat (length n), length (pre @ ?l1))"
    using read_length_enc [OF small(1), of pre "?l2 @ n @ v @ rest"] by (simp add: data)
  have r2: "read_length ?data (length (pre @ ?l1)) = Some (of_nat (length v), length (pre @ ?l1 @ ?l2))"
    using read_length_enc [OF small(2), of "pre @ ?l1" "n @ v @ rest"] by (simp add: data add.assoc)
  have names: "drop (length (pre @ ?l1 @ ?l2)) ?data = n @ v @ rest"
    "drop (length (pre @ ?l1 @ ?l2) + length n) ?data = v @ rest" by (simp_all add: data)
  have key: "key_ok (n @ v @ rest) (length n)" using small(3) by (simp add: key_ok_def)
  have z: "of_nat (length v) \<noteq> (0 :: u64) \<longleftrightarrow> v \<noteq> []"
  proof
    assume "v \<noteq> []"
    then have "unat (of_nat (length v) :: u64) \<noteq> unat (0 :: u64)" unfolding u(2) by simp
    then show "of_nat (length v) \<noteq> (0 :: u64)" by (rule contrapos_nn) simp
  qed auto
  let ?val = "if v \<noteq> [] then Some (v @ rest) else None"
  have val: "case ?val of None \<Rightarrow> True | Some s \<Rightarrow> 0 < length v \<and> length v \<le> length s" by simp
  obtain r tb' d where s: "ef_stringtab_set [] tb (n @ v @ rest) (length n) ?val (length v) = Some (r, tb', d, [])"
    "st_inv tb'" "st_map tb' = (st_map tb)(take (length n) (n @ v @ rest) := map_option (take (length v)) ?val)"
    "unat (ht_used tb') \<le> Suc (unat (ht_used tb))"
    by (rule stringtab_set_granted [OF inv key room val])
  show thesis
  proof (rule that [of tb' d])
    have fits: "length (pre @ ?l1 @ ?l2) + length n + length v \<le> length ?data" by (simp add: data)
    have lt: "length pre < len" using len enc_length_pos [of "length n"] unfolding nv enc_param_def fst_conv snd_conv length_append by linarith
    have stop: "length (pre @ ?l1 @ ?l2) + length n + length v = length (pre @ enc_param p)" by (simp add: nv enc_param_def)
    show "parse_loop [] (Some tb) ?data len (length pre) dead =
        parse_loop [] (Some tb') ?data len (length (pre @ enc_param p)) (dead @ d)"
      unfolding parse_loop.simps [of "[]" "Some tb" ?data len "length pre" dead]
      using lt fits s(1) by (simp only: r1 r2 names u z stop if_True bind.bind_lunit prod.case Let_def) (simp add: stop [symmetric])
    show "st_map tb' = params_map [p] (st_map tb)" using s(3) by (simp add: params_map_def nv)
  qed (rule s(2,4))+
qed

lemma params_map_Nil [simp]: "params_map [] M = M"
  by (simp add: params_map_def)

lemma params_map_Cons: "params_map (p # ps) M = params_map ps (params_map [p] M)"
  by (simp add: params_map_def)

lemma enc_params_simps [simp]: "enc_params [] = []" "enc_params (p # ps) = enc_param p @ enc_params ps"
  by (simp_all add: enc_params_def)

lemma parse_loop_params:
  assumes "\<forall>p \<in> set ps. param_ok p" "st_inv tb" "unat (ht_used tb) + length ps < 2 ^ 31"
    and "length (pre @ enc_params ps) \<le> len"
  shows "\<exists>tb' dead'. parse_loop [] (Some tb) (pre @ enc_params ps @ rest) len (length pre) dead =
      parse_loop [] (Some tb') (pre @ enc_params ps @ rest) len (length (pre @ enc_params ps)) dead' \<and>
    st_inv tb' \<and> st_map tb' = params_map ps (st_map tb)"
  using assms
proof (induction ps arbitrary: pre tb dead)
  case (Cons p ps)
  have p: "param_ok p" "unat (ht_used tb) < 2 ^ 31" "length pre + length (enc_param p) \<le> len" using Cons.prems by simp_all
  obtain tb1 d where s: "parse_loop [] (Some tb) (pre @ enc_param p @ enc_params ps @ rest) len (length pre) dead =
      parse_loop [] (Some tb1) (pre @ enc_param p @ enc_params ps @ rest) len (length (pre @ enc_param p)) (dead @ d)"
    "st_inv tb1" "st_map tb1 = params_map [p] (st_map tb)" "unat (ht_used tb1) \<le> Suc (unat (ht_used tb))"
    by (rule parse_loop_param [OF p(1) Cons.prems(2) p(2,3)])
  have r: "\<forall>p \<in> set ps. param_ok p" "unat (ht_used tb1) + length ps < 2 ^ 31" "length ((pre @ enc_param p) @ enc_params ps) \<le> len"
    using Cons.prems s(4) by simp_all
  from Cons.IH [OF r(1) s(2) r(2,3), of "dead @ d"] s(1,3) show ?case by (simp add: params_map_Cons [of p ps])
qed auto

lemma parse_loop_end: "\<not> ptr < len \<Longrightarrow> parse_loop m tbl data len ptr dead = Some (tbl, dead, m)"
  by (subst parse_loop.simps) simp

section \<open>Properties\<close>

text \<open>C13. Decoding the parameters is the inverse of encoding them: given the encoding of any list of pairs
  with non-empty names, in a block that may go on behind it, the table holds for every name the
  last value given, and nothing else changes, when memory is granted.\<close>

theorem params_round_trip:
  assumes "\<forall>p \<in> set ps. param_ok p" "st_inv tb" "unat (ht_used tb) + length ps < 2 ^ 31"
  shows "\<exists>tb' dead. fcgi_parse_params [] (Some tb) (enc_params ps @ rest) (length (enc_params ps)) = Some (0, Some tb', dead, []) \<and>
    st_inv tb' \<and> st_map tb' = params_map ps (st_map tb)"
  using parse_loop_params [OF assms, of "[]" "length (enc_params ps)" rest "[]"]
  by (auto simp: fcgi_parse_params_def parse_loop_end)

theorem params_round_trip_witness:
  "\<exists>tb' dead. fcgi_parse_params [] (Some sample_stringtab) (enc_params [([97], [98, 99]), ([97], [100]), ([101], [])] @ [7]) 12 =
     Some (0, Some tb', dead, []) \<and> st_map tb' [97] = Some [100]"
proof -
  have m: "st_map sample_stringtab = (\<lambda>_. None)" "unat (ht_used sample_stringtab) = 0"
    using ef_stringtab_new_inv [of "[]" 8 sample_stringtab "[]"]
    by (simp_all add: sample_stringtab_def ef_stringtab_new_def ef_hashtable_new_def alloc_hash_data_def Let_def)
  have "length (enc_params [([97], [98, 99]), ([97], [100]), ([101], [])]) = 12" by code_simp
  with params_round_trip [OF _ sample_stringtab_inv, of "[([97], [98, 99]), ([97], [100]), ([101], [])]" "[7]"] m
  show ?thesis by (auto simp: param_ok_def params_map_def)
qed


text \<open>The lengths of a pair are not compared with the data: when those of the last pair add up to more
  than what is left of the block, the parser leaves it.\<close>

theorem params_lengths_unchecked:
  assumes "\<forall>p \<in> set ps. param_ok p" "st_inv tb" "unat (ht_used tb) + length ps < 2 ^ 31"
    and "a < 2 ^ 31" "b < 2 ^ 31" "length short < a + b"
  shows "fcgi_parse_params [] (Some tb) (enc_params ps @ enc_length a @ enc_length b @ short)
    (length (enc_params ps @ enc_length a @ enc_length b @ short)) = None"
proof -
  let ?data = "enc_params ps @ enc_length a @ enc_length b @ short"
  obtain tb' dead' where s: "parse_loop [] (Some tb) ?data (length ?data) 0 [] =
      parse_loop [] (Some tb') ?data (length ?data) (length (enc_params ps)) dead'"
    using parse_loop_params [OF assms(1-3), of "[]" "length ?data" "enc_length a @ enc_length b @ short" "[]"] by auto
  have r1: "read_length ?data (length (enc_params ps)) = Some (of_nat a, length (enc_params ps @ enc_length a))"
    using read_length_enc [OF assms(4), of "enc_params ps" "enc_length b @ short"] by simp
  have r2: "read_length ?data (length (enc_params ps @ enc_length a)) = Some (of_nat b, length (enc_params ps @ enc_length a @ enc_length b))"
    using read_length_enc [OF assms(5), of "enc_params ps @ enc_length a" short] by (simp add: add.assoc)
  have u: "unat (of_nat a :: u64) = a" "unat (of_nat b :: u64) = b" using assms(4,5) by (simp_all add: unat_of_nat)
  have out: "\<not> length (enc_params ps @ enc_length a @ enc_length b) + a + b \<le> length ?data" using assms(6) by simp
  have lt: "length (enc_params ps) < length ?data"
    using enc_length_pos [of a] by simp
  have "parse_loop [] (Some tb') ?data (length ?data) (length (enc_params ps)) dead' = None"
    unfolding parse_loop.simps [of "[]" "Some tb'" ?data "length ?data" "length (enc_params ps)" dead']
    using out lt by (simp only: r1 r2 u bind.bind_lunit prod.case Let_def bind_check if_False if_True)
  with s show ?thesis by (simp add: fcgi_parse_params_def)
qed

theorem params_lengths_unchecked_witness:
  "fcgi_parse_params [] (Some sample_stringtab) (enc_params [([97], [98])] @ enc_length 1 @ enc_length 200 @ [99, 100])
     (length (enc_params [([97], [98])] @ enc_length 1 @ enc_length 200 @ [99, 100])) = None"
proof -
  have "unat (ht_used sample_stringtab) = 0"
    by (simp add: sample_stringtab_def ef_stringtab_new_def ef_hashtable_new_def alloc_hash_data_def Let_def)
  with params_lengths_unchecked [OF _ sample_stringtab_inv, of "[([97], [98])]" 1 200 "[99, 100]"] show ?thesis
    by (simp add: param_ok_def)
qed

end
