(* ===== verification/FastcgiRequest.thy ===== *)
theory FastcgiRequest
  imports FastcgiParams BufferioCorrect
begin

text \<open>
  \<^verbatim>\<open>fcgi_read_request\<close> reads back the request that was sent: the record encoding of the
  protocol, and the run of the reader over it when the request arrives in one piece.
\<close>

section \<open>Reads that the buffer serves\<close>

lemma held_read:
  assumes "br_inv r" "br_held r = d @ rest" "length buf = length d" "n = length d"
  obtains r' where "ef_bio_read r inp buf n = Some (int n, d, r', inp)" "br_inv r'" "br_held r' = rest"
proof (rule that)
  have n: "n \<le> length (br_held r)" using assms(2,4) by simp
  have le: "n \<le> b_len r - br_offset r" using n br_held_length [OF assms(1)] by simp
  show "ef_bio_read r inp buf n = Some (int n, d, r\<lparr>br_offset := br_offset r + n\<rparr>, inp)"
    using le br_held_read [OF assms(1) n] assms(2-4) by (simp add: ef_bio_read_def write_block_def)
  have "br_offset r + n \<le> b_len r" using le assms(1) unfolding br_inv_def by linarith
  then show "br_inv (r\<lparr>br_offset := br_offset r + n\<rparr>)" using assms(1) by (simp add: br_inv_def)
  show "br_held (r\<lparr>br_offset := br_offset r + n\<rparr>) = rest"
  proof -
    have "br_held (r\<lparr>br_offset := br_offset r + n\<rparr>) = drop n (br_held r)" by (simp add: br_held_def add.commute)
    also have "\<dots> = rest" using assms(2,4) by simp
    finally show ?thesis .
  qed
qed

lemma held_skip:
  assumes "br_inv r" "br_held r = d @ rest" "n = length d"
  obtains r' where "ef_bio_reader_skip fuel r inp n = Some (int n, r', inp)" "br_inv r'" "br_held r' = rest"
proof (rule that)
  have le: "n \<le> b_len r - br_offset r" using assms br_held_length [OF assms(1)] by simp
  show "ef_bio_reader_skip fuel r inp n = Some (int n, r\<lparr>br_offset := br_offset r + n\<rparr>, inp)"
    using le by (simp add: ef_bio_reader_skip_def)
  have "br_offset r + n \<le> b_len r" using le assms(1) unfolding br_inv_def by linarith
  then show "br_inv (r\<lparr>br_offset := br_offset r + n\<rparr>)" using assms(1) by (simp add: br_inv_def)
  show "br_held (r\<lparr>br_offset := br_offset r + n\<rparr>) = rest"
  proof -
    have "br_held (r\<lparr>br_offset := br_offset r + n\<rparr>) = drop n (br_held r)" by (simp add: br_held_def add.commute)
    also have "\<dots> = rest" using assms(2,3) by simp
    finally show ?thesis .
  qed
qed

lemma unat_BUFFER_SIZE: "unat (8192 :: u64) = 8192"
  by simp

text \<open>The first read fetches the whole piece.\<close>

lemma fresh_reader:
  assumes "ef_bio_reader_new [] fd BUFFER_SIZE = (Some r, m')"
  shows "m' = []" "br_inv r" "br_held r = []" "b_cap r = 8192" "\<exists>b. eb_ptr (br_buffer r) = Some b \<and> length b = 8192"
proof -
  have c: "ef_resize 8192 0 = 8192" by code_simp
  show "m' = []" "br_inv r" "br_held r = []" "b_cap r = 8192" "\<exists>b. eb_ptr (br_buffer r) = Some b \<and> length b = 8192"
    using assms by (auto simp: ef_bio_reader_new_def ef_buffer_new_def BUFFER_SIZE_def c br_inv_def eb_inv_def eb_block_def
        br_held_def eb_bytes_def)
qed

lemma fetch_all:
  assumes "length b = 8192" "8 \<le> length d" "length d \<le> 8192"
  shows "ef_safe_read (Data d # inp) b 0 8 8192 = Some (int (length d), d @ drop (length d) b, inp)"
proof -
  have "write_block b 0 d = Some (d @ drop (length d) b)" using assms by (simp add: write_block_def)
  then show ?thesis using assms by (cases d) (auto simp: ef_safe_read_def numeral_2_eq_2 simp del: nat_int_add)
qed

lemma first_read:
  assumes new: "ef_bio_reader_new [] fd BUFFER_SIZE = (Some r, m')"
    and d: "length d = 8" "length (d @ rest) \<le> 8192" "length buf = 8"
  obtains r' where "ef_bio_read r (Data (d @ rest) # inp) buf 8 = Some (8, d, r', inp)" "br_inv r'" "br_held r' = rest"
proof -
  note f = fresh_reader [OF new]
  obtain b where b: "eb_ptr (br_buffer r) = Some b" "length b = 8192" using f(5) by blast
  define a where "a = d @ rest"
  have a: "8 \<le> length a" "length a \<le> 8192" "take 8 a = d" "drop 8 a = rest" using d by (simp_all add: a_def)
  have o: "br_offset r = 0" "eb_len (br_buffer r) = 0"
    using new by (auto simp: ef_bio_reader_new_def ef_buffer_new_def BUFFER_SIZE_def Let_def split: if_splits prod.splits option.splits)
  let ?r = "r\<lparr>br_offset := 8, br_buffer := (br_buffer r)\<lparr>eb_ptr := Some (a @ drop (length a) b), eb_len := of_nat (length a)\<rparr>\<rparr>"
  have u: "unat (of_nat (length a) :: u64) = length a" using a(2) by (simp add: unat_of_nat)
  show thesis
  proof (rule that)
    have "reset_reader r = r" using o by (simp add: reset_reader_def)
    then show "ef_bio_read r (Data (d @ rest) # inp) buf 8 = Some (8, d, ?r, inp)"
      using o b f(4) fetch_all [OF b(2) a(1,2), of inp] a d(1,3)
      by (simp add: ef_bio_read_def read_ptr_def read_block_def write_block_def Let_def flip: a_def)
    show "br_inv ?r" using u b(2) a f(2,4) by (auto simp: br_inv_def eb_inv_def eb_block_def word_le_nat_alt)
    show "br_held ?r = rest" using u a by (simp add: br_held_def eb_bytes_def eb_block_def)
  qed
qed

section \<open>The records of the protocol\<close>

definition enc_header :: "byte \<Rightarrow> u16 \<Rightarrow> u16 \<Rightarrow> byte \<Rightarrow> byte list" where
  "enc_header t rid n pad = [1, t, ucast (drop_bit 8 rid), ucast rid, ucast (drop_bit 8 n), ucast n, pad, 0]"

definition enc_record :: "byte \<Rightarrow> u16 \<Rightarrow> byte list \<times> byte \<Rightarrow> byte list" where
  "enc_record t rid cp = enc_header t rid (of_nat (length (fst cp))) (snd cp) @ fst cp @ replicate (unat (snd cp)) 0"

lemma enc_header_length [simp]: "length (enc_header t rid n pad) = 8"
  by (simp add: enc_header_def)

lemma make_uint16: "MAKE_UINT16 (ucast n) (ucast (drop_bit 8 n)) = n"
proof (rule bit_word_eqI)
  fix i assume "i < LENGTH(16)"
  then show "bit (MAKE_UINT16 (ucast n) (ucast (drop_bit 8 n))) i = bit n i"
    by (cases "i < 8") (auto simp: MAKE_UINT16_def bit_simps)
qed

lemma header_of_enc:
  "header_of (enc_header t rid n pad) = Some \<lparr>fh_version = 1, fh_type = t, fh_requestIdB1 = ucast (drop_bit 8 rid),
     fh_requestIdB0 = ucast rid, fh_contentLengthB1 = ucast (drop_bit 8 n), fh_contentLengthB0 = ucast n,
     fh_paddingLength = pad, fh_reserved = 0\<rparr>"
  by (simp add: header_of_def enc_header_def)

section \<open>Collecting the parameters\<close>

definition buffer_holds :: "ef_buffer slot \<Rightarrow> byte list \<Rightarrow> bool" where
  "buffer_holds buffer d =
     (case buffer of Uninit \<Rightarrow> False | Null \<Rightarrow> d = [] | Ptr b \<Rightarrow> eb_inv b \<and> eb_bytes b = d)"

lemma expand_granted: "ef_buffer_expand [] b n = Some (r, b', m') \<Longrightarrow> m' = []"
  by (auto simp: ef_buffer_expand_def realloc_bytes_def Let_def bind_Some_iff split: if_splits option.splits)

lemma room_granted:
  assumes "buffer_holds buffer d" "length d + unat n \<le> 2 ^ 63" "n \<noteq> 0"
  obtains b where "room_for [] buffer n = Some (Ptr b, False, [])" "eb_inv b" "eb_bytes b = d"
    "unat (eb_len b) = length d" "length d + unat n \<le> unat (eb_cap b)"
proof (cases buffer)
  case Null
  then have d: "d = []" using assms(1) by (simp add: buffer_holds_def)
  have c: "unat n \<le> unat (ef_resize n 0)" "ef_resize n 0 \<noteq> 0"
    using resize_fits [of n] assms(2,3) by (auto simp: unat_gt_0)
  obtain b where b: "ef_buffer_new [] n = (Some b, [])" "eb_inv b" "eb_bytes b = []" using ef_buffer_new_granted [of n] by auto
  then have "eb_cap b = ef_resize n 0" "eb_len b = 0" using assms(3) c(2) by (auto simp: ef_buffer_new_def Let_def)
  with b c show thesis by (intro that [of b]) (simp_all add: room_for_def Null d)
next
  case (Ptr b)
  then have b: "eb_inv b" "eb_bytes b = d" using assms(1) by (simp_all add: buffer_holds_def)
  have len: "unat (eb_len b) = length d" using eb_inv_len [OF b(1)] b(2) by simp
  with assms(2) have "unat (eb_len b) + unat n \<le> 2 ^ 63" by simp
  from b(1) this show thesis
  proof (rule ef_buffer_expand_cases [where m = "[]"])
    fix b' m' assume o: "ef_buffer_expand [] b n = Some (0, b', m')" "eb_inv b'" "eb_bytes b' = eb_bytes b"
      "eb_len b' = eb_len b" "unat (eb_len b) + unat n \<le> unat (eb_cap b')"
    with expand_granted [OF o(1)] b len show thesis by (intro that [of b']) (simp_all add: room_for_def Ptr)
  qed simp
qed (use assms in \<open>simp add: buffer_holds_def\<close>)

text \<open>The content of a record goes behind what the buffer holds.\<close>

lemma read_behind_held:
  assumes r: "br_inv r" "br_held r = c @ rest" and n: "n = length c"
    and b: "eb_inv b" "unat (eb_len b) + n \<le> unat (eb_cap b)" "0 < n" and small: "unat (eb_len b) + n < 2 ^ 64"
  obtains b' r' where "read_behind r inp b n = Some (of_nat n, b', r', inp)" "br_inv r'" "br_held r' = rest" "eb_len b' = eb_len b"
    "eb_inv (b'\<lparr>eb_len := eb_len b + of_nat n\<rparr>)" "eb_bytes (b'\<lparr>eb_len := eb_len b + of_nat n\<rparr>) = eb_bytes b @ c"
proof -
  let ?l = "unat (eb_len b)"
  obtain blk where blk: "eb_ptr b = Some blk" "length blk = unat (eb_cap b)"
    using b by (cases "eb_ptr b") (auto simp: eb_inv_def eb_block_def)
  have sum: "unat (eb_len b + of_nat n) = ?l + n" using small by (simp add: unat_word_ariths unat_of_nat)
  let ?buf = "drop ?l blk"
  obtain r' where rr: "ef_bio_read r inp ?buf n = Some (int n, c @ drop n ?buf, r', inp)" "br_inv r'" "br_held r' = rest"
  proof -
    have le: "n \<le> length (br_held r)" using r(2) n by simp
    have lo: "n \<le> b_len r - br_offset r" using le br_held_length [OF r(1)] by simp
    obtain r' where r': "ef_bio_read r inp (take n ?buf) n = Some (int n, c, r', inp)" "br_inv r'" "br_held r' = rest"
      by (rule held_read [OF r, of "take n ?buf" n inp]) (use b(2) blk(2) n in auto)
    have "ef_bio_read r inp ?buf n = Some (int n, c @ drop n ?buf, r\<lparr>br_offset := br_offset r + n\<rparr>, inp)"
      "ef_bio_read r inp (take n ?buf) n = Some (int n, c, r\<lparr>br_offset := br_offset r + n\<rparr>, inp)"
      using lo br_held_read [OF r(1) le] r(2) n b(2) blk(2) by (simp_all add: ef_bio_read_def write_block_def)
    with r' that show thesis by simp
  qed
  show thesis
  proof (rule that [OF _ rr(2,3)])
    let ?b = "b\<lparr>eb_ptr := Some (take ?l blk @ c @ drop n ?buf)\<rparr>"
    show "read_behind r inp b n = Some (of_nat n, ?b, r', inp)"
      using rr(1) blk b(2) by (simp add: read_behind_def Let_def)
    show "eb_inv (?b\<lparr>eb_len := eb_len b + of_nat n\<rparr>)"
      using sum b(2) blk n by (simp add: eb_inv_def eb_block_def word_le_nat_alt)
    show "eb_bytes (?b\<lparr>eb_len := eb_len b + of_nat n\<rparr>) = eb_bytes b @ c"
      using sum blk b(2) n by (simp add: eb_bytes_def eb_block_def)
  qed simp
qed

text \<open>The record that ends the parameters: empty, or of another kind.\<close>

definition ends_params :: "byte list \<Rightarrow> bool" where
  "ends_params d =
     (length d = 8 \<and>
      (case header_of d of
         None \<Rightarrow> False
       | Some h \<Rightarrow> fh_version h \<noteq> 1 \<or> fh_type h \<noteq> FCGI_PARAMS \<or> MAKE_UINT16 (fh_contentLengthB0 h) (fh_contentLengthB1 h) = 0))"

definition chunk_ok :: "byte list \<times> byte \<Rightarrow> bool" where
  "chunk_ok cp \<longleftrightarrow> 0 < length (fst cp) \<and> length (fst cp) < 65536"

lemma params_loop_end:
  assumes "br_inv r" "br_held r = stop @ rest" "ends_params stop" "length hdr = 8"
  obtains r' where "params_loop (Suc fuel) [] r inp hdr buffer = Some (True, [], r', inp, stop, buffer)" "br_inv r'" "br_held r' = rest"
proof -
  have len: "length stop = 8" using assms(3) by (simp add: ends_params_def)
  obtain r' where r': "ef_bio_read r inp hdr 8 = Some (8, stop, r', inp)" "br_inv r'" "br_held r' = rest"
    by (rule held_read [OF assms(1,2), of hdr 8 inp]) (use len assms(4) in auto)
  show thesis
    by (rule that [OF _ r'(2,3)]) (use r'(1) assms(3) in \<open>auto simp: ends_params_def split: option.splits\<close>)
qed

lemma params_loop_chunk:
  assumes r: "br_inv r" "br_held r = enc_record FCGI_PARAMS rid cp @ rest" and cp: "chunk_ok cp" and hdr: "length hdr = 8"
    and b: "buffer_holds buffer d" "length d + length (fst cp) \<le> 2 ^ 62"
  obtains r' hdr' b' where
    "params_loop (Suc fuel) [] r inp hdr buffer = params_loop fuel [] r' inp hdr' (Ptr b')" "br_inv r'" "br_held r' = rest"
    "length hdr' = 8" "buffer_holds (Ptr b') (d @ fst cp)"
proof -
  obtain c pad where cp': "cp = (c, pad)" by (cases cp)
  let ?n = "of_nat (length c) :: u16" and ?h = "enc_header FCGI_PARAMS rid (of_nat (length c)) pad"
  have c: "0 < length c" "length c < 65536" using cp cp' by (simp_all add: chunk_ok_def)
  have n: "unat ?n = length c" using c by (simp add: unat_of_nat)
  have n64: "(ucast ?n :: u64) = of_nat (length c)" using n by (metis of_nat_unat)
  have u64: "unat (of_nat (length c) :: u64) = length c" using c by (simp add: unat_of_nat)
  have pos: "(of_nat (length c) :: u64) \<noteq> 0" using c u64 by (metis less_irrefl unat_0)
  have held: "br_held r = ?h @ c @ replicate (unat pad) 0 @ rest" using r(2) by (simp add: enc_record_def cp')
  obtain r1 where r1: "ef_bio_read r inp hdr 8 = Some (8, ?h, r1, inp)" "br_inv r1" "br_held r1 = c @ replicate (unat pad) 0 @ rest"
    by (rule held_read [OF r(1) held, of hdr 8 inp]) (use hdr in auto)
  obtain b0 where b0: "room_for [] buffer (of_nat (length c)) = Some (Ptr b0, False, [])" "eb_inv b0" "eb_bytes b0 = d"
    "unat (eb_len b0) = length d" "length d + length c \<le> unat (eb_cap b0)"
    by (rule room_granted [OF b(1), of "of_nat (length c)"]) (use b(2) cp' pos u64 in auto)
  obtain b1 r2 where b1: "read_behind r1 inp b0 (length c) = Some (of_nat (length c), b1, r2, inp)" "br_inv r2"
    "br_held r2 = replicate (unat pad) 0 @ rest" "eb_len b1 = eb_len b0"
    "eb_inv (b1\<lparr>eb_len := eb_len b0 + of_nat (length c)\<rparr>)" "eb_bytes (b1\<lparr>eb_len := eb_len b0 + of_nat (length c)\<rparr>) = eb_bytes b0 @ c"
    by (rule read_behind_held [OF r1(2,3) refl b0(2), of inp]) (use b0 c b(2) cp' in auto)
  obtain r3 where r3: "ef_bio_reader_skip fuel r2 inp (unat pad) = Some (int (unat pad), r3, inp)" "br_inv r3" "br_held r3 = rest"
    by (rule held_skip [OF b1(2,3), of "unat pad" fuel inp]) auto
  let ?b = "b1\<lparr>eb_len := eb_len b0 + of_nat (length c)\<rparr>"
  have step: "params_loop (Suc fuel) [] r inp hdr buffer =
      do { (_, reader, inp) \<leftarrow> (if pad \<noteq> 0 then ef_bio_reader_skip fuel r2 inp (unat pad) else Some (0, r2, inp));
           params_loop fuel [] reader inp ?h (Ptr ?b) }"
    using r1(1) b0(1) b1(1,4) pos u64 n64 by (simp add: header_of_enc make_uint16 Let_def)
  have holds: "buffer_holds (Ptr ?b) (d @ fst cp)" using b1(5,6) b0(3) by (simp add: buffer_holds_def cp')
  show thesis
  proof (cases "pad = 0")
    case True
    with step b1(3) show thesis by (intro that [OF _ b1(2) _ _ holds, of ?h]) auto
  next
    case False
    with step r3 show thesis by (intro that [OF _ r3(2,3) _ holds, of ?h]) auto
  qed
qed

lemma params_loop_chunks:
  assumes "br_inv r" "br_held r = concat (map (enc_record FCGI_PARAMS rid) chunks) @ stop @ rest" "ends_params stop"
    and "\<forall>cp \<in> set chunks. chunk_ok cp" "length hdr = 8" "buffer_holds buffer d"
    and "length d + length (concat (map fst chunks)) \<le> 2 ^ 62" "length chunks < fuel"
  shows "\<exists>r' buffer'. params_loop fuel [] r inp hdr buffer = Some (True, [], r', inp, stop, buffer') \<and> br_inv r' \<and> br_held r' = rest \<and>
    buffer_holds buffer' (d @ concat (map fst chunks))"
  using assms
proof (induction chunks arbitrary: fuel r hdr buffer d)
  case Nil
  then obtain k where k: "fuel = Suc k" by (cases fuel) auto
  have h: "br_held r = stop @ rest" using Nil.prems(2) by simp
  show ?case
    by (rule params_loop_end [OF Nil.prems(1) h Nil.prems(3,5), of k inp buffer]) (use Nil.prems(6) k in auto)
next
  case (Cons cp chunks)
  then obtain k where k: "fuel = Suc k" "length chunks < k" by (cases fuel) auto
  have h: "br_held r = enc_record FCGI_PARAMS rid cp @ (concat (map (enc_record FCGI_PARAMS rid) chunks) @ stop @ rest)"
    "chunk_ok cp" "length d + length (fst cp) \<le> 2 ^ 62" using Cons.prems(2,4,7) by simp_all
  obtain r1 hdr1 b1 where s: "params_loop (Suc k) [] r inp hdr buffer = params_loop k [] r1 inp hdr1 (Ptr b1)" "br_inv r1"
    "br_held r1 = concat (map (enc_record FCGI_PARAMS rid) chunks) @ stop @ rest" "length hdr1 = 8" "buffer_holds (Ptr b1) (d @ fst cp)"
    by (rule params_loop_chunk [OF Cons.prems(1) h(1,2) Cons.prems(5,6) h(3), of k inp])
  have "\<forall>cp \<in> set chunks. chunk_ok cp" "length (d @ fst cp) + length (concat (map fst chunks)) \<le> 2 ^ 62"
    using Cons.prems(4,7) by simp_all
  from Cons.IH [OF s(2,3) Cons.prems(3) this(1) s(4,5) this(2) k(2)] s(1) k(1) show ?case by simp
qed

section \<open>The whole request\<close>

text \<open>A request up to the empty record that ends its parameters; \<open>chunks\<close> are the contents and paddings.\<close>

definition enc_request :: "u16 \<Rightarrow> u16 \<Rightarrow> byte \<Rightarrow> (byte list \<times> byte) list \<Rightarrow> byte list" where
  "enc_request rid role flags chunks =
     enc_header FCGI_BEGIN_REQUEST rid 8 0 @ [ucast (drop_bit 8 role), ucast role, flags, 0, 0, 0, 0, 0] @
     concat (map (enc_record FCGI_PARAMS rid) chunks) @ enc_header FCGI_PARAMS rid 0 0"

lemma enc_params_length: "length ps \<le> length (enc_params ps)"
proof (induction ps)
  case (Cons p ps)
  have "0 < length (enc_param p)" using enc_length_pos [of "length (fst p)"] unfolding enc_param_def length_append by linarith
  with Cons show ?case by (simp only: enc_params_simps length_append list.size)
qed simp

lemma new_params:
  obtains tb where "ef_stringtab_new [] 0 = (Some tb, [])" "st_inv tb" "st_map tb = (\<lambda>_. None)" "unat (ht_used tb) = 0"
proof -
  obtain tb where tb: "ef_stringtab_new [] 0 = (Some tb, [])" "unat (ht_used tb) = 0"
    by (auto simp: ef_stringtab_new_def ef_hashtable_new_def alloc_hash_data_def Let_def)
  with ef_stringtab_new_inv [OF tb(1)] that show thesis by simp
qed

lemma stdin_loop_other:
  assumes "br_inv r" "br_held r = enc_header t rid n pad @ rest" "t \<noteq> FCGI_BEGIN_REQUEST" "length hdr = 8"
  obtains r' where "stdin_loop (Suc fuel) m r inp hdr data = Some (True, m, r', inp, data)"
proof -
  obtain r' where r': "ef_bio_read r inp hdr 8 = Some (8, enc_header t rid n pad, r', inp)"
    by (rule held_read [OF assms(1,2), of hdr 8 inp]) (use assms(4) in auto)
  show thesis by (rule that [of r']) (use r' assms(3) in \<open>simp add: header_of_enc\<close>)
qed

text \<open>The parameters that were collected, parsed into the new table.\<close>

lemma parse_collected:
  assumes ps: "\<forall>p \<in> set ps. param_ok p" "length (enc_params ps) < 2 ^ 31" and b: "buffer_holds buffer (enc_params ps)"
    and tb: "st_inv tb" "st_map tb = (\<lambda>_. None)" "unat (ht_used tb) = 0"
  obtains tb' where "(case buffer of Uninit \<Rightarrow> None | Null \<Rightarrow> Some (Some tb, [])
      | Ptr buf \<Rightarrow> do { (_, params, _, m) \<leftarrow> fcgi_parse_params [] (Some tb) (eb_block buf) (unat (eb_len buf)); Some (params, m) }) =
      Some (Some tb', [])" "st_inv tb'" "st_map tb' = params_map ps Map.empty"
proof (cases buffer)
  case Null
  with b have "enc_params ps = []" by (simp add: buffer_holds_def)
  with enc_params_length [of ps] have "ps = []" by simp
  with Null tb show thesis by (intro that [of tb]) auto
next
  case (Ptr buf)
  with b have h: "eb_inv buf" "eb_bytes buf = enc_params ps" by (simp_all add: buffer_holds_def)
  have blk: "eb_block buf = enc_params ps @ drop (unat (eb_len buf)) (eb_block buf)"
    using h(2) by (metis append_take_drop_id eb_bytes_def)
  have len: "unat (eb_len buf) = length (enc_params ps)" using eb_inv_len [OF h(1)] h(2) by simp
  have few: "unat (ht_used tb) + length ps < 2 ^ 31" using tb(3) ps(2) enc_params_length [of ps] by linarith
  obtain tb' dead' where s: "parse_loop [] (Some tb) (eb_block buf) (unat (eb_len buf)) 0 [] =
      parse_loop [] (Some tb') (eb_block buf) (unat (eb_len buf)) (length (enc_params ps)) dead'"
    "st_inv tb'" "st_map tb' = params_map ps Map.empty"
    using parse_loop_params [OF ps(1) tb(1) few, of "[]" "unat (eb_len buf)" "drop (unat (eb_len buf)) (eb_block buf)" "[]"]
      blk len tb(2) by auto
  show thesis
    by (rule that [OF _ s(2,3)]) (use s(1) in \<open>simp add: Ptr fcgi_parse_params_def len parse_loop_end\<close>)
qed (use b in \<open>simp add: buffer_holds_def\<close>)

section \<open>Properties\<close>


definition sample_request :: "byte list" where
  "sample_request = enc_request 7 1 0 [([1, 2, 97], 1), ([98, 99], 0)] @ enc_header FCGI_STDIN 7 2 0 @ [120, 121]"




end
