(* ===== verification/FastcgiResponse.thy ===== *)
theory FastcgiResponse
  imports FastcgiRequest ByteSink
begin

text \<open>
  \<^verbatim>\<open>fcgi_write_response\<close> puts the response on the wire in the records of the protocol: the
  lines of the headers, the blank line and the body, cut into records, and the end record.
\<close>

section \<open>A descriptor that takes everything\<close>

text \<open>Every call takes some bytes, is interrupted, or asks to be called again; none fails for good.\<close>

definition obliging :: "wresp list \<Rightarrow> bool" where
  "obliging scr \<longleftrightarrow> (\<forall>x \<in> set scr. case x of Took k \<Rightarrow> True | Refuse r e \<Rightarrow> e = 0 \<or> e = EINTR)"

lemma obliging_simps [simp]:
  "obliging []" "obliging (Took k # scr) = obliging scr"
  "obliging (Refuse r e # scr) \<longleftrightarrow> (e = 0 \<or> e = EINTR) \<and> obliging scr"
  by (auto simp: obliging_def)

lemma obliging_loop:
  assumes "obliging scr" "length scr + 2 \<le> fuel \<or> data = [] \<and> 1 \<le> fuel"
  shows "\<exists>scr'. safe_write_loop fuel scr data offset = Some (int (offset + length data), data, scr') \<and> obliging scr'"
  using assms
proof (induction fuel arbitrary: scr data offset)
  case (Suc fuel)
  show ?case
  proof (cases "data = []")
    case False
    then have fuel: "length scr + 1 \<le> fuel" using Suc.prems(2) by simp
    have more: ?thesis if "wrap_write scr data = (int k, 0, take k data, scr')" "0 < k" "k \<le> length data" "obliging scr'"
      "length scr' + 2 \<le> fuel \<or> drop k data = [] \<and> 1 \<le> fuel" for k scr'
      using Suc.IH [OF that(4,5), of "offset + k"] that(1-3) False by auto
    show ?thesis
    proof (cases scr)
      case Nil
      with False fuel show ?thesis by (intro more [of "length data" "[]"]) auto
    next
      case (Cons x scr')
      show ?thesis
      proof (cases x)
        case (Took k)
        then show ?thesis
        proof (cases "k = 0")
          case True
          with Cons Took False Suc.prems Suc.IH [of scr' data offset] fuel show ?thesis by auto
        next
          case k: False
          with Cons Took False Suc.prems fuel show ?thesis
            by (intro more [of "min k (length data)" scr']) (auto simp: min_def)
        qed
      next
        case (Refuse r e)
        with Cons False Suc.prems Suc.IH [of scr' data offset] fuel show ?thesis by (auto simp: min_def)
      qed
    qed
  qed (use Suc.prems in simp)
qed simp

lemma obliging_write:
  assumes "obliging scr"
  obtains scr' where "ef_safe_write scr data = Some (int (length data), data, scr')" "obliging scr'"
  using obliging_loop [of scr "length scr + 2" data 0] assms that by (auto simp: ef_safe_write_def)

text \<open>Buffered writes to it succeed, and what went out with what is held is what came in.\<close>

definition wrote :: "ef_bio_writer \<Rightarrow> byte list \<Rightarrow> ef_bio_writer \<Rightarrow> byte list \<Rightarrow> wresp list \<Rightarrow> bool" where
  "wrote w d w' out scr' \<longleftrightarrow> bw_inv w' \<and> out @ bw_held w' = bw_held w @ d \<and> obliging scr'"

lemma wrote_trans: "wrote w d w1 o1 s1 \<Longrightarrow> wrote w1 d' w2 o2 s2 \<Longrightarrow> wrote w (d @ d') w2 (o1 @ o2) s2"
  unfolding wrote_def by (metis append.assoc)

lemma wrote_none: "bw_inv w \<Longrightarrow> obliging scr \<Longrightarrow> wrote w [] w [] scr"
  by (simp add: wrote_def)

lemma wroteD: "wrote w d w' out scr' \<Longrightarrow> bw_inv w'" "wrote w d w' out scr' \<Longrightarrow> obliging scr'"
  by (simp_all add: wrote_def)

lemma write_obliging:
  assumes inv: "bw_inv w" and scr: "obliging scr"
  obtains w' out scr' where "ef_bio_write m w scr buf = Some (int (length buf), w', out, scr', m)" "wrote w buf w' out scr'"
proof -
  let ?held = "unat (eb_len (bw_buffer w))" and ?cap = "unat (eb_cap (bw_buffer w))"
  show thesis
  proof (cases "?held + length buf > ?cap \<or> ?cap div 4 < length buf")
    case direct: True
    obtain s1 where s1: "ef_safe_write scr (bw_held w) = Some (int (length (bw_held w)), bw_held w, s1)" "obliging s1"
      by (rule obliging_write [OF scr])
    obtain s2 where s2: "ef_safe_write s1 buf = Some (int (length buf), buf, s2)" "obliging s2" by (rule obliging_write [OF s1(2)])
    obtain s3 where s3: "ef_safe_write scr buf = Some (int (length buf), buf, s3)" "obliging s3" by (rule obliging_write [OF scr])
    show thesis
    proof (cases "?held = 0")
      case True
      then have "bw_held w = []" using bw_held_length [OF inv] by simp
      with s3 direct True inv show thesis
        by (intro that [of w buf s3]) (simp_all add: ef_bio_write_def Let_def wrote_def)
    next
      case False
      with s1 s2 direct bw_held_read [OF inv] inv show thesis
        by (intro that [of "writer_clear w" "bw_held w @ buf" s2]) (simp_all add: ef_bio_write_def Let_def wrote_def)
    qed
  next
    case False
    have bi: "eb_inv (bw_buffer w)" "?held + length buf \<le> ?cap" using inv False by (auto simp: bw_inv_def)
    obtain b' where b: "ef_buffer_append m (bw_buffer w) buf = Some (0, b', m)" "eb_inv b'"
      "eb_bytes b' = eb_bytes (bw_buffer w) @ buf" "eb_cap b' = eb_cap (bw_buffer w)"
      using append_room [OF bi, of 1 m] by (auto simp: ef_buffer_append_def numeral_2_eq_2)
    with False inv scr show thesis
      by (intro that [of "w\<lparr>bw_buffer := b'\<rparr>" "[]" scr]) (simp_all add: ef_bio_write_def Let_def wrote_def bw_inv_def bw_held_def)
  qed
qed

lemma flush_obliging:
  assumes inv: "bw_inv w" and scr: "obliging scr"
  obtains r w' scr' where "ef_bio_writer_flush w scr = Some (r, w', bw_held w, scr')"
proof -
  obtain s1 where s1: "ef_safe_write scr (bw_held w) = Some (int (length (bw_held w)), bw_held w, s1)" by (rule obliging_write [OF scr])
  show thesis
  proof (cases "eb_len (bw_buffer w) = 0")
    case True
    then have "bw_held w = []" using bw_held_length [OF inv] by simp
    with True show thesis by (intro that) (simp add: ef_bio_writer_flush_def)
  next
    case False
    with s1 bw_held_read [OF inv] show thesis by (intro that) (simp add: ef_bio_writer_flush_def)
  qed
qed

section \<open>Filling a packet from the buffers\<close>

text \<open>What is left in the buffers up to the NULL at the end, the first from an offset on.\<close>

fun left_in :: "u64 \<Rightarrow> ef_buffer option list \<Rightarrow> byte list" where
  "left_in off (Some b # bs) = drop (unat off) (eb_bytes b) @ left_in 0 bs"
| "left_in off _ = []"

definition bufs_ok :: "u64 \<Rightarrow> ef_buffer option list \<Rightarrow> bool" where
  "bufs_ok off bs \<longleftrightarrow> None \<in> set bs \<and> (\<forall>b. Some b \<in> set bs \<longrightarrow> eb_inv b) \<and>
     (case bs of Some b # _ \<Rightarrow> off \<le> eb_len b | _ \<Rightarrow> off = 0)"

lemma bufs_ok_next: "bufs_ok off (Some b # bs) \<Longrightarrow> bufs_ok 0 bs"
  by (auto simp: bufs_ok_def split: list.splits option.splits)

lemma read_rest:
  assumes "eb_inv b" "off \<le> eb_len b" "unat n \<le> unat (eb_len b) - unat off"
  shows "read_ptr (eb_ptr b) (unat off) (unat n) = Some (take (unat n) (drop (unat off) (eb_bytes b)))"
proof -
  have l: "unat off + unat n \<le> unat (eb_len b)" using assms(2,3) by (simp add: word_le_nat_alt)
  moreover have "unat (eb_len b) \<le> length (eb_block b)" using assms(1) by (simp add: eb_inv_def word_le_nat_alt)
  ultimately show ?thesis
    by (cases "eb_ptr b") (auto simp: read_ptr_def read_block_def eb_bytes_def eb_block_def drop_take)
qed

lemma fill_packet_ok:
  assumes "bufs_ok off bs" "pksz \<noteq> 0" "unat pksz \<le> length (left_in off bs)" "bw_inv w" "obliging scr"
  shows "\<exists>off' bs' w' out scr'. fill_packet m w scr pksz off bs = Some (True, off', bs', w', out, scr', m) \<and>
    wrote w (take (unat pksz) (left_in off bs)) w' out scr' \<and> bufs_ok off' bs' \<and>
    left_in off' bs' = drop (unat pksz) (left_in off bs)"
  using assms
proof (induction bs arbitrary: off pksz w scr)
  case Nil
  then show ?case by (simp add: bufs_ok_def)
next
  case (Cons x bs)
  have "0 < unat pksz" using Cons.prems(2) by (simp add: unat_gt_0)
  with Cons.prems(3) obtain b where x: "x = Some b" by (cases x) auto
  have b: "eb_inv b" "off \<le> eb_len b" "length (eb_bytes b) = unat (eb_len b)"
    using Cons.prems(1) eb_inv_len [of b] by (auto simp: bufs_ok_def x)
  define k where "k = eb_len b - off"
  have k: "unat k = unat (eb_len b) - unat off" "off + k = eb_len b" using b(2) by (simp_all add: k_def unat_sub word_le_nat_alt)
  let ?w = "if k > pksz then pksz else k" and ?rest = "drop (unat off) (eb_bytes b)"
  have wle: "unat ?w \<le> unat (eb_len b) - unat off" using k(1) by (auto simp: word_less_nat_alt)
  obtain w1 o1 s1 where s1: "ef_bio_write m w scr (take (unat ?w) ?rest) = Some (int (length (take (unat ?w) ?rest)), w1, o1, s1, m)"
    "wrote w (take (unat ?w) ?rest) w1 o1 s1"
    by (rule write_obliging [OF Cons.prems(4,5)])
  have step: "fill_packet m w scr pksz off (x # bs) =
      (let (off', bs') = (if off + ?w = eb_len b then (0, bs) else (off + ?w, x # bs))
       in if pksz - ?w \<noteq> 0
          then do { (more, off', bs', w', out', scr, m) \<leftarrow> fill_packet m w1 s1 (pksz - ?w) off' bs';
                    Some (more, off', bs', w', o1 @ out', scr, m) }
          else Some (True, off', bs', w1, o1, s1, m))"
    using read_rest [OF b(1,2) wle] s1(1) unfolding fill_packet.simps [of m w scr pksz off "x # bs"] k_def
    by (simp add: x Let_def)
  have next_ok: "bufs_ok 0 bs" using Cons.prems(1) bufs_ok_next x by simp
  show ?case
  proof (cases "k < pksz")
    case True
    then have kp: "?w = k" "unat k < unat pksz" by (auto simp: word_less_nat_alt)
    have len: "length ?rest = unat k" using b(3) k(1) by simp
    have p: "pksz - k \<noteq> 0" "unat (pksz - k) = unat pksz - unat k" using kp True by (auto simp: unat_sub word_less_nat_alt word_le_nat_alt)
    have enough: "unat (pksz - k) \<le> length (left_in 0 bs)" using Cons.prems(3) len p(2) by (simp add: x)
    obtain off2 bs2 w2 o2 s2 where i: "fill_packet m w1 s1 (pksz - k) 0 bs = Some (True, off2, bs2, w2, o2, s2, m)"
      "wrote w1 (take (unat (pksz - k)) (left_in 0 bs)) w2 o2 s2" "bufs_ok off2 bs2"
      "left_in off2 bs2 = drop (unat (pksz - k)) (left_in 0 bs)"
      using Cons.IH [OF next_ok p(1) enough wroteD [OF s1(2)]] by blast
    have eq: "fill_packet m w scr pksz off (x # bs) = Some (True, off2, bs2, w2, o1 @ o2, s2, m)"
      using step kp k(2) p(1) i(1) by simp
    have "take (unat pksz) (left_in off (x # bs)) = take (unat ?w) ?rest @ take (unat (pksz - k)) (left_in 0 bs)"
      using len kp p(2) by (simp add: x)
    with wrote_trans [OF s1(2) i(2)] eq i(3,4) len p(2) kp show ?thesis by (simp add: x)
  next
    case False
    have kp: "?w = pksz" using False by (auto simp: not_less le_less)
    have kp': "unat pksz \<le> unat k" using False by (simp add: not_less word_le_nat_alt)
    let ?o = "off + pksz"
    have len: "length ?rest = unat k" using b(3) k(1) by simp
    have o: "unat ?o = unat off + unat pksz"
    proof (rule unat_add_lem [THEN iffD1])
      show "unat off + unat pksz < 2 ^ LENGTH(64)"
        using kp' k(1) b(2) unat_less_64 [of "eb_len b"] by (simp add: word_le_nat_alt)
    qed
    have t: "take (unat pksz) (left_in off (x # bs)) = take (unat ?w) ?rest" using len kp kp' by (simp add: x)
    show ?thesis
    proof (cases "?o = eb_len b")
      case True
      then have "unat pksz = unat k" using o k(1) by (metis add_diff_cancel_left')
      then have "left_in 0 bs = drop (unat pksz) (left_in off (x # bs))" using len by (simp add: x)
      then show ?thesis using step kp True s1(2) t next_ok by auto
    next
      case more: False
      have "?o \<le> eb_len b" using o kp' k(1) b(2) by (simp add: word_le_nat_alt)
      then have ok': "bufs_ok ?o (x # bs)" using Cons.prems(1) by (auto simp: bufs_ok_def x)
      have "left_in ?o (x # bs) = drop (unat pksz) (left_in off (x # bs))"
        using o len kp' by (simp add: x add.commute)
      then show ?thesis using step kp more s1(2) t ok' by auto
    qed
  qed
qed

section \<open>The packets\<close>

lemma stdout_header_bytes:
  assumes "unat n \<le> 65535"
  shows "header_bytes (stdout_header rid n) = enc_header FCGI_STDOUT rid (of_nat (unat n)) (fh_paddingLength (stdout_header rid n))"
proof -
  have c: "(of_nat (unat n) :: u16) = ucast n" by (simp add: of_nat_unat)
  have "(ucast (drop_bit 8 n) :: byte) = ucast (drop_bit 8 (ucast n :: u16))"
    by (rule bit_word_eqI) (auto simp: bit_simps)
  moreover have "(ucast (n AND 0xff) :: byte) = ucast n"
  proof (rule bit_word_eqI)
    fix i assume "i < LENGTH(8)"
    moreover have "(0xff :: u64) = mask 8" by (simp add: mask_eq_exp_minus_1)
    ultimately show "bit (ucast (n AND 0xff) :: byte) i = bit (ucast n :: byte) i" by (simp only: bit_simps) auto
  qed
  moreover have "(ucast (rid AND 0xff) :: byte) = ucast rid"
  proof (rule bit_word_eqI)
    fix i assume "i < LENGTH(8)"
    moreover have "(0xff :: u16) = mask 8" by (simp add: mask_eq_exp_minus_1)
    ultimately show "bit (ucast (rid AND 0xff) :: byte) i = bit (ucast rid :: byte) i" by (simp only: bit_simps) auto
  qed
  moreover have "(ucast n :: byte) = ucast (ucast n :: u16)" by (rule bit_word_eqI) (auto simp: bit_simps)
  ultimately show ?thesis by (simp add: header_bytes_def stdout_header_def enc_header_def c)
qed

lemma padding:
  fixes n :: u64
  defines "p \<equiv> ucast ((8 - n mod 8) AND 7) :: byte"
  shows "(unat n + unat p) mod 8 = 0" "unat p < 8"
proof -
  have seven: "(7 :: u64) = mask 3" by (simp add: mask_eq_exp_minus_1)
  have m: "unat (n mod 8) = unat n mod 8" by (simp add: unat_mod)
  then have le: "n mod 8 \<le> 8" by (simp add: word_le_nat_alt)
  have s: "unat (8 - n mod 8) = 8 - unat n mod 8" using le m by (simp add: unat_sub)
  have a: "unat ((8 - n mod 8) AND 7) = (8 - unat n mod 8) mod 8"
    unfolding seven take_bit_eq_mask [symmetric] by (simp add: take_bit_eq_mod unat_mod s)
  have "unat p = (8 - unat n mod 8) mod 8"
  proof -
    have "(8 - unat n mod 8) mod 8 < (8 :: nat)" by (rule mod_less_divisor) simp
    then have "(8 - unat n mod 8) mod 8 < (256 :: nat)" by simp
    then show ?thesis unfolding p_def by (simp add: unsigned_ucast_eq take_bit_eq_mod a)
  qed
  moreover have "(x + (8 - x mod 8) mod 8) mod 8 = 0" for x :: nat
  proof -
    have "x mod 8 < 8" by simp
    then have "x + (8 - x mod 8) = 8 * (x div 8) + 8" using mult_div_mod_eq [of 8 x] by linarith
    then show ?thesis by (simp add: mod_add_right_eq)
  qed
  ultimately show "(unat n + unat p) mod 8 = 0" "unat p < 8" by simp_all
qed

text \<open>The records the body of a response is cut into.\<close>

definition stdout_chunk :: "byte list \<times> byte \<Rightarrow> bool" where
  "stdout_chunk cp \<longleftrightarrow> 0 < length (fst cp) \<and> length (fst cp) \<le> 65535 \<and> (length (fst cp) + unat (snd cp)) mod 8 = 0"

lemma packets_ok:
  assumes "bufs_ok off bs" "unat n = length (left_in off bs)" "bw_inv w" "obliging scr"
  shows "\<exists>chunks w' out scr'. packets_loop m w scr rid n off bs = Some (w', out, scr', m) \<and>
    wrote w (concat (map (enc_record FCGI_STDOUT rid) chunks)) w' out scr' \<and>
    concat (map fst chunks) = left_in off bs \<and> (\<forall>cp \<in> set chunks. stdout_chunk cp)"
  using assms
proof (induction "unat n" arbitrary: n off bs w scr rule: less_induct)
  case less
  show ?case
  proof (cases "n = 0")
    case True
    then have "left_in off bs = []" using less.prems(2) by simp
    moreover have "packets_loop m w scr rid n off bs = Some (w, [], scr, m)" by (subst packets_loop.simps) (simp add: True)
    ultimately show ?thesis using wrote_none [OF less.prems(3,4)] by (intro exI [of _ "[]"]) auto
  next
    case False
    define k where "k = (if n \<le> 65535 then n else 65535)"
    have pos: "0 < unat n" using False by (simp add: unat_gt_0)
    have k: "k \<noteq> 0" "unat k \<le> unat n" "unat k \<le> 65535" "0 < unat k"
      using False pos by (auto simp: k_def word_le_nat_alt not_le unat_gt_0)
    define pad where "pad = fh_paddingLength (stdout_header rid k)"
    let ?c = "take (unat k) (left_in off bs)" and ?h = "header_bytes (stdout_header rid k)"
    have c: "length ?c = unat k" using less.prems(2) k(2) by simp
    obtain w1 o1 s1 where s1: "ef_bio_write m w scr ?h = Some (int (length ?h), w1, o1, s1, m)" "wrote w ?h w1 o1 s1"
      by (rule write_obliging [OF less.prems(3,4)])
    obtain off2 bs2 w2 o2 s2 where s2: "fill_packet m w1 s1 k off bs = Some (True, off2, bs2, w2, o2, s2, m)"
      "wrote w1 ?c w2 o2 s2" "bufs_ok off2 bs2" "left_in off2 bs2 = drop (unat k) (left_in off bs)"
      using fill_packet_ok [OF less.prems(1) k(1) _ wroteD [OF s1(2)], of m] less.prems(2) k(2) by auto
    obtain w3 o3 s3 r3 where s3: "(if pad \<noteq> 0 then ef_bio_write m w2 s2 (replicate (unat pad) 0) else Some (0, w2, [], s2, m)) =
        Some (r3, w3, o3, s3, m)" "wrote w2 (replicate (unat pad) 0) w3 o3 s3"
    proof (cases "pad = 0")
      case True
      with wrote_none [OF wroteD [OF s2(2)]] that show thesis by auto
    next
      case False
      with write_obliging [OF wroteD [OF s2(2)], of m "replicate (unat pad) 0"] that show thesis by metis
    qed
    have nk: "unat (n - k) = unat n - unat k" using k(2) by (simp add: unat_sub word_le_nat_alt)
    have l4: "unat (n - k) < unat n" "unat (n - k) = length (left_in off2 bs2)" using nk k(4) pos s2(4) less.prems(2) by simp_all
    from less.hyps [OF l4(1) s2(3) l4(2) wroteD [OF s3(2)]] obtain chunks w4 o4 s4 where
      s4: "packets_loop m w3 s3 rid (n - k) off2 bs2 = Some (w4, o4, s4, m)"
        "wrote w3 (concat (map (enc_record FCGI_STDOUT rid) chunks)) w4 o4 s4"
        "concat (map fst chunks) = left_in off2 bs2" "\<forall>cp \<in> set chunks. stdout_chunk cp" by blast
    have eq: "packets_loop m w scr rid n off bs = Some (w4, o1 @ o2 @ o3 @ o4, s4, m)"
      using False s1(1) s2(1) s3(1) s4(1) unfolding packets_loop.simps [of m w scr rid n off bs] k_def [symmetric] pad_def
      by (simp add: Let_def)
    have h: "?h = enc_header FCGI_STDOUT rid (of_nat (length ?c)) pad"
      unfolding c pad_def by (rule stdout_header_bytes [OF k(3)])
    have "wrote w (concat (map (enc_record FCGI_STDOUT rid) ((?c, pad) # chunks))) w4 (o1 @ o2 @ o3 @ o4) s4"
      using wrote_trans [OF s1(2) wrote_trans [OF s2(2) wrote_trans [OF s3(2) s4(2)]]] h c by (simp add: enc_record_def)
    moreover have "stdout_chunk (?c, pad)"
      using c k padding [of k] by (simp add: stdout_chunk_def pad_def stdout_header_def)
    moreover have "concat (map fst ((?c, pad) # chunks)) = left_in off bs" using s4(3) s2(4) by simp
    ultimately show ?thesis using eq s4(4) by (intro exI [of _ "(?c, pad) # chunks"]) auto
  qed
qed

section \<open>The lines of the headers\<close>

definition line_text :: "byte list \<times> byte list \<Rightarrow> byte list" where
  "line_text kv = fst kv @ [58, 32] @ snd kv @ [13, 10]"

definition bucket_pairs :: "ef_string ef_vector ef_bucket \<Rightarrow> (byte list \<times> byte list) list" where
  "bucket_pairs pb =
     (case bk_key pb of
        None \<Rightarrow> []
      | Some k \<Rightarrow> (case bk_val pb of None \<Rightarrow> [] | Some vec \<Rightarrow> map (Pair (es_bytes k)) (strings_of vec)))"

definition header_pairs :: "ef_headertab \<Rightarrow> (byte list \<times> byte list) list" where
  "header_pairs tb = concat (map bucket_pairs (ht_data tb))"

lemma append_granted:
  assumes "eb_inv b" "length (eb_bytes b) + length d \<le> 2 ^ 63"
  obtains b' where "ef_buffer_append [] b d = Some (0, b', [])" "eb_inv b'" "eb_bytes b' = eb_bytes b @ d"
proof -
  have "unat (eb_len b) + length d \<le> 2 ^ 63" using assms eb_inv_len [OF assms(1)] by simp
  from assms(1) this show thesis
  proof (rule ef_buffer_append_cases [where m = "[]"])
    fix b' m' assume a: "ef_buffer_append [] b d = Some (0, b', m')" "eb_inv b'" "eb_bytes b' = eb_bytes b @ d"
    with buffer_sink.put_granted [OF a(1)] show thesis by (intro that) simp_all
  qed simp
qed

lemma es_read: "es_inv s \<Longrightarrow> read_ptr (es_str s) 0 (es_len s) = Some (es_bytes s)"
  by (cases "es_str s") (auto simp: es_inv_def es_bytes_def read_ptr_def read_block_def)

lemma header_line_ok:
  assumes "eb_inv b" "es_inv key" "es_inv str" "length (eb_bytes b) + length (line_text (es_bytes key, es_bytes str)) \<le> 2 ^ 63"
  obtains b' where "header_line [] b key str = Some (b', [])" "eb_inv b'" "eb_bytes b' = eb_bytes b @ line_text (es_bytes key, es_bytes str)"
proof -
  have l: "length (eb_bytes b) + (length (es_bytes key) + length (es_bytes str) + 4) \<le> 2 ^ 63" using assms(4) by (simp add: line_text_def)
  obtain b1 where b1: "ef_buffer_append [] b (es_bytes key) = Some (0, b1, [])" "eb_inv b1" "eb_bytes b1 = eb_bytes b @ es_bytes key"
    by (rule append_granted [OF assms(1), of "es_bytes key"]) (use l in auto)
  obtain b2 where b2: "ef_buffer_append [] b1 [58, 32] = Some (0, b2, [])" "eb_inv b2" "eb_bytes b2 = eb_bytes b1 @ [58, 32]"
    by (rule append_granted [OF b1(2), of "[58, 32]"]) (use l b1(3) in auto)
  obtain b3 where b3: "ef_buffer_append [] b2 (es_bytes str) = Some (0, b3, [])" "eb_inv b3" "eb_bytes b3 = eb_bytes b2 @ es_bytes str"
    by (rule append_granted [OF b2(2), of "es_bytes str"]) (use l b1(3) b2(3) in auto)
  obtain b4 where b4: "ef_buffer_append [] b3 [13, 10] = Some (0, b4, [])" "eb_inv b4" "eb_bytes b4 = eb_bytes b3 @ [13, 10]"
    by (rule append_granted [OF b3(2), of "[13, 10]"]) (use l b1(3) b2(3) b3(3) in auto)
  show thesis
    by (rule that [OF _ b4(2)]) (use b1 b2 b3 b4 es_read [OF assms(2)] es_read [OF assms(3)] in \<open>simp_all add: header_line_def line_text_def\<close>)
qed

definition bucket_fine :: "ef_string ef_vector ef_bucket \<Rightarrow> bool" where
  "bucket_fine pb \<longleftrightarrow>
     (case bk_key pb of None \<Rightarrow> True
      | Some k \<Rightarrow> es_inv k \<and> (case bk_val pb of None \<Rightarrow> True | Some vec \<Rightarrow> vec_ok vec))"

lemma header_lines_ok:
  assumes "\<forall>pb \<in> set bks. bucket_fine pb" "eb_inv b"
    and "length (eb_bytes b) + length (concat (map line_text (concat (map bucket_pairs bks)))) \<le> 2 ^ 63"
  shows "\<exists>b'. header_lines [] b bks = Some (b', []) \<and> eb_inv b' \<and>
    eb_bytes b' = eb_bytes b @ concat (map line_text (concat (map bucket_pairs bks)))"
  using assms
proof (induction bks arbitrary: b)
  case (Cons pb bks)
  show ?case
  proof (cases "bucket_pairs pb = []")
    case True
    then have "header_lines [] b (pb # bks) = header_lines [] b bks"
      using Cons.prems(1)
      by (auto simp: bucket_pairs_def bucket_fine_def vec_ok_def one_string_def strings_of_def ev_items_def split: option.splits)
    with Cons True show ?thesis by simp
  next
    case False
    then obtain k vec where kv: "bk_key pb = Some k" "bk_val pb = Some vec" "es_inv k" "vec_ok vec"
      using Cons.prems(1) by (auto simp: bucket_pairs_def bucket_fine_def split: option.splits)
    with False obtain s where s: "one_string vec s" by (auto simp: vec_ok_def bucket_pairs_def strings_of_def ev_items_def)
    then have p: "bucket_pairs pb = [(es_bytes k, es_bytes s)]" "es_inv s"
      using kv by (auto simp: bucket_pairs_def one_string_simps) (simp add: one_string_def)
    obtain b1 where b1: "header_line [] b k s = Some (b1, [])" "eb_inv b1" "eb_bytes b1 = eb_bytes b @ line_text (es_bytes k, es_bytes s)"
      by (rule header_line_ok [OF Cons.prems(2) kv(3) p(2)]) (use Cons.prems(3) p(1) in auto)
    have "header_lines [] b (pb # bks) = header_lines [] b1 bks"
      using kv s b1(1) by (simp add: one_string_def)
    moreover have "length (eb_bytes b1) + length (concat (map line_text (concat (map bucket_pairs bks)))) \<le> 2 ^ 63"
      using Cons.prems(3) b1(3) p(1) by simp
    ultimately show ?thesis using Cons.IH [OF _ b1(2)] Cons.prems(1) b1(3) p(1) by simp
  qed
qed simp

lemma distinct_pairs:
  assumes "uniq bks" "\<forall>pb \<in> set bks. bucket_pairs pb = [] \<or> live pb \<and> (\<exists>v. bucket_pairs pb = [(bkey pb, v)])"
  shows "distinct (map fst (concat (map bucket_pairs bks)))"
  using assms
proof (induction bks)
  case (Cons pb bks)
  have "k \<in> bkey ` {b \<in> set bks. live b}" if "k \<in> fst ` set (concat (map bucket_pairs bks))" for k
    using Cons.prems(2) that by fastforce
  with Cons show ?case by (fastforce simp: uniq_Cons)
qed simp

text \<open>The pairs of a table are its contents, each name once.\<close>

lemma header_pairs_map:
  assumes "hd_inv tb"
  shows "\<forall>pb \<in> set (ht_data tb). bucket_fine pb" "distinct (map fst (header_pairs tb))"
    "set (header_pairs tb) = {(k, v). hd_map tb k = Some [v]}" "length (ht_data tb) = unat (ht_cap tb)"
proof -
  obtain ch rs where R: "ht_repr {} tb ch rs" using assms by (auto simp: hd_inv_def ht_inv_def)
  show "length (ht_data tb) = unat (ht_cap tb)" by (rule ht_repr_shape(3) [OF R])
  have u: "uniq (ht_data tb)" and ok: "\<forall>pb \<in> set (ht_data tb). bucket_ok pb" using R by (simp_all add: ht_repr_def)
  have val: "\<exists>k vec. bk_key (ht_data tb ! i) = Some k \<and> es_inv k \<and> bk_val (ht_data tb ! i) = Some vec \<and> vec_ok vec \<and>
      ht_map tb (es_bytes k) = Some (Some vec)" if i: "i < length (ht_data tb)" "live (ht_data tb ! i)" for i
  proof -
    from i(2) obtain k where k: "bk_key (ht_data tb ! i) = Some k" by (auto simp: live_def)
    with ok i(1) have "es_inv k" by (force simp: bucket_ok_def dest: nth_mem)
    moreover have m: "ht_map tb (es_bytes k) = Some (bk_val (ht_data tb ! i))"
      using ht_find_Some [OF u i, of "es_bytes k"] k by (simp add: bkey_def ht_map_def)
    moreover obtain vec where "bk_val (ht_data tb ! i) = Some vec" "vec_ok vec" using assms m by (auto simp: hd_inv_def)
    ultimately show ?thesis using k by auto
  qed
  show "\<forall>pb \<in> set (ht_data tb). bucket_fine pb"
  proof
    fix pb assume "pb \<in> set (ht_data tb)"
    then obtain i where "i < length (ht_data tb)" "pb = ht_data tb ! i" by (auto simp: in_set_conv_nth)
    with val [of i] show "bucket_fine pb" by (auto simp: bucket_fine_def live_def split: option.splits)
  qed
  have one: "bucket_pairs pb = [] \<or> live pb \<and> (\<exists>v. bucket_pairs pb = [(bkey pb, v)])" if "pb \<in> set (ht_data tb)" for pb
  proof (cases "\<exists>k vec s. bk_key pb = Some k \<and> bk_val pb = Some vec \<and> one_string vec s")
    case True
    then show ?thesis by (auto simp: bucket_pairs_def one_string_simps bkey_def live_def)
  next
    case False
    from \<open>\<forall>pb \<in> set (ht_data tb). bucket_fine pb\<close> that have "bucket_fine pb" by blast
    with False have "bucket_pairs pb = []"
      unfolding bucket_fine_def vec_ok_def
      by (cases "bk_key pb"; cases "bk_val pb") (auto simp: bucket_pairs_def strings_of_def ev_items_def)
    then show ?thesis ..
  qed
  show "set (header_pairs tb) = {(k, v). hd_map tb k = Some [v]}"
  proof (intro set_eqI iffI; clarify)
    fix k v assume "(k, v) \<in> set (header_pairs tb)"
    then obtain pb where pb: "pb \<in> set (ht_data tb)" "(k, v) \<in> set (bucket_pairs pb)" by (auto simp: header_pairs_def)
    then obtain i where i: "i < length (ht_data tb)" "(k, v) \<in> set (bucket_pairs (ht_data tb ! i))" by (metis in_set_conv_nth)
    then have "live (ht_data tb ! i)" by (cases "bk_key (ht_data tb ! i)") (auto simp: bucket_pairs_def live_def)
    from val [OF i(1) this] i(2) show "hd_map tb k = Some [v]"
      by (auto simp: bucket_pairs_def hd_map_def vec_ok_def one_string_simps strings_of_def ev_items_def one_string_def)
  next
    fix k v assume h: "hd_map tb k = Some [v]"
    then obtain vec where vec: "ht_map tb k = Some (Some vec)" "strings_of vec = [v]"
      by (auto simp: hd_map_def bind_eq_Some_conv split: option.splits)
    from vec(1) obtain i where i: "i < length (ht_data tb)" "live (ht_data tb ! i)" "bkey (ht_data tb ! i) = k"
        "bk_val (ht_data tb ! i) = Some vec" by (auto simp: ht_map_def elim: ht_find_SomeE)
    then have "(k, v) \<in> set (bucket_pairs (ht_data tb ! i))" using vec(2) by (auto simp: bucket_pairs_def bkey_def live_def)
    with i(1) show "(k, v) \<in> set (header_pairs tb)" by (auto simp: header_pairs_def intro: bexI [OF _ nth_mem])
  qed
  show "distinct (map fst (header_pairs tb))"
    unfolding header_pairs_def by (rule distinct_pairs [OF u]) (use one in blast)
qed

section \<open>The property\<close>

lemma fresh_writer:
  obtains w where "ef_bio_writer_new [] fd BUFFER_SIZE = (Some w, [])" "bw_inv w" "bw_held w = []"
proof -
  obtain b where b: "ef_buffer_new [] BUFFER_SIZE = (Some b, [])" "eb_inv b" "eb_bytes b = []" using ef_buffer_new_granted by blast
  have "ef_resize 8192 0 = 8192" by code_simp
  with b(1) have "unat (eb_cap b) = 8192" by (auto simp: ef_buffer_new_def BUFFER_SIZE_def)
  with b that [of "\<lparr>bw_fd = fd, bw_buffer = b\<rparr>"] show thesis by (simp add: ef_bio_writer_new_def bw_inv_def bw_held_def)
qed

lemma end_record:
  "header_bytes ((stdout_header rid 8)\<lparr>fh_type := FCGI_END_REQUEST, fh_contentLengthB1 := 0, fh_contentLengthB0 := 8, fh_paddingLength := 0\<rparr>) @
     replicate 8 0 = enc_record FCGI_END_REQUEST rid (replicate 8 0, 0)"
proof -
  have "(ucast (rid AND 0xff) :: byte) = ucast rid"
    using stdout_header_bytes [of 0 rid] by (simp add: header_bytes_def stdout_header_def enc_header_def)
  moreover have "(ucast (drop_bit 8 (8 :: u16)) :: byte) = 0" "(ucast (8 :: u16) :: byte) = 8" by simp_all
  ultimately show ?thesis by (simp add: header_bytes_def stdout_header_def enc_record_def enc_header_def)
qed

text \<open>C11. What goes over the wire is the response in the records of the protocol: STDOUT records of the
  request, none empty or too long and each padded to a multiple of 8 bytes, whose contents put
  together are one line for each header that is set, a blank line and the body; then the end
  record.  This holds for every descriptor that does not fail for good, whatever it takes at once.\<close>

theorem response_on_the_wire:
  assumes "rs_headers response = Some tb" "hd_inv tb" "rs_request response = Some rq" "obliging scr"
    and "case rs_data response of None \<Rightarrow> True | Some b \<Rightarrow> eb_inv b"
    and "length (concat (map line_text (header_pairs tb))) + length (case rs_data response of None \<Rightarrow> [] | Some b \<Rightarrow> eb_bytes b) \<le> 2 ^ 62"
  shows "\<exists>chunks scr'. fcgi_write_response [] scr fd response False =
      Some (0, concat (map (enc_record FCGI_STDOUT (rq_request_id rq)) chunks) @
        enc_record FCGI_END_REQUEST (rq_request_id rq) (replicate 8 0, 0), [], scr', []) \<and>
    (\<forall>cp \<in> set chunks. stdout_chunk cp) \<and>
    (\<exists>hs. distinct (map fst hs) \<and> set hs = {(k, v). hd_map tb k = Some [v]} \<and>
       concat (map fst chunks) = concat (map line_text hs) @ [13, 10] @ (case rs_data response of None \<Rightarrow> [] | Some b \<Rightarrow> eb_bytes b))"
proof -
  let ?rid = "rq_request_id rq" and ?text = "concat (map line_text (header_pairs tb))"
  let ?data = "case rs_data response of None \<Rightarrow> [] | Some b \<Rightarrow> eb_bytes b"
  note hp = header_pairs_map [OF assms(2)]
  have sz: "length ?text + length ?data \<le> 2 ^ 62" by (rule assms(6))
  obtain b0 where b0: "ef_buffer_new [] BUFFER_SIZE = (Some b0, [])" "eb_inv b0" "eb_bytes b0 = []" using ef_buffer_new_granted by blast
  obtain b1 where b1: "header_lines [] b0 (ht_data tb) = Some (b1, [])" "eb_inv b1" "eb_bytes b1 = ?text"
    using header_lines_ok [OF hp(1) b0(2)] b0(3) sz by (auto simp: header_pairs_def)
  obtain b2 where b2: "ef_buffer_append [] b1 [13, 10] = Some (0, b2, [])" "eb_inv b2" "eb_bytes b2 = ?text @ [13, 10]"
    by (rule append_granted [OF b1(2), of "[13, 10]"]) (use b1(3) sz in auto)
  obtain w where w: "ef_bio_writer_new [] fd BUFFER_SIZE = (Some w, [])" "bw_inv w" "bw_held w = []" by (rule fresh_writer)
  define n where "n = eb_len b2 + (case rs_data response of Some b \<Rightarrow> eb_len b | None \<Rightarrow> 0)"
  have left: "left_in 0 [Some b2, rs_data response, None] = ?text @ [13, 10] @ ?data" using b2(3) by (cases "rs_data response") simp_all
  have l2: "unat (eb_len b2) = length ?text + 2" using eb_inv_len [OF b2(2)] b2(3) by simp
  have ld: "unat (case rs_data response of Some b \<Rightarrow> eb_len b | None \<Rightarrow> 0) = length ?data"
    using assms(5) by (auto simp: eb_inv_len split: option.splits)
  have n: "unat n = length (left_in 0 [Some b2, rs_data response, None])"
    using l2 ld sz left by (simp add: n_def unat_word_ariths)
  have ok: "bufs_ok 0 [Some b2, rs_data response, None]" using b2(2) assms(5) by (auto simp: bufs_ok_def split: option.splits)
  obtain chunks w1 o1 s1 where p: "packets_loop [] w scr ?rid n 0 [Some b2, rs_data response, None] = Some (w1, o1, s1, [])"
    "wrote w (concat (map (enc_record FCGI_STDOUT ?rid) chunks)) w1 o1 s1"
    "concat (map fst chunks) = ?text @ [13, 10] @ ?data" "\<forall>cp \<in> set chunks. stdout_chunk cp"
    using packets_ok [OF ok n w(2) assms(4), of "[]" ?rid] left by auto
  let ?h = "(stdout_header ?rid 8)\<lparr>fh_type := FCGI_END_REQUEST, fh_contentLengthB1 := 0, fh_contentLengthB0 := 8, fh_paddingLength := 0\<rparr>"
  obtain w2 o2 s2 where e1: "ef_bio_write [] w1 s1 (header_bytes ?h) = Some (int (length (header_bytes ?h)), w2, o2, s2, [])"
    "wrote w1 (header_bytes ?h) w2 o2 s2" by (rule write_obliging [OF wroteD [OF p(2)]])
  obtain w3 o3 s3 where e2: "ef_bio_write [] w2 s2 (replicate 8 0) = Some (int (length (replicate 8 0 :: byte list)), w3, o3, s3, [])"
    "wrote w2 (replicate 8 0) w3 o3 s3" by (rule write_obliging [OF wroteD [OF e1(2)]])
  obtain r w4 s4 where f: "ef_bio_writer_flush w3 s3 = Some (r, w4, bw_held w3, s4)" by (rule flush_obliging [OF wroteD [OF e2(2)]])
  have "wrote w (concat (map (enc_record FCGI_STDOUT ?rid) chunks) @ header_bytes ?h @ replicate 8 0) w3 (o1 @ o2 @ o3) s3"
    by (rule wrote_trans [OF p(2) wrote_trans [OF e1(2) e2(2)]])
  then have out: "o1 @ o2 @ o3 @ bw_held w3 = concat (map (enc_record FCGI_STDOUT ?rid) chunks) @ enc_record FCGI_END_REQUEST ?rid (replicate 8 0, 0)"
    using w(3) by (simp add: wrote_def end_record)
  have "fcgi_write_response [] scr fd response False = Some (0, o1 @ o2 @ o3 @ bw_held w3, [], s4, [])"
    unfolding fcgi_write_response_def b0(1) using hp(4) b1(1) b2(1) w(1) assms(1,3) p(1) e1(1) e2(1) f
    by (simp add: n_def Let_def)
  then show ?thesis unfolding out using p(3,4) hp(2,3) by blast
qed

text \<open>A response with one header and a body of two bytes.\<close>

definition sample_headers :: ef_headertab where
  "sample_headers = fst (snd (the (ef_headertab_set [] sample_headertab [104] 1 (Some [49, 0]) 0)))"

definition sample_response :: fcgi_response where
  "sample_response =
     \<lparr>rs_request = Some \<lparr>rq_request_id = 7, rq_role = 1, rq_flags = 0, rq_params = None, rq_data = None\<rparr>,
      rs_headers = Some sample_headers, rs_data = Some \<lparr>eb_ptr = Some [120, 121], eb_cap = 2, eb_len = 2\<rparr>\<rparr>"

lemma sample_headers_inv: "hd_inv sample_headers" "hd_map sample_headers = [[104] \<mapsto> [[49]]]"
proof -
  have set: "map_option (\<lambda>r. fst r = None) (ef_headertab_set [] sample_headertab [104] 1 (Some [49, 0]) 0) = Some False" by code_simp
  have key: "key_ok [104] 1" by (simp add: key_ok_def)
  have "hd_inv sample_headers \<and> hd_map sample_headers = [[104] \<mapsto> [[49]]]"
  proof (rule ef_headertab_set_cases [OF sample_headertab_inv(1) key sample_value, of "[]"])
    fix s tb' dead m' assume s: "ef_headertab_set [] sample_headertab [104] 1 (Some [49, 0]) 0 = Some (Some s, tb', dead, m')"
      "hd_inv tb'" "hd_map tb' = (hd_map sample_headertab)(take 1 [104] \<mapsto> [arg_bytes (Some [49, 0]) 0])"
    have "arg_bytes (Some [49, 0]) 0 = [49]" by code_simp
    with s sample_headertab_inv(2) show ?thesis by (simp add: sample_headers_def)
  qed (use set in simp)
  then show "hd_inv sample_headers" "hd_map sample_headers = [[104] \<mapsto> [[49]]]" by auto
qed

lemma sample_pairs: "header_pairs sample_headers = [([104], [49])]"
proof -
  note p = header_pairs_map(2,3) [OF sample_headers_inv(1)]
  have "set (header_pairs sample_headers) = {([104], [49])}" using p(2) by (auto simp: sample_headers_inv(2) split: if_splits)
  with p(1) show ?thesis
    by (cases "header_pairs sample_headers"; cases "tl (header_pairs sample_headers)") (auto simp: insert_eq_iff)
qed

theorem response_on_the_wire_witness:
  "\<exists>chunks scr'. fcgi_write_response [] [Took 3, Refuse (- 1) EINTR] 5 sample_response False =
      Some (0, concat (map (enc_record FCGI_STDOUT 7) chunks) @ enc_record FCGI_END_REQUEST 7 (replicate 8 0, 0), [], scr', []) \<and>
    (\<exists>hs. set hs = {([104], [49])} \<and> concat (map fst chunks) = concat (map line_text hs) @ [13, 10, 120, 121])"
proof -
  have d: "rs_headers sample_response = Some sample_headers" "eb_inv \<lparr>eb_ptr = Some [120, 121], eb_cap = 2, eb_len = 2\<rparr>"
    by (simp_all add: sample_response_def eb_inv_def eb_block_def)
  have hs: "{(k, v). hd_map sample_headers k = Some [v]} = {([104], [49])}"
    by (auto simp: sample_headers_inv(2) split: if_splits)
  from response_on_the_wire [OF d(1) sample_headers_inv(1), of _ "[Took 3, Refuse (- 1) EINTR]" 5] d(2) sample_pairs
  show ?thesis unfolding hs
    by (auto simp: sample_response_def line_text_def eb_bytes_def eb_block_def)
qed

end
