(* ===== verification/CStrings.thy ===== *)
theory CStrings
  imports CMemory
begin

text \<open>
  The functions of \<^verbatim>\<open>string.h\<close> the two text clients use, on the bytes from a pointer to the
  end of its block.  The outer \<open>None\<close> is an access behind the block.
\<close>

section \<open>Searching\<close>

text \<open>\<^verbatim>\<open>strstr(p, "\r\n")\<close>: \<open>Some None\<close> is NULL, otherwise the distance to the match.\<close>

fun find_crlf :: "byte list \<Rightarrow> nat option option" where
  "find_crlf [] = None"
| "find_crlf (c # s) =
     (if c = 0 then Some None
      else if c = 13 \<and> s = [] then None
      else if c = 13 \<and> hd s = 10 then Some (Some 0)
      else map_option (map_option Suc) (find_crlf s))"

text \<open>\<^verbatim>\<open>strstr(p, "x")\<close> for a string of one character.\<close>

fun find_char :: "byte \<Rightarrow> byte list \<Rightarrow> nat option option" where
  "find_char x [] = None"
| "find_char x (c # s) =
     (if c = 0 then Some None
      else if c = x then Some (Some 0)
      else map_option (map_option Suc) (find_char x s))"

lemma find_crlf_line: "0 \<notin> set s \<Longrightarrow> 13 \<notin> set s \<Longrightarrow> find_crlf (s @ 13 # 10 # t) = Some (Some (length s))"
  by (induction s) auto

lemma find_char_at: "0 \<notin> set s \<Longrightarrow> x \<notin> set s \<Longrightarrow> x \<noteq> 0 \<Longrightarrow> find_char x (s @ x # t) = Some (Some (length s))"
  by (induction s) auto

lemma find_crlf_SomeD: "find_crlf s = Some (Some p) \<Longrightarrow> p + 2 \<le> length s \<and> s ! p = 13 \<and> s ! (p + 1) = 10"
proof (induction s arbitrary: p)
  case (Cons c s)
  then show ?case by (cases s) (auto split: if_splits)
qed simp

section \<open>Copying\<close>

text \<open>
  The \<open>n\<close> bytes \<^verbatim>\<open>strncpy\<close> writes: the source up to a NUL, then zeros.  Where the two areas
  overlap, which the C library forbids, this is the copy byte by byte from the front.
\<close>

definition strncpy :: "byte list \<Rightarrow> nat \<Rightarrow> byte list option" where
  "strncpy src n =
     (let d = takeWhile (\<lambda>c. c \<noteq> 0) (take n src)
      in if length d = length src \<and> length src < n then None
         else Some (d @ replicate (n - length d) 0))"

text \<open>\<^verbatim>\<open>strcpy\<close> and \<^verbatim>\<open>strcat\<close> into the block \<open>b\<close> at \<open>off\<close>.\<close>

definition strcpy :: "byte list \<Rightarrow> nat \<Rightarrow> byte list \<Rightarrow> byte list option" where
  "strcpy b off src = do { k \<leftarrow> strlen src; write_block b off (take (Suc k) src) }"

definition strcat :: "byte list \<Rightarrow> nat \<Rightarrow> byte list \<Rightarrow> byte list option" where
  "strcat b off src =
     do { n \<leftarrow> strlen (drop off b); k \<leftarrow> strlen src; write_block b (off + n) (take (Suc k) src) }"

definition strcmp_equal :: "byte list \<Rightarrow> byte list \<Rightarrow> bool option" where
  "strcmp_equal s t =
     do { n \<leftarrow> strlen s; k \<leftarrow> strlen t; Some (take n s = take k t) }"

lemma strncpy_all: "0 \<notin> set s \<Longrightarrow> strncpy (s @ t) (length s) = Some s"
proof -
  assume "0 \<notin> set s"
  then have s: "takeWhile (\<lambda>c. c \<noteq> 0) s = s" by (auto simp: takeWhile_eq_all_conv)
  show ?thesis by (simp add: strncpy_def s Let_def)
qed


end
