(* ===== verification/EfRedis.thy ===== *)
theory EfRedis
  imports EfBufferio EfVector CStrings
begin

text \<open>
  \<^verbatim>\<open>redis.c\<close>: a client of the redis protocol.  A reply is read into a buffer of 1024 bytes
  in the connection and parsed in place; \<^verbatim>\<open>seek\<close> and \<^verbatim>\<open>end\<close> delimit what is still to be
  parsed.  The descriptor is a script of responses, as for the buffered reader, and the loops
  that wait for more input may not end: they have fuel.
\<close>

section \<open>State and replies\<close>

definition RES_BUFSIZE :: u64 where "RES_BUFSIZE = 1024"
definition DEFAULT_PORT :: int where "DEFAULT_PORT = 6379"
definition DEFAULT_HOST :: "byte list" where "DEFAULT_HOST = [49, 50, 55, 46, 48, 46, 48, 46, 49]"

record ef_redis_connection =
  rc_port :: int
  rc_host :: "byte list"
  rc_sockfd :: int
  rc_buf :: "byte list"
  rc_seek :: u64
  rc_end :: u64

text \<open>A reply, by its type: the union holds the matching member.  A string keeps its length.\<close>

datatype ef_redis_reply =
    Reply_null
  | Reply_long int
  | Reply_str "byte list" int
  | Reply_err "byte list option" "byte list"
  | Reply_arr "ef_redis_reply slot list"

section \<open>Reading more\<close>

definition reply_read_more ::
    "ef_redis_connection \<Rightarrow> resp list \<Rightarrow> (int \<times> ef_redis_connection \<times> resp list) option" where
  "reply_read_more con inp =
     do { let copylen = rc_end con - rc_seek con;
          buf \<leftarrow> (if copylen > 0
                   then do { check (unat (rc_seek con) \<le> length (rc_buf con));
                             d \<leftarrow> strncpy (drop (unat (rc_seek con)) (rc_buf con)) (unat copylen);
                             write_block (rc_buf con) 0 d }
                   else Some (rc_buf con));
          let con = con\<lparr>rc_buf := buf, rc_seek := 0, rc_end := copylen\<rparr>;
          let (r, errno, d, inp) = wrap_read inp (unat (RES_BUFSIZE - rc_end con));
          buf \<leftarrow> write_block (rc_buf con) (unat (rc_end con)) d;
          let con = con\<lparr>rc_buf := buf\<rparr>;
          if r < 0 then Some (r, con, inp)
          else Some (0, con\<lparr>rc_end := rc_end con + of_int r\<rparr>, inp) }"

text \<open>
  The loop that waits for the end of a line; \<open>off\<close> is the offset of the pointer \<^verbatim>\<open>buf\<close>.  The
  result is its offset and the distance of the end of the line, or nothing when a read failed.
\<close>

fun await_line ::
    "nat \<Rightarrow> ef_redis_connection \<Rightarrow> resp list \<Rightarrow> nat \<Rightarrow> ((nat \<times> nat) option \<times> ef_redis_connection \<times> resp list) option" where
  "await_line fuel con inp off =
     do { pos \<leftarrow> find_crlf (drop off (rc_buf con));
          case pos of
            Some p \<Rightarrow> Some (Some (off, p), con, inp)
          | None \<Rightarrow>
              (case fuel of
                 0 \<Rightarrow> None
               | Suc fuel \<Rightarrow>
                   do { (r, con, inp) \<leftarrow> reply_read_more con inp;
                        if r < 0 then Some (None, con, inp) else await_line fuel con inp 0 }) }"

section \<open>Numbers\<close>

definition fits :: "nat \<Rightarrow> int \<Rightarrow> bool" where
  "fits w x \<longleftrightarrow> - (2 ^ (w - 1)) \<le> x \<and> x < 2 ^ (w - 1)"

text \<open>
  The digits up to \<open>'\r'\<close>, with the order of the additions of each loop; the second also
  counts them.
\<close>

fun len_loop :: "byte list \<Rightarrow> int \<Rightarrow> int option" where
  "len_loop [] n = None"
| "len_loop (c # s) n =
     (if c = 13 then Some n
      else do { check (fits 32 (n * 10) \<and> fits 32 (n * 10 + (sint c - 48)));
                len_loop s (n * 10 + (sint c - 48)) })"

fun long_loop :: "byte list \<Rightarrow> int \<Rightarrow> (int \<times> nat) option" where
  "long_loop [] n = None"
| "long_loop (c # s) n =
     (if c = 13 then Some (n, 0)
      else do { check (fits 64 (n * 10) \<and> fits 64 (n * 10 + sint c) \<and> fits 64 (n * 10 + sint c - 48));
                (n, k) \<leftarrow> long_loop s (n * 10 + sint c - 48);
                Some (n, Suc k) })"

definition parse_len :: "byte list \<Rightarrow> int option" where
  "parse_len res =
     do { c \<leftarrow> cell_get res 0;
          if c \<noteq> 36 \<and> c \<noteq> 42 then Some (- 1)
          else do { d \<leftarrow> cell_get res 1;
                    if d = 45 then Some (- 1)
                    else len_loop (drop 1 res) 0 } }"

text \<open>A parser returns NULL or a reply; all of them take the offset of \<^verbatim>\<open>buf\<close>.\<close>

definition parse_long ::
    "nat \<Rightarrow> mem \<Rightarrow> ef_redis_connection \<Rightarrow> resp list \<Rightarrow> nat \<Rightarrow>
     (ef_redis_reply option \<times> mem \<times> ef_redis_connection \<times> resp list) option" where
  "parse_long fuel m con inp off =
     (let (ok, m) = malloc_obj m
      in if \<not> ok then Some (None, m, con, inp)
         else do { (line, con, inp) \<leftarrow> await_line fuel con inp off;
                   case line of
                     None \<Rightarrow> Some (None, m, con, inp)
                   | Some (off, p) \<Rightarrow>
                       do { (n, k) \<leftarrow> long_loop (drop (off + 1) (rc_buf con)) 0;
                            Some (Some (Reply_long n), m, con\<lparr>rc_seek := rc_seek con + of_nat (k + 1) + 2\<rparr>, inp) } })"

section \<open>Strings\<close>

text \<open>The loop of \<^verbatim>\<open>parse_string\<close> when the content has not all arrived; \<open>done\<close> is \<^verbatim>\<open>read\<close>.\<close>

fun string_loop ::
    "nat \<Rightarrow> ef_redis_connection \<Rightarrow> resp list \<Rightarrow> byte list \<Rightarrow> u64 \<Rightarrow> u64 \<Rightarrow>
     (byte list option \<times> ef_redis_connection \<times> resp list) option" where
  "string_loop 0 con inp content done n = None"
| "string_loop (Suc fuel) con inp content done n =
     (if done < n
      then do {
        (r, con, inp) \<leftarrow> reply_read_more con inp;
        if r < 0 then Some (None, con, inp)
        else let got = rc_end con - rc_seek con
        in if got + done < n
           then do { d \<leftarrow> strncpy (rc_buf con) (unat got);
                     content \<leftarrow> write_block content (unat done) d;
                     string_loop fuel (con\<lparr>rc_seek := rc_end con\<rparr>) inp content (done + got) n }
           else do { d \<leftarrow> strncpy (rc_buf con) (unat (n - done));
                     content \<leftarrow> write_block content (unat done) d;
                     Some (Some content, con\<lparr>rc_seek := rc_seek con + (n - done)\<rparr>, inp) } }
      else Some (Some content, con, inp))"

definition parse_string ::
    "nat \<Rightarrow> mem \<Rightarrow> ef_redis_connection \<Rightarrow> resp list \<Rightarrow> nat \<Rightarrow> u64 \<Rightarrow>
     (ef_redis_reply option \<times> mem \<times> ef_redis_connection \<times> resp list) option" where
  "parse_string fuel m con inp off n =
     (let (ok, m) = malloc_obj m
      in if \<not> ok then Some (None, m, con, inp)
         else if n = - 1 then Some (Some Reply_null, m, con, inp)
         else let (ok, m) = malloc_obj m
              in if \<not> ok then Some (None, m, con, inp)
                 else case malloc_bytes m (unat n) of
                        (None, m) \<Rightarrow> Some (None, m, con, inp)
                      | (Some content, m) \<Rightarrow>
                          do { (content, con, inp) \<leftarrow>
                                 (if rc_end con - rc_seek con < n
                                  then do { let got = rc_end con - rc_seek con;
                                            d \<leftarrow> strncpy (drop off (rc_buf con)) (unat got);
                                            content \<leftarrow> write_block content 0 d;
                                            string_loop fuel (con\<lparr>rc_seek := rc_seek con + got\<rparr>) inp content got n }
                                  else do { d \<leftarrow> strncpy (drop off (rc_buf con)) (unat n);
                                            content \<leftarrow> write_block content 0 d;
                                            Some (Some content, con\<lparr>rc_seek := rc_seek con + n + 2\<rparr>, inp) });
                               case content of
                                 None \<Rightarrow> Some (None, m, con, inp)
                               | Some content \<Rightarrow> Some (Some (Reply_str content (int_of_size n)), m, con, inp) })"

definition parse_single_string ::
    "nat \<Rightarrow> mem \<Rightarrow> ef_redis_connection \<Rightarrow> resp list \<Rightarrow> nat \<Rightarrow>
     (ef_redis_reply option \<times> mem \<times> ef_redis_connection \<times> resp list) option" where
  "parse_single_string fuel m con inp off =
     do { (line, con, inp) \<leftarrow> await_line fuel (con\<lparr>rc_seek := rc_seek con + 1\<rparr>) inp (off + 1);
          case line of
            None \<Rightarrow> Some (None, m, con, inp)
          | Some (off, p) \<Rightarrow> parse_string fuel m con inp off (of_nat p) }"

definition parse_bulk_string ::
    "nat \<Rightarrow> mem \<Rightarrow> ef_redis_connection \<Rightarrow> resp list \<Rightarrow> nat \<Rightarrow>
     (ef_redis_reply option \<times> mem \<times> ef_redis_connection \<times> resp list) option" where
  "parse_bulk_string fuel m con inp off =
     do { (line, con, inp) \<leftarrow> await_line fuel con inp off;
          case line of
            None \<Rightarrow> Some (None, m, con, inp)
          | Some (off, p) \<Rightarrow>
              do { n \<leftarrow> parse_len (drop off (rc_buf con));
                   parse_string fuel m (con\<lparr>rc_seek := rc_seek con + of_nat (p + 2)\<rparr>) inp (off + p + 2) (of_int n) } }"

section \<open>Errors\<close>

text \<open>
  \<^verbatim>\<open>parse_error\<close>: the two strings are allocated without room for their NUL.  A line without a
  space leaves \<^verbatim>\<open>pos\<close> NULL, and the pointer made from it is followed.
\<close>

definition parse_error ::
    "nat \<Rightarrow> mem \<Rightarrow> ef_redis_connection \<Rightarrow> resp list \<Rightarrow> nat \<Rightarrow>
     (ef_redis_reply option \<times> mem \<times> ef_redis_connection \<times> resp list) option" where
  "parse_error fuel m con inp off =
     (let (ok, m) = malloc_obj m
      in if \<not> ok then Some (None, m, con, inp)
         else do {
           (line, con, inp) \<leftarrow> await_line fuel con inp off;
           case line of
             None \<Rightarrow> Some (None, m, con, inp)
           | Some (off, p) \<Rightarrow>
               let (ok, m) = malloc_obj m
               in if \<not> ok then Some (None, m, con, inp)
                  else do {
                    let buf = drop off (rc_buf con);
                    sp \<leftarrow> find_char 32 buf;
                    pos \<leftarrow> sp;
                    check (1 \<le> pos);
                    let (type, m) = malloc_bytes m (pos - 1);
                    type \<leftarrow> (case type of
                               None \<Rightarrow> Some None
                             | Some t \<Rightarrow>
                                 do { d \<leftarrow> strncpy (drop 1 buf) (pos - 1);
                                      t \<leftarrow> write_block t 0 d;
                                      t \<leftarrow> cell_set t (pos - 1) 0;
                                      Some (Some t) });
                    let start = pos + 1 + length (takeWhile (\<lambda>c. c = 32) (drop (pos + 1) buf));
                    check (start < length buf);
                    check (start \<le> p);
                    let (errinfo, m) = malloc_bytes m (p - start);
                    e \<leftarrow> errinfo;
                    d \<leftarrow> strncpy (drop start buf) (p - start);
                    e \<leftarrow> write_block e 0 d;
                    e \<leftarrow> cell_set e (p - start) 0;
                    Some (Some (Reply_err type e), m, con, inp) } })"

section \<open>Arrays\<close>

text \<open>
  The loop of \<^verbatim>\<open>parse_array\<close> that waits for the first line: it tests a pointer it never
  computes again, so it ends only when a read fails.
\<close>

fun array_wait ::
    "nat \<Rightarrow> ef_redis_connection \<Rightarrow> resp list \<Rightarrow> (ef_redis_connection \<times> resp list) option" where
  "array_wait 0 con inp = None"
| "array_wait (Suc fuel) con inp =
     do { (r, con, inp) \<leftarrow> reply_read_more con inp;
          if r < 0 then Some (con, inp) else array_wait fuel con inp }"

definition to_slot :: "'a option \<Rightarrow> 'a slot" where
  "to_slot x = (case x of None \<Rightarrow> Null | Some a \<Rightarrow> Ptr a)"

text \<open>
  The elements are parsed one after the other; an element of any other type leaves its place as
  it was, and the next one is looked for at the same byte.
\<close>

function (sequential) parse_array ::
    "nat \<Rightarrow> mem \<Rightarrow> ef_redis_connection \<Rightarrow> resp list \<Rightarrow> nat \<Rightarrow>
     (ef_redis_reply option \<times> mem \<times> ef_redis_connection \<times> resp list) option"
  and elements ::
    "nat \<Rightarrow> mem \<Rightarrow> ef_redis_connection \<Rightarrow> resp list \<Rightarrow> nat \<Rightarrow> ef_redis_reply slot list \<Rightarrow> nat \<Rightarrow> nat \<Rightarrow>
     (ef_redis_reply slot list \<times> mem \<times> ef_redis_connection \<times> resp list) option" where
  "parse_array fuel m con inp off =
     (case fuel of
        0 \<Rightarrow> None
      | Suc fuel \<Rightarrow>
          let (ok, m) = malloc_obj m
          in if \<not> ok then Some (None, m, con, inp)
             else do {
               pos \<leftarrow> find_crlf (drop off (rc_buf con));
               case pos of
                 None \<Rightarrow> do { (con, inp) \<leftarrow> array_wait fuel con inp; Some (None, m, con, inp) }
               | Some p \<Rightarrow>
                   do { repnum \<leftarrow> parse_len (drop off (rc_buf con));
                        let con = con\<lparr>rc_seek := rc_seek con + of_nat (p + 2)\<rparr>;
                        let (ok, m) = malloc_obj m;
                        if \<not> ok then Some (None, m, con, inp)
                        else if repnum = - 1 then Some (Some Reply_null, m, con, inp)
                        else let (elem, m) = malloc_slots m (unat (of_int repnum * 8 :: u64))
                        in case elem of
                             None \<Rightarrow> Some (None, m, con, inp)
                           | Some elem \<Rightarrow>
                               do { (elem, m, con, inp) \<leftarrow> elements fuel m con inp (off + p + 2) elem 0 (nat repnum);
                                    Some (Some (Reply_arr elem), m, con, inp) } } })"
| "elements fuel m con inp off elem i 0 = Some (elem, m, con, inp)"
| "elements fuel m con inp off elem i (Suc left) =
     do { c \<leftarrow> cell_get (rc_buf con) off;
          if c = 36 \<or> c = 58 \<or> c = 42
          then do { (r, m, con, inp) \<leftarrow>
                      (if c = 36 then parse_bulk_string fuel m con inp off
                       else if c = 58 then parse_long fuel m con inp off
                       else parse_array fuel m con inp off);
                    elem \<leftarrow> cell_set elem i (to_slot r);
                    elements fuel m con inp (unat (rc_seek con)) elem (Suc i) left }
          else elements fuel m con inp off elem (Suc i) left }"
  by pat_completeness auto
termination
  by (relation "measures [\<lambda>x. case x of Inl (fuel, _) \<Rightarrow> 2 * fuel | Inr (fuel, _) \<Rightarrow> 2 * fuel + 1,
                          \<lambda>x. case x of Inl _ \<Rightarrow> 0 | Inr (_, _, _, _, _, _, _, left) \<Rightarrow> left]") auto

declare parse_array.simps [simp del] elements.simps [simp del]

section \<open>Replies\<close>

definition ef_redis_read_reply ::
    "nat \<Rightarrow> mem \<Rightarrow> ef_redis_connection \<Rightarrow> resp list \<Rightarrow>
     (ef_redis_reply option \<times> mem \<times> ef_redis_connection \<times> resp list) option" where
  "ef_redis_read_reply fuel m con inp =
     do { let (r, errno, d, inp) = wrap_read inp (unat RES_BUFSIZE);
          buf \<leftarrow> write_block (rc_buf con) 0 d;
          let con = con\<lparr>rc_buf := buf\<rparr>;
          if r < 0 then Some (None, m, con, inp)
          else do {
            let con = con\<lparr>rc_end := of_int r, rc_seek := 0\<rparr>;
            c \<leftarrow> cell_get (rc_buf con) 0;
            if c = 45 then parse_error fuel m con inp 0
            else if c = 43 then parse_single_string fuel m con inp 0
            else if c = 58 then parse_long fuel m con inp 0
            else if c = 42 then parse_array fuel m con inp 0
            else if c = 36 then parse_bulk_string fuel m con inp 0
            else Some (None, m, con, inp) } }"

text \<open>
  Freeing: the blocks of the member of the union that goes with the type, and the reply; the
  results of freeing the elements are ignored.  An element that was never written is a wild
  pointer.  The value counts the blocks freed; the code returns 0.
\<close>

function (sequential) ef_redis_free_reply :: "ef_redis_reply slot \<Rightarrow> nat option"
  and free_reply_arr :: "ef_redis_reply slot list \<Rightarrow> nat option" where
  "ef_redis_free_reply Uninit = None"
| "ef_redis_free_reply Null = Some 0"
| "ef_redis_free_reply (Ptr Reply_null) = Some 1"
| "ef_redis_free_reply (Ptr (Reply_long d)) = Some 1"
| "ef_redis_free_reply (Ptr (Reply_str buf len)) = Some 3"
| "ef_redis_free_reply (Ptr (Reply_err type err)) = Some (if type = None then 3 else 4)"
| "ef_redis_free_reply (Ptr (Reply_arr elem)) = map_option (\<lambda>n. n + 3) (free_reply_arr elem)"
| "free_reply_arr [] = Some 0"
| "free_reply_arr (e # es) =
     do { n \<leftarrow> ef_redis_free_reply e; k \<leftarrow> free_reply_arr es; Some (n + k) }"
  by pat_completeness auto
termination
  by (relation "measure (\<lambda>x. case x of Inl e \<Rightarrow> size_slot size e | Inr es \<Rightarrow> size_list (size_slot size) es)") auto

section \<open>Connections and commands\<close>

text \<open>
  The descriptor, what \<^verbatim>\<open>end\<close> holds in new memory, and \<^verbatim>\<open>connect\<close> as a function of the
  descriptor and the address are arguments.
\<close>

definition ef_redis_connect ::
    "mem \<Rightarrow> byte list option \<Rightarrow> int \<Rightarrow> int \<Rightarrow> u64 \<Rightarrow> (int \<Rightarrow> byte list \<Rightarrow> int \<Rightarrow> int) \<Rightarrow>
     (ef_redis_connection option \<times> mem) option" where
  "ef_redis_connect m host port sockfd junk connect =
     do { let (ok, m) = malloc_obj m;
          check ok;
          let (buf, m) = malloc_bytes m (unat RES_BUFSIZE);
          case buf of
            None \<Rightarrow> Some (None, m)
          | Some buf \<Rightarrow>
              let host = (case host of None \<Rightarrow> DEFAULT_HOST | Some h \<Rightarrow> h);
                  port = (if port = 0 then DEFAULT_PORT else port)
              in if connect sockfd host port < 0 then Some (None, m)
                 else Some (Some \<lparr>rc_port = port, rc_host = host, rc_sockfd = sockfd,
                                  rc_buf = buf, rc_seek = 0, rc_end = junk\<rparr>, m) }"

text \<open>The result and the descriptor closed.\<close>

definition ef_redis_close :: "ef_redis_connection \<Rightarrow> int \<times> int" where
  "ef_redis_close con = (0, rc_sockfd con)"

text \<open>
  A command: what \<^verbatim>\<open>vsprintf\<close> makes of the format (its error or the bytes) and the stale array
  of 1024 bytes on the stack are arguments.
\<close>

definition ef_redis_cmd ::
    "byte list \<Rightarrow> int + byte list \<Rightarrow> wresp list \<Rightarrow> (int \<times> byte list \<times> wresp list) option" where
  "ef_redis_cmd frame text scr =
     (case text of
        Inl cmdlen \<Rightarrow> Some (cmdlen, [], scr)
      | Inr text \<Rightarrow>
          do { cmd \<leftarrow> write_block frame 0 (text @ [0]);
               n \<leftarrow> strlen cmd;
               cmd \<leftarrow> write_block cmd n [13, 10, 0];
               data \<leftarrow> read_block cmd 0 (length text + 2);
               let (res, errno, sent, scr) = wrap_write scr data;
               Some (res, sent, scr) })"

definition ef_redis_get ::
    "nat \<Rightarrow> mem \<Rightarrow> ef_redis_connection \<Rightarrow> byte list \<Rightarrow> byte list \<Rightarrow> wresp list \<Rightarrow> resp list \<Rightarrow>
     (ef_redis_reply option \<times> byte list \<times> mem \<times> ef_redis_connection \<times> resp list) option" where
  "ef_redis_get fuel m con frame key scr inp =
     do { (res, sent, scr) \<leftarrow> ef_redis_cmd frame (Inr ([71, 69, 84, 32] @ takeWhile (\<lambda>c. c \<noteq> 0) key)) scr;
          if res < 0 then Some (None, sent, m, con, inp)
          else do { (rep, m, con, inp) \<leftarrow> ef_redis_read_reply fuel m con inp;
                    Some (rep, sent, m, con, inp) } }"

end
