(* ===== verification/RedisCorrect.thy ===== *)
theory RedisCorrect
  imports EfRedis EfBasic
begin

text \<open>
  What the redis client makes of a reply: the reference encoding of a reply, and that a reply
  which arrives in one piece is read back exactly; what happens to the replies for which the
  parser is wrong.
\<close>

section \<open>The reference encoding\<close>

datatype rvalue = RNull | RNull_array | RInt nat | RBulk "byte list" | RArray "rvalue list"

fun decimal :: "nat \<Rightarrow> byte list" where
  "decimal n = (if n < 10 then [of_int (48 + int n)] else decimal (n div 10) @ [of_int (48 + int (n mod 10))])"

declare decimal.simps [simp del]

fun encode :: "rvalue \<Rightarrow> byte list" where
  "encode RNull = [36, 45, 49, 13, 10]"
| "encode RNull_array = [42, 45, 49, 13, 10]"
| "encode (RInt n) = [58] @ decimal n @ [13, 10]"
| "encode (RBulk s) = [36] @ decimal (length s) @ [13, 10] @ s @ [13, 10]"
| "encode (RArray vs) = [42] @ decimal (length vs) @ [13, 10] @ concat (map encode vs)"

fun reply_of :: "rvalue \<Rightarrow> ef_redis_reply" where
  "reply_of RNull = Reply_null"
| "reply_of RNull_array = Reply_null"
| "reply_of (RInt n) = Reply_long (int n)"
| "reply_of (RBulk s) = Reply_str s (int (length s))"
| "reply_of (RArray vs) = Reply_arr (map (\<lambda>v. Ptr (reply_of v)) vs)"

text \<open>The numbers that fit, the strings C can hold, the nesting and the blocks allocated.\<close>

fun wf_value :: "rvalue \<Rightarrow> bool" where
  "wf_value (RInt n) = (int n + 48 < 2 ^ 63)"
| "wf_value (RBulk s) = (0 \<notin> set s)"
| "wf_value (RArray vs) = list_all wf_value vs"
| "wf_value _ = True"

fun depth :: "rvalue \<Rightarrow> nat" where
  "depth (RArray vs) = Suc (foldr max (map depth vs) 0)"
| "depth RNull_array = 1"
| "depth _ = 0"

fun blocks :: "rvalue \<Rightarrow> nat" where
  "blocks RNull = 1"
| "blocks RNull_array = 2"
| "blocks (RInt n) = 1"
| "blocks (RBulk s) = 3"
| "blocks (RArray vs) = 3 + sum_list (map blocks vs)"

fun null_arrays :: "rvalue \<Rightarrow> nat" where
  "null_arrays RNull_array = 1"
| "null_arrays (RArray vs) = sum_list (map null_arrays vs)"
| "null_arrays _ = 0"

section \<open>Numbers\<close>

lemma sint_dec_digit: "d < 10 \<Longrightarrow> sint (of_int (48 + int d) :: byte) = 48 + int d"
  by (rule sint_of_int_small) simp_all

lemma decimal_digits: "c \<in> set (decimal n) \<Longrightarrow> 48 \<le> sint c \<and> sint c \<le> 57"
proof (induction n rule: decimal.induct)
  case (1 n)
  have "n mod 10 < 10" by simp
  from "1.prems" "1.IH" sint_dec_digit [of n] sint_dec_digit [OF this] show ?case
    by (subst (asm) decimal.simps) (auto split: if_splits simp del: of_int_add)
qed

lemma digit_value_of_dec [simp]: "d < 10 \<Longrightarrow> digit_value (of_int (48 + int d)) = int d"
  by (simp only: digit_value_def sint_dec_digit)

lemma decimal_value: "digits_value 10 (decimal n) = int n"
proof (induction n rule: decimal.induct)
  case (1 n)
  show ?case
  proof (cases "n < 10")
    case True
    have "digits_value 10 ([] @ [of_int (48 + int n)]) = int n"
      unfolding digits_value_snoc digit_value_of_dec [OF True] by simp
    then show ?thesis using True by (subst decimal.simps) simp
  next
    case False
    have m: "n mod 10 < 10" by simp
    have "int n = int (n div 10) * 10 + int (n mod 10)"
      by (metis div_mult_mod_eq of_nat_add of_nat_mult of_nat_numeral)
    moreover have "digits_value 10 (decimal n) = int (n div 10) * 10 + int (n mod 10)"
      using False "1.IH" unfolding decimal.simps [of n] if_not_P [OF False] digits_value_snoc digit_value_of_dec [OF m]
      by simp
    ultimately show ?thesis by simp
  qed
qed

definition digits :: "byte list \<Rightarrow> bool" where
  "digits ds \<longleftrightarrow> (\<forall>c \<in> set ds. 48 \<le> sint c \<and> sint c \<le> 57)"

lemma digits_Cons [simp]: "digits (c # ds) \<longleftrightarrow> 48 \<le> sint c \<and> sint c \<le> 57 \<and> digits ds"
  by (auto simp: digits_def)

lemma digits_decimal [simp]: "digits (decimal n)"
  using decimal_digits by (auto simp: digits_def)

lemma digits_not [simp]: "digits ds \<Longrightarrow> 0 \<notin> set ds" "digits ds \<Longrightarrow> 13 \<notin> set ds" "digits ds \<Longrightarrow> 45 \<notin> set ds"
  by (auto simp: digits_def)

lemma decimal_not_Nil [simp]: "decimal n \<noteq> []"
  by (subst decimal.simps) simp

definition number_from :: "int \<Rightarrow> byte list \<Rightarrow> int" where
  "number_from k ds = foldl (\<lambda>n c. n * 10 + digit_value c) k ds"

lemma number_from_simps [simp]:
  "number_from k [] = k" "number_from k (c # ds) = number_from (k * 10 + (sint c - 48)) ds"
  by (simp_all add: number_from_def digit_value_def)

lemma number_from_decimal [simp]: "number_from 0 (decimal n) = int n"
  using decimal_value [of n] by (simp add: number_from_def digits_value_def)

lemma number_from_ge: "digits ds \<Longrightarrow> 0 \<le> k \<Longrightarrow> k \<le> number_from k ds"
proof (induction ds arbitrary: k)
  case (Cons c ds)
  then have "k * 10 + (sint c - 48) \<le> number_from (k * 10 + (sint c - 48)) ds" by simp
  with Cons.prems show ?case by auto
qed simp

lemma len_loop_digits:
  "digits ds \<Longrightarrow> 0 \<le> k \<Longrightarrow> number_from k ds < 2 ^ 31 \<Longrightarrow> len_loop (ds @ 13 # t) k = Some (number_from k ds)"
proof (induction ds arbitrary: k)
  case (Cons c ds)
  then have ge: "k * 10 + (sint c - 48) \<le> number_from (k * 10 + (sint c - 48)) ds"
    by (intro number_from_ge) auto
  moreover have "c \<noteq> 13" using Cons.prems by auto
  moreover have "fits 32 (k * 10)" "fits 32 (k * 10 + (sint c - 48))"
    using Cons.prems ge by (auto simp: fits_def)
  ultimately show ?case using Cons by simp
qed simp

lemma long_loop_digits:
  "digits ds \<Longrightarrow> 0 \<le> k \<Longrightarrow> number_from k ds + 48 < 2 ^ 63 \<Longrightarrow>
   long_loop (ds @ 13 # t) k = Some (number_from k ds, length ds)"
proof (induction ds arbitrary: k)
  case (Cons c ds)
  then have ge: "k * 10 + (sint c - 48) \<le> number_from (k * 10 + (sint c - 48)) ds"
    by (intro number_from_ge) auto
  moreover have "c \<noteq> 13" using Cons.prems by auto
  moreover have "fits 64 (k * 10)" "fits 64 (k * 10 + sint c)" "fits 64 (k * 10 + sint c - 48)"
    using Cons.prems ge by (auto simp: fits_def)
  ultimately show ?case using Cons by (simp add: algebra_simps)
qed simp

lemma parse_len_decimal:
  assumes "b = 36 \<or> b = 42" "n < 2 ^ 31"
  shows "parse_len (b # decimal n @ 13 # t) = Some (int n)"
proof -
  have "cell_get (b # decimal n @ 13 # t) 1 = Some (hd (decimal n))"
    by (cases "decimal n") (simp_all add: cell_get_def)
  moreover have "hd (decimal n) \<noteq> 45"
    using digits_not(3) [OF digits_decimal, of n] hd_in_set [OF decimal_not_Nil, of n] by metis
  moreover have "len_loop (decimal n @ 13 # t) 0 = Some (int n)"
    using assms(2) len_loop_digits [of "decimal n" 0 t] by simp
  moreover have "cell_get (b # decimal n @ 13 # t) 0 = Some b" by (simp add: cell_get_def)
  ultimately show ?thesis
    using assms(1) by (auto simp: parse_len_def)
qed

section \<open>Lines and strings in the buffer\<close>

lemma await_line_here:
  assumes "drop off (rc_buf con) = s @ 13 # 10 # t" "0 \<notin> set s" "13 \<notin> set s"
  shows "await_line fuel con inp off = Some (Some (off, length s), con, inp)"
  using find_crlf_line [OF assms(2,3)] assms(1) by (subst await_line.simps) simp

definition granted :: "mem \<Rightarrow> bool" where
  "granted m \<longleftrightarrow> Refused \<notin> set m"

lemma granted_obj [simp]: "granted m \<Longrightarrow> malloc_obj m = (True, drop 1 m)"
  by (cases m; cases "hd m") (auto simp: malloc_obj_def granted_def)

lemma granted_bytes:
  "granted m \<Longrightarrow> \<exists>b. length b = n \<and> malloc_bytes m n = (Some b, drop 1 m)"
  by (cases m; cases "hd m") (auto simp: malloc_bytes_def granted_def)

lemma granted_drop [simp]: "granted m \<Longrightarrow> granted (drop k m)"
  by (auto simp: granted_def dest: in_set_dropD)

lemma granted_slots [simp]:
  "granted m \<Longrightarrow> malloc_slots m n = (Some (replicate (n div 8) Uninit), drop 1 m)"
  by (simp add: malloc_slots_def)

lemma rest_of_buffer:
  assumes "e < 2 ^ 64" "s \<le> e"
  shows "unat (of_nat e - of_nat s :: u64) = e - s"
proof -
  have "(of_nat e - of_nat s :: u64) = of_nat (e - s)" using assms(2) by (simp add: of_nat_diff)
  moreover have "unat (of_nat (e - s) :: u64) = e - s" using assms(1) by (intro unat_of_nat_small) simp
  ultimately show ?thesis by simp
qed

lemma int_of_size_nat: "n < 2 ^ 31 \<Longrightarrow> int_of_size (of_nat n) = int n"
proof -
  assume "n < 2 ^ 31"
  then have "(ucast (of_nat n :: u64) :: u32) = of_nat n" by (simp add: unsigned_of_nat take_bit_nat_eq_self)
  moreover have "sint (of_int (int n) :: u32) = int n" using \<open>n < 2 ^ 31\<close> by (intro sint_of_int_small) auto
  ultimately show ?thesis by (simp add: int_of_size_def)
qed

lemma parse_string_here:
  assumes buf: "drop off (rc_buf con) = s @ t" and "0 \<notin> set s" "granted m"
    and pos: "rc_seek con = of_nat off" "rc_end con = of_nat e" "off + length s \<le> e" "e < 2 ^ 31"
  shows "parse_string fuel m con inp off (of_nat (length s)) =
           Some (Some (Reply_str s (int (length s))), drop 3 m, con\<lparr>rc_seek := of_nat (off + length s + 2)\<rparr>, inp)"
proof -
  let ?n = "of_nat (length s) :: u64"
  have n: "unat ?n = length s" using pos by (simp add: unat_of_nat_small)
  have "unat (- 1 :: u64) = 2 ^ 64 - 1" by (simp add: unsigned_minus_1_eq_mask mask_eq_exp_minus_1)
  then have "?n \<noteq> - 1" using n pos by auto
  moreover have "unat (rc_end con - rc_seek con) = e - off" using pos by (simp add: rest_of_buffer)
  then have "\<not> rc_end con - rc_seek con < ?n" using n pos by (simp add: word_less_nat_alt)
  moreover obtain b where "length b = length s" "malloc_bytes (drop 2 m) (length s) = (Some b, drop 3 m)"
    using granted_bytes [OF granted_drop [OF assms(3)], of "length s" 2] by (auto simp: eval_nat_numeral)
  note this [unfolded numeral_2_eq_2 numeral_3_eq_3]
  moreover have "int_of_size ?n = int (length s)" using pos by (intro int_of_size_nat) simp
  ultimately show ?thesis
    using strncpy_all [OF assms(2)] n assms(3) pos(1)
    by (simp add: parse_string_def buf write_block_def add.commute add.left_commute numeral_2_eq_2 numeral_3_eq_3)
qed

section \<open>A value in the buffer\<close>

text \<open>The parser an array chooses for an element.\<close>

definition parse_at ::
    "nat \<Rightarrow> mem \<Rightarrow> ef_redis_connection \<Rightarrow> resp list \<Rightarrow> nat \<Rightarrow>
     (ef_redis_reply option \<times> mem \<times> ef_redis_connection \<times> resp list) option" where
  "parse_at fuel m con inp off =
     (let c = rc_buf con ! off
      in if c = 36 then parse_bulk_string fuel m con inp off
         else if c = 58 then parse_long fuel m con inp off
         else parse_array fuel m con inp off)"

lemma encode_hd: "\<exists>s. encode v = 36 # s \<or> encode v = 58 # s \<or> encode v = 42 # s"
  by (cases v) auto

definition value_at :: "ef_redis_connection \<Rightarrow> nat \<Rightarrow> byte list \<Rightarrow> bool" where
  "value_at con off d \<longleftrightarrow>
     (\<exists>t. drop off (rc_buf con) = d @ t) \<and> rc_seek con = of_nat off \<and>
     (\<exists>e. rc_end con = of_nat e \<and> off + length d \<le> e \<and> e < 2 ^ 31)"

lemma value_atE:
  assumes "value_at con off d"
  obtains t e where "drop off (rc_buf con) = d @ t" "rc_seek con = of_nat off"
    "rc_end con = of_nat e" "off + length d \<le> e" "e < 2 ^ 31"
  using assms by (auto simp: value_at_def)

lemma value_at_prefix: "value_at con off (d @ d') \<Longrightarrow> value_at con off d"
  by (fastforce simp: value_at_def)

lemma value_at_rest:
  assumes "value_at con off (d @ d')"
  shows "value_at (con\<lparr>rc_seek := of_nat (off + length d)\<rparr>) (off + length d) d'"
proof -
  from assms obtain t e where a: "drop off (rc_buf con) = (d @ d') @ t"
    "rc_end con = of_nat e" "off + length (d @ d') \<le> e" "e < 2 ^ 31" by (rule value_atE)
  have "drop (off + length d) (rc_buf con) = drop (length d) (drop off (rc_buf con))" by (simp add: add.commute)
  with a show ?thesis by (auto simp: value_at_def add.assoc)
qed

lemma parse_long_here:
  assumes "value_at con off (encode (RInt n))" "int n + 48 < 2 ^ 63" "granted m"
  shows "parse_long fuel m con inp off =
           Some (Some (Reply_long (int n)), drop 1 m, con\<lparr>rc_seek := of_nat (off + length (encode (RInt n)))\<rparr>, inp)"
proof -
  from assms(1) obtain t where d: "drop off (rc_buf con) = encode (RInt n) @ t" and s: "rc_seek con = of_nat off"
    by (rule value_atE)
  have "drop (off + 1) (rc_buf con) = drop 1 (drop off (rc_buf con))" by simp
  then have d1: "drop (off + 1) (rc_buf con) = decimal n @ 13 # 10 # t" using d by simp
  have "await_line fuel con inp off = Some (Some (off, length (58 # decimal n)), con, inp)"
    by (rule await_line_here [where t = t]) (use d in auto)
  moreover have "long_loop (decimal n @ 13 # 10 # t) 0 = Some (int n, length (decimal n))"
    using long_loop_digits [of "decimal n" 0 "10 # t"] assms(2) by simp
  ultimately show ?thesis using assms(3) s d1 by (simp add: parse_long_def add.commute add.left_commute)
qed

lemma parse_bulk_header:
  assumes "drop off (rc_buf con) = 36 # decimal k @ 13 # 10 # t" "rc_seek con = of_nat off" "k < 2 ^ 31"
  shows "parse_bulk_string fuel m con inp off =
           (let off = off + length (36 # decimal k @ [13, 10])
            in parse_string fuel m (con\<lparr>rc_seek := of_nat off\<rparr>) inp off (of_nat k))"
proof -
  have "await_line fuel con inp off = Some (Some (off, length (36 # decimal k)), con, inp)"
    by (rule await_line_here [where t = t]) (use assms(1) in auto)
  moreover have "parse_len (drop off (rc_buf con)) = Some (int k)"
    using parse_len_decimal [of 36 k] assms(1,3) by simp
  ultimately show ?thesis
    using assms(2) by (simp add: parse_bulk_string_def add.commute add.left_commute)
qed

lemma drop_header: "drop off b = h @ s \<Longrightarrow> drop (off + length h) b = s"
  by (metis add.commute append_eq_conv_conj drop_drop)

lemma parse_bulk_here:
  assumes "value_at con off (encode (RBulk s))" "0 \<notin> set s" "granted m"
  shows "parse_bulk_string fuel m con inp off =
           Some (Some (Reply_str s (int (length s))), drop 3 m,
                 con\<lparr>rc_seek := of_nat (off + length (encode (RBulk s)))\<rparr>, inp)"
proof -
  let ?h = "36 # decimal (length s) @ [13, 10]"
  let ?con = "con\<lparr>rc_seek := of_nat (off + length ?h)\<rparr>"
  from assms(1) obtain t e where d: "drop off (rc_buf con) = encode (RBulk s) @ t" and sk: "rc_seek con = of_nat off"
    and e: "rc_end con = of_nat e" "off + length (encode (RBulk s)) \<le> e" "e < 2 ^ 31"
    by (rule value_atE)
  have "drop (off + length ?h) (rc_buf ?con) = s @ 13 # 10 # t" using drop_header [of off _ ?h] d by simp
  then have "parse_string fuel m ?con inp (off + length ?h) (of_nat (length s)) =
      Some (Some (Reply_str s (int (length s))), drop 3 m, ?con\<lparr>rc_seek := of_nat (off + length ?h + length s + 2)\<rparr>, inp)"
    by (rule parse_string_here) (use assms e in auto)
  then show ?thesis
    using parse_bulk_header [of off con "length s" "s @ 13 # 10 # t" fuel m inp] d sk e
    by (simp add: Let_def add.commute add.left_commute)
qed

section \<open>Arrays\<close>

definition parses :: "nat \<Rightarrow> resp list \<Rightarrow> rvalue \<Rightarrow> bool" where
  "parses fuel inp v \<longleftrightarrow>
     (\<forall>m con off. value_at con off (encode v) \<longrightarrow> granted m \<longrightarrow>
        parse_at fuel m con inp off =
          Some (Some (reply_of v), drop (blocks v) m, con\<lparr>rc_seek := of_nat (off + length (encode v))\<rparr>, inp))"

lemma parsesD:
  "parses fuel inp v \<Longrightarrow> value_at con off (encode v) \<Longrightarrow> granted m \<Longrightarrow>
     parse_at fuel m con inp off =
       Some (Some (reply_of v), drop (blocks v) m, con\<lparr>rc_seek := of_nat (off + length (encode v))\<rparr>, inp)"
  by (simp add: parses_def)

lemma value_at_cell:
  assumes "value_at con off (encode v)"
  shows "\<exists>c. cell_get (rc_buf con) off = Some c \<and> rc_buf con ! off = c \<and> (c = 36 \<or> c = 58 \<or> c = 42)"
proof -
  from assms obtain t where d: "drop off (rc_buf con) = encode v @ t" by (rule value_atE)
  with encode_hd [of v] obtain c s where "drop off (rc_buf con) = c # s" "c = 36 \<or> c = 58 \<or> c = 42" by auto
  then have "off < length (rc_buf con)" "rc_buf con ! off = c"
    by (metis drop_eq_Nil list.distinct(1) not_le, metis Cons_nth_drop_Suc drop_eq_Nil list.distinct(1) list.inject not_le)
  with \<open>c = 36 \<or> c = 58 \<or> c = 42\<close> show ?thesis by simp
qed

lemma elements_here:
  assumes "\<forall>v \<in> set vs. parses fuel inp v" "value_at con off (concat (map encode vs))" "granted m"
  shows "elements fuel m con inp off (old @ replicate (length vs) Uninit) (length old) (length vs) =
           Some (old @ map (\<lambda>v. Ptr (reply_of v)) vs, drop (sum_list (map blocks vs)) m,
                 con\<lparr>rc_seek := of_nat (off + length (concat (map encode vs)))\<rparr>, inp)"
  using assms
proof (induction vs arbitrary: con off m old)
  case Nil
  then have "rc_seek con = of_nat off" by (auto elim: value_atE)
  then show ?case by (simp add: elements.simps)
next
  case (Cons v vs)
  let ?off = "off + length (encode v)"
  let ?con = "con\<lparr>rc_seek := of_nat ?off\<rparr>"
  have v: "value_at con off (encode v)" using Cons.prems(2) by (auto intro: value_at_prefix)
  have "parse_at fuel m con inp off = Some (Some (reply_of v), drop (blocks v) m, ?con, inp)"
    using parsesD [OF _ v Cons.prems(3)] Cons.prems(1) by simp
  moreover have rest: "value_at ?con ?off (concat (map encode vs))"
    by (rule value_at_rest) (use Cons.prems(2) in simp)
  moreover obtain c where "cell_get (rc_buf con) off = Some c" "rc_buf con ! off = c" "c = 36 \<or> c = 58 \<or> c = 42"
    using value_at_cell [OF v] by blast
  moreover have "unat (of_nat ?off :: u64) = ?off"
    using Cons.prems(2) by (intro unat_of_nat_small) (auto elim!: value_atE)
  moreover have "(old @ Uninit # replicate (length vs) Uninit)[length old := Ptr (reply_of v)] =
      (old @ [Ptr (reply_of v)]) @ replicate (length vs) Uninit" by (simp add: list_update_append)
  ultimately show ?case
    using Cons.IH [of ?con ?off "drop (blocks v) m" "old @ [Ptr (reply_of v)]"] Cons.prems
    by (auto simp: elements.simps parse_at_def to_slot_def add.assoc add.commute)
qed

lemma parse_array_header:
  assumes "drop off (rc_buf con) = 42 # decimal k @ 13 # 10 # t" "rc_seek con = of_nat off" "k < 2 ^ 31" "granted m"
  shows "parse_array (Suc fuel) m con inp off =
           (let off = off + length (42 # decimal k @ [13, 10])
            in do { (elem, m, con, inp) \<leftarrow>
                      elements fuel (drop 3 m) (con\<lparr>rc_seek := of_nat off\<rparr>) inp off (replicate k Uninit) 0 k;
                    Some (Some (Reply_arr elem), m, con, inp) })"
proof -
  have "find_crlf (drop off (rc_buf con)) = Some (Some (length (42 # decimal k)))"
    using find_crlf_line [of "42 # decimal k" t] assms(1) by simp
  moreover have "parse_len (drop off (rc_buf con)) = Some (int k)"
    using parse_len_decimal [of 42 k] assms(1,3) by simp
  moreover have "unat (of_int (int k) * 8 :: u64) div 8 = k"
  proof -
    have "unat (of_nat (k * 8) :: u64) = k * 8" using assms(3) by (intro unat_of_nat_small) simp
    then show ?thesis by (simp add: mult.commute)
  qed
  ultimately show ?thesis
    using assms(2,4)
    by (subst parse_array.simps) (simp add: add.commute add.left_commute numeral_2_eq_2 numeral_3_eq_3)
qed

lemma parse_array_here:
  assumes "\<forall>v \<in> set vs. parses fuel inp v" "value_at con off (encode (RArray vs))" "granted m"
  shows "parse_array (Suc fuel) m con inp off =
           Some (Some (reply_of (RArray vs)), drop (blocks (RArray vs)) m,
                 con\<lparr>rc_seek := of_nat (off + length (encode (RArray vs)))\<rparr>, inp)"
proof -
  let ?h = "42 # decimal (length vs) @ [13, 10]"
  let ?off = "off + length ?h"
  let ?con = "con\<lparr>rc_seek := of_nat ?off\<rparr>"
  let ?d = "concat (map encode vs)"
  have enc: "encode (RArray vs) = ?h @ ?d" by simp
  from assms(2) obtain t e where d: "drop off (rc_buf con) = encode (RArray vs) @ t"
    and sk: "rc_seek con = of_nat off" and e: "off + length (encode (RArray vs)) \<le> e" "e < 2 ^ 31"
    by (rule value_atE)
  have "length vs \<le> length ?d"
  proof -
    have "length vs = sum_list (map (\<lambda>v. 1) vs)" by (simp add: sum_list_triv)
    also have "\<dots> \<le> sum_list (map (\<lambda>v. length (encode v)) vs)"
      by (rule sum_list_mono) (use encode_hd in \<open>metis One_nat_def Suc_leI length_greater_0_conv list.distinct(1)\<close>)
    finally show ?thesis by (simp add: length_concat comp_def)
  qed
  then have "length vs < 2 ^ 31" using e by simp
  moreover have "value_at ?con ?off ?d" by (rule value_at_rest) (use assms(2) enc in simp)
  then have "elements fuel (drop 3 m) ?con inp ?off ([] @ replicate (length vs) Uninit) (length ([] :: ef_redis_reply slot list)) (length vs) =
      Some ([] @ map (\<lambda>v. Ptr (reply_of v)) vs, drop (sum_list (map blocks vs)) (drop 3 m),
            ?con\<lparr>rc_seek := of_nat (?off + length ?d)\<rparr>, inp)"
    using assms by (intro elements_here) auto
  ultimately show ?thesis
    using sk assms(3) d parse_array_header [of off con "length vs" "?d @ t" m fuel inp]
    by (simp add: Let_def add.commute add.left_commute numeral_3_eq_3)
qed

lemma parse_null_array_here:
  assumes "value_at con off (encode RNull_array)" "granted m"
  shows "parse_array (Suc fuel) m con inp off =
           Some (Some Reply_null, drop 2 m, con\<lparr>rc_seek := of_nat (off + 5)\<rparr>, inp)"
proof -
  from assms(1) obtain t where d: "drop off (rc_buf con) = [42, 45, 49, 13, 10] @ t" and s: "rc_seek con = of_nat off"
    by (auto elim: value_atE)
  have "find_crlf (drop off (rc_buf con)) = Some (Some 3)" using d by simp
  moreover have "parse_len (drop off (rc_buf con)) = Some (- 1)" using d by (simp add: parse_len_def)
  ultimately show ?thesis using s assms(2)
    by (subst parse_array.simps) (simp add: add.commute numeral_2_eq_2)
qed

lemma parse_null_here:
  assumes "value_at con off (encode RNull)" "granted m"
  shows "parse_bulk_string fuel m con inp off =
           Some (Some Reply_null, drop 1 m, con\<lparr>rc_seek := of_nat (off + 5)\<rparr>, inp)"
proof -
  from assms(1) obtain t where d: "drop off (rc_buf con) = [36, 45, 49, 13, 10] @ t" and s: "rc_seek con = of_nat off"
    by (auto elim: value_atE)
  have "await_line fuel con inp off = Some (Some (off, 3), con, inp)"
    using await_line_here [of off con "[36, 45, 49]" t fuel inp] d by simp
  moreover have "parse_len (drop off (rc_buf con)) = Some (- 1)" using d by (simp add: parse_len_def)
  ultimately show ?thesis using s assms(2)
    by (simp add: parse_bulk_string_def parse_string_def add.commute)
qed

section \<open>Replies in one piece\<close>

lemma depth_elem: "v \<in> set vs \<Longrightarrow> depth v \<le> foldr max (map depth vs) 0"
  by (induction vs) auto

lemma value_at_nth: "value_at con off (c # s) \<Longrightarrow> rc_buf con ! off = c"
  by (auto simp: value_at_def) (metis drop_eq_Nil hd_drop_conv_nth list.distinct(1) list.sel(1) not_le)

lemma parsesI:
  assumes "encode v = c # s"
    and "\<And>m con off. value_at con off (encode v) \<Longrightarrow> granted m \<Longrightarrow>
       (if c = 36 then parse_bulk_string fuel m con inp off
        else if c = 58 then parse_long fuel m con inp off else parse_array fuel m con inp off) =
       Some (Some (reply_of v), drop (blocks v) m, con\<lparr>rc_seek := of_nat (off + length (encode v))\<rparr>, inp)"
  shows "parses fuel inp v"
  unfolding parses_def
proof (intro allI impI)
  fix m con off
  assume v: "value_at con off (encode v)" and m: "granted m"
  then have "rc_buf con ! off = c" using assms(1) by (metis value_at_nth)
  with assms(2) [OF v m] show "parse_at fuel m con inp off =
      Some (Some (reply_of v), drop (blocks v) m, con\<lparr>rc_seek := of_nat (off + length (encode v))\<rparr>, inp)"
    by (simp only: parse_at_def Let_def)
qed

lemma encode_parses: "wf_value v \<Longrightarrow> depth v \<le> fuel \<Longrightarrow> parses fuel inp v"
proof (induction v arbitrary: fuel)
  case RNull
  show ?case
    by (rule parsesI [where c = 36 and s = "[45, 49, 13, 10]"])
      (simp_all add: parse_null_here del: encode.simps, simp_all)
next
  case RNull_array
  then obtain f where "fuel = Suc f" by (cases fuel) auto
  then show ?case
    by (intro parsesI [where c = 42 and s = "[45, 49, 13, 10]"])
      (simp_all add: parse_null_array_here del: encode.simps, simp_all)
next
  case (RInt n)
  then show ?case
    by (intro parsesI [where c = 58 and s = "decimal n @ [13, 10]"]) (simp_all add: parse_long_here del: encode.simps, simp)
next
  case (RBulk s)
  then show ?case
    by (intro parsesI [where c = 36 and s = "decimal (length s) @ [13, 10] @ s @ [13, 10]"])
      (simp_all add: parse_bulk_here del: encode.simps, simp)
next
  case (RArray vs)
  then obtain f where f: "fuel = Suc f" by (cases fuel) auto
  have "\<forall>v \<in> set vs. parses f inp v"
    using RArray depth_elem [of _ vs] f by (fastforce simp: list_all_iff)
  from parse_array_here [OF this] f show ?case
    by (intro parsesI [where c = 42 and s = "decimal (length vs) @ [13, 10] @ concat (map encode vs)"])
      (simp_all del: encode.simps, simp)
qed

text \<open>Freeing what was read.\<close>

lemma null_arrays_le_blocks: "null_arrays v \<le> blocks v"
proof (induction v)
  case (RArray vs)
  then have "sum_list (map null_arrays vs) \<le> sum_list (map blocks vs)" by (intro sum_list_mono) auto
  then show ?case by simp
qed auto

lemma sum_minus: "(\<And>x. g x \<le> f x) \<Longrightarrow> sum_list (map (\<lambda>x. f x - g x) xs) = sum_list (map f xs) - (sum_list (map g xs) :: nat)"
  by (induction xs) (auto simp: add_mono sum_list_mono)

lemma free_reply_arr_sum:
  "\<forall>v \<in> set vs. ef_redis_free_reply (Ptr (reply_of v)) = Some (f v) \<Longrightarrow>
     free_reply_arr (map (\<lambda>v. Ptr (reply_of v)) vs) = Some (sum_list (map f vs))"
  by (induction vs) auto

lemma free_reply_of: "ef_redis_free_reply (Ptr (reply_of v)) = Some (blocks v - null_arrays v)"
proof (induction v)
  case (RArray vs)
  have "free_reply_arr (map (\<lambda>v. Ptr (reply_of v)) vs) = Some (sum_list (map (\<lambda>v. blocks v - null_arrays v) vs))"
    by (rule free_reply_arr_sum) (use RArray in blast)
  moreover have "sum_list (map null_arrays vs) \<le> sum_list (map blocks vs)"
    by (rule sum_list_mono) (rule null_arrays_le_blocks)
  ultimately show ?case by (simp add: sum_minus null_arrays_le_blocks)
qed auto

lemma ef_redis_read_reply_here:
  assumes "wf_value v" "length (encode v) \<le> 1024" "depth v \<le> fuel" "granted m" "length (rc_buf con) = 1024"
  shows "\<exists>con'. ef_redis_read_reply fuel m con (Data (encode v) # inp) = Some (Some (reply_of v), drop (blocks v) m, con', inp) \<and>
           rc_seek con' = rc_end con' \<and> length (rc_buf con') = 1024"
proof -
  let ?d = "encode v"
  let ?con = "con\<lparr>rc_buf := ?d @ drop (length ?d) (rc_buf con), rc_end := of_nat (length ?d), rc_seek := 0\<rparr>"
  have "value_at ?con 0 ?d" using assms(2) by (auto simp: value_at_def intro!: exI [of _ "length ?d"])
  from parsesD [OF encode_parses [OF assms(1,3)] this assms(4)]
  have p: "parse_at fuel m ?con inp 0 =
      Some (Some (reply_of v), drop (blocks v) m, ?con\<lparr>rc_seek := of_nat (length ?d)\<rparr>, inp)" by simp
  obtain c s where c: "?d = c # s" "c = 36 \<or> c = 58 \<or> c = 42" using encode_hd [of v] by auto
  have "ef_redis_read_reply fuel m con (Data ?d # inp) = parse_at fuel m ?con inp 0"
    using assms(2,5) c by (auto simp: ef_redis_read_reply_def parse_at_def RES_BUFSIZE_def write_block_def cell_get_def)
  with p assms(2,5) show ?thesis by simp
qed

section \<open>Replies that go wrong\<close>

text \<open>
  An element that does not start with one of the three known characters is skipped without
  moving on, so the ones behind it are skipped too.
\<close>

lemma elements_stuck:
  "cell_get (rc_buf con) off = Some 13 \<Longrightarrow> elements fuel m con inp off elem i n = Some (elem, m, con, inp)"
  by (induction n arbitrary: i) (simp_all add: elements.simps)

lemma cell_get_drop: "drop off b = c # s \<Longrightarrow> cell_get b off = Some c"
  by (cases "off < length b") (simp_all add: cell_get_def flip: hd_drop_conv_nth)

lemma elements_first:
  assumes "cell_get (rc_buf con) off = Some 36"
    and "parse_bulk_string fuel m con inp off = Some (Some r, m', con', inp')"
    and "cell_get (rc_buf con') (unat (rc_seek con')) = Some 13"
  shows "elements fuel m con inp off (Uninit # xs) 0 (Suc n) = Some (Ptr r # xs, m', con', inp')"
  using assms by (simp add: elements.simps(2) [of fuel m con inp off] elements_stuck to_slot_def cell_set_def)

text \<open>The string an array starts with, when its content arrives in two pieces.\<close>

lemma string_loop_second_piece:
  assumes "rc_seek con = rc_end con" "length (rc_buf con) = 1024" "0 \<notin> set s" "s \<noteq> []" "length (s @ t) \<le> 1024"
    and "unat got < 2 ^ 32" "unat n = unat got + length s" "length c = unat n"
  shows "\<exists>con'. string_loop (Suc fuel) con (Data (s @ t) # inp) c got n = Some (Some (take (unat got) c @ s), con', inp) \<and>
           drop (unat (rc_seek con')) (rc_buf con') = t @ drop (length (s @ t)) (rc_buf con) \<and>
           length (rc_buf con') = 1024"
proof -
  let ?l = "of_nat (length (s @ t)) :: u64"
  let ?con = "con\<lparr>rc_buf := (s @ t) @ drop (length (s @ t)) (rc_buf con), rc_seek := 0, rc_end := ?l\<rparr>"
  have more: "reply_read_more con (Data (s @ t) # inp) = Some (0, ?con, inp)"
    using assms by (simp add: reply_read_more_def RES_BUFSIZE_def write_block_def Let_def)
  have l: "unat ?l = length (s @ t)" using assms(5) by (intro unat_of_nat_small) simp
  then have "unat (?l + got) = length (s @ t) + unat got" using assms(5,6) by (simp add: unat_add_small)
  then have "got < n" "\<not> ?l + got < n" using assms by (simp_all add: word_less_nat_alt)
  moreover have k: "unat (n - got) = length s" using assms(7) by (simp add: unat_minus_small)
  moreover have "strncpy (rc_buf ?con) (length s) = Some s" using strncpy_all [OF assms(3)] by simp
  ultimately have "string_loop (Suc fuel) con (Data (s @ t) # inp) c got n =
      Some (Some (take (unat got) c @ s), ?con\<lparr>rc_seek := n - got\<rparr>, inp)"
    using more assms(7,8) by (simp add: write_block_def Let_def del: of_nat_add)
  then show ?thesis using k assms(2,5) by auto
qed

lemma parse_string_split:
  assumes "drop off (rc_buf con) = s1 @ t1" "rc_seek con = of_nat off" "rc_end con = of_nat (off + length s1)"
    and "off + length s1 \<le> 1024" "length (s2 @ t) \<le> 1024" "0 \<notin> set (s1 @ s2)" "s2 \<noteq> []" "granted m" "length (rc_buf con) = 1024"
  shows "\<exists>con'. parse_string (Suc fuel) m con (Data (s2 @ t) # inp) off (of_nat (length (s1 @ s2))) =
           Some (Some (Reply_str (s1 @ s2) (int (length (s1 @ s2)))), drop 3 m, con', inp) \<and>
         (\<exists>t'. drop (unat (rc_seek con')) (rc_buf con') = t @ t')"
proof -
  let ?n = "of_nat (length (s1 @ s2)) :: u64"
  let ?con = "con\<lparr>rc_seek := of_nat off + of_nat (length s1)\<rparr>"
  have n: "unat ?n = length (s1 @ s2)" using assms(4,5) by (intro unat_of_nat_small) simp
  have got: "unat (of_nat (length s1) :: u64) = length s1" using assms(4) by (intro unat_of_nat_small) simp
  have diff: "rc_end con - rc_seek con = of_nat (length s1)" using assms(2,3) by simp
  have "unat (- 1 :: u64) = 2 ^ 64 - 1" by (simp add: unsigned_minus_1_eq_mask mask_eq_exp_minus_1)
  then have ne: "?n \<noteq> - 1" using n assms(4,5) by auto
  have lt: "(of_nat (length s1) :: u64) < ?n" using n got assms(7) by (simp add: word_less_nat_alt del: of_nat_add)
  obtain b where b: "length b = length (s1 @ s2)" "malloc_bytes (drop 2 m) (length (s1 @ s2)) = (Some b, drop 3 m)"
    using granted_bytes [OF granted_drop [OF assms(8)], of "length (s1 @ s2)" 2] by (auto simp: eval_nat_numeral)
  obtain con' where con': "string_loop (Suc fuel) ?con (Data (s2 @ t) # inp) (s1 @ drop (length s1) b) (of_nat (length s1)) ?n =
      Some (Some (take (length s1) (s1 @ drop (length s1) b) @ s2), con', inp)"
    "drop (unat (rc_seek con')) (rc_buf con') = t @ drop (length (s2 @ t)) (rc_buf ?con)"
    using string_loop_second_piece [of ?con s2 t "of_nat (length s1)" ?n "s1 @ drop (length s1) b" fuel inp] assms n got b
    by auto
  have le: "length s1 \<le> length (s1 @ s2)" by simp
  have cpy: "strncpy (drop off (rc_buf con)) (length s1) = Some s1"
    unfolding assms(1) by (rule strncpy_all) (use assms(6) in simp)
  have "int_of_size ?n = int (length (s1 @ s2))" using assms(4,5) by (intro int_of_size_nat) simp
  then have "parse_string (Suc fuel) m con (Data (s2 @ t) # inp) off ?n =
      Some (Some (Reply_str (s1 @ s2) (int (length (s1 @ s2)))), drop 3 m, con', inp)"
    using b [unfolded numeral_2_eq_2 numeral_3_eq_3] con'(1) cpy ne lt n got le diff assms(2,8)
    by (simp add: parse_string_def write_block_def Let_def numeral_3_eq_3 del: of_nat_add string_loop.simps length_append)
  then show ?thesis using con'(2) by blast
qed

lemma malloc_bytes_fst: "fst (malloc_bytes m n) = Some t \<Longrightarrow> length t = n"
  by (cases "malloc_bytes m n") (simp add: malloc_bytes_length)

text \<open>A parser that returns no reply.\<close>

definition no_reply :: "('r option \<times> 's) option \<Rightarrow> bool" where
  "no_reply x \<longleftrightarrow> (\<forall>r s. x \<noteq> Some (Some r, s))"

lemma no_reply_simps [simp]: "no_reply None" "no_reply (Some (None, s))"
  by (simp_all add: no_reply_def)

lemma no_reply_bind: "(\<And>y. x = Some y \<Longrightarrow> no_reply (f y)) \<Longrightarrow> no_reply (Option.bind x f)"
  by (cases x) auto

lemma no_reply_if: "(c \<Longrightarrow> no_reply x) \<Longrightarrow> (\<not> c \<Longrightarrow> no_reply y) \<Longrightarrow> no_reply (if c then x else y)"
  by simp

lemma no_reply_option:
  "(x = None \<Longrightarrow> no_reply a) \<Longrightarrow> (\<And>y. x = Some y \<Longrightarrow> no_reply (f y)) \<Longrightarrow> no_reply (case x of None \<Rightarrow> a | Some y \<Rightarrow> f y)"
  by (cases x) auto

lemma NUL_behind:
  "fst (malloc_bytes m n) = Some e \<Longrightarrow> write_block e 0 d = Some e' \<Longrightarrow> cell_set e' n 0 = None"
  by (auto simp: cell_set_def dest!: malloc_bytes_fst write_block_length)

text \<open>
  C15. An error reply is never parsed: whatever the server sends, the memory and the buffer
  hold, the parser for errors returns NULL or has no defined result, because it writes the NUL
  of each string one byte behind the block it allocated for it.
\<close>

theorem error_reply_never_parsed:
  "parse_error fuel m con inp off \<noteq> Some (Some rep, m', con', inp')"
proof -
  have "no_reply (parse_error fuel m con inp off)"
    unfolding parse_error_def Let_def case_prod_beta
    by (intro no_reply_bind no_reply_if no_reply_option no_reply_simps) (simp_all add: NUL_behind)
  then show ?thesis by (simp add: no_reply_def)
qed

text \<open>
  C14. A reply that arrives in one piece of at most 1024 bytes, nested to any depth, of null
  replies, non-negative numbers, strings without a NUL and arrays, is read back exactly, by
  one allocation per block; freeing it frees every block but one for each null array, and the
  next reply finds the buffer in order.
\<close>

theorem redis_reply_round_trip:
  assumes "wf_value v" "length (encode v) \<le> 1024" "depth v \<le> fuel" "Refused \<notin> set m" "length (rc_buf con) = 1024"
  shows "\<exists>con'. ef_redis_read_reply fuel m con (Data (encode v) # inp) =
             Some (Some (reply_of v), drop (blocks v) m, con', inp) \<and>
           rc_seek con' = rc_end con' \<and> length (rc_buf con') = 1024 \<and>
           (\<exists>k. ef_redis_free_reply (Ptr (reply_of v)) = Some k \<and> k + null_arrays v = blocks v)"
  using ef_redis_read_reply_here [OF assms(1-3) _ assms(5), of m inp] assms(4) free_reply_of [of v]
    null_arrays_le_blocks [of v] by (auto simp: granted_def)

theorem redis_reply_round_trip_witness:
  "\<exists>con'. ef_redis_read_reply 3 [] \<lparr>rc_port = 6379, rc_host = [], rc_sockfd = 3,
        rc_buf = replicate 1024 0, rc_seek = 0, rc_end = 0\<rparr>
        [Data (encode (RArray [RBulk [97, 13, 10], RInt 120, RArray [RNull, RNull_array]]))] =
      Some (Some (reply_of (RArray [RBulk [97, 13, 10], RInt 120, RArray [RNull, RNull_array]])), drop 13 [], con', []) \<and>
      rc_seek con' = rc_end con' \<and> length (rc_buf con') = 1024 \<and>
      (\<exists>k. ef_redis_free_reply (Ptr (reply_of (RArray [RBulk [97, 13, 10], RInt 120, RArray [RNull, RNull_array]]))) = Some k \<and>
         k + 1 = (13 :: nat))"
proof -
  let ?v = "RArray [RBulk [97, 13, 10], RInt 120, RArray [RNull, RNull_array]]"
  let ?con = "\<lparr>rc_port = 6379, rc_host = [], rc_sockfd = 3, rc_buf = replicate 1024 0, rc_seek = 0, rc_end = 0\<rparr>"
  have "length (encode ?v) \<le> 1024" by code_simp
  moreover have "blocks ?v = 13" "null_arrays ?v = 1" by simp_all
  ultimately show ?thesis
    using redis_reply_round_trip [of ?v 3 "[]" ?con "[]"] by simp
qed

text \<open>
  C16. When the content of the first string of an array arrives in two pieces, the string is
  read, but the line end behind it is not skipped: the other elements are never written, and
  freeing the reply follows a wild pointer, although all the bytes have arrived.
\<close>

theorem split_array_unusable:
  assumes "piece = [42] @ decimal (Suc n) @ [13, 10] @ [36] @ decimal (length (s1 @ s2)) @ [13, 10] @ s1"
    and "length piece \<le> 1024" "length (s2 @ [13, 10] @ rest) \<le> 1024" "0 \<notin> set (s1 @ s2)" "s2 \<noteq> []" "Suc n < 2 ^ 31"
    and "2 \<le> fuel" "Refused \<notin> set m" "length (rc_buf con) = 1024"
  shows "\<exists>m' con' rep. ef_redis_read_reply fuel m con [Data piece, Data (s2 @ [13, 10] @ rest)] = Some (Some rep, m', con', []) \<and>
           rep = Reply_arr (Ptr (Reply_str (s1 @ s2) (int (length (s1 @ s2)))) # replicate n Uninit) \<and>
           (0 < n \<longrightarrow> ef_redis_free_reply (Ptr rep) = None)"
proof -
  define s where "s = s1 @ s2"
  let ?h1 = "42 # decimal (Suc n) @ [13, 10]" and ?h2 = "36 # decimal (length s) @ [13, 10]"
  let ?t = "[13, 10] @ rest" let ?in = "[Data (s2 @ ?t)]"
  let ?o1 = "length ?h1" let ?o2 = "?o1 + length ?h2"
  let ?junk = "drop (length piece) (rc_buf con)"
  let ?con = "con\<lparr>rc_buf := piece @ ?junk, rc_end := of_nat (length piece), rc_seek := 0\<rparr>"
  let ?rep = "Reply_str s (int (length s))"
  obtain f where f: "fuel = Suc (Suc f)" using assms(7) by (metis Suc_le_D numeral_2_eq_2 Suc_le_mono)
  have piece: "piece = ?h1 @ ?h2 @ s1" using assms(1) by (simp add: s_def)
  have len: "length piece = ?o2 + length s1" "?o2 + length s1 \<le> 1024" "length s < 2 ^ 31"
    using assms(2,3) by (simp_all add: piece s_def)
  have m: "granted m" using assms(8) by (simp add: granted_def)
  have d1: "drop ?o1 (piece @ ?junk) = ?h2 @ s1 @ ?junk"
    using drop_header [of 0 "piece @ ?junk" ?h1 "?h2 @ s1 @ ?junk"] piece by simp
  have d2: "drop ?o2 (piece @ ?junk) = s1 @ ?junk" by (rule drop_header [OF d1])
  obtain con' t' where s: "parse_string (Suc f) (drop 3 m) (?con\<lparr>rc_seek := of_nat ?o2\<rparr>) ?in ?o2 (of_nat (length s)) =
      Some (Some ?rep, drop 3 (drop 3 m), con', [])" "drop (unat (rc_seek con')) (rc_buf con') = ?t @ t'"
    using parse_string_split [of ?o2 "?con\<lparr>rc_seek := of_nat ?o2\<rparr>" s1 ?junk s2 ?t "drop 3 m" f "[]", folded s_def]
      assms(3,4,5,9) d2 m len by (auto simp: s_def simp del: of_nat_add)
  have bulk: "parse_bulk_string (Suc f) (drop 3 m) (?con\<lparr>rc_seek := of_nat ?o1\<rparr>) ?in ?o1 =
      Some (Some ?rep, drop 3 (drop 3 m), con', [])"
    using parse_bulk_header [of ?o1 "?con\<lparr>rc_seek := of_nat ?o1\<rparr>" "length s" "s1 @ ?junk" "Suc f" "drop 3 m" ?in] d1 len(3) s(1)
    by (simp add: Let_def add.commute)
  have "elements (Suc f) (drop 3 m) (?con\<lparr>rc_seek := of_nat ?o1\<rparr>) ?in ?o1 (Uninit # replicate n Uninit) 0 (Suc n) =
      Some (Ptr ?rep # replicate n Uninit, drop 3 (drop 3 m), con', [])"
    by (rule elements_first [OF _ bulk]) (use d1 s(2) in \<open>auto intro: cell_get_drop\<close>)
  then have el: "elements (Suc f) (drop 3 m) (?con\<lparr>rc_seek := of_nat ?o1\<rparr>) ?in ?o1 (replicate (Suc n) Uninit) 0 (Suc n) =
      Some (Ptr ?rep # replicate n Uninit, drop 3 (drop 3 m), con', [])" by simp
  have "ef_redis_read_reply fuel m con (Data piece # ?in) = parse_array fuel m ?con ?in 0"
    using assms(2,9) piece by (simp add: ef_redis_read_reply_def RES_BUFSIZE_def write_block_def cell_get_def)
  also have "\<dots> = Some (Some (Reply_arr (Ptr ?rep # replicate n Uninit)), drop 3 (drop 3 m), con', [])"
    using parse_array_header [of 0 ?con "Suc n" "?h2 @ s1 @ ?junk" m "Suc f" ?in] piece m assms(6) el f
    by (simp add: Let_def)
  finally have "ef_redis_read_reply fuel m con (Data piece # ?in) =
      Some (Some (Reply_arr (Ptr ?rep # replicate n Uninit)), drop 3 (drop 3 m), con', [])" .
  moreover have "0 < n \<longrightarrow> ef_redis_free_reply (Ptr (Reply_arr (Ptr ?rep # replicate n Uninit))) = None"
    by (cases n) simp_all
  ultimately show ?thesis by (auto simp: s_def)
qed

theorem split_array_unusable_witness:
  "\<exists>m' con' rep. ef_redis_read_reply 2 [] \<lparr>rc_port = 6379, rc_host = [], rc_sockfd = 3,
        rc_buf = replicate 1024 0, rc_seek = 0, rc_end = 0\<rparr>
        [Data [42, 50, 13, 10, 36, 50, 13, 10, 97], Data [98, 13, 10, 36, 49, 13, 10, 99, 13, 10]] =
      Some (Some rep, m', con', []) \<and>
    rep = Reply_arr [Ptr (Reply_str [97, 98] 2), Uninit] \<and> ef_redis_free_reply (Ptr rep) = None"
proof -
  have d: "decimal 2 = [50]" by code_simp
  have "\<exists>m' con' rep. ef_redis_read_reply 2 [] \<lparr>rc_port = 6379, rc_host = [], rc_sockfd = 3,
        rc_buf = replicate 1024 0, rc_seek = 0, rc_end = 0\<rparr>
        [Data [42, 50, 13, 10, 36, 50, 13, 10, 97], Data ([98] @ [13, 10] @ [36, 49, 13, 10, 99, 13, 10])] =
      Some (Some rep, m', con', []) \<and>
    rep = Reply_arr (Ptr (Reply_str ([97] @ [98]) (int (length ([97 :: byte] @ [98])))) # replicate 1 Uninit) \<and>
    ((0 :: nat) < 1 \<longrightarrow> ef_redis_free_reply (Ptr rep) = None)"
    by (rule split_array_unusable) (simp_all add: d numeral_2_eq_2 [symmetric])
  then show ?thesis by simp
qed

end
