(* ===== verification/EfHttp.thy ===== *)
theory EfHttp
  imports EfBufferio EfVector EfStringtab EfBasic CStrings
begin

text \<open>
  \<^verbatim>\<open>http.c\<close>: a client that builds a request from a table of headers, parses the response
  line and headers in an array on the stack, and hands the body to the caller.  The arrays on
  the stack and the members of a new struct that the code does not write are arguments, as
  they hold whatever was there.  A pointer that was never written is \<open>Uninit\<close>.  Strings have
  less than \<open>2 ^ 31\<close> bytes, so that their lengths fit an \<^verbatim>\<open>int\<close>.
\<close>

section \<open>State\<close>

definition MAX_RESP_BUFSIZE :: nat where "MAX_RESP_BUFSIZE = 4096"
definition MAX_HEADER_BUFSIZE :: nat where "MAX_HEADER_BUFSIZE = 1024"
definition DEFAULT_HTTP_PORT :: int where "DEFAULT_HTTP_PORT = 80"
definition CURL_METHOD_GET :: "byte list" where "CURL_METHOD_GET = [71, 69, 84, 0]"
definition HTTP_PROTOCOL_0 :: "byte list" where "HTTP_PROTOCOL_0 = [72, 84, 84, 80, 47, 49, 46, 48, 0]"
definition R_STATUS_INIT :: u16 where "R_STATUS_INIT = 1"
definition R_STATUS_HEADER :: u16 where "R_STATUS_HEADER = 2"
definition R_STATUS_BODY :: u16 where "R_STATUS_BODY = 4"
definition R_STATUS_DONE :: u16 where "R_STATUS_DONE = 8"

record ef_curl_request =
  cr_method :: "byte list slot"
  cr_status :: u16
  cr_protocol :: "byte list slot"
  cr_request_uri :: "byte list slot"
  cr_headers :: "ef_stringtab slot"
  cr_request_body :: "ef_stringtab slot"

text \<open>\<^verbatim>\<open>bufsend\<close> and \<^verbatim>\<open>bufend\<close> point into \<^verbatim>\<open>buf\<close>: they are offsets.\<close>

record ef_curl_response =
  rs_status :: u16
  rs_resp_status :: u16
  rs_content_length :: int
  rs_content_received :: int
  rs_bufend :: nat
  rs_bufsend :: nat
  rs_chunk_remain :: int
  rs_headers :: "ef_stringtab option"
  rs_buf :: "byte list"

record ef_curl =
  cu_fd :: int
  cu_req :: "ef_curl_request option"
  cu_resp :: ef_curl_response

text \<open>The value of a pointer member, where it has been written.\<close>

definition ptr_get :: "'a slot \<Rightarrow> 'a option option" where
  "ptr_get p = (case p of Uninit \<Rightarrow> None | Null \<Rightarrow> Some None | Ptr x \<Rightarrow> Some (Some x))"

lemma ptr_get_simps [simp]:
  "ptr_get Uninit = None" "ptr_get Null = Some None" "ptr_get (Ptr x) = Some (Some x)"
  by (simp_all add: ptr_get_def)

text \<open>The conversions between \<^verbatim>\<open>size_t\<close> and the signed types.\<close>

definition to_size :: "int \<Rightarrow> nat" where
  "to_size x = nat (x mod 2 ^ 64)"

definition to_int :: "u64 \<Rightarrow> int" where
  "to_int x = sint (ucast x :: u32)"

section \<open>Tables of a request\<close>

text \<open>The table of a request is created on first use; both setters are this code.\<close>

definition table_set ::
    "mem \<Rightarrow> ef_stringtab slot \<Rightarrow> byte list \<Rightarrow> byte list option \<Rightarrow> (int \<times> ef_stringtab slot \<times> mem) option" where
  "table_set m tab key val =
     do { t \<leftarrow> ptr_get tab;
          let (t, m) = (case t of None \<Rightarrow> ef_stringtab_new m 0 | Some t \<Rightarrow> (Some t, m));
          case t of
            None \<Rightarrow> Some (- 1, Null, m)
          | Some t \<Rightarrow>
              do { v \<leftarrow> val;
                   klen \<leftarrow> strlen key;
                   vlen \<leftarrow> strlen v;
                   (r, t, dead, m) \<leftarrow> ef_stringtab_set m t key klen val vlen;
                   Some (if r = None then - 1 else 0, Ptr t, m) } }"

definition ef_curl_set_header ::
    "mem \<Rightarrow> ef_curl option \<Rightarrow> byte list \<Rightarrow> byte list option \<Rightarrow> (int \<times> ef_curl option \<times> mem) option" where
  "ef_curl_set_header m cu header content =
     (case cu of
        None \<Rightarrow> Some (- 1, cu, m)
      | Some c \<Rightarrow>
          (case cu_req c of
             None \<Rightarrow> Some (- 1, cu, m)
           | Some req \<Rightarrow>
               do { (r, t, m) \<leftarrow> table_set m (cr_headers req) header content;
                    Some (r, Some (c\<lparr>cu_req := Some (req\<lparr>cr_headers := t\<rparr>)\<rparr>), m) }))"

definition ef_curl_set_request_body ::
    "mem \<Rightarrow> ef_curl option \<Rightarrow> byte list \<Rightarrow> byte list option \<Rightarrow> (int \<times> ef_curl option \<times> mem) option" where
  "ef_curl_set_request_body m cu key val =
     (case cu of
        None \<Rightarrow> Some (- 1, cu, m)
      | Some c \<Rightarrow>
          (case cu_req c of
             None \<Rightarrow> Some (- 1, cu, m)
           | Some req \<Rightarrow>
               do { (r, t, m) \<leftarrow> table_set m (cr_request_body req) key val;
                    Some (r, Some (c\<lparr>cu_req := Some (req\<lparr>cr_request_body := t\<rparr>)\<rparr>), m) }))"

section \<open>Opening and closing\<close>

text \<open>
  \<open>rq\<close> and \<open>rp\<close> are what new memory holds.  The label \<^verbatim>\<open>error\<close> frees all three pointers,
  which have no value yet where the first two allocations are refused.
\<close>

definition ef_curl_init ::
    "mem \<Rightarrow> ef_curl_request \<Rightarrow> ef_curl_response \<Rightarrow> byte list option \<Rightarrow> int \<Rightarrow> byte list option \<Rightarrow>
     int \<Rightarrow> (int \<Rightarrow> byte list option \<Rightarrow> int \<Rightarrow> int) \<Rightarrow> (ef_curl option \<times> mem) option" where
  "ef_curl_init m rq rp host port request_uri sock connect =
     do { let (ok, m) = malloc_obj m;
          check ok;
          let req = rq\<lparr>cr_status := R_STATUS_INIT\<rparr>;
          (req, m) \<leftarrow> (case request_uri of
                         None \<Rightarrow> Some (req, m)
                       | Some u \<Rightarrow>
                           do { k \<leftarrow> strlen u;
                                let (p, m) = malloc_bytes m (k + 1);
                                p \<leftarrow> p;
                                p \<leftarrow> strcpy p 0 u;
                                Some (req\<lparr>cr_request_uri := Ptr p\<rparr>, m) });
          let (ok, m) = malloc_obj m;
          if \<not> ok then Some (None, m)
          else do {
            let (tab, m) = ef_stringtab_new m 0;
            let resp = rp\<lparr>rs_resp_status := R_STATUS_INIT, rs_content_length := 0, rs_content_received := 0,
                         rs_bufsend := 0, rs_bufend := 0, rs_chunk_remain := 0, rs_headers := tab\<rparr>;
            let (ok, m) = malloc_obj m;
            if \<not> ok then Some (None, m)
            else do {
              (r, cu, m) \<leftarrow> ef_curl_set_header m (Some \<lparr>cu_fd = sock, cu_req = Some req, cu_resp = resp\<rparr>)
                              [72, 111, 115, 116, 0] host;
              let port = (if port \<le> 0 then DEFAULT_HTTP_PORT else port);
              let res = connect sock host port;
              if res < 0 then Some (None, m) else Some (cu, m) } } }"

definition ef_curl_close :: "ef_curl option \<Rightarrow> ef_curl option" where
  "ef_curl_close cu = cu"

section \<open>Building the request\<close>

text \<open>The builders write into the block \<open>b\<close> from the offset \<open>off\<close>.\<close>

definition http_build_request_line ::
    "ef_curl_request \<Rightarrow> byte list \<Rightarrow> nat \<Rightarrow> nat \<Rightarrow> (int \<times> ef_curl_request \<times> byte list) option" where
  "http_build_request_line req b off cap =
     do { p \<leftarrow> ptr_get (cr_method req);
          let meth = (case p of None \<Rightarrow> CURL_METHOD_GET | Some s \<Rightarrow> s);
          p \<leftarrow> ptr_get (cr_protocol req);
          let protocol = (case p of None \<Rightarrow> HTTP_PROTOCOL_0 | Some s \<Rightarrow> s);
          p \<leftarrow> ptr_get (cr_request_uri req);
          let uri = (case p of None \<Rightarrow> [47, 0] | Some s \<Rightarrow> s);
          let req = req\<lparr>cr_method := Ptr meth, cr_protocol := Ptr protocol, cr_request_uri := Ptr uri\<rparr>;
          mlen \<leftarrow> strlen meth;
          rlen \<leftarrow> strlen uri;
          plen \<leftarrow> strlen protocol;
          if mlen + rlen + plen + 4 > cap then Some (- 1, req, b)
          else do {
            let pos = off;
            b \<leftarrow> strcat b pos meth;
            let pos = pos + mlen;
            b \<leftarrow> cell_set b pos 32;
            let pos = pos + 1;
            b \<leftarrow> strcat b pos uri;
            let pos = pos + rlen;
            b \<leftarrow> cell_set b pos 32;
            let pos = pos + 1;
            b \<leftarrow> strcat b pos protocol;
            let pos = pos + plen;
            b \<leftarrow> strcat b pos [13, 10, 0];
            let pos = pos + 2;
            Some (int (pos - off), req, b) } }"

text \<open>The header built is the one in the first bucket of the table, which it is then removed from.\<close>

definition http_build_request_header ::
    "ef_curl_request \<Rightarrow> byte list \<Rightarrow> nat \<Rightarrow> nat \<Rightarrow> (int \<times> ef_curl_request \<times> byte list) option" where
  "http_build_request_header req b off cap =
     do { p \<leftarrow> ptr_get (cr_headers req);
          tb \<leftarrow> p;
          if ht_used tb = 0
          then do { b \<leftarrow> strcat b off [13, 10, 0];
                    Some (2, req\<lparr>cr_status := R_STATUS_BODY\<rparr>, b) }
          else do {
            pb \<leftarrow> cell_get (ht_data tb) 0;
            k \<leftarrow> bk_key pb;
            kstr \<leftarrow> es_str k;
            found \<leftarrow> ef_stringtab_find tb kstr (es_len k);
            v \<leftarrow> found;
            if cap < es_len k + es_len v + 3 then Some (- 1, req, b)
            else do {
              b \<leftarrow> strcpy b off kstr;
              let pos = off + es_len k;
              b \<leftarrow> cell_set b pos 58;
              let pos = pos + 1;
              vstr \<leftarrow> es_str v;
              b \<leftarrow> strcpy b pos vstr;
              let pos = pos + es_len v;
              b \<leftarrow> strcat b pos [13, 10, 0];
              let pos = pos + 2;
              (res, tb, dead) \<leftarrow> ef_stringtab_remove tb kstr (es_len k);
              let req = req\<lparr>cr_headers := Ptr tb\<rparr>;
              Some (if res < 0 then res else int (pos - off), req, b) } } }"

definition http_build_request_body :: "ef_curl_request \<Rightarrow> (int \<times> ef_curl_request) option" where
  "http_build_request_body req =
     do { p \<leftarrow> ptr_get (cr_request_body req);
          Some (0, req\<lparr>cr_status := R_STATUS_DONE\<rparr>) }"

section \<open>Sending the request\<close>

text \<open>
  The two loops of \<^verbatim>\<open>ef_curl_exec\<close>: \<open>pos\<close> bytes of the array are filled and \<open>remain\<close> are left.
  A write that fails ends the function with its result, \<open>Inl\<close>.  A header that does not fit an
  empty array is tried again for ever: the loops have fuel.
\<close>

fun header_loop ::
    "nat \<Rightarrow> ef_curl_request \<Rightarrow> byte list \<Rightarrow> nat \<Rightarrow> nat \<Rightarrow> wresp list \<Rightarrow>
     ((int + byte list \<times> nat \<times> nat) \<times> ef_curl_request \<times> byte list \<times> wresp list) option" where
  "header_loop fuel req b pos remain scr =
     (if cr_status req \<noteq> R_STATUS_HEADER then Some (Inr (b, pos, remain), req, [], scr)
      else case fuel of
             0 \<Rightarrow> None
           | Suc fuel \<Rightarrow>
               do { (used, req, b) \<leftarrow> http_build_request_header req b pos remain;
                    if used < 0 \<or> cr_status req = R_STATUS_BODY
                    then do {
                      let pos = (if used > 0 then pos + nat used else pos);
                      data \<leftarrow> read_block b 0 pos;
                      let (res, errno, sent, scr) = wrap_write scr data;
                      if res < 0 then Some (Inl res, req, sent, scr)
                      else do { (r, req, out, scr) \<leftarrow> header_loop fuel req b 0 MAX_HEADER_BUFSIZE scr;
                                Some (r, req, sent @ out, scr) } }
                    else header_loop fuel req b (pos + nat used) (remain - nat used) scr })"

fun body_loop ::
    "nat \<Rightarrow> ef_curl_request \<Rightarrow> byte list \<Rightarrow> nat \<Rightarrow> nat \<Rightarrow> wresp list \<Rightarrow>
     ((int + byte list \<times> nat \<times> nat) \<times> ef_curl_request \<times> byte list \<times> wresp list) option" where
  "body_loop fuel req b pos remain scr =
     (if cr_status req \<noteq> R_STATUS_BODY then Some (Inr (b, pos, remain), req, [], scr)
      else case fuel of
             0 \<Rightarrow> None
           | Suc fuel \<Rightarrow>
               do { (used, req) \<leftarrow> http_build_request_body req;
                    if used < 0 \<or> cr_status req = R_STATUS_DONE
                    then do {
                      let pos = (if used > 0 then pos + nat used else pos);
                      data \<leftarrow> read_block b 0 pos;
                      let (res, errno, sent, scr) = (if pos > 0 then wrap_write scr data else (0, 0, [], scr));
                      if res < 0 then Some (Inl res, req, sent, scr)
                      else do { (r, req, out, scr) \<leftarrow> body_loop fuel req b 0 MAX_HEADER_BUFSIZE scr;
                                Some (r, req, sent @ out, scr) } }
                    else body_loop fuel req b (pos + nat used) (remain - nat used) scr })"

declare header_loop.simps [simp del] body_loop.simps [simp del]

text \<open>What \<^verbatim>\<open>ef_curl_exec\<close> does before it reads: \<open>frame\<close> is its array on the stack.\<close>

definition send_request ::
    "nat \<Rightarrow> ef_curl_request \<Rightarrow> byte list \<Rightarrow> wresp list \<Rightarrow> (int \<times> ef_curl_request \<times> byte list \<times> wresp list) option" where
  "send_request fuel req frame scr =
     do { (used, req, b) \<leftarrow> http_build_request_line req frame 0 MAX_HEADER_BUFSIZE;
          if used < 0 then Some (- 1, req, [], scr)
          else do {
            let req = req\<lparr>cr_status := R_STATUS_HEADER\<rparr>;
            (r, req, out, scr) \<leftarrow> header_loop fuel req b (nat used) (MAX_HEADER_BUFSIZE - nat used) scr;
            case r of
              Inl res \<Rightarrow> Some (res, req, out, scr)
            | Inr (b, pos, remain) \<Rightarrow>
                do { (r, req, out', scr) \<leftarrow> body_loop fuel req b pos remain scr;
                     Some (case r of Inl res \<Rightarrow> res | Inr _ \<Rightarrow> 0, req, out @ out', scr) } } }"

section \<open>The response line and headers\<close>

definition http_parse_resp_line :: "ef_curl_response \<Rightarrow> byte list \<Rightarrow> (int \<times> ef_curl_response) option" where
  "http_parse_resp_line resp b =
     do { end \<leftarrow> find_crlf b;
          case end of
            None \<Rightarrow> Some (- 1, resp)
          | Some end \<Rightarrow>
              do { p \<leftarrow> find_char 32 b;
                   case p of
                     None \<Rightarrow> Some (- 1, resp)
                   | Some p \<Rightarrow>
                       do { let pos = p + length (takeWhile (\<lambda>c. c = 32) (drop p b));
                            check (pos < length b);
                            let start = pos;
                            n \<leftarrow> str2int (drop start b) (pos - start);
                            Some (int end + 2, resp\<lparr>rs_status := ucast n\<rparr>) } } }"

text \<open>
  One header from the offset \<open>start\<close> of the array, which is changed in place: \<^verbatim>\<open>':'\<close> and the
  line end become NULs and the name is put in lower case.
\<close>

definition http_parse_resp_header ::
    "mem \<Rightarrow> ef_curl_response \<Rightarrow> byte list \<Rightarrow> nat \<Rightarrow> (int \<times> ef_curl_response \<times> byte list \<times> mem) option" where
  "http_parse_resp_header m resp b start =
     do { c \<leftarrow> cell_get b start;
          d \<leftarrow> (if c = 13 then cell_get b (start + 1) else Some 0);
          if c = 13 \<and> d = 10 then Some (2, resp\<lparr>rs_resp_status := R_STATUS_BODY\<rparr>, b, m)
          else do {
            end \<leftarrow> find_crlf (drop start b);
            case end of
              None \<Rightarrow> Some (- 1, resp, b, m)
            | Some n \<Rightarrow>
                do { let end = start + n;
                     p \<leftarrow> find_char 58 (drop start b);
                     case p of
                       None \<Rightarrow> Some (int n, resp, b, m)
                     | Some p \<Rightarrow>
                         do { let pos = start + p;
                              let header = start + length (takeWhile (\<lambda>c. c = 32) (drop start b));
                              b \<leftarrow> cell_set b pos 0;
                              let val = pos + 1 + length (takeWhile (\<lambda>c. c = 32) (drop (pos + 1) b));
                              check (val < length b);
                              b \<leftarrow> cell_set b end 0;
                              k \<leftarrow> strlen (drop header b);
                              low \<leftarrow> strtolower (drop header b) k;
                              let b = take header b @ low;
                              tb \<leftarrow> rs_headers resp;
                              (res, tb, dead, m) \<leftarrow>
                                ef_stringtab_set m tb (drop header b) (pos - header) (Some (drop val b))
                                  (to_size (int end - int val));
                              Some (int n + 2, resp\<lparr>rs_headers := Some tb\<rparr>, b, m) } } } }"

text \<open>
  The loop over the headers.  When a header is not complete what is left is moved to the front
  and more is read behind it: \<^verbatim>\<open>start\<close> is reset before \<^verbatim>\<open>end - start\<close> is taken, and the result
  of the read is not tested.
\<close>

fun resp_headers_loop ::
    "nat \<Rightarrow> mem \<Rightarrow> ef_curl_response \<Rightarrow> byte list \<Rightarrow> int \<Rightarrow> int \<Rightarrow> resp list \<Rightarrow>
     (ef_curl_response \<times> byte list \<times> int \<times> int \<times> mem \<times> resp list) option" where
  "resp_headers_loop fuel m resp b start end inp =
     (if rs_resp_status resp \<noteq> R_STATUS_HEADER then Some (resp, b, start, end, m, inp)
      else case fuel of
             0 \<Rightarrow> None
           | Suc fuel \<Rightarrow>
               do { check (0 \<le> start);
                    (res, resp, b, m) \<leftarrow> http_parse_resp_header m resp b (nat start);
                    if res < 0
                    then do {
                      check (start \<le> end);
                      d \<leftarrow> strncpy (drop (nat start) b) (nat (end - start));
                      b \<leftarrow> write_block b 0 d;
                      let (r, errno, d, inp) = wrap_read inp (to_size (int MAX_RESP_BUFSIZE - (end - start)));
                      b \<leftarrow> write_block b (nat (end - start)) d;
                      let start = 0;
                      let end = end - start + r;
                      resp_headers_loop fuel m resp b start end inp }
                    else resp_headers_loop fuel m resp b (start + res) end inp })"

declare resp_headers_loop.simps [simp del]

definition http_parse_resp_headers ::
    "nat \<Rightarrow> mem \<Rightarrow> ef_curl_response \<Rightarrow> byte list \<Rightarrow> resp list \<Rightarrow>
     (int \<times> ef_curl_response \<times> mem \<times> resp list) option" where
  "http_parse_resp_headers fuel m resp frame inp =
     do { let (r, errno, d, inp) = wrap_read inp MAX_RESP_BUFSIZE;
          b \<leftarrow> write_block frame 0 d;
          if r < 0 then Some (r, resp, m, inp)
          else do {
            (res, resp) \<leftarrow> http_parse_resp_line resp b;
            if res < 0 then Some (res, resp, m, inp)
            else do {
              (resp, b, start, end, m, inp) \<leftarrow>
                resp_headers_loop fuel m (resp\<lparr>rs_resp_status := R_STATUS_HEADER\<rparr>) b res r inp;
              if end - start > 0
              then do { d \<leftarrow> strncpy (drop (nat start) b) (nat (end - start));
                        buf \<leftarrow> write_block (rs_buf resp) 0 d;
                        Some (0, resp\<lparr>rs_buf := buf, rs_content_received := end - start,
                                      rs_bufend := nat (end - start)\<rparr>, m, inp) }
              else Some (0, resp, m, inp) } } }"

definition ef_curl_exec ::
    "nat \<Rightarrow> mem \<Rightarrow> ef_curl option \<Rightarrow> byte list \<Rightarrow> byte list \<Rightarrow> wresp list \<Rightarrow> resp list \<Rightarrow>
     (int \<times> ef_curl option \<times> byte list \<times> mem \<times> resp list) option" where
  "ef_curl_exec fuel m cu frame frame' scr inp =
     (case cu of
        None \<Rightarrow> Some (- 1, cu, [], m, inp)
      | Some c \<Rightarrow>
          (case cu_req c of
             None \<Rightarrow> Some (- 1, cu, [], m, inp)
           | Some req \<Rightarrow>
               do { (res, req, out, scr) \<leftarrow> send_request fuel req frame scr;
                    let c = c\<lparr>cu_req := Some req\<rparr>;
                    if res < 0 then Some (res, Some c, out, m, inp)
                    else do {
                      (res, resp, m, inp) \<leftarrow> http_parse_resp_headers fuel m (cu_resp c) frame' inp;
                      Some (res, Some (c\<lparr>cu_resp := resp\<rparr>), out, m, inp) } }))"

section \<open>Reading the body\<close>

text \<open>
  The loop of \<^verbatim>\<open>http_parse_resp_chunked\<close> that waits for a chunk line; \<^verbatim>\<open>pos\<close> is an offset in
  \<^verbatim>\<open>buf\<close>, or nothing when a read failed.
\<close>

fun await_chunk_line ::
    "nat \<Rightarrow> ef_curl_response \<Rightarrow> resp list \<Rightarrow> int \<Rightarrow> (nat option \<times> ef_curl_response \<times> resp list) option" where
  "await_chunk_line fuel resp inp buflen =
     do { p \<leftarrow> find_crlf (drop (rs_bufsend resp) (rs_buf resp));
          case p of
            Some p \<Rightarrow> Some (Some (rs_bufsend resp + p), resp, inp)
          | None \<Rightarrow>
              (case fuel of
                 0 \<Rightarrow> None
               | Suc fuel \<Rightarrow>
                   do { let (r, errno, d, inp) = wrap_read inp (to_size (int MAX_RESP_BUFSIZE - buflen));
                        buf \<leftarrow> write_block (rs_buf resp) (rs_bufend resp) d;
                        let resp = resp\<lparr>rs_buf := buf\<rparr>;
                        if r < 0 then Some (None, resp, inp)
                        else do {
                          let resp = resp\<lparr>rs_bufend := rs_bufend resp + nat r\<rparr>;
                          await_chunk_line fuel resp inp (int (rs_bufend resp) - int (rs_bufsend resp)) } }) }"

declare await_chunk_line.simps [simp del]

text \<open>
  A chunk line.  The length of its digits is taken after \<^verbatim>\<open>*start\<close> has moved behind it, so it
  is \<open>- 2\<close>: the end of the digits lies before their start, and none is read.  The flag tells
  whether the code goes back to \<^verbatim>\<open>again\<close> or returns.
\<close>

definition chunk_line ::
    "nat \<Rightarrow> ef_curl_response \<Rightarrow> resp list \<Rightarrow> int \<Rightarrow> (bool \<times> ef_curl_response \<times> resp list) option" where
  "chunk_line fuel resp inp buflen =
     do { (pos, resp, inp) \<leftarrow> await_chunk_line fuel resp inp buflen;
          case pos of
            None \<Rightarrow> Some (False, resp, inp)
          | Some pos \<Rightarrow>
              do { let start = pos + 2;
                   let resp = resp\<lparr>rs_bufsend := start\<rparr>;
                   n \<leftarrow> hexstr2int (drop start (rs_buf resp)) (nat (int pos - int start));
                   let chunklen = to_int n;
                   Some (if chunklen = 0 then (False, resp\<lparr>rs_resp_status := R_STATUS_DONE\<rparr>, inp)
                         else (True, resp\<lparr>rs_chunk_remain := chunklen\<rparr>, inp)) } }"

text \<open>The line end behind a chunk: its two bytes may not have arrived.\<close>

definition chunk_end :: "ef_curl_response \<Rightarrow> resp list \<Rightarrow> (bool \<times> ef_curl_response \<times> resp list) option" where
  "chunk_end resp inp =
     (let buflen = int (rs_bufend resp) - int (rs_bufsend resp)
      in if buflen < 2
         then do { let (r, errno, d, inp) = wrap_read inp MAX_RESP_BUFSIZE;
                   buf \<leftarrow> write_block (rs_buf resp) 0 d;
                   let resp = resp\<lparr>rs_buf := buf\<rparr>;
                   if r < 0 then Some (False, resp, inp)
                   else Some (True, resp\<lparr>rs_bufsend := nat (2 - buflen), rs_bufend := nat r\<rparr>, inp) }
         else Some (True, resp\<lparr>rs_bufsend := rs_bufsend resp + 2\<rparr>, inp))"

text \<open>From the label \<^verbatim>\<open>again\<close>; \<open>out\<close> is the array of the caller and \<open>len\<close> its size.\<close>

fun chunk_again ::
    "nat \<Rightarrow> ef_curl_response \<Rightarrow> resp list \<Rightarrow> byte list \<Rightarrow> nat \<Rightarrow> nat \<Rightarrow>
     (int \<times> ef_curl_response \<times> resp list \<times> byte list) option" where
  "chunk_again 0 resp inp out len sendlen = None"
| "chunk_again (Suc fuel) resp inp out len sendlen =
     (let buflen = int (rs_bufend resp) - int (rs_bufsend resp);
          remain = rs_chunk_remain resp;
          src = drop (rs_bufsend resp) (rs_buf resp)
      in if remain > 0
         then
           if remain > buflen
           then
             if to_size buflen > len
             then do { d \<leftarrow> strncpy src len;
                       out \<leftarrow> write_block out sendlen d;
                       Some (int len, resp\<lparr>rs_bufsend := rs_bufsend resp + len,
                                           rs_chunk_remain := remain - int len\<rparr>, inp, out) }
             else do { let sendlen = nat buflen;
                       d \<leftarrow> strncpy src sendlen;
                       out \<leftarrow> write_block out sendlen d;
                       let resp = resp\<lparr>rs_chunk_remain := remain - int sendlen\<rparr>;
                       let (r, errno, d, inp) = wrap_read inp MAX_RESP_BUFSIZE;
                       buf \<leftarrow> write_block (rs_buf resp) (rs_bufsend resp) d;
                       let resp = resp\<lparr>rs_buf := buf\<rparr>;
                       if r < 0 then Some (int sendlen, resp, inp, out)
                       else chunk_again fuel (resp\<lparr>rs_bufsend := 0, rs_bufend := nat r\<rparr>) inp out len sendlen }
           else if to_size (remain + int sendlen) > len
           then do { let n = to_size (int len - int sendlen);
                     d \<leftarrow> strncpy src n;
                     out \<leftarrow> write_block out sendlen d;
                     let resp = resp\<lparr>rs_chunk_remain := remain - (int len - int sendlen)\<rparr>;
                     let sendlen = len;
                     Some (int sendlen, resp\<lparr>rs_bufsend := rs_bufsend resp + (len - sendlen)\<rparr>, inp, out) }
           else do { d \<leftarrow> strncpy src (nat remain);
                     out \<leftarrow> write_block out sendlen d;
                     let sendlen = sendlen + nat remain;
                     (go, resp, inp) \<leftarrow>
                       chunk_end (resp\<lparr>rs_bufsend := rs_bufsend resp + nat remain, rs_chunk_remain := 0\<rparr>) inp;
                     if \<not> go then Some (int sendlen, resp, inp, out)
                     else do {
                       (go, resp, inp) \<leftarrow> chunk_line fuel resp inp (buflen - remain);
                       if go then chunk_again fuel resp inp out len sendlen
                       else Some (int sendlen, resp, inp, out) } }
         else do { (go, resp, inp) \<leftarrow> chunk_line fuel resp inp buflen;
                   if go then chunk_again fuel resp inp out len sendlen
                   else Some (int sendlen, resp, inp, out) })"

declare chunk_again.simps [simp del]

definition http_parse_resp_chunked ::
    "nat \<Rightarrow> ef_curl_response \<Rightarrow> resp list \<Rightarrow> byte list \<Rightarrow> nat \<Rightarrow>
     (int \<times> ef_curl_response \<times> resp list \<times> byte list) option" where
  "http_parse_resp_chunked fuel resp inp out len = chunk_again fuel resp inp out len 0"

text \<open>
  The value of a header, put in lower case where it is stored; a header that is missing is
  NULL, which \<^verbatim>\<open>strtolower(v->str, v->len)\<close> follows.
\<close>

definition lower_value :: "ef_stringtab \<Rightarrow> byte list \<Rightarrow> nat \<Rightarrow> (byte list \<times> ef_stringtab) option" where
  "lower_value tb key n =
     do { found \<leftarrow> ef_hashtable_find_key tb key n;
          i \<leftarrow> found;
          pb \<leftarrow> cell_get (ht_data tb) i;
          v \<leftarrow> bk_val pb;
          s \<leftarrow> es_str v;
          s \<leftarrow> strtolower s (es_len v);
          Some (s, tb\<lparr>ht_data := (ht_data tb)[i := pb\<lparr>bk_val := Some (v\<lparr>es_str := Some s\<rparr>)\<rparr>]\<rparr>) }"

definition transfer_encoding :: "byte list" where
  "transfer_encoding = [116, 114, 97, 110, 115, 102, 101, 114, 45, 101, 110, 99, 111, 100, 105, 110, 103]"

definition chunked :: "byte list" where
  "chunked = [99, 104, 117, 110, 107, 101, 100]"

definition ef_curl_read_response ::
    "nat \<Rightarrow> ef_curl_response \<Rightarrow> resp list \<Rightarrow> byte list \<Rightarrow> nat \<Rightarrow>
     (int \<times> ef_curl_response \<times> resp list \<times> byte list) option" where
  "ef_curl_read_response fuel resp inp out len =
     do { tb \<leftarrow> rs_headers resp;
          (s, tb) \<leftarrow> lower_value tb transfer_encoding (length transfer_encoding);
          let resp = resp\<lparr>rs_headers := Some tb\<rparr>;
          same \<leftarrow> strcmp_equal s (chunked @ [0]);
          if same
          then if rs_resp_status resp = R_STATUS_DONE then Some (0, resp, inp, out)
               else http_parse_resp_chunked fuel resp inp out len
          else do {
            let buflen = int (rs_bufend resp) - int (rs_bufsend resp);
            if to_size buflen > len
            then do { d \<leftarrow> strncpy (rs_buf resp) len;
                      out \<leftarrow> write_block out 0 d;
                      Some (int len, resp\<lparr>rs_bufsend := rs_bufsend resp + len\<rparr>, inp, out) }
            else do {
              (sendlen, resp, out) \<leftarrow>
                (if buflen > 0
                 then do { d \<leftarrow> strncpy (rs_buf resp) (nat buflen);
                           out \<leftarrow> write_block out 0 d;
                           Some (nat buflen, resp\<lparr>rs_bufsend := 0, rs_bufend := 0\<rparr>, out) }
                 else Some (0, resp, out));
              if rs_resp_status resp = R_STATUS_DONE then Some (int sendlen, resp, inp, out)
              else do {
                let (r, errno, d, inp) = wrap_read inp len;
                out \<leftarrow> write_block out sendlen d;
                if r < 0 then Some (int sendlen, resp, inp, out)
                else do {
                  let sendlen = int sendlen + r;
                  let resp = resp\<lparr>rs_content_received := rs_content_received resp + r\<rparr>;
                  Some (sendlen,
                        if rs_content_received resp = rs_content_length resp
                        then resp\<lparr>rs_resp_status := R_STATUS_DONE\<rparr> else resp,
                        inp, out) } } } } }"

text \<open>Buffering the body: the loop does not end while reads return 0.\<close>

fun buffer_loop ::
    "nat \<Rightarrow> ef_curl_response \<Rightarrow> resp list \<Rightarrow> (ef_curl_response \<times> resp list) option" where
  "buffer_loop fuel resp inp =
     (if \<not> rs_content_received resp < int MAX_RESP_BUFSIZE then Some (resp, inp)
      else if rs_content_length resp > 0 \<and> rs_content_received resp \<ge> rs_content_length resp
      then Some (resp\<lparr>rs_resp_status := R_STATUS_DONE\<rparr>, inp)
      else case fuel of
             0 \<Rightarrow> None
           | Suc fuel \<Rightarrow>
               do { let (r, errno, d, inp) =
                      wrap_read inp (to_size (int MAX_RESP_BUFSIZE - (int (rs_bufend resp) - int (rs_bufsend resp))));
                    buf \<leftarrow> write_block (rs_buf resp) (rs_bufend resp) d;
                    let resp = resp\<lparr>rs_buf := buf\<rparr>;
                    if r < 0 then Some (resp, inp)
                    else buffer_loop fuel (resp\<lparr>rs_content_received := rs_content_received resp + r,
                                                rs_bufend := rs_bufend resp + nat r\<rparr>) inp })"

declare buffer_loop.simps [simp del]

definition content_length :: "byte list" where
  "content_length = [99, 111, 110, 116, 101, 110, 116, 45, 108, 101, 110, 103, 116, 104]"

definition http_buffer_resp_body ::
    "nat \<Rightarrow> ef_curl_response \<Rightarrow> resp list \<Rightarrow> (int \<times> ef_curl_response \<times> resp list) option" where
  "http_buffer_resp_body fuel resp inp =
     do { tb \<leftarrow> rs_headers resp;
          v \<leftarrow> ef_stringtab_find tb content_length (length content_length);
          n \<leftarrow> (case v of
                 None \<Rightarrow> Some (rs_content_length resp)
               | Some v \<Rightarrow> do { s \<leftarrow> es_str v; n \<leftarrow> str2int s (es_len v); Some (sint n) });
          (resp, inp) \<leftarrow> buffer_loop fuel (resp\<lparr>rs_content_length := n\<rparr>) inp;
          Some (int (rs_bufend resp) - int (rs_bufsend resp), resp, inp) }"

end
