(* ===== verification/HttpCorrect.thy ===== *)
theory HttpCorrect
  imports EfHttp
begin

text \<open>
  What the HTTP client sends and what it makes of a response: the bytes of a request, the
  table of headers after a header line, and the cases in which the client cannot work.
\<close>

section \<open>Chunked bodies\<close>

lemma to_int_0 [simp]: "to_int 0 = 0"
  by (simp add: to_int_def)

lemma hexstr2int_no_digits: "hexstr2int s 0 = (if s = [] then None else Some 0)"
  by (cases s) (auto simp: hexstr2int_def signed_digits_def acc_digits.simps cell_get_def)

lemma await_chunk_line_remain:
  "await_chunk_line fuel resp inp buflen = Some (pos, resp', inp') \<Longrightarrow> rs_chunk_remain resp' = rs_chunk_remain resp"
proof (induction fuel arbitrary: resp inp buflen)
  case 0
  then show ?case by (subst (asm) await_chunk_line.simps) (auto simp: bind_Some_iff split: option.splits)
next
  case (Suc fuel)
  from Suc.prems show ?case
    by (subst (asm) await_chunk_line.simps)
      (auto simp: bind_Some_iff Let_def dest!: Suc.IH split: option.splits prod.splits if_splits)
qed

lemma chunk_line_stops:
  assumes "chunk_line fuel resp inp buflen = Some (go, resp', inp')"
  shows "\<not> go \<and> rs_chunk_remain resp' = rs_chunk_remain resp"
  using assms
  by (auto simp: chunk_line_def bind_Some_iff hexstr2int_no_digits Let_def dest!: await_chunk_line_remain
      split: option.splits if_splits)

text \<open>
  C19. A chunked body is never delivered: the length of a chunk is always read as 0, so the
  first chunk line ends the response with nothing put in the caller's array, for every
  behaviour of the descriptor.
\<close>

theorem chunked_body_empty:
  assumes "rs_chunk_remain resp = 0"
  shows "(\<forall>r resp' inp' out'. http_parse_resp_chunked fuel resp inp out len = Some (r, resp', inp', out') \<longrightarrow>
            r = 0 \<and> out' = out \<and> rs_chunk_remain resp' = 0) \<and>
         (\<forall>p. 0 < fuel \<and> find_crlf (drop (rs_bufsend resp) (rs_buf resp)) = Some (Some p) \<and>
              rs_bufsend resp + p + 2 < length (rs_buf resp) \<longrightarrow>
            (\<exists>resp'. http_parse_resp_chunked fuel resp inp out len = Some (0, resp', inp, out) \<and>
                     rs_resp_status resp' = R_STATUS_DONE))"
proof (intro conjI allI impI)
  fix r resp' inp' out'
  assume "http_parse_resp_chunked fuel resp inp out len = Some (r, resp', inp', out')"
  then obtain f where f: "fuel = Suc f" "chunk_again (Suc f) resp inp out len 0 = Some (r, resp', inp', out')"
    by (cases fuel) (simp_all add: http_parse_resp_chunked_def chunk_again.simps)
  then obtain go where c: "chunk_line f resp inp (int (rs_bufend resp) - int (rs_bufsend resp)) = Some (go, resp', inp')"
    "(if go then chunk_again f resp' inp' out len 0 else Some (int 0, resp', inp', out)) = Some (r, resp', inp', out')"
    using assms by (auto simp: chunk_again.simps Let_def bind_Some_iff dest: chunk_line_stops split: if_splits)
  from chunk_line_stops [OF c(1)] c(2) assms show "r = 0" "out' = out" "rs_chunk_remain resp' = 0" by auto
next
  fix p
  assume p: "0 < fuel \<and> find_crlf (drop (rs_bufsend resp) (rs_buf resp)) = Some (Some p) \<and>
    rs_bufsend resp + p + 2 < length (rs_buf resp)"
  then obtain f where f: "fuel = Suc f" by (cases fuel) auto
  from p have "await_chunk_line f resp inp b = Some (Some (rs_bufsend resp + p), resp, inp)" for b
    by (subst await_chunk_line.simps) simp
  with p f assms show "\<exists>resp'. http_parse_resp_chunked fuel resp inp out len = Some (0, resp', inp, out) \<and>
      rs_resp_status resp' = R_STATUS_DONE"
    by (simp add: http_parse_resp_chunked_def chunk_again.simps chunk_line_def hexstr2int_no_digits Let_def)
qed

definition sample_response :: ef_curl_response where
  "sample_response = \<lparr>rs_status = 200, rs_resp_status = R_STATUS_BODY, rs_content_length = 0, rs_content_received = 8,
     rs_bufend = 8, rs_bufsend = 0, rs_chunk_remain = 0, rs_headers = Some sample_stringtab,
     rs_buf = [51, 13, 10, 97, 98, 99, 13, 10] @ replicate 4088 0\<rparr>"

theorem chunked_body_empty_witness:
  "\<exists>resp'. http_parse_resp_chunked 1 sample_response [] [9, 9, 9] 3 = Some (0, resp', [], [9, 9, 9]) \<and>
     rs_resp_status resp' = R_STATUS_DONE"
proof -
  have "rs_chunk_remain sample_response = 0" "find_crlf (drop (rs_bufsend sample_response) (rs_buf sample_response)) = Some (Some 1)"
    "rs_bufsend sample_response + 1 + 2 < length (rs_buf sample_response)"
    by (simp_all add: sample_response_def)
  then show ?thesis
    using chunked_body_empty [of sample_response 1 "[]" "[9, 9, 9]" 3, THEN conjunct2, rule_format, of 1] by simp
qed

section \<open>Reading without a transfer encoding\<close>

text \<open>
  A response without a \<^verbatim>\<open>Transfer-Encoding\<close> header cannot be read: the pointer to its value
  is followed before it is tested.
\<close>

theorem response_without_encoding:
  assumes "rs_headers resp = Some tb" "st_inv tb" "st_map tb transfer_encoding = None"
  shows "ef_curl_read_response fuel resp inp out len = None"
proof -
  have "Option.bind (ht_map tb transfer_encoding) id = None" using assms(3) by (simp add: st_map_def)
  then have f: "ef_stringtab_find tb transfer_encoding (length transfer_encoding) = Some None"
    using assms(2) by (simp add: ef_stringtab_find_eq st_inv_def)
  have "lower_value tb transfer_encoding (length transfer_encoding) = None"
  proof (cases "ef_hashtable_find_key tb transfer_encoding (length transfer_encoding)")
    case (Some found)
    with f show ?thesis by (cases found) (auto simp: lower_value_def ef_stringtab_find_def bind_Some_iff)
  qed (simp add: lower_value_def)
  then show ?thesis using assms(1) by (simp add: ef_curl_read_response_def)
qed

theorem response_without_encoding_witness:
  "ef_curl_read_response 9 sample_response [Data [1, 2]] [0, 0] 2 = None"
proof (rule response_without_encoding [where tb = sample_stringtab])
  have "ef_stringtab_new [] 8 = (Some sample_stringtab, [])"
    by (simp add: sample_stringtab_def ef_stringtab_new_def ef_hashtable_new_def alloc_hash_data_def Let_def)
  then show "st_map sample_stringtab transfer_encoding = None" using ef_stringtab_new_inv by force
qed (simp_all add: sample_response_def sample_stringtab_inv)

section \<open>Request headers\<close>

text \<open>Removal empties buckets, and never writes a key.\<close>

lemma write_link_keys: "bk_key (ht_data (write_link ht l v) ! i) = bk_key (ht_data ht ! i)"
proof (cases l)
  case (At_bucket j)
  then show ?thesis by (cases "j < length (ht_data ht)"; cases "i = j") (auto simp: list_update_beyond)
qed simp

lemma free_bucket_keys:
  assumes "ef_hashtable_free_bucket ht x = Some (ht', d)"
  shows "bk_key (ht_data ht' ! i) = None \<or> bk_key (ht_data ht' ! i) = bk_key (ht_data ht ! i)"
proof (cases "i = x")
  case True
  then show ?thesis using assms
    by (auto simp: ef_hashtable_free_bucket_def Let_def bind_Some_iff cell_get_SomeD split: if_splits option.splits)
next
  case False
  then show ?thesis using assms
    by (auto simp: ef_hashtable_free_bucket_def Let_def bind_Some_iff cell_get_SomeD split: if_splits option.splits)
qed

lemma remove_loop_keys:
  "remove_loop fuel ht l j h key n = Some (ht', d) \<Longrightarrow>
     bk_key (ht_data ht' ! i) = None \<or> bk_key (ht_data ht' ! i) = bk_key (ht_data ht ! i)"
proof (induction fuel arbitrary: l j)
  case (Suc fuel)
  then show ?case
    by (auto simp: bind_Some_iff split: if_splits dest!: free_bucket_keys [where i = i] simp: write_link_keys)
qed simp

lemma remove_key_keys:
  assumes "ef_hashtable_remove_key ht key n = Some (r, ht', d)"
  shows "bk_key (ht_data ht' ! i) = None \<or> bk_key (ht_data ht' ! i) = bk_key (ht_data ht ! i)"
  using assms by (auto simp: ef_hashtable_remove_key_def bind_Some_iff Let_def 
      simp del: remove_loop.simps split: if_splits dest: remove_loop_keys)

text \<open>The key found in a bucket is no longer there once it has been removed.\<close>

lemma remove_first:
  assumes inv: "ht_inv tb" and k: "bk_key (ht_data tb ! 0) = Some k" "es_str k = Some s" "es_inv k"
    and rm: "ef_hashtable_remove_key tb s (es_len k) = Some (r, tb', d)"
  shows "bk_key (ht_data tb' ! 0) = None"
proof (rule ccontr)
  assume "bk_key (ht_data tb' ! 0) \<noteq> None"
  with remove_key_keys [OF rm, of 0] k(1) have k': "bk_key (ht_data tb' ! 0) = Some k" by auto
  have n: "es_len k \<le> length s" using k(2,3) by (simp add: es_inv_def)
  from remove_cases [OF inv n] rm have inv': "ht_inv tb'" and map': "ht_map tb' (take (es_len k) s) = None"
    by (metis Pair_inject option.inject, metis Pair_inject fun_upd_same option.inject)
  from inv' obtain ch rs where R: "ht_repr {} tb' ch rs" by (auto simp: ht_inv_def)
  have "0 < length (ht_data tb')" using ht_repr_shape [OF R] good_cap_bounds [of "ht_cap tb'"] by simp
  moreover have "bkey (ht_data tb' ! 0) = take (es_len k) s" using k' k(2) by (simp add: bkey_def es_bytes_def)
  moreover have "live (ht_data tb' ! 0)" using k' by (simp add: live_def)
  ultimately show False
    using map' ht_find_NoneD [of "ht_data tb'" "take (es_len k) s" 0] by (simp add: ht_map_def)
qed

text \<open>
  A request has at most one header: once a header has been built and others are left, the
  next call follows a NULL key, as the header is always taken from the first bucket, and that
  is the one just emptied.
\<close>

theorem second_header_faults:
  assumes "cr_headers req = Ptr tb" "st_inv tb" "ht_used tb \<noteq> 0"
    and "http_build_request_header req b off cap = Some (r, req', b')" "0 \<le> r"
    and "cr_headers req' = Ptr tb'" "ht_used tb' \<noteq> 0"
  shows "http_build_request_header req' b'' off' cap' = None"
proof -
  from assms(1,3,4,5) obtain k s n d where k: "bk_key (ht_data tb ! 0) = Some k" "es_str k = Some s" "0 < length (ht_data tb)"
    and rm: "ef_stringtab_remove tb s (es_len k) = Some (n, tb', d)"
    using assms(6)
    by (auto simp: http_build_request_header_def bind_Some_iff cell_get_SomeD Let_def split: if_splits)
  from assms(2) obtain ch rs where inv: "ht_inv tb" and R: "ht_repr {} tb ch rs" by (auto simp: st_inv_def ht_inv_def)
  have "bucket_ok (ht_data tb ! 0)" using ht_repr_parts(5) [OF R] k(3) by simp
  then have "es_inv k" using k(1) by (simp add: bucket_ok_def)
  from remove_first [OF inv k(1,2) this] rm have "bk_key (ht_data tb' ! 0) = None"
    by (simp add: ef_stringtab_remove_def)
  then show ?thesis using assms(6,7) by (auto simp: http_build_request_header_def cell_get_def)
qed

definition table_with :: "ef_stringtab \<Rightarrow> byte \<Rightarrow> byte list \<Rightarrow> ef_stringtab" where
  "table_with tb key val =
     (case ef_stringtab_set [] tb [key] 1 (Some (val @ [0])) (length val) of None \<Rightarrow> tb | Some (r, tb', d, m) \<Rightarrow> tb')"

lemma table_with_inv: "st_inv tb \<Longrightarrow> 0 \<notin> set val \<Longrightarrow> st_inv (table_with tb key val)"
  by (rule ef_stringtab_set_cases [of tb "[key]" 1 "val @ [0]" "length val" "[]"])
    (simp_all add: table_with_def key_ok_def arg_ok_def strlen_append_NUL [of val "[]", simplified])

definition two_headers :: ef_curl_request where
  "two_headers = \<lparr>cr_method = Null, cr_status = R_STATUS_HEADER, cr_protocol = Null, cr_request_uri = Null,
     cr_headers = Ptr (table_with (table_with sample_stringtab 97 [98]) 99 [100]), cr_request_body = Null\<rparr>"

theorem second_header_faults_witness:
  "\<exists>req' b'. http_build_request_header two_headers (replicate 20 0) 0 20 = Some (5, req', b') \<and>
     http_build_request_header req' b' 5 15 = None"
proof -
  let ?tb = "table_with (table_with sample_stringtab 97 [98]) 99 [100]"
  have "map_option (\<lambda>(r, req, b). (r, case cr_headers req of Ptr t \<Rightarrow> ht_used t = 1 | _ \<Rightarrow> False))
      (http_build_request_header two_headers (replicate 20 0) 0 20) = Some (5, True)" by code_simp
  then obtain req' b' where r: "http_build_request_header two_headers (replicate 20 0) 0 20 = Some (5, req', b')"
    "case cr_headers req' of Ptr t \<Rightarrow> ht_used t = 1 | _ \<Rightarrow> False" by auto
  then obtain tb' where t: "cr_headers req' = Ptr tb'" "ht_used tb' = 1" by (cases "cr_headers req'") auto
  have "ht_used ?tb \<noteq> 0" by code_simp
  moreover have "st_inv ?tb" by (intro table_with_inv sample_stringtab_inv) simp_all
  ultimately have "http_build_request_header req' b' 5 15 = None"
    using r t by (intro second_header_faults [of two_headers ?tb "replicate 20 0" 0 20 5 req' b' tb']) (simp_all add: two_headers_def)
  with r(1) show ?thesis by blast
qed

section \<open>A request on the wire\<close>

text \<open>Appending to an array that is zero behind what has been written.\<close>

lemma strlen_zeros: "0 < k \<Longrightarrow> strlen (replicate k 0) = Some 0"
  by (cases k) simp_all

lemma strlen_cstring: "0 \<notin> set s \<Longrightarrow> strlen (s @ [0]) = Some (length s)"
  by (rule strlen_append_NUL)

lemma write_zeros:
  assumes "length s \<le> k"
  shows "write_block (pre @ replicate k 0) (length pre) s = Some (pre @ s @ replicate (k - length s) 0)"
  using assms by (simp add: write_block_def)

lemma strcpy_zeros:
  assumes "0 \<notin> set s" "length s < k" "n = length pre"
  shows "strcpy (pre @ replicate k 0) n (s @ 0 # t) = Some ((pre @ s) @ replicate (k - length s) 0)"
proof -
  have "take (Suc (length s)) (s @ 0 # t) = s @ [0]" by simp
  moreover have "write_block (pre @ replicate k 0) (length pre) (s @ [0]) = Some (pre @ (s @ [0]) @ replicate (k - Suc (length s)) 0)"
    using write_zeros [of "s @ [0]" k pre] assms(2) by simp
  moreover have "0 # replicate (k - Suc (length s)) 0 = replicate (k - length s) (0 :: byte)"
    using assms(2) by (metis Suc_diff_Suc replicate_Suc)
  ultimately show ?thesis using assms(1,3) by (simp add: strcpy_def strlen_append_NUL)
qed

lemma strcat_zeros:
  assumes "0 \<notin> set s" "length s < k" "n = length pre"
  shows "strcat (pre @ replicate k 0) n (s @ 0 # t) = Some ((pre @ s) @ replicate (k - length s) 0)"
proof -
  have "strlen (drop n (pre @ replicate k 0)) = Some 0" using assms(2,3) by (simp add: strlen_zeros)
  then have "strcat (pre @ replicate k 0) n (s @ 0 # t) = strcpy (pre @ replicate k 0) n (s @ 0 # t)"
    by (simp add: strcat_def strcpy_def)
  then show ?thesis by (simp only: strcpy_zeros [OF assms])
qed

lemma put_zeros:
  assumes "0 < k" "n = length pre"
  shows "cell_set (pre @ replicate k 0) n c = Some ((pre @ [c]) @ replicate (k - 1) 0)"
  using assms by (cases k) (simp_all add: cell_set_def)

text \<open>The request line.\<close>

definition request_line :: "byte list \<Rightarrow> byte list" where
  "request_line u = [71, 69, 84, 32] @ u @ [32, 72, 84, 84, 80, 47, 49, 46, 48, 13, 10]"

lemma length_request_line [simp]: "length (request_line u) = length u + 15"
  by (simp add: request_line_def)

lemma build_request_line:
  assumes "cr_method req = Null" "cr_protocol req = Null" "cr_request_uri req = Ptr (u @ [0])" "0 \<notin> set u"
    and "length u + 15 \<le> cap" "length u + 15 < k"
  shows "\<exists>req'. http_build_request_line req (replicate k 0) 0 cap =
           Some (int (length (request_line u)), req', request_line u @ replicate (k - length (request_line u)) 0) \<and>
         cr_headers req' = cr_headers req \<and> cr_request_body req' = cr_request_body req"
proof -
  have m: "strlen CURL_METHOD_GET = Some 3" "strlen HTTP_PROTOCOL_0 = Some 8"
    by (simp_all add: CURL_METHOD_GET_def HTTP_PROTOCOL_0_def strlen_def)
  define P1 P2 P3 P4 P5 P6 where defs: "P1 = [71, 69, 84 :: byte]" "P2 = P1 @ [32]" "P3 = P2 @ u" "P4 = P3 @ [32]"
    "P5 = P4 @ [72, 84, 84, 80, 47, 49, 46, 48]" "P6 = P5 @ [13, 10]"
  have s1: "strcat (replicate k 0) 0 CURL_METHOD_GET = Some (P1 @ replicate (k - 3) 0)"
    using strcat_zeros [of P1 k 0 "[]" "[]"] assms(5,6) by (simp add: defs CURL_METHOD_GET_def)
  have s2: "cell_set (P1 @ replicate (k - 3) 0) (0 + 3) 32 = Some (P2 @ replicate (k - 4) 0)"
    using put_zeros [of "k - 3" 3 P1 32] assms(5,6) by (simp add: defs)
  have s3: "strcat (P2 @ replicate (k - 4) 0) (0 + 3 + 1) (u @ [0]) = Some (P3 @ replicate (k - 4 - length u) 0)"
    using strcat_zeros [OF assms(4), of "k - 4" 4 P2 "[]"] assms(5,6) by (simp add: defs)
  have s4: "cell_set (P3 @ replicate (k - 4 - length u) 0) (0 + 3 + 1 + length u) 32 = Some (P4 @ replicate (k - 5 - length u) 0)"
    using put_zeros [of "k - 4 - length u" "4 + length u" P3 32] assms(5,6) by (simp add: defs)
  have s5: "strcat (P4 @ replicate (k - 5 - length u) 0) (0 + 3 + 1 + length u + 1) HTTP_PROTOCOL_0 =
      Some (P5 @ replicate (k - 13 - length u) 0)"
    using strcat_zeros [of "[72, 84, 84, 80, 47, 49, 46, 48]" "k - 5 - length u" "5 + length u" P4 "[]"] assms(5,6)
    by (simp add: defs HTTP_PROTOCOL_0_def)
  have s6: "strcat (P5 @ replicate (k - 13 - length u) 0) (0 + 3 + 1 + length u + 1 + 8) [13, 10, 0] =
      Some (P6 @ replicate (k - 15 - length u) 0)"
    using strcat_zeros [of "[13, 10]" "k - 13 - length u" "13 + length u" P5 "[]"] assms(5,6) by (simp add: defs)
  have "P6 = request_line u" by (simp add: defs request_line_def)
  then show ?thesis
    using m assms s1 s2 s3 s4 s5 s6
    by (simp add: http_build_request_line_def strlen_cstring Let_def)
qed

text \<open>A table with a single header, in the first bucket.\<close>

definition single :: "ef_stringtab \<Rightarrow> byte list \<Rightarrow> byte list \<Rightarrow> bool" where
  "single tb k v \<longleftrightarrow> st_inv tb \<and> ht_used tb = 1 \<and> ht_next tb = 1 \<and>
     (\<exists>vs. ht_map tb = [k \<mapsto> Some vs] \<and> es_bytes vs = v \<and> es_inv vs \<and> es_str vs \<noteq> None)"

lemma single_first:
  assumes "single tb k v"
  obtains ks vs where "0 < length (ht_data tb)" "bk_key (ht_data tb ! 0) = Some ks" "es_inv ks" "es_bytes ks = k" "es_str ks \<noteq> None"
    "ht_map tb k = Some (Some vs)" "es_inv vs" "es_bytes vs = v" "es_str vs \<noteq> None"
proof -
  from assms obtain ch rs where R: "ht_repr {} tb ch rs" by (auto simp: single_def st_inv_def ht_inv_def)
  from assms obtain vs where vs: "ht_map tb k = Some (Some vs)" "es_bytes vs = v" "es_inv vs" "es_str vs \<noteq> None"
    by (auto simp: single_def)
  from vs(1) obtain i where i: "i < length (ht_data tb)" "live (ht_data tb ! i)" "bkey (ht_data tb ! i) = k"
    unfolding ht_map_def by (rule ht_find_SomeE)
  have "i < unat (ht_next tb)" using ht_repr_live_below [OF R] i ht_repr_shape(3) [OF R] by simp
  then have "i = 0" using assms by (simp add: single_def)
  with i obtain ks where ks: "bk_key (ht_data tb ! 0) = Some ks" "es_bytes ks = k" by (auto simp: live_def bkey_def)
  have "bucket_ok (ht_data tb ! 0)" using ht_repr_parts(5) [OF R] i \<open>i = 0\<close> by simp
  with ks(1) have "es_inv ks" "es_str ks \<noteq> None" by (simp_all add: bucket_ok_def)
  with ks vs i \<open>i = 0\<close> show thesis by (intro that [of ks vs]) auto
qed

lemma empty_map_unused:
  assumes "ht_inv tb" "ht_map tb = (\<lambda>_. None)"
  shows "ht_used tb = 0"
proof -
  from assms(1) obtain ch rs where R: "ht_repr {} tb ch rs" by (auto simp: ht_inv_def)
  have "\<not> live b" if "b \<in> set (ht_data tb)" for b
    using that ht_find_NoneD [of "ht_data tb" "bkey b"] assms(2) by (auto simp: ht_map_def in_set_conv_nth)
  then have "filter live (ht_data tb) = []" by simp
  then show ?thesis using ht_repr_parts(7) [OF R] by (simp add: unat_eq_0)
qed

lemma es_cstring:
  assumes "es_inv s" "es_str s = Some b" "0 \<notin> set (es_bytes s)"
  shows "\<exists>t. b = es_bytes s @ 0 # t" and "es_len s = length (es_bytes s)"
proof -
  have "es_len s < length b" "b ! es_len s = 0" using assms(1,2) by (simp_all add: es_inv_def)
  then have "b = take (es_len s) b @ 0 # drop (Suc (es_len s)) b" using id_take_nth_drop by metis
  then show "\<exists>t. b = es_bytes s @ 0 # t" using assms(2) by (auto simp: es_bytes_def)
  show "es_len s = length (es_bytes s)" using \<open>es_len s < length b\<close> assms(2) by (simp add: es_bytes_def)
qed

text \<open>The map without its only header is that of an empty table.\<close>

lemma single_removed:
  assumes "single tb k v" "take n s = k" "n \<le> length s"
  shows "\<exists>tb' d. ef_stringtab_remove tb s n = Some (0, tb', d) \<and> ht_used tb' = 0"
proof -
  have inv: "ht_inv tb" using assms(1) by (simp add: single_def st_inv_def)
  from assms(1) have "(ht_map tb)(k := None) = (\<lambda>_. None)" by (auto simp: fun_eq_iff single_def)
  then show ?thesis
    using empty_map_unused assms(2)
    by (rule_tac remove_cases [OF inv assms(3)]) (auto simp: ef_stringtab_remove_def)
qed

text \<open>The table of a new request after its first header.\<close>

lemma new_table_set:
  assumes "ef_hashtable_new m 0 b = (Some t0, m1)" "key_ok key n"
    and set: "ef_hashtable_set_key_value m2 t0 key n val = Some (Some i, tb, d, m')"
  shows "ht_next tb = 1 \<and> ht_used tb = 1 \<and> ht_map tb = [take n key \<mapsto> val] \<and> ht_inv tb"
proof -
  note R = ef_hashtable_new_repr [OF assms(1), simplified]
  have inv: "ht_inv t0" using R(1) by (auto simp: ht_inv_def)
  have n: "n \<le> length key" using assms(2) by (simp add: key_ok_def)
  have new: "ht_next t0 = 0" "ht_used t0 = 0" "ht_next t0 < ht_cap t0"
    using assms(1) by (auto simp: ef_hashtable_new_def Let_def hash_recap_def HASH_TABLE_INIT_CAP_def
        split: prod.splits option.splits if_splits)
  have "ef_hashtable_find_key t0 key n = Some None"
    by (rule find_key_cases [OF R(1) n]) (simp_all add: R(2))
  moreover have "alloc_bucket 2 m2 t0 = Some (Some 0, t0\<lparr>ht_next := 1\<rparr>, m2)"
    using new by (simp add: numeral_2_eq_2)
  ultimately have "ht_next tb = 1 \<and> ht_used tb = 1"
    using set new by (auto simp: ef_hashtable_set_key_value_def Let_def bind_Some_iff split: option.splits)
  moreover have "ht_map tb = [take n key \<mapsto> val] \<and> ht_inv tb"
    using set by (rule_tac set_cases [OF inv assms(2), of m2 val]) (auto simp: R(2))
  ultimately show ?thesis by blast
qed

lemma table_set_single:
  assumes "table_set m Null (k @ [0]) (Some (v @ [0])) = Some (0, Ptr tb, m')" "0 \<notin> set k" "0 \<notin> set v"
  shows "single tb k v"
proof -
  have key: "key_ok (k @ [0]) (length k)" by (simp add: key_ok_def)
  have val: "arg_ok (Some (v @ [0])) (length v)" by (simp add: arg_ok_def)
  have bytes: "arg_bytes (Some (v @ [0])) (length v) = v" by (cases v) (simp_all add: arg_bytes_def arg_len_def)
  from assms obtain t0 m1 r d where t0: "ef_stringtab_new m 0 = (Some t0, m1)"
    and set: "ef_stringtab_set m1 t0 (k @ [0]) (length k) (Some (v @ [0])) (length v) = Some (Some r, tb, d, m')"
    by (auto simp: table_set_def strlen_cstring bind_Some_iff Let_def split: prod.splits option.splits if_splits)
  have inv0: "st_inv t0" using ef_stringtab_new_inv [OF t0] by simp
  then have inv: "st_inv tb" by (rule ef_stringtab_set_cases [OF _ key val, of _ m1]) (use set in auto)
  show ?thesis
  proof (rule ef_string_new_cases [OF val, of m1])
    fix m2 assume "ef_string_new m1 (Some (v @ [0])) (length v) = Some (None, m2)"
    then show ?thesis using set by (simp add: ef_stringtab_set_def)
  next
    fix s m2 assume s: "ef_string_new m1 (Some (v @ [0])) (length v) = Some (Some s, m2)" "es_inv s"
      "es_bytes s = arg_bytes (Some (v @ [0])) (length v)" "es_str s \<noteq> None"
    with set obtain i d where "ef_hashtable_set_key_value m2 t0 (k @ [0]) (length k) (Some s) = Some (Some i, tb, d, m')"
      by (auto simp: ef_stringtab_set_def bind_Some_iff ef_string_free_def split: option.splits prod.splits)
    from new_table_set [OF _ key this] t0 s inv bytes show ?thesis
      by (auto simp: single_def ef_stringtab_new_def)
  qed
qed

lemma build_single_header:
  assumes "single tb k v" "cr_headers req = Ptr tb" "0 \<notin> set k" "0 \<notin> set v"
    and "length k + length v + 3 \<le> cap" "length k + length v + 3 < z"
  shows "\<exists>tb'. http_build_request_header req (pre @ replicate z 0) (length pre) cap =
           Some (int (length k + length v + 3), req\<lparr>cr_headers := Ptr tb'\<rparr>,
                 (pre @ k @ [58] @ v @ [13, 10]) @ replicate (z - (length k + length v + 3)) 0) \<and> ht_used tb' = 0"
proof -
  from assms(1) obtain ks vs where f: "0 < length (ht_data tb)" "bk_key (ht_data tb ! 0) = Some ks" "es_inv ks"
    "es_bytes ks = k" "es_str ks \<noteq> None" "ht_map tb k = Some (Some vs)" "es_inv vs" "es_bytes vs = v" "es_str vs \<noteq> None"
    by (rule single_first)
  from f(5,9) obtain kb vb where b: "es_str ks = Some kb" "es_str vs = Some vb" by auto
  obtain kt where k: "kb = k @ 0 # kt" "es_len ks = length k" using es_cstring [OF f(3) b(1)] f(4) assms(3) by auto
  obtain vt where v: "vb = v @ 0 # vt" "es_len vs = length v" using es_cstring [OF f(7) b(2)] f(8) assms(4) by auto
  from assms(1) have inv: "ht_inv tb" "ht_used tb \<noteq> 0" by (auto simp: single_def st_inv_def)
  have find: "ef_stringtab_find tb kb (length k) = Some (Some vs)"
    using ef_stringtab_find_eq [OF inv(1), of "length k" kb] k f(6) by simp
  obtain tb' d where rm: "ef_stringtab_remove tb kb (length k) = Some (0, tb', d)" "ht_used tb' = 0"
    using single_removed [OF assms(1), of "length k" kb] k by auto
  define P1 P2 P3 P4 where defs: "P1 = pre @ k" "P2 = P1 @ [58]" "P3 = P2 @ v" "P4 = P3 @ [13, 10]"
  have s1: "strcpy (pre @ replicate z 0) (length pre) kb = Some (P1 @ replicate (z - length k) 0)"
    using strcpy_zeros [OF assms(3), of z "length pre" pre kt] assms(6) k by (simp add: defs)
  have s2: "cell_set (P1 @ replicate (z - length k) 0) (length pre + length k) 58 = Some (P2 @ replicate (z - length k - 1) 0)"
    using put_zeros [of "z - length k" "length pre + length k" P1 58] assms(6) by (simp add: defs)
  have s3: "strcpy (P2 @ replicate (z - length k - 1) 0) (length pre + length k + 1) vb =
      Some (P3 @ replicate (z - length k - 1 - length v) 0)"
    using strcpy_zeros [OF assms(4), of "z - length k - 1" "length pre + length k + 1" P2 vt] assms(6) v by (simp add: defs)
  have s4: "strcat (P3 @ replicate (z - length k - 1 - length v) 0) (length pre + length k + 1 + length v) [13, 10, 0] =
      Some (P4 @ replicate (z - length k - 1 - length v - 2) 0)"
    using strcat_zeros [of "[13, 10]" "z - length k - 1 - length v" "length pre + length k + 1 + length v" P3 "[]"] assms(6)
    by (simp add: defs)
  have "P4 = pre @ k @ [58] @ v @ [13, 10]" by (simp add: defs)
  moreover have "z - length k - 1 - length v - 2 = z - (length k + length v + 3)" by simp
  ultimately have s4': "strcat (P3 @ replicate (z - length k - 1 - length v) 0) (length pre + length k + 1 + length v) [13, 10, 0] =
      Some ((pre @ k @ [58] @ v @ [13, 10]) @ replicate (z - (length k + length v + 3)) 0)" using s4 by simp
  have "http_build_request_header req (pre @ replicate z 0) (length pre) cap =
      Some (int (length k + length v + 3), req\<lparr>cr_headers := Ptr tb'\<rparr>,
            (pre @ k @ [58] @ v @ [13, 10]) @ replicate (z - (length k + length v + 3)) 0)"
    using assms(2,5) inv f b(1) b(2) k(2) v(2) find rm(1) s1 s2 s3 s4'
    by (simp add: http_build_request_header_def Let_def)
  with rm(2) show ?thesis by blast
qed

lemma build_blank_line:
  assumes "cr_headers req = Ptr tb" "ht_used tb = 0" "2 < z"
  shows "http_build_request_header req (pre @ replicate z 0) (length pre) cap =
           Some (2, req\<lparr>cr_status := R_STATUS_BODY\<rparr>, (pre @ [13, 10]) @ replicate (z - 2) 0)"
  using assms strcat_zeros [of "[13, 10]" z "length pre" pre "[]"] by (simp add: http_build_request_header_def)

lemma status_distinct [simp]:
  "R_STATUS_HEADER \<noteq> R_STATUS_BODY" "R_STATUS_BODY \<noteq> R_STATUS_HEADER" "R_STATUS_DONE \<noteq> R_STATUS_BODY"
  "R_STATUS_BODY \<noteq> R_STATUS_DONE" "R_STATUS_DONE \<noteq> R_STATUS_HEADER" "R_STATUS_HEADER \<noteq> R_STATUS_DONE"
  by (simp_all add: R_STATUS_HEADER_def R_STATUS_BODY_def R_STATUS_DONE_def)

lemma read_block_front: "read_block (d @ t) 0 (length d) = Some d"
  by (simp add: read_block_def)

lemma header_loop_single:
  assumes "single tb k v" "cr_headers req = Ptr tb" "0 \<notin> set k" "0 \<notin> set v" "cr_status req = R_STATUS_HEADER"
    and "length k + length v + 3 \<le> cap" "length k + length v + 5 < z" "pos = length pre"
  shows "\<exists>req' b. header_loop (Suc (Suc fuel)) req (pre @ replicate z 0) pos cap [] =
           Some (Inr (b, 0, MAX_HEADER_BUFSIZE), req', pre @ k @ [58] @ v @ [13, 10, 13, 10], []) \<and>
         cr_status req' = R_STATUS_BODY \<and> cr_request_body req' = cr_request_body req"
proof -
  let ?n = "length k + length v + 3"
  let ?pre = "pre @ k @ [58] @ v @ [13, 10]"
  obtain tb' where h: "http_build_request_header req (pre @ replicate z 0) (length pre) cap =
      Some (int ?n, req\<lparr>cr_headers := Ptr tb'\<rparr>, ?pre @ replicate (z - ?n) 0)" "ht_used tb' = 0"
    using build_single_header [OF assms(1-4,6), of z pre] assms(7) by auto
  have l: "http_build_request_header (req\<lparr>cr_headers := Ptr tb'\<rparr>) (?pre @ replicate (z - ?n) 0) (length ?pre) (cap - ?n) =
      Some (2, req\<lparr>cr_headers := Ptr tb', cr_status := R_STATUS_BODY\<rparr>, (?pre @ [13, 10]) @ replicate (z - ?n - 2) 0)"
    by (rule build_blank_line) (use h(2) assms(7) in auto)
  have lp: "length ?pre = length pre + ?n" by simp
  have "length pre + ?n + 2 = length (?pre @ [13, 10])" by simp
  then have rd: "read_block ((?pre @ [13, 10]) @ replicate (z - ?n - 2) 0) 0 (length pre + ?n + 2) = Some (?pre @ [13, 10])"
    by (simp only: read_block_front)
  have n: "nat (int (length k) + int (length v) + 3) = length k + length v + 3" by simp
  have "header_loop (Suc (Suc fuel)) req (pre @ replicate z 0) pos cap [] =
      header_loop (Suc fuel) (req\<lparr>cr_headers := Ptr tb'\<rparr>) (?pre @ replicate (z - ?n) 0) (length pre + ?n) (cap - ?n) []"
    using h(1) assms(5,8) n by (subst header_loop.simps) simp
  also have "\<dots> = Some (Inr ((?pre @ [13, 10]) @ replicate (z - ?n - 2) 0, 0, MAX_HEADER_BUFSIZE),
      req\<lparr>cr_headers := Ptr tb', cr_status := R_STATUS_BODY\<rparr>, ?pre @ [13, 10], [])"
    using l [unfolded lp] rd assms(5) by (subst header_loop.simps) (simp add: header_loop.simps)
  finally show ?thesis by simp
qed

lemma body_loop_empty:
  assumes "cr_status req = R_STATUS_BODY" "cr_request_body req \<noteq> Uninit"
  shows "body_loop (Suc fuel) req b 0 cap [] = Some (Inr (b, 0, MAX_HEADER_BUFSIZE), req\<lparr>cr_status := R_STATUS_DONE\<rparr>, [], [])"
  using assms
  by (cases "cr_request_body req")
    (subst body_loop.simps; simp add: http_build_request_body_def read_block_def body_loop.simps)+



section \<open>A header line\<close>

lemma cell_set_front: "cell_set (d @ c # t) (length d) x = Some (d @ x # t)"
  by (simp add: cell_set_def)

lemma takeWhile_spaces: "c \<noteq> 32 \<Longrightarrow> takeWhile (\<lambda>c. c = 32) (replicate j 32 @ c # t) = replicate j (32 :: byte)"
  by (induction j) auto

text \<open>A header line in the buffer, and what the buffer holds once its name and value are split off.\<close>

definition split_line :: "byte list \<Rightarrow> byte list \<Rightarrow> nat \<Rightarrow> byte list \<Rightarrow> byte list \<Rightarrow> byte list" where
  "split_line pre name j val rest = pre @ map lower_char name @ [0] @ replicate j 32 @ val @ [0, 10] @ rest"

lemma parse_header_step:
  assumes "b = pre @ name @ [58] @ replicate j 32 @ val @ [13, 10] @ rest"
    and "name \<noteq> []" "hd name \<noteq> 32" "set name \<inter> {0, 13, 58} = {}"
    and "val \<noteq> []" "hd val \<noteq> 32" "set val \<inter> {0, 13} = {}"
    and "rs_headers resp = Some tb" "length b < 2 ^ 31"
  shows "http_parse_resp_header m resp b (length pre) =
      do { (res, tb, dead, m) \<leftarrow> ef_stringtab_set m tb (drop (length pre) (split_line pre name j val rest)) (length name)
             (Some (val @ [0, 10] @ rest)) (length val);
           Some (int (length name + 1 + j + length val + 2), resp\<lparr>rs_headers := Some tb\<rparr>, split_line pre name j val rest, m) }"
proof -
  let ?l = "name @ [58] @ replicate j 32 @ val"
  let ?n = "length ?l" and ?s = "length pre"
  let ?low = "map lower_char name"
  let ?b1 = "pre @ name @ [0] @ replicate j 32 @ val @ [13, 10] @ rest"
  let ?b2 = "pre @ name @ [0] @ replicate j 32 @ val @ [0, 10] @ rest"
  let ?b3 = "pre @ ?low @ [0] @ replicate j 32 @ val @ [0, 10] @ rest"
  have d: "drop ?s b = ?l @ 13 # 10 # rest" by (simp add: assms(1))
  obtain c name' where c: "name = c # name'" "c \<noteq> 13" "c \<noteq> 32" "c \<noteq> 0" using assms(2-4) by (cases name) auto
  have c0: "cell_get b ?s = Some c" by (simp add: cell_get_def assms(1) c nth_append)
  have crlf: "find_crlf (drop ?s b) = Some (Some ?n)"
    using find_crlf_line [of ?l rest] d assms(4,7) by auto
  have colon: "find_char 58 (drop ?s b) = Some (Some (length name))"
    using find_char_at [of name 58 "replicate j 32 @ val @ 13 # 10 # rest"] d assms(4) by auto
  have head: "takeWhile (\<lambda>c. c = 32) (drop ?s b) = []" using d c by simp
  have b1: "cell_set b (?s + length name) 0 = Some ?b1" by (simp add: cell_set_def assms(1) list_update_append)
  have spaces: "takeWhile (\<lambda>c. c = 32) (drop (?s + length name + 1) ?b1) = replicate j 32"
    using assms(5,6) takeWhile_spaces [of "hd val" j "tl val @ [13, 10] @ rest"] by (cases val) simp_all
  have "length (pre @ name @ [0] @ replicate j 32 @ val) = ?s + ?n" by simp
  then have b2: "cell_set ?b1 (?s + ?n) 0 = Some ?b2"
    using cell_set_front [of "pre @ name @ [0] @ replicate j 32 @ val" 13 "10 # rest" 0] by simp
  have k: "strlen (drop ?s ?b2) = Some (length name)"
    using strlen_append_NUL [of name "replicate j 32 @ val @ [0, 10] @ rest"] assms(4) by auto
  have low: "strtolower (drop ?s ?b2) (length name) = Some (drop ?s ?b3)" by (simp add: strtolower_eq)
  have b3: "take ?s ?b2 @ drop ?s ?b3 = ?b3" by simp
  have key: "drop ?s ?b3 = ?low @ [0] @ replicate j 32 @ val @ [0, 10] @ rest" by simp
  have "length (pre @ ?low @ [0] @ replicate j 32) = ?s + length name + 1 + j" by simp
  then have v: "drop (?s + length name + 1 + j) ?b3 = val @ [0, 10] @ rest"
    using append_eq_conv_conj [of "pre @ ?low @ [0] @ replicate j 32" "val @ [0, 10] @ rest" ?b3] by simp
  have len: "to_size (int (?s + ?n) - int (?s + length name + 1 + j)) = length val"
    using assms(9) by (simp add: to_size_def assms(1))
  show ?thesis
    using c(2) len [simplified] assms(8)
    by (simp only: http_parse_resp_header_def c0 crlf colon head b1 spaces b2 k low b3 v len Let_def bind.bind_lunit if_False
        option.case length_replicate simp_thms list.size add_0_right split_line_def) (simp add: assms(1))
qed

text \<open>
  C18. A complete header line, with any number of spaces behind the colon, is taken off the input and stored under the name in lower case, or the memory for it
  was refused and the table is as it was; what follows the line stays in place.
\<close>

theorem header_line_stored:
  assumes "b = pre @ name @ [58] @ replicate j 32 @ val @ [13, 10] @ rest"
    and "name \<noteq> []" "hd name \<noteq> 32" "set name \<inter> {0, 13, 58} = {}"
    and "val \<noteq> []" "hd val \<noteq> 32" "set val \<inter> {0, 13} = {}"
    and "rs_headers resp = Some tb" "st_inv tb" "length b < 2 ^ 31"
  shows "\<exists>tb' b' m'. http_parse_resp_header m resp b (length pre) =
           Some (int (length name + 1 + j + length val + 2), resp\<lparr>rs_headers := Some tb'\<rparr>, b', m') \<and> st_inv tb' \<and>
         drop (length pre + (length name + 1 + j + length val + 2)) b' = rest \<and> length b' = length b \<and>
         (st_map tb' = (st_map tb)(map lower_char name \<mapsto> val) \<or> st_map tb' = st_map tb \<and> (m \<noteq> [] \<or> unat (ht_cap tb) = 2 ^ 31))"
proof -
  let ?s = "length pre" and ?b = "split_line pre name j val rest" and ?val = "val @ [0, 10] @ rest"
  let ?n = "length name + 1 + j + length val + 2"
  note step = parse_header_step [OF assms(1-8,10), of m]
  have ok: "key_ok (drop ?s ?b) (length name)" by (simp add: key_ok_def split_line_def assms(2))
  have arg: "arg_ok (Some ?val) (length val)" "arg_bytes (Some ?val) (length val) = val"
    using assms(5) by (simp_all add: arg_ok_def arg_bytes_pos)
  have tk: "take (length name) (drop ?s ?b) = map lower_char name" by (simp add: split_line_def)
  have "length (pre @ map lower_char name @ [0] @ replicate j 32 @ val @ [0, 10]) = ?s + ?n" by simp
  then have rest: "drop (?s + ?n) ?b = rest"
    using append_eq_conv_conj [of "pre @ map lower_char name @ [0] @ replicate j 32 @ val @ [0, 10]" rest ?b]
    by (simp add: split_line_def)
  have len: "length ?b = length b" by (simp add: assms(1) split_line_def)
  show ?thesis
  proof (rule ef_stringtab_set_cases [OF assms(9) ok arg(1), of m])
    fix tb' m' assume "ef_stringtab_set m tb (drop ?s ?b) (length name) (Some ?val) (length val) = Some (None, tb', [], m')"
      "st_inv tb'" "st_map tb' = st_map tb" "m \<noteq> [] \<or> unat (ht_cap tb) = 2 ^ 31"
    then show ?thesis using step rest len by (intro exI [of _ tb'] exI [of _ ?b] exI [of _ m']) simp
  next
    fix s tb' m' assume "ef_stringtab_set m tb (drop ?s ?b) (length name) (Some ?val) (length val) =
        Some (Some s, tb', dead_val tb (take (length name) (drop ?s ?b)), m')" "st_inv tb'"
      "st_map tb' = (st_map tb)(take (length name) (drop ?s ?b) \<mapsto> arg_bytes (Some ?val) (length val))"
    then show ?thesis using step rest len unfolding tk arg(2)
      by (intro exI [of _ tb'] exI [of _ ?b] exI [of _ m']) simp
  qed
qed

theorem header_line_stored_witness:
  "\<exists>tb' b' m'. http_parse_resp_header [] sample_response [65, 103, 101, 58, 32, 55, 13, 10, 13, 10] 0 =
       Some (8, sample_response\<lparr>rs_headers := Some tb'\<rparr>, b', m') \<and> st_inv tb' \<and> drop 8 b' = [13, 10]"
proof -
  have b: "[65, 103, 101, 58, 32, 55, 13, 10, 13, 10] =
      [] @ [65, 103, 101] @ [58] @ replicate 1 32 @ [55] @ [13, 10] @ [13, 10 :: byte]" by simp
  have "rs_headers sample_response = Some sample_stringtab" by (simp add: sample_response_def)
  from header_line_stored [OF b _ _ _ _ _ _ this sample_stringtab_inv, of "[]"] obtain tb' b' m' where
    "http_parse_resp_header [] sample_response [65, 103, 101, 58, 32, 55, 13, 10, 13, 10] 0 =
       Some (8, sample_response\<lparr>rs_headers := Some tb'\<rparr>, b', m')" "st_inv tb'"
    "drop (Suc (Suc (Suc (Suc (Suc (Suc (Suc (Suc 0)))))))) b' = [13, 10]" by auto
  then show ?thesis by (intro exI [of _ tb'] exI [of _ b'] exI [of _ m']) (simp add: eval_nat_numeral)
qed

end
