(* ===== verification/FiberSwitch386.thy ===== *)
theory FiberSwitch386
  imports FiberSwitch
begin

text \<open>
  \<^verbatim>\<open>i386/fiber.s\<close>: the context switch of the 32-bit build, with the arguments on the stack.
  The machine has 32-bit registers and a memory of 32-bit cells, addressed at multiples of 4
  from a common base.
\<close>

section \<open>The machine\<close>

datatype reg386 = EAX | EBX | ECX | EDX | ESI | EDI | EBP | ESP | EFLAGS | EIP

record machine386 =
  m3_reg :: "reg386 \<Rightarrow> u32"
  m3_mem :: "u32 \<Rightarrow> u32"

text \<open>\<open>Storel r b d\<close> is \<^verbatim>\<open>mov %r,d(%b)\<close> and \<open>Loadl b d r\<close> is \<^verbatim>\<open>mov d(%b),%r\<close>.\<close>

datatype instr386 =
    Movl reg386 reg386 | Movil u32 reg386 | Storel reg386 reg386 u32 | Loadl reg386 u32 reg386
  | Pushl reg386 | Popl reg386 | Clearl reg386 | Subil u32 reg386 | Retl

definition put_reg :: "reg386 \<Rightarrow> u32 \<Rightarrow> machine386 \<Rightarrow> machine386" where
  "put_reg r v s = s\<lparr>m3_reg := (m3_reg s)(r := v)\<rparr>"

definition put_mem :: "u32 \<Rightarrow> u32 \<Rightarrow> machine386 \<Rightarrow> machine386" where
  "put_mem a v s = s\<lparr>m3_mem := (m3_mem s)(a := v)\<rparr>"

definition popl_to :: "reg386 \<Rightarrow> machine386 \<Rightarrow> machine386" where
  "popl_to r s =
     (let sp = m3_reg s ESP; v = m3_mem s sp
      in put_reg r v (put_reg ESP (sp + 4) s))"

fun step386 :: "instr386 \<Rightarrow> machine386 \<Rightarrow> machine386" where
  "step386 (Movl a b) s = put_reg b (m3_reg s a) s"
| "step386 (Movil k b) s = put_reg b k s"
| "step386 (Storel r b d) s = put_mem (m3_reg s b + d) (m3_reg s r) s"
| "step386 (Loadl b d r) s = put_reg r (m3_mem s (m3_reg s b + d)) s"
| "step386 (Pushl r) s =
     (let sp = m3_reg s ESP - 4 in put_mem sp (m3_reg s r) (put_reg ESP sp s))"
| "step386 (Popl r) s = popl_to r s"
| "step386 (Clearl r) s = put_reg r 0 s"
| "step386 (Subil k r) s = put_reg r (m3_reg s r - k) s"
| "step386 Retl s = popl_to EIP s"

definition exec386 :: "instr386 list \<Rightarrow> machine386 \<Rightarrow> machine386" where
  "exec386 = fold step386"

lemma exec386_simps [simp]:
  "exec386 [] s = s" "exec386 (i # is) s = exec386 is (step386 i s)"
  "exec386 (xs @ ys) s = exec386 ys (exec386 xs s)"
  by (simp_all add: exec386_def)

lemmas machine386_defs = put_reg_def put_mem_def popl_to_def

section \<open>The code\<close>

definition FIBER_STACK_UPPER_OFFSET_386 :: u32 where "FIBER_STACK_UPPER_OFFSET_386 = 8"
definition FIBER_STACK_PTR_OFFSET_386 :: u32 where "FIBER_STACK_PTR_OFFSET_386 = 16"
definition FIBER_STATUS_OFFSET_386 :: u32 where "FIBER_STATUS_OFFSET_386 = 20"
definition FIBER_PARENT_OFFSET_386 :: u32 where "FIBER_PARENT_OFFSET_386 = 24"
definition FIBER_SCHED_OFFSET_386 :: u32 where "FIBER_SCHED_OFFSET_386 = 28"
definition SCHED_CURRENT_FIBER_OFFSET_386 :: u32 where "SCHED_CURRENT_FIBER_OFFSET_386 = 0"

lemmas offset386_defs =
  FIBER_STACK_UPPER_OFFSET_386_def FIBER_STACK_PTR_OFFSET_386_def FIBER_STATUS_OFFSET_386_def
  FIBER_PARENT_OFFSET_386_def FIBER_SCHED_OFFSET_386_def SCHED_CURRENT_FIBER_OFFSET_386_def

definition saved_regs_386 :: "reg386 list" where
  "saved_regs_386 = [EDX, ECX, EBX, EBP, ESI, EDI, EFLAGS]"

definition save_code_386 :: "instr386 list" where
  "save_code_386 = [Movl ESP EAX, Pushl EDX, Pushl ECX, Pushl EBX, Pushl EBP, Pushl ESI, Pushl EDI, Pushl EFLAGS,
     Loadl EAX 8 EDX, Storel ESP EDX 0]"

text \<open>\<^verbatim>\<open>_ef_fiber_restore\<close>.\<close>

definition restore_code_386 :: "instr386 list" where
  "restore_code_386 = [Popl EFLAGS, Popl EDI, Popl ESI, Popl EBP, Popl EBX, Popl ECX, Popl EDX, Retl]"

definition ef_fiber_internal_swap_386 :: "instr386 list" where
  "ef_fiber_internal_swap_386 = save_code_386 @ [Loadl EAX 4 ESP, Loadl EAX 12 EAX] @ restore_code_386"

text \<open>\<^verbatim>\<open>_ef_fiber_exit\<close>, with the jump to the restoring code.\<close>

definition ef_fiber_exit_code_386 :: "instr386 list" where
  "ef_fiber_exit_code_386 =
     [Popl EDX, Movil 0 ECX, Storel ECX EDX FIBER_STATUS_OFFSET_386,
      Loadl EDX FIBER_PARENT_OFFSET_386 ECX, Loadl EDX FIBER_SCHED_OFFSET_386 EDX,
      Storel ECX EDX SCHED_CURRENT_FIBER_OFFSET_386, Loadl ECX FIBER_STACK_PTR_OFFSET_386 ESP] @ restore_code_386"

definition ef_fiber_internal_init_386 :: "u32 \<Rightarrow> instr386 list" where
  "ef_fiber_internal_init_386 exit_addr =
     [Pushl EBP, Movl ESP EBP, Pushl EDX, Pushl ECX, Loadl EBP 8 EDX, Movil 1 EAX,
      Storel EAX EDX FIBER_STATUS_OFFSET_386, Movl EDX ECX, Loadl EDX FIBER_STACK_UPPER_OFFSET_386 EDX,
      Storel ECX EDX (- 4), Loadl EBP 16 EAX, Storel EAX EDX (- 8), Movil exit_addr EAX, Storel EAX EDX (- 12),
      Loadl EBP 12 EAX, Storel EAX EDX (- 16), Clearl EAX, Storel EAX EDX (- 20), Storel EAX EDX (- 24),
      Storel EAX EDX (- 28), Storel EDX EDX (- 32), Storel EAX EDX (- 36), Storel EAX EDX (- 40),
      Storel EAX EDX (- 44), Movl EDX EAX, Subil 44 EAX, Popl ECX, Popl EDX, Movl EBP ESP, Popl EBP, Retl]"

section \<open>What the two halves do\<close>

definition frame_cells_386 :: "u32 \<Rightarrow> u32 list" where
  "frame_cells_386 sp = [sp - 28, sp - 24, sp - 20, sp - 16, sp - 12, sp - 8, sp - 4, sp]"

definition frame_regs_386 :: "reg386 list" where
  "frame_regs_386 = [EFLAGS, EDI, ESI, EBP, EBX, ECX, EDX, EIP]"

lemma word_offsets_386:
  "(x :: u32) - numeral a - numeral b = x - (numeral a + numeral b)"
  "(x :: u32) - numeral a + numeral b = x - (numeral a - numeral b)"
  by (simp_all only: diff_diff_eq diff_diff_eq2 diff_add_eq)

text \<open>The second argument, at 8 above the stack pointer, is where the stack pointer is stored.\<close>

lemma save_386:
  "m3_reg (exec386 save_code_386 s) =
     (m3_reg s)(EAX := m3_reg s ESP, EDX := m3_mem s (m3_reg s ESP + 8), ESP := m3_reg s ESP - 28)"
  "m3_mem (exec386 save_code_386 s) =
     (put_cells (rev (butlast (frame_cells_386 (m3_reg s ESP)))) (map (m3_reg s) saved_regs_386) (m3_mem s))
       (m3_mem s (m3_reg s ESP + 8) := m3_reg s ESP - 28)"
  by (auto simp: fun_eq_iff save_code_386_def saved_regs_386_def frame_cells_386_def Let_def machine386_defs word_offsets_386)

lemma restore_386:
  assumes "m3_reg s ESP = sp - 28"
  shows "m3_mem (exec386 restore_code_386 s) = m3_mem s"
    and "map (m3_reg (exec386 restore_code_386 s)) frame_regs_386 = map (m3_mem s) (frame_cells_386 sp)"
    and "m3_reg (exec386 restore_code_386 s) ESP = sp + 4"
    and "m3_reg (exec386 restore_code_386 s) EAX = m3_reg s EAX"
  using assms
  by (simp_all add: restore_code_386_def Let_def machine386_defs word_offsets_386 frame_regs_386_def frame_cells_386_def add.assoc)

lemma frame_cells_386_split: "frame_cells_386 sp = butlast (frame_cells_386 sp) @ [sp]"
  by (simp add: frame_cells_386_def)

lemma save_frame_386:
  assumes "m3_mem s (m3_reg s ESP + 8) \<notin> set (frame_cells_386 (m3_reg s ESP))"
  shows "map (m3_mem (exec386 save_code_386 s)) (frame_cells_386 (m3_reg s ESP)) =
    map (m3_reg s) (butlast frame_regs_386) @ [m3_mem s (m3_reg s ESP)]"
proof -
  define as where "as = butlast (frame_cells_386 (m3_reg s ESP))"
  have cells: "frame_cells_386 (m3_reg s ESP) = as @ [m3_reg s ESP]" using frame_cells_386_split by (simp add: as_def)
  have "distinct (as @ [m3_reg s ESP])" by (simp add: as_def frame_cells_386_def)
  moreover have "length as = length (map (m3_reg s) saved_regs_386)"
    by (simp add: as_def frame_cells_386_def saved_regs_386_def)
  ultimately have "map (m3_mem (exec386 save_code_386 s)) (as @ [m3_reg s ESP]) =
      rev (map (m3_reg s) saved_regs_386) @ [m3_mem s (m3_reg s ESP)]"
    using assms unfolding save_386 cells butlast_snoc by (rule put_frame)
  then show ?thesis by (simp add: cells saved_regs_386_def frame_regs_386_def)
qed

lemma save_elsewhere_386:
  assumes "a \<noteq> m3_mem s (m3_reg s ESP + 8)" "a \<notin> set (butlast (frame_cells_386 (m3_reg s ESP)))"
  shows "m3_mem (exec386 save_code_386 s) a = m3_mem s a"
  unfolding save_386 using assms by (rule put_outside) (simp add: frame_cells_386_def saved_regs_386_def)

text \<open>The arguments of the switch, above its return address, where no cell of the frame lies.\<close>

lemma arguments_kept:
  assumes "m3_mem s (m3_reg s ESP + 8) \<notin> {m3_reg s ESP + 4, m3_reg s ESP + 12}"
  shows "m3_mem (exec386 save_code_386 s) (m3_reg s ESP + 4) = m3_mem s (m3_reg s ESP + 4)"
    and "m3_mem (exec386 save_code_386 s) (m3_reg s ESP + 12) = m3_mem s (m3_reg s ESP + 12)"
proof -
  have "m3_reg s ESP + 4 \<notin> set (butlast (frame_cells_386 (m3_reg s ESP)))"
    "m3_reg s ESP + 12 \<notin> set (butlast (frame_cells_386 (m3_reg s ESP)))"
    by (simp_all add: frame_cells_386_def diff_conv_add_uminus del: add_uminus_conv_diff)
  with assms show "m3_mem (exec386 save_code_386 s) (m3_reg s ESP + 4) = m3_mem s (m3_reg s ESP + 4)"
    "m3_mem (exec386 save_code_386 s) (m3_reg s ESP + 12) = m3_mem s (m3_reg s ESP + 12)"
    by (auto intro!: save_elsewhere_386)
qed

section \<open>Properties\<close>

text \<open>The two loads between the halves of the switch.\<close>

definition switch_to :: "machine386 \<Rightarrow> machine386" where
  "switch_to s = exec386 [Loadl EAX 4 ESP, Loadl EAX 12 EAX] (exec386 save_code_386 s)"

lemma switch_to:
  assumes "m3_mem s (m3_reg s ESP + 8) \<noteq> m3_reg s ESP + 4" "m3_mem s (m3_reg s ESP + 8) \<noteq> m3_reg s ESP + 12"
  shows "exec386 ef_fiber_internal_swap_386 s = exec386 restore_code_386 (switch_to s)"
    and "m3_mem (switch_to s) = m3_mem (exec386 save_code_386 s)"
    and "m3_reg (switch_to s) ESP = m3_mem s (m3_reg s ESP + 4)"
    and "m3_reg (switch_to s) EAX = m3_mem s (m3_reg s ESP + 12)"
  using arguments_kept [of s] assms
  by (simp_all add: ef_fiber_internal_swap_386_def switch_to_def machine386_defs save_386(1))

text \<open>
  On the 32-bit build too a fiber that switched away is continued by a later switch to the
  stack pointer saved for it, with every saved register, the flags and the stack as at its call
  and the value sent as the result; the frame has not been written to meanwhile, and the
  cells the pointers are stored to are none of the arguments.
\<close>

theorem context_switch_resumes_386:
  assumes own: "m3_mem s (m3_reg s ESP + 8) \<notin> set (frame_cells_386 (m3_reg s ESP)) \<union> {m3_reg s ESP + 4, m3_reg s ESP + 12}"
    and to: "m3_mem t (m3_reg t ESP + 4) = m3_reg s ESP - 28"
    and args: "m3_mem t (m3_reg t ESP + 8) \<notin> {m3_reg t ESP + 4, m3_reg t ESP + 12}"
    and kept: "map (m3_mem t) (frame_cells_386 (m3_reg s ESP)) =
           map (m3_mem (exec386 ef_fiber_internal_swap_386 s)) (frame_cells_386 (m3_reg s ESP))"
    and apart: "set (frame_cells_386 (m3_reg s ESP)) \<inter>
           insert (m3_mem t (m3_reg t ESP + 8)) (set (butlast (frame_cells_386 (m3_reg t ESP)))) = {}"
  shows "m3_mem (exec386 ef_fiber_internal_swap_386 s) (m3_mem s (m3_reg s ESP + 8)) = m3_reg s ESP - 28 \<and>
         (\<forall>r \<in> set saved_regs_386. m3_reg (exec386 ef_fiber_internal_swap_386 t) r = m3_reg s r) \<and>
         m3_reg (exec386 ef_fiber_internal_swap_386 t) ESP = m3_reg s ESP + 4 \<and>
         m3_reg (exec386 ef_fiber_internal_swap_386 t) EIP = m3_mem s (m3_reg s ESP) \<and>
         m3_reg (exec386 ef_fiber_internal_swap_386 t) EAX = m3_mem t (m3_reg t ESP + 12)"
proof -
  let ?cs = "frame_cells_386 (m3_reg s ESP)"
  have "m3_mem (exec386 ef_fiber_internal_swap_386 s) = m3_mem (exec386 save_code_386 s)"
    using own switch_to(1,2) [of s] restore_386(1) [of "switch_to s" "m3_reg (switch_to s) ESP + 28"] by simp
  then have kept': "map (m3_mem t) ?cs = map (m3_mem (exec386 save_code_386 s)) ?cs"
    and stored: "m3_mem (exec386 ef_fiber_internal_swap_386 s) (m3_mem s (m3_reg s ESP + 8)) = m3_reg s ESP - 28"
    using kept by (simp_all add: save_386(2))
  note v = switch_to [of t] 
  have sp: "m3_reg (switch_to t) ESP = m3_reg s ESP - 28" using args to v(3) by simp
  have "m3_mem (switch_to t) a = m3_mem t a" if "a \<in> set ?cs" for a
    using that apart args v(2) save_elsewhere_386 [of a t] by auto
  then have same: "map (m3_mem (switch_to t)) ?cs = map (m3_mem (exec386 save_code_386 s)) ?cs" using kept' by simp
  have nin: "m3_mem s (m3_reg s ESP + 8) \<notin> set ?cs" using own by simp
  have "map (m3_reg (exec386 restore_code_386 (switch_to t))) frame_regs_386 =
      map (m3_reg s) (butlast frame_regs_386) @ [m3_mem s (m3_reg s ESP)]"
    using restore_386(2) [OF sp, unfolded same] unfolding save_frame_386 [OF nin] .
  then have "\<forall>r \<in> set saved_regs_386. m3_reg (exec386 restore_code_386 (switch_to t)) r = m3_reg s r"
    "m3_reg (exec386 restore_code_386 (switch_to t)) EIP = m3_mem s (m3_reg s ESP)"
    by (simp_all add: frame_regs_386_def saved_regs_386_def)
  with stored args v(1,4) restore_386(3,4) [OF sp] show ?thesis by simp
qed

definition sample_call_386 :: machine386 where
  "sample_call_386 = \<lparr>m3_reg = (\<lambda>r. 0)(ESP := 4096, EBX := 5), m3_mem = (\<lambda>a. 0)(4096 := 77, 4100 := 8164, 4104 := 32)\<rparr>"

definition sample_back_386 :: machine386 where
  "sample_back_386 = \<lparr>m3_reg = (\<lambda>r. 0)(ESP := 8192),
     m3_mem = (m3_mem (exec386 ef_fiber_internal_swap_386 sample_call_386))(8196 := 4068, 8200 := 36, 8204 := 9)\<rparr>"

theorem context_switch_resumes_386_witness:
  "m3_reg (exec386 ef_fiber_internal_swap_386 sample_back_386) EBX = 5 \<and>
   m3_reg (exec386 ef_fiber_internal_swap_386 sample_back_386) EIP = 77 \<and>
   m3_reg (exec386 ef_fiber_internal_swap_386 sample_back_386) EAX = 9"
proof -
  have regs: "m3_reg sample_call_386 ESP = 4096" "m3_reg sample_back_386 ESP = 8192" "m3_reg sample_call_386 EBX = 5"
    "m3_mem sample_call_386 4096 = 77" "m3_mem sample_call_386 4104 = 32" "m3_mem sample_back_386 8196 = 4068"
    "m3_mem sample_back_386 8200 = 36" "m3_mem sample_back_386 8204 = 9"
    by (simp_all add: sample_call_386_def sample_back_386_def)
  have "m3_mem sample_call_386 (m3_reg sample_call_386 ESP + 8) \<notin>
      set (frame_cells_386 (m3_reg sample_call_386 ESP)) \<union> {m3_reg sample_call_386 ESP + 4, m3_reg sample_call_386 ESP + 12}"
    "m3_mem sample_back_386 (m3_reg sample_back_386 ESP + 4) = m3_reg sample_call_386 ESP - 28"
    "m3_mem sample_back_386 (m3_reg sample_back_386 ESP + 8) \<notin> {m3_reg sample_back_386 ESP + 4, m3_reg sample_back_386 ESP + 12}"
    "map (m3_mem sample_back_386) (frame_cells_386 (m3_reg sample_call_386 ESP)) =
       map (m3_mem (exec386 ef_fiber_internal_swap_386 sample_call_386)) (frame_cells_386 (m3_reg sample_call_386 ESP))"
    "set (frame_cells_386 (m3_reg sample_call_386 ESP)) \<inter>
       insert (m3_mem sample_back_386 (m3_reg sample_back_386 ESP + 8)) (set (butlast (frame_cells_386 (m3_reg sample_back_386 ESP)))) = {}"
    by (simp_all add: regs frame_cells_386_def) (simp add: sample_back_386_def)
  from context_switch_resumes_386 [OF this] regs show ?thesis by (simp add: saved_regs_386_def)
qed

section \<open>The first and the last switch of a fiber\<close>

lemma init_effect_386:
  fixes exit_addr :: u32
  assumes "m3_mem s (m3_reg s ESP + 4) = f" "m3_mem s (m3_reg s ESP + 8) = entry" "m3_mem s (m3_reg s ESP + 12) = param"
    and "m3_mem s (f + 8) = f"
    and "set [f + 20, f - 4, f - 8, f - 12, f - 16, f - 20, f - 24, f - 28, f - 32, f - 36, f - 40, f - 44] \<inter>
         set [m3_reg s ESP - 12, m3_reg s ESP - 8, m3_reg s ESP - 4, m3_reg s ESP, m3_reg s ESP + 8, m3_reg s ESP + 12] = {}"
    and "f + 8 \<notin> set [m3_reg s ESP - 12, m3_reg s ESP - 8, m3_reg s ESP - 4]"
  defines "u \<equiv> exec386 (ef_fiber_internal_init_386 exit_addr) s"
  shows "map (m3_mem u) (frame_cells_386 (f - 16)) = [0, 0, 0, f, 0, 0, 0, entry]"
    and "m3_mem u (f - 12) = exit_addr" and "m3_mem u (f - 8) = param" and "m3_mem u (f - 4) = f"
    and "m3_mem u (f + 20) = 1" and "m3_reg u EAX = f - 44"
    and "m3_reg u ESP = m3_reg s ESP + 4" and "m3_reg u EIP = m3_mem s (m3_reg s ESP)"
    and "\<forall>r \<in> {EBX, ECX, EDX, ESI, EDI, EBP}. m3_reg u r = m3_reg s r"
  using assms(1-6)
  by (simp_all add: u_def ef_fiber_internal_init_386_def machine386_defs offset386_defs Let_def frame_cells_386_def word_offsets_386)

text \<open>
  C40. On the 32-bit build the exit code takes the parameter of the procedure for the fiber: when
  the procedure of a fiber whose struct lies at the top of its stack has returned, the word
  the parameter points to is marked as exited, and the parent and the scheduler are read from
  there.  The two agree only where the parameter is the fiber itself.
\<close>

theorem exit_386_uses_parameter:
  fixes exit_addr fiber param :: u32
  assumes "m3_reg v ESP = fiber - 12" "m3_mem v (fiber - 12) = exit_addr" "m3_mem v (fiber - 8) = param"
    and "m3_mem v (param + 24) = parent" "m3_mem v (param + 28) = sched" "sched \<noteq> param + 20"
    and "parent + 16 \<notin> {sched, param + 20}"
  shows "m3_reg (step386 Retl v) EIP = exit_addr \<and>
         m3_mem (exec386 ef_fiber_exit_code_386 (step386 Retl v)) = (m3_mem v)(param + 20 := 0, sched := parent) \<and>
         m3_reg (exec386 ef_fiber_exit_code_386 (step386 Retl v)) ESP = m3_mem v (parent + 16) + 32"
proof -
  let ?x = "exec386 [Popl EDX, Movil 0 ECX, Storel ECX EDX FIBER_STATUS_OFFSET_386,
      Loadl EDX FIBER_PARENT_OFFSET_386 ECX, Loadl EDX FIBER_SCHED_OFFSET_386 EDX,
      Storel ECX EDX SCHED_CURRENT_FIBER_OFFSET_386, Loadl ECX FIBER_STACK_PTR_OFFSET_386 ESP] (step386 Retl v)"
  have x: "m3_mem ?x = (m3_mem v)(param + 20 := 0, sched := parent)" "m3_reg ?x ESP = m3_mem v (parent + 16)"
    using assms by (simp_all add: machine386_defs offset386_defs Let_def word_offsets_386)
  have eip: "m3_reg (step386 Retl v) EIP = exit_addr" using assms(1,2) by (simp add: machine386_defs Let_def)
  have w: "exec386 ef_fiber_exit_code_386 (step386 Retl v) = exec386 restore_code_386 ?x"
    by (simp only: ef_fiber_exit_code_386_def exec386_simps)
  have sp: "m3_reg ?x ESP = (m3_mem v (parent + 16) + 28) - 28" using x(2) by simp
  from restore_386(1,3) [OF sp] x(1) eip show ?thesis unfolding w by (simp add: add.assoc del: exec386_simps step386.simps)
qed

text \<open>A fiber at 4096 with the parameter 9000, which is no fiber.\<close>

definition sample_exit_386 :: machine386 where
  "sample_exit_386 = \<lparr>m3_reg = (\<lambda>r. 0)(ESP := 4084),
     m3_mem = (\<lambda>a. 0)(4084 := 500, 4088 := 9000, 4092 := 4096, 9024 := 700, 9028 := 800, 716 := 12000)\<rparr>"

theorem exit_386_uses_parameter_witness:
  "m3_mem (exec386 ef_fiber_exit_code_386 (step386 Retl sample_exit_386)) =
     (m3_mem sample_exit_386)(9020 := 0, 800 := 700)"
  using exit_386_uses_parameter [of sample_exit_386 4096 500 9000 700 800]
  by (simp add: sample_exit_386_def del: exec386_simps step386.simps)

end
