(* ===== verification/EfMain.thy ===== *)
theory EfMain
  imports EfHttp EfRedis EfFastcgi BufferioCorrect
begin

text \<open>
  The procedures of \<^verbatim>\<open>main.c\<close> that a routine runs for a connection.  The descriptors are
  scripts of responses: \<open>inp\<close> and \<open>scr\<close> belong to the connection itself, \<open>up\<close> and \<open>scr'\<close> to
  the one the procedure opens.  The result of opening it is an argument.
\<close>

section \<open>Forwarding\<close>

definition MAIN_BUFFER_SIZE :: nat where "MAIN_BUFFER_SIZE = 8192"

text \<open>The inner loop: write until all is gone or a write fails; a write that takes nothing is repeated.\<close>

fun write_rest :: "nat \<Rightarrow> wresp list \<Rightarrow> byte list \<Rightarrow> (bool \<times> byte list \<times> wresp list) option" where
  "write_rest fuel scr data =
     (if data = [] then Some (True, [], scr)
      else case fuel of
             0 \<Rightarrow> None
           | Suc fuel \<Rightarrow>
               let (w, errno, sent, scr) = wrap_write scr data
               in if w < 0 then Some (False, sent, scr)
                  else do { (ok, out, scr) \<leftarrow> write_rest fuel scr (drop (nat w) data);
                            Some (ok, sent @ out, scr) })"

fun forward_loop :: "nat \<Rightarrow> resp list \<Rightarrow> wresp list \<Rightarrow> (byte list \<times> resp list \<times> wresp list) option" where
  "forward_loop 0 up scr = None"
| "forward_loop (Suc fuel) up scr =
     (let (r, errno, d, up) = wrap_read up MAIN_BUFFER_SIZE
      in if r \<le> 0 then Some ([], up, scr)
         else do { (ok, sent, scr) \<leftarrow> write_rest fuel scr d;
                   if \<not> ok then Some (sent, up, scr)
                   else do { (out, up, scr) \<leftarrow> forward_loop fuel up scr;
                             Some (sent @ out, up, scr) } })"

declare write_rest.simps [simp del] forward_loop.simps [simp del]

text \<open>
  \<^verbatim>\<open>conn\<close> is the result of the connection attempt; what is sent to the other side comes
  first in the result, then what goes back to the client.
\<close>

definition forward_proc ::
    "nat \<Rightarrow> resp list \<Rightarrow> int \<Rightarrow> resp list \<Rightarrow> wresp list \<Rightarrow> wresp list \<Rightarrow> (int \<times> byte list \<times> byte list) option" where
  "forward_proc fuel inp conn up scr' scr =
     (let (r, errno, d, inp) = wrap_read inp MAIN_BUFFER_SIZE
      in if r \<le> 0 then Some (r, [], [])
         else let ret = conn
         in if ret < 0 then Some (ret, [], [])
         else let (w, errno, sent, scr') = wrap_write scr' d
         in if w < 0 then Some (ret, sent, [])
            else do { (out, up, scr) \<leftarrow> forward_loop fuel up scr;
                      Some (ret, sent, out) })"

section \<open>The HTTP client\<close>

text \<open>Every write of the inner loop starts at the front of the array again.\<close>

fun get_send :: "nat \<Rightarrow> wresp list \<Rightarrow> byte list \<Rightarrow> int \<Rightarrow> int \<Rightarrow> (int \<times> byte list \<times> wresp list) option" where
  "get_send fuel scr buffer ret send =
     (if \<not> send < ret then Some (ret, [], scr)
      else case fuel of
             0 \<Rightarrow> None
           | Suc fuel \<Rightarrow>
               do { data \<leftarrow> read_block buffer 0 (nat ret);
                    let (w, errno, sent, scr) = wrap_write scr data;
                    if w < 0 then Some (w, sent, scr)
                    else do { (ret, out, scr) \<leftarrow> get_send fuel scr buffer ret (send + w);
                              Some (ret, sent @ out, scr) } })"

fun get_loop ::
    "nat \<Rightarrow> ef_curl_response \<Rightarrow> resp list \<Rightarrow> wresp list \<Rightarrow> byte list \<Rightarrow> int \<Rightarrow> (int \<times> byte list) option" where
  "get_loop fuel resp up scr buffer ret =
     (if \<not> 0 < ret then Some (ret, [])
      else case fuel of
             0 \<Rightarrow> None
           | Suc fuel \<Rightarrow>
               do { (ret, sent, scr) \<leftarrow> get_send fuel scr buffer ret 0;
                    if ret < 0 then Some (ret, sent)
                    else do { (ret, resp, up, buffer) \<leftarrow> ef_curl_read_response fuel resp up buffer MAIN_BUFFER_SIZE;
                              (ret, out) \<leftarrow> get_loop fuel resp up scr buffer ret;
                              Some (ret, sent @ out) } })"

declare get_send.simps [simp del] get_loop.simps [simp del]

text \<open>\<open>rq\<close>, \<open>rp\<close>, the arrays \<open>frame\<close>, \<open>frame'\<close> and \<open>buffer\<close> are what new memory and the stack hold.\<close>

definition get_proc ::
    "nat \<Rightarrow> mem \<Rightarrow> ef_curl_request \<Rightarrow> ef_curl_response \<Rightarrow> int \<Rightarrow> (int \<Rightarrow> byte list option \<Rightarrow> int \<Rightarrow> int) \<Rightarrow>
     byte list \<Rightarrow> byte list \<Rightarrow> byte list \<Rightarrow> resp list \<Rightarrow> wresp list \<Rightarrow> wresp list \<Rightarrow>
     (int \<times> byte list \<times> byte list) option" where
  "get_proc fuel m rq rp sock connect frame frame' buffer up scr' scr =
     do { (cu, m) \<leftarrow> ef_curl_init m rq rp (Some [49, 50, 55, 46, 48, 46, 48, 46, 49, 0]) 8081
                      (Some [47, 116, 101, 115, 116, 0]) sock connect;
          case cu of
            None \<Rightarrow> Some (- 1, [], [])
          | Some _ \<Rightarrow>
              do { (ret, cu, sent, m, up) \<leftarrow> ef_curl_exec fuel m cu frame frame' scr' up;
                   c \<leftarrow> cu;
                   if ret < 0 then Some (ret, sent, [])
                   else do {
                     (ret, resp, up, buffer) \<leftarrow> ef_curl_read_response fuel (cu_resp c) up buffer MAIN_BUFFER_SIZE;
                     (ret, out) \<leftarrow> get_loop fuel resp up scr buffer ret;
                     Some (ret, sent, out) } } }"

section \<open>The redis client\<close>

text \<open>
  The variable \<^verbatim>\<open>rep\<close> is freed at the label \<^verbatim>\<open>exit\<close> whatever it holds: it has no value where
  the first command fails, and is a reply freed before where the second one does; \<open>Uninit\<close>
  stands for both.
\<close>

definition redis_exit ::
    "int \<Rightarrow> ef_redis_reply slot \<Rightarrow> byte list \<Rightarrow> byte list \<Rightarrow> (int \<times> byte list \<times> byte list) option" where
  "redis_exit ret rep sent out =
     do { n \<leftarrow> ef_redis_free_reply rep; Some (ret, sent, out) }"

definition redis_errors ::
    "nat \<Rightarrow> mem \<Rightarrow> ef_redis_connection \<Rightarrow> byte list \<Rightarrow> resp list \<Rightarrow> wresp list \<Rightarrow> wresp list \<Rightarrow>
     byte list \<Rightarrow> byte list \<Rightarrow> (int \<times> byte list \<times> byte list) option" where
  "redis_errors fuel m con frame up scr' scr sent out =
     do { (ret, s, scr') \<leftarrow> ef_redis_cmd frame (Inr [104, 109, 103, 101, 116, 32, 104]) scr';
          let sent = sent @ s;
          if ret < 0 then redis_exit ret Uninit sent out
          else do {
            (rep, m, con, up) \<leftarrow> ef_redis_read_reply fuel m con up;
            case rep of
              None \<Rightarrow> redis_exit ret Null sent out
            | Some rep \<Rightarrow>
                (case rep of
                   Reply_err type err \<Rightarrow>
                     do { type' \<leftarrow> type;
                          n \<leftarrow> strlen type';
                          let (ret, errno, s, scr) = wrap_write scr (take n type');
                          let out = out @ s;
                          if ret < 0 then redis_exit ret (Ptr rep) sent out
                          else do {
                            n \<leftarrow> strlen err;
                            let (ret, errno, s, scr) = wrap_write scr (take n err);
                            redis_exit ret (Ptr rep) sent (out @ s) } }
                 | _ \<Rightarrow> redis_exit ret (Ptr rep) sent out) } }"

definition redis_proc ::
    "nat \<Rightarrow> mem \<Rightarrow> int \<Rightarrow> u64 \<Rightarrow> (int \<Rightarrow> byte list \<Rightarrow> int \<Rightarrow> int) \<Rightarrow> byte list \<Rightarrow> byte list \<Rightarrow>
     resp list \<Rightarrow> wresp list \<Rightarrow> wresp list \<Rightarrow> (int \<times> byte list \<times> byte list) option" where
  "redis_proc fuel m sock junk connect frame frame' up scr' scr =
     do { (con, m) \<leftarrow> ef_redis_connect m (Some DEFAULT_HOST) 6379 sock junk connect;
          case con of
            None \<Rightarrow> Some (- 1, [], [])
          | Some con \<Rightarrow>
              do { (ret, sent, scr') \<leftarrow> ef_redis_cmd frame (Inr [80, 73, 78, 71]) scr';
                   if ret < 0 then redis_exit ret Uninit sent []
                   else do {
                     (rep, m, con, up) \<leftarrow> ef_redis_read_reply fuel m con up;
                     case rep of
                       None \<Rightarrow> redis_exit (- 1) Null sent []
                     | Some (Reply_str buf len) \<Rightarrow>
                         do { data \<leftarrow> read_block buf 0 (to_size len);
                              let (ret, errno, out, scr) = wrap_write scr data;
                              n \<leftarrow> ef_redis_free_reply (Ptr (Reply_str buf len));
                              if ret < 0 then redis_exit ret Uninit sent out
                              else redis_errors fuel m con frame' up scr' scr sent out }
                     | Some _ \<Rightarrow> None } } }"

section \<open>The FastCGI responder\<close>

definition FCGI_KEEP_CONN :: byte where "FCGI_KEEP_CONN = 1"

definition hello_line :: "byte list" where
  "hello_line = [72, 101, 108, 108, 111, 44, 32, 70, 97, 115, 116, 67, 71, 73, 33, 10]"

text \<open>The body: 64 bytes, four lines, copied 16384 times into the block behind the buffer.\<close>

definition hello_body :: "byte list" where
  "hello_body = concat (replicate 65536 hello_line)"

definition fcgi_answer ::
    "mem \<Rightarrow> wresp list \<Rightarrow> int \<Rightarrow> fcgi_request \<Rightarrow> (byte list \<times> wresp list \<times> mem) option" where
  "fcgi_answer m scr fd req =
     (let (resp, m) = fcgi_new_response m (Some req)
      in case resp of
           None \<Rightarrow> Some ([], scr, m)
         | Some resp \<Rightarrow>
             do { tb \<leftarrow> fcgi_response.rs_headers resp;
                  (_, tb, _, m) \<leftarrow>
                    ef_headertab_set m tb [67, 111, 110, 116, 101, 110, 116, 45, 76, 101, 110, 103, 116, 104, 0] 14
                      (Some [49, 48, 52, 56, 53, 55, 54, 0]) 7;
                  buf \<leftarrow> rs_data resp;
                  (_, buf, m) \<leftarrow> ef_buffer_expand m buf 1048576;
                  p \<leftarrow> eb_ptr buf;
                  p \<leftarrow> write_block p 0 hello_body;
                  let resp = resp\<lparr>fcgi_response.rs_headers := Some tb,
                               rs_data := Some (buf\<lparr>eb_ptr := Some p, eb_len := 1048576\<rparr>)\<rparr>;
                  (_, out, _, scr, m) \<leftarrow> fcgi_write_response m scr fd resp False;
                  _ \<leftarrow> fcgi_free_response resp False;
                  Some (out, scr, m) })"

text \<open>
  The loop over the requests of a connection; \<open>locals\<close> is what the variables of
  \<^verbatim>\<open>fcgi_read_request\<close> hold in each turn, and bounds the turns.
\<close>

fun fcgi_loop ::
    "(byte list \<times> byte list \<times> ef_buffer slot \<times> fcgi_request slot) list \<Rightarrow> nat \<Rightarrow> mem \<Rightarrow> int \<Rightarrow> resp list \<Rightarrow> wresp list \<Rightarrow>
     byte list option" where
  "fcgi_loop [] fuel m fd inp scr = None"
| "fcgi_loop ((hdr0, bg0, buffer0, request0) # locals) fuel m fd inp scr =
     do { (r, inp, m) \<leftarrow> fcgi_read_request fuel m fd inp hdr0 bg0 buffer0 request0;
          r \<leftarrow> ptr_get r;
          case r of
            None \<Rightarrow> Some []
          | Some req \<Rightarrow>
              do { check (case rq_params req of
                            None \<Rightarrow> True
                          | Some tb \<Rightarrow> unat (ht_used tb) \<le> length (ht_data tb) \<and>
                              (\<forall>pb \<in> set (take (unat (ht_used tb)) (ht_data tb)). bk_key pb \<noteq> None));
                   (out, scr, m) \<leftarrow> fcgi_answer m scr fd req;
                   let keep = rq_flags req AND FCGI_KEEP_CONN;
                   _ \<leftarrow> fcgi_free_request req;
                   if keep = 0 then Some out
                   else do { outs \<leftarrow> fcgi_loop locals fuel m fd inp scr; Some (out @ outs) } } }"

text \<open>The result, the descriptor closed and what was sent.\<close>

definition fcgi_proc ::
    "(byte list \<times> byte list \<times> ef_buffer slot \<times> fcgi_request slot) list \<Rightarrow> nat \<Rightarrow> mem \<Rightarrow> int \<Rightarrow> resp list \<Rightarrow> wresp list \<Rightarrow>
     (int \<times> int \<times> byte list) option" where
  "fcgi_proc locals fuel m fd inp scr =
     do { out \<leftarrow> fcgi_loop locals fuel m fd inp scr; Some (0, fd, out) }"

end
