(* ===== verification/MainCorrect.thy ===== *)
theory MainCorrect
  imports EfMain "HOL-Library.Sublist"
begin

text \<open>What the forwarding procedure passes on in each direction.\<close>

text \<open>The bytes of a script up to the first read that gives none.\<close>

fun until_stop :: "resp list \<Rightarrow> byte list" where
  "until_stop [] = []"
| "until_stop (Data bs # inp) = (if bs = [] then [] else bs @ until_stop inp)"
| "until_stop (Stop r e # inp) = []"

lemma wrap_read_until_stop:
  assumes "wrap_read inp n = (r, e, d, inp')" "0 < n"
  shows "if r \<le> 0 then until_stop inp = [] \<and> d = [] else d \<noteq> [] \<and> until_stop inp = d @ until_stop inp'"
  using assms by (cases "(inp, n)" rule: wrap_read.cases) (auto split: if_splits)

definition refuses :: "wresp list \<Rightarrow> bool" where
  "refuses scr \<longleftrightarrow> (\<exists>r e. Refuse r e \<in> set scr \<and> r < 0)"

lemma wrap_write_cases:
  assumes "wrap_write scr d = (w, e, sent, scr')"
  obtains (all) "scr = []" "w = int (length d)" "sent = d" "scr' = []"
  | (some) k where "scr = Took k # scr'" "w = int (length sent)" "sent = take k d"
  | (none) r where "scr = Refuse r e # scr'" "w = min r 0" "sent = []"
proof (cases scr)
  case Nil
  with assms show thesis by (intro all) auto
next
  case (Cons a s)
  show thesis
  proof (cases a)
    case (Took k)
    with Cons assms show thesis by (intro some [of k]) (auto simp: min_def)
  next
    case (Refuse r e')
    with Cons assms show thesis by (intro none [of r]) simp_all
  qed
qed

lemma write_rest_outcome:
  assumes "length scr < fuel"
  shows "\<exists>ok sent scr' rest. write_rest fuel scr data = Some (ok, sent, scr') \<and> data = sent @ rest \<and>
           (ok \<longrightarrow> rest = []) \<and> (ok \<or> refuses scr) \<and> length scr' \<le> length scr \<and> set scr' \<subseteq> set scr"
  using assms
proof (induction fuel arbitrary: scr data)
  case (Suc fuel)
  obtain w e sent scr' where w: "wrap_write scr data = (w, e, sent, scr')" by (cases "wrap_write scr data") auto
  show ?case
  proof (cases "data = []")
    case True
    then have "write_rest (Suc fuel) scr data = Some (True, [], scr)" by (simp add: write_rest.simps)
    with True show ?thesis by fastforce
  next
    case False
    have step: "write_rest (Suc fuel) scr data =
        (if w < 0 then Some (False, sent, scr')
         else do { (ok, out, scr) \<leftarrow> write_rest fuel scr' (drop (nat w) data); Some (ok, sent @ out, scr) })"
      using False w by (subst write_rest.simps) simp
    from w show ?thesis
    proof (cases rule: wrap_write_cases)
      case all
      then have "write_rest (Suc fuel) scr data = Some (True, data, [])"
        using step by (simp add: write_rest.simps [of fuel "[]" "[]"])
      then show ?thesis by fastforce
    next
      case (some k)
      with Suc.prems have "length scr' < fuel" by simp
      from Suc.IH [OF this, of "drop (nat w) data"] obtain ok out scr2 rest where
        IH: "write_rest fuel scr' (drop (nat w) data) = Some (ok, out, scr2)" "drop (nat w) data = out @ rest"
          "ok \<longrightarrow> rest = []" "ok \<or> refuses scr'" "length scr2 \<le> length scr'" "set scr2 \<subseteq> set scr'" by blast
      have "data = sent @ drop (nat w) data" using some by simp (metis append_take_drop_id length_take min_def take_all nle_le)
      then have "data = (sent @ out) @ rest" using IH(2) by simp
      moreover have "write_rest (Suc fuel) scr data = Some (ok, sent @ out, scr2)" using step IH(1) some(2) by simp
      moreover have "ok \<or> refuses scr" using IH(4) some(1) by (auto simp: refuses_def)
      ultimately show ?thesis using IH(3,5,6) some(1) by fastforce
    next
      case (none r)
      with Suc.prems have "length scr' < fuel" by simp
      from Suc.IH [OF this, of data] obtain ok out scr2 rest where
        IH: "write_rest fuel scr' data = Some (ok, out, scr2)" "data = out @ rest"
          "ok \<longrightarrow> rest = []" "ok \<or> refuses scr'" "length scr2 \<le> length scr'" "set scr2 \<subseteq> set scr'" by blast
      show ?thesis
      proof (cases "r < 0")
        case True
        then have "write_rest (Suc fuel) scr data = Some (False, [], scr')" "refuses scr"
          using step none by (auto simp: refuses_def)
        then show ?thesis using none(1) by auto
      next
        case False
        then have "write_rest (Suc fuel) scr data = Some (ok, out, scr2)" using step none IH(1) by simp
        moreover have "ok \<or> refuses scr" using IH(4) none(1) by (auto simp: refuses_def)
        ultimately show ?thesis using IH(2,3,5,6) none(1) by fastforce
      qed
    qed
  qed
qed simp

lemma forward_loop_outcome:
  assumes "length (until_stop up) + length scr + 1 < fuel"
  shows "\<exists>out up' scr'. forward_loop fuel up scr = Some (out, up', scr') \<and> prefix out (until_stop up) \<and>
           (refuses scr \<or> out = until_stop up)"
  using assms
proof (induction fuel arbitrary: up scr)
  case (Suc fuel)
  obtain r e d up' where r: "wrap_read up MAIN_BUFFER_SIZE = (r, e, d, up')" by (cases "wrap_read up MAIN_BUFFER_SIZE") auto
  note u = wrap_read_until_stop [OF r, unfolded MAIN_BUFFER_SIZE_def, simplified]
  show ?case
  proof (cases "r \<le> 0")
    case True
    with u r show ?thesis by (simp add: forward_loop.simps)
  next
    case False
    with u have d: "d \<noteq> []" "until_stop up = d @ until_stop up'" by auto
    have "length scr < fuel" using Suc.prems by simp
    from write_rest_outcome [OF this, of d] obtain ok sent scr' rest where
      w: "write_rest fuel scr d = Some (ok, sent, scr')" "d = sent @ rest" "ok \<longrightarrow> rest = []" "ok \<or> refuses scr"
        "length scr' \<le> length scr" "set scr' \<subseteq> set scr" by blast
    show ?thesis
    proof (cases ok)
      case True
      have "length (until_stop up) = length d + length (until_stop up')" "Suc 0 \<le> length d"
        using d by (simp_all add: Suc_le_eq)
      then have "length (until_stop up') + length scr' + 1 < fuel" using Suc.prems w(5) by linarith
      from Suc.IH [OF this] obtain out up2 scr2 where
        f: "forward_loop fuel up' scr' = Some (out, up2, scr2)" "prefix out (until_stop up')"
          "refuses scr' \<or> out = until_stop up'" by blast
      have "refuses scr' \<Longrightarrow> refuses scr" using w(6) by (auto simp: refuses_def)
      with True False f w(1,2,3) d(2) r show ?thesis by (auto simp: forward_loop.simps)
    next
      case no: False
      with False w d(2) r show ?thesis by (auto simp: forward_loop.simps)
    qed
  qed
qed simp

text \<open>
  C38. The forwarding procedure always returns; it sends the other side a prefix of what the
  client sent, and passes back to the client a prefix of what the other side answers before
  it stops: all of it when the request was taken and no write to the client fails.
\<close>

theorem forward_relays_in_order:
  assumes "length (until_stop up) + length scr + 1 < fuel"
  shows "\<exists>ret sent out. forward_proc fuel inp conn up scr' scr = Some (ret, sent, out) \<and>
           prefix sent (until_stop inp) \<and> prefix out (until_stop up) \<and>
           (sent \<noteq> [] \<and> \<not> refuses scr \<longrightarrow> out = until_stop up)"
proof -
  obtain r e d inp' where r: "wrap_read inp MAIN_BUFFER_SIZE = (r, e, d, inp')"
    by (cases "wrap_read inp MAIN_BUFFER_SIZE") auto
  obtain w e' sent scr2 where w: "wrap_write scr' d = (w, e', sent, scr2)" by (cases "wrap_write scr' d") auto
  have "prefix sent d" using w by (cases rule: wrap_write_cases) (auto simp: take_is_prefix)
  moreover have "0 < r \<Longrightarrow> until_stop inp = d @ until_stop inp'"
    using wrap_read_until_stop [OF r] by (simp add: MAIN_BUFFER_SIZE_def)
  ultimately have sent: "0 < r \<Longrightarrow> prefix sent (until_stop inp)" by (metis prefix_prefix)
  have neg: "w < 0 \<Longrightarrow> sent = []" using w by (cases rule: wrap_write_cases) auto
  obtain out up' scr3 where f: "forward_loop fuel up scr = Some (out, up', scr3)" "prefix out (until_stop up)"
    "refuses scr \<or> out = until_stop up" using forward_loop_outcome [OF assms] by blast
  show ?thesis using r w f sent neg by (auto simp: forward_proc_def)
qed

theorem forward_relays_in_order_witness:
  "\<exists>ret sent out. forward_proc 9 [Data [71, 69, 84]] 0 [Data [1, 2], Data [3]] [] [Took 1, Took 0] = Some (ret, sent, out) \<and>
     prefix sent (until_stop [Data [71, 69, 84]]) \<and> prefix out (until_stop [Data [1, 2], Data [3]]) \<and>
     (sent \<noteq> [] \<and> \<not> refuses [Took 1, Took 0] \<longrightarrow> out = until_stop [Data [1, 2], Data [3]])"
  by (rule forward_relays_in_order) simp

end
