(* ===== verification/MainStart.thy ===== *)
theory MainStart
  imports FrameworkProps "HOL-Library.Sublist"
begin

text \<open>
  \<^verbatim>\<open>main\<close> of \<^verbatim>\<open>main.c\<close>: the runtime is set up, three listening sockets are added, and the event
  loop runs; what it has set up when the loop begins.
\<close>

section \<open>The program\<close>

text \<open>The flag belongs to what surrounds the loop; \<open>k_stopping\<close> reads it.\<close>

definition signal_handler :: "bool \<times> 'o \<Rightarrow> bool \<times> 'o" where
  "signal_handler os = (True, snd os)"

text \<open>
  \<open>net\<close> gives the results of \<^verbatim>\<open>socket\<close> and \<^verbatim>\<open>bind\<close> for a port.  Without a poll object the lists
  of the runtime hold NULL, and adding to them has no result.
\<close>

definition main_socket ::
    "('e, 's, 'ans, 'o) kernel \<Rightarrow> (int \<Rightarrow> int \<times> int) \<Rightarrow> bool \<Rightarrow> int \<Rightarrow> u64 \<Rightarrow> 'o \<Rightarrow> 's ef_runtime \<Rightarrow>
     (bool \<times> 's ef_runtime \<times> 'o) option" where
  "main_socket k net inited port proc os rt =
     (let (sockfd, retval) = net port
      in if sockfd < 0 then Some (False, rt, os)
         else if retval < 0 then Some (False, rt, os)
         else let (ret, rt, os) = ef_add_listen k os rt sockfd proc
         in do { check (inited \<or> ret < 0); Some (True, rt, os) })"

definition main_setup ::
    "('e, 's, 'ans, 'o) kernel \<Rightarrow> (int \<Rightarrow> int \<times> int) \<Rightarrow> 's option \<Rightarrow> 's ef_runtime \<Rightarrow> int \<Rightarrow> u64 \<Rightarrow> int \<Rightarrow> int \<Rightarrow>
     (int \<Rightarrow> u64) \<Rightarrow> 'o \<Rightarrow> (bool \<times> 's ef_runtime \<times> 'o) option" where
  "main_setup k net poll efr page ss alt act proc os =
     do { let (ret, rt) = ef_init poll efr page ss alt act (64 * 1024) 256 512 (1000 * 60) 16;
          (ok, rt, os) \<leftarrow> main_socket k net (poll \<noteq> None) 80 (proc 80) os rt;
          if \<not> ok then Some (False, rt, os)
          else do { (ok, rt, os) \<leftarrow> main_socket k net (poll \<noteq> None) 8080 (proc 8080) os rt;
                    if \<not> ok then Some (False, rt, os)
                    else main_socket k net (poll \<noteq> None) 9000 (proc 9000) os rt } }"

text \<open>
  \<open>proc port\<close> is the address of the procedure for the port, \<open>n\<close> a bound on the rounds of the
  loop; the result of \<^verbatim>\<open>ef_init\<close> is not looked at.
\<close>

definition main ::
    "('e, 's, 'ans) ef_poll \<Rightarrow> ('e, 's, 'ans, 'o) kernel \<Rightarrow> (int \<Rightarrow> int \<times> int) \<Rightarrow> 's option \<Rightarrow> 's ef_runtime \<Rightarrow>
     int \<Rightarrow> u64 \<Rightarrow> int \<Rightarrow> int \<Rightarrow> (int \<Rightarrow> u64) \<Rightarrow> 'o \<Rightarrow> nat \<Rightarrow> (int option \<times> 's ef_runtime \<times> 'o) option" where
  "main P k net poll efr page ss alt act proc os n =
     do { (ok, rt, os) \<leftarrow> main_setup k net poll efr page ss alt act proc os;
          if \<not> ok then Some (Some (- 1), rt, os)
          else do { check (poll \<noteq> None); ef_run_loop P k n os rt } }"

section \<open>Registering the listening sockets\<close>

lemma ring_next: "ring L h (xs @ c # ys) \<Longrightarrow> ef_list_entry_after L c = hd (ys @ [h])"
  unfolding ring_rotate by (drule ring_first) (cases ys; simp)

context waiting
begin

lemma add_loop_ok:
  assumes "loop_ok inv rt (pre @ lis) qs frees" "serves inv env k" "list_all2 (\<lambda>li l. rt_listens rt li = Some l) lis infos"
    and "distinct (map li_fd infos)" "\<forall>l \<in> set infos. fd_ok (li_fd l)"
  shows "\<exists>ret s os'. add_loop P k (hd (map Listen_entry lis @ [Listen_list])) os rt = Some (ret, rt\<lparr>rt_source := s\<rparr>, os') \<and>
    inv s \<and> (\<forall>fd. fd \<notin> li_fd ` set infos \<longrightarrow> want s fd = want (rt_source rt) fd) \<and>
    (0 \<le> ret \<longrightarrow> list_all2 (\<lambda>li l. want s (li_fd l) = Some (EF_POLLIN, Listen_data li)) lis infos)"
  using assms
proof (induction lis arbitrary: pre infos os rt)
  case Nil
  then show ?case using loop_okD(3) [OF Nil.prems(1)]
    by (intro exI [of _ 0] exI [of _ "rt_source rt"] exI [of _ os]) (simp add: add_loop.simps)
next
  case (Cons li lis)
  from Cons.prems(3) obtain l infos' where i: "infos = l # infos'" "rt_listens rt li = Some l"
    "list_all2 (\<lambda>li l. rt_listens rt li = Some l) lis infos'" by (auto simp: list_all2_Cons1)
  obtain e os1 where e: "k_env k os = (e, os1)" by (cases "k_env k os")
  have "env e" using servesD(7) [OF Cons.prems(2), of os] e by simp
  from associate_law [OF loop_okD(3) [OF Cons.prems(1)] _ this, of "li_fd l" EF_POLLIN "Listen_data li"]
  obtain r s where a: "po_associate P e (rt_source rt) (li_fd l) EF_POLLIN (Listen_data li) False = Some (r, s)" "inv s"
    "\<forall>fd. fd \<noteq> li_fd l \<longrightarrow> want s fd = want (rt_source rt) fd" "0 \<le> r \<longrightarrow> want s (li_fd l) = Some (EF_POLLIN, Listen_data li)"
    using Cons.prems(5) i(1) by auto
  let ?rt = "rt\<lparr>rt_source := s\<rparr>"
  have step: "add_loop P k (Listen_entry li) os rt =
      (if r < 0 then Some (r, ?rt, os1) else add_loop P k (ef_list_entry_after (rt_links rt) (Listen_entry li)) os1 ?rt)"
    using i(2) e a(1) by (subst add_loop.simps) (simp add: listen_of_def)
  show ?case
  proof (cases "r < 0")
    case True
    with step a i show ?thesis by (intro exI [of _ r] exI [of _ s] exI [of _ os1]) auto
  next
    case False
    have L: "loop_ok inv ?rt ((pre @ [li]) @ lis) qs frees" using loop_ok_source [OF Cons.prems(1) a(2)] by simp
    have nxt: "ef_list_entry_after (rt_links rt) (Listen_entry li) = hd (map Listen_entry lis @ [Listen_list])"
      using queues_reprD(1) [OF loop_okD(1) [OF Cons.prems(1)]] ring_next by simp
    from Cons.IH [OF L Cons.prems(2), of infos' os1] i Cons.prems(4,5) obtain ret s' os2 where
      r: "add_loop P k (hd (map Listen_entry lis @ [Listen_list])) os1 ?rt = Some (ret, rt\<lparr>rt_source := s'\<rparr>, os2)" "inv s'"
        "\<forall>fd. fd \<notin> li_fd ` set infos' \<longrightarrow> want s' fd = want s fd"
        "0 \<le> ret \<longrightarrow> list_all2 (\<lambda>li l. want s' (li_fd l) = Some (EF_POLLIN, Listen_data li)) lis infos'" by auto
    moreover have "want s' (li_fd l) = Some (EF_POLLIN, Listen_data li)"
      using r(3) a(4) False i(1) Cons.prems(4) by auto
    ultimately show ?thesis using step False nxt i(1) a(3)
      by (intro exI [of _ ret] exI [of _ s'] exI [of _ os2]) auto
  qed
qed

end

section \<open>What the setup leaves\<close>

definition reliable :: "('e, 's, 'ans, 'o) kernel \<Rightarrow> bool" where
  "reliable k \<longleftrightarrow> (\<forall>os fd fl. 0 \<le> fst (k_setfl k os fd fl)) \<and> (\<forall>os S. fst (k_malloc k os S) \<noteq> None)"

text \<open>The sockets added so far, the last first: some of \<open>infos\<close>, all of them when no call fails.\<close>

definition some_of :: "('e, 's, 'ans, 'o) kernel \<Rightarrow> 'a list \<Rightarrow> 'a list \<Rightarrow> bool" where
  "some_of k got infos \<longleftrightarrow> subseq got infos \<and> (reliable k \<longrightarrow> got = infos)"

definition listening ::
    "('s \<Rightarrow> bool) \<Rightarrow> ('e, 's, 'ans, 'o) kernel \<Rightarrow> 's ef_runtime \<Rightarrow> u64 list \<Rightarrow> ef_listen_info list \<Rightarrow> bool" where
  "listening ok k rt lis infos \<longleftrightarrow>
     loop_ok ok rt lis (\<lambda>_. []) [] \<and> (\<exists>got. some_of k got infos \<and> map (rt_listens rt) lis = map Some got)"

text \<open>Descriptors are in range, and those of different ports differ.\<close>

definition sockets_ok :: "(int \<Rightarrow> int \<times> int) \<Rightarrow> bool" where
  "sockets_ok net \<longleftrightarrow> (\<forall>p q. 0 \<le> fst (net p) \<longrightarrow> fd_ok (fst (net p)) \<and> (fst (net q) = fst (net p) \<longrightarrow> q = p))"

lemma main_socket_ok:
  assumes "listening ok k rt lis infos" "serves ok env k" "sockets_ok net"
  shows "(fst (net port) < 0 \<or> snd (net port) < 0) \<and> main_socket k net True port proc os rt = Some (False, rt, os) \<or>
    0 \<le> fst (net port) \<and> (\<exists>rt' os' lis'. main_socket k net True port proc os rt = Some (True, rt', os') \<and>
      listening ok k rt' lis' (\<lparr>li_fd = fst (net port), li_proc = proc\<rparr> # infos))"
proof (cases "fst (net port) < 0 \<or> snd (net port) < 0")
  case True
  then show ?thesis by (auto simp: main_socket_def split: prod.splits)
next
  case False
  let ?info = "\<lparr>li_fd = fst (net port), li_proc = proc\<rparr>"
  obtain got where L: "loop_ok ok rt lis (\<lambda>_. []) []" and g: "some_of k got infos" "map (rt_listens rt) lis = map Some got"
    using assms(1) by (auto simp: listening_def)
  have "fd_ok (fst (net port))" using assms(3) False by (simp add: sockets_ok_def)
  from add_listen_ok [OF L assms(2) this, of os proc] obtain ret rt' os' where
    a: "ef_add_listen k os rt (fst (net port)) proc = (ret, rt', os')" and
    c: "ret < 0 \<and> rt' = rt \<and> \<not> reliable k \<or>
      ret = 0 \<and> (\<exists>li. li \<notin> set lis \<and> rt_listens rt' = (rt_listens rt)(li \<mapsto> ?info) \<and>
        loop_ok ok rt' (li # lis) ((\<lambda>_. [])(li := [])) [])"
    by (fastforce simp: reliable_def not_le [symmetric])
  have "\<exists>lis'. listening ok k rt' lis' (?info # infos)"
  proof (cases "ret < 0")
    case True
    with c g L show ?thesis
      by (intro exI [of _ lis]) (auto simp: listening_def some_of_def intro!: exI [of _ got] list_emb_Cons)
  next
    case pos: False
    with c obtain li where li: "li \<notin> set lis" "rt_listens rt' = (rt_listens rt)(li \<mapsto> ?info)"
      "loop_ok ok rt' (li # lis) ((\<lambda>_. [])(li := [])) []" by auto
    have "((\<lambda>_. [])(li := []) :: u64 \<Rightarrow> u64 list) = (\<lambda>_. [])" by auto
    with li(3) have "loop_ok ok rt' (li # lis) (\<lambda>_. []) []" by simp
    moreover have "map (rt_listens rt') (li # lis) = map Some (?info # got)" using li(1,2) g(2) by simp
    moreover have "some_of k (?info # got) (?info # infos)" using g(1) by (simp add: some_of_def)
    ultimately show ?thesis unfolding listening_def by blast
  qed
  then show ?thesis using a False by (cases "net port") (auto simp: main_socket_def)
qed

text \<open>At the start only the thread exists.\<close>

definition zero_runtime :: "'s ef_runtime \<Rightarrow> bool" where
  "zero_runtime rt \<longleftrightarrow> dom (fw_fibers (cp_sched (rt_pool rt))) = {fw_thread (cp_sched (rt_pool rt))} \<and>
     cp_cos (rt_pool rt) = Map.empty \<and> rt_data rt = Map.empty \<and> rt_frames rt = Map.empty \<and> rt_listens rt = Map.empty"

definition main_infos :: "(int \<Rightarrow> int \<times> int) \<Rightarrow> (int \<Rightarrow> u64) \<Rightarrow> ef_listen_info list" where
  "main_infos net proc = map (\<lambda>port. \<lparr>li_fd = fst (net port), li_proc = proc port\<rparr>) [9000, 8080, 80]"

lemma main_setup_ok:
  assumes "serves ok env k" "sockets_ok net" "zero_runtime efr" "280 \<le> page" "ok s"
  shows "\<exists>fin rt os'. main_setup k net (Some s) efr page ss alt act proc os = Some (fin, rt, os') \<and>
    (fin \<longrightarrow> (\<forall>port \<in> {80, 8080, 9000}. 0 \<le> fst (net port)) \<and> (\<exists>lis. listening ok k rt lis (main_infos net proc)))"
proof -
  define rt0 where "rt0 = snd (ef_init (Some s) efr page ss alt act (64 * 1024) 256 512 (1000 * 60) 16)"
  have "loop_ok ok rt0 [] (\<lambda>_. []) []"
    unfolding rt0_def by (rule init_ok) (use assms(3-5) in \<open>auto simp: zero_runtime_def\<close>)
  moreover have "rt_listens rt0 = Map.empty" using assms(3) by (simp add: rt0_def zero_runtime_def ef_init_def)
  ultimately have l0: "listening ok k rt0 [] []" by (simp add: listening_def some_of_def)
  note sk = main_socket_ok [OF _ assms(1,2)]
  have unf: "main_setup k net (Some s) efr page ss alt act proc os =
      do { (ok, rt, os) \<leftarrow> main_socket k net True 80 (proc 80) os rt0;
           if \<not> ok then Some (False, rt, os)
           else do { (ok, rt, os) \<leftarrow> main_socket k net True 8080 (proc 8080) os rt;
                     if \<not> ok then Some (False, rt, os)
                     else main_socket k net True 9000 (proc 9000) os rt } }"
    using option.distinct(2) [of s] by (simp add: main_setup_def rt0_def case_prod_beta Let_def cong: if_cong)
  from sk [OF l0, of 80 "proc 80" os] show ?thesis
  proof (elim disjE conjE exE)
    fix rt1 os1 lis1
    assume 1: "main_socket k net True 80 (proc 80) os rt0 = Some (True, rt1, os1)" "0 \<le> fst (net 80)"
      "listening ok k rt1 lis1 [\<lparr>li_fd = fst (net 80), li_proc = proc 80\<rparr>]"
    from sk [OF 1(3), of 8080 "proc 8080" os1] show ?thesis
    proof (elim disjE conjE exE)
      fix rt2 os2 lis2
      assume 2: "main_socket k net True 8080 (proc 8080) os1 rt1 = Some (True, rt2, os2)" "0 \<le> fst (net 8080)"
        "listening ok k rt2 lis2 [\<lparr>li_fd = fst (net 8080), li_proc = proc 8080\<rparr>, \<lparr>li_fd = fst (net 80), li_proc = proc 80\<rparr>]"
      from sk [OF 2(3), of 9000 "proc 9000" os2] 1 2 show ?thesis by (auto simp: unf main_infos_def)
    qed (use 1 in \<open>auto simp: unf\<close>)
  qed (auto simp: unf)
qed

section \<open>The program begins to listen\<close>

lemma main_infos_distinct:
  assumes "sockets_ok net" "\<forall>port \<in> {80, 8080, 9000}. 0 \<le> fst (net port)" "subseq infos (main_infos net proc)"
  shows "distinct (map li_fd infos)" "\<forall>l \<in> set infos. fd_ok (li_fd l)"
proof -
  have "fst (net p) \<noteq> fst (net q)" if "p \<in> {80, 8080, 9000}" "p \<noteq> q" for p q
    using assms(1,2) that unfolding sockets_ok_def by metis
  from this [of 9000 8080] this [of 9000 80] this [of 8080 80]
  have "distinct (map li_fd (main_infos net proc))" by (simp add: main_infos_def)
  moreover obtain N where N: "infos = nths (main_infos net proc) N" using assms(3) by (auto simp: subseq_conv_nths)
  ultimately show "distinct (map li_fd infos)" by (simp add: distinct_nthsI flip: nths_map)
  have "\<forall>l \<in> set (main_infos net proc). fd_ok (li_fd l)" using assms(1,2) by (simp add: main_infos_def sockets_ok_def)
  then show "\<forall>l \<in> set infos. fd_ok (li_fd l)" unfolding N using set_nths_subset [of "main_infos net proc" N] by (meson subsetD)
qed


definition sample_net :: "int \<Rightarrow> int \<times> int" where
  "sample_net port = (if port = 80 then (3, 0) else if port = 8080 then (4, 0) else if port = 9000 then (5, 0) else (- 1, 0))"


end
