(* ===== verification/RedisTyped.thy ===== *)
theory RedisTyped
  imports RedisCorrect
begin

text \<open>
  The type of the replies: what the parser returns, for any input, is well formed for the code
  that prints and frees it.
\<close>

section \<open>Well-typed replies\<close>

text \<open>
  A number fits a \<^verbatim>\<open>long\<close>, a string has the length its block has, as an \<^verbatim>\<open>int\<close>, the two
  strings of an error end with a NUL, and the elements of an array that were written are typed.
\<close>

definition str_typed :: "byte list \<Rightarrow> int \<Rightarrow> bool" where
  "str_typed buf len \<longleftrightarrow> length buf < 2 ^ 64 \<and> len = int_of_size (of_nat (length buf))"

primrec typed_reply :: "ef_redis_reply \<Rightarrow> bool" where
  "typed_reply Reply_null = True"
| "typed_reply (Reply_long d) = fits 64 d"
| "typed_reply (Reply_str buf len) = str_typed buf len"
| "typed_reply (Reply_err type err) = (type \<noteq> None \<and> 0 \<in> set (the type) \<and> 0 \<in> set err)"
| "typed_reply (Reply_arr elem) = list_all (pred_slot id) (map (map_slot typed_reply) elem)"

abbreviation typed_slots :: "ef_redis_reply slot list \<Rightarrow> bool" where
  "typed_slots \<equiv> list_all (pred_slot typed_reply)"

lemma typed_arr [simp]: "typed_reply (Reply_arr elem) \<longleftrightarrow> typed_slots elem"
  by (simp add: list.pred_map slot.pred_map comp_def)

declare typed_reply.simps(5) [simp del]

section \<open>Parsers that yield only typed replies\<close>

definition yields :: "('r \<Rightarrow> bool) \<Rightarrow> ('r option \<times> 's) option \<Rightarrow> bool" where
  "yields P x \<longleftrightarrow> (\<forall>r s. x = Some (Some r, s) \<longrightarrow> P r)"

lemma yields_simps [simp]: "yields P None" "yields P (Some (None, s))" "yields P (Some (Some r, s)) \<longleftrightarrow> P r"
  by (simp_all add: yields_def)

lemma yields_bind: "(\<And>y. x = Some y \<Longrightarrow> yields P (f y)) \<Longrightarrow> yields P (Option.bind x f)"
  by (cases x) auto

lemma yields_if: "(c \<Longrightarrow> yields P x) \<Longrightarrow> (\<not> c \<Longrightarrow> yields P y) \<Longrightarrow> yields P (if c then x else y)"
  by simp

lemma yields_option:
  "(x = None \<Longrightarrow> yields P a) \<Longrightarrow> (\<And>y. x = Some y \<Longrightarrow> yields P (f y)) \<Longrightarrow> yields P (case x of None \<Rightarrow> a | Some y \<Rightarrow> f y)"
  by (cases x) auto

lemmas yields_intros = yields_bind yields_if yields_option yields_simps

lemma yieldsD: "yields P x \<Longrightarrow> x = Some y \<Longrightarrow> fst y = Some r \<Longrightarrow> P r"
  by (cases y) (simp add: yields_def)

lemma long_loop_fits: "long_loop s n = Some q \<Longrightarrow> fits 64 n \<Longrightarrow> fits 64 (fst q)"
proof (induction s arbitrary: n q)
  case (Cons c s)
  show ?case
  proof (cases "c = 13")
    case True
    with Cons.prems show ?thesis by auto
  next
    case False
    with Cons.prems(1) obtain q' where "long_loop s (n * 10 + sint c - 48) = Some q'" "fits 64 (n * 10 + sint c - 48)"
      "fst q = fst q'"
      by (auto simp: bind_eq_Some_conv split: if_splits)
    then show ?thesis using Cons.IH by simp
  qed
qed simp

lemma parse_long_typed: "yields typed_reply (parse_long fuel m con inp off)"
proof -
  have "fits 64 0" by (simp add: fits_def)
  then show ?thesis
    unfolding parse_long_def Let_def case_prod_beta
    by (intro yields_intros) (simp add: long_loop_fits)
qed

lemma string_loop_length:
  "length content = L \<Longrightarrow> yields (\<lambda>c. length c = L) (string_loop fuel con inp content d n)"
proof (induction fuel arbitrary: con inp content d)
  case (Suc fuel)
  show ?case
    unfolding string_loop.simps Let_def case_prod_beta
    by (intro yields_intros Suc.IH) (auto simp: Suc.prems dest!: write_block_length)
qed simp

lemma parse_string_typed: "yields typed_reply (parse_string fuel m con inp off n)"
proof -
  have len: "length content = unat n"
    if "fst (malloc_bytes m' (unat n)) = Some b"
      and "(if c then do { d \<leftarrow> x; content \<leftarrow> write_block b 0 d; string_loop fuel con' inp content got n }
            else do { d \<leftarrow> x'; content \<leftarrow> write_block b 0 d; Some (Some content, con'', inp) }) = Some y"
      and "fst y = Some content"
    for m' b c x x' con' con'' got y content
  proof (rule yieldsD [OF _ that(2,3)])
    show "yields (\<lambda>c. length c = unat n)
        (if c then do { d \<leftarrow> x; content \<leftarrow> write_block b 0 d; string_loop fuel con' inp content got n }
         else do { d \<leftarrow> x'; content \<leftarrow> write_block b 0 d; Some (Some content, con'', inp) })"
      using malloc_bytes_fst [OF that(1)]
      by (intro yields_intros string_loop_length) (auto dest!: write_block_length)
  qed
  moreover have "unat n < 2 ^ 64" using unsigned_less [of n] by simp
  ultimately show ?thesis
    unfolding parse_string_def Let_def case_prod_beta
    by (intro yields_intros) (auto simp: str_typed_def dest!: len)
qed

lemma parse_single_string_typed: "yields typed_reply (parse_single_string fuel m con inp off)"
  unfolding parse_single_string_def Let_def case_prod_beta by (intro yields_intros parse_string_typed)

lemma parse_bulk_string_typed: "yields typed_reply (parse_bulk_string fuel m con inp off)"
  unfolding parse_bulk_string_def Let_def case_prod_beta by (intro yields_intros parse_string_typed)

lemma parse_error_typed: "yields P (parse_error fuel m con inp off)"
  unfolding parse_error_def Let_def case_prod_beta
  by (intro yields_intros) (simp_all add: NUL_behind)

lemma typed_slots_set:
  assumes "cell_set elem i (to_slot r) = Some elem'" "typed_slots elem" "r = None \<or> typed_reply (the r)"
  shows "typed_slots elem'"
  using assms by (cases r) (auto simp: cell_set_def to_slot_def list_all_iff dest!: set_update_subset_insert [THEN subsetD] split: if_splits)

lemma elements_typed:
  assumes array: "\<And>m con inp off. yields typed_reply (parse_array fuel m con inp off)"
  shows "typed_slots elem \<Longrightarrow> elements fuel m con inp off elem i left = Some q \<Longrightarrow> typed_slots (fst q)"
proof (induction left arbitrary: m con inp off elem i)
  case 0
  then show ?case by (auto simp: elements.simps(1))
next
  case (Suc left)
  let ?parse = "\<lambda>c. if c = 36 then parse_bulk_string fuel m con inp off
     else if c = 58 then parse_long fuel m con inp off else parse_array fuel m con inp off"
  have parse: "yields typed_reply (?parse c)" for c
    by (intro yields_if parse_bulk_string_typed parse_long_typed array)
  from Suc.prems(2) obtain c where c: "cell_get (rc_buf con) off = Some c"
    by (subst (asm) elements.simps(2)) (auto simp: bind_eq_Some_conv)
  show ?case
  proof (cases "c = 36 \<or> c = 58 \<or> c = 42")
    case True
    with Suc.prems(2) c obtain p elem' where p: "?parse c = Some p" "cell_set elem i (to_slot (fst p)) = Some elem'"
      and e: "elements fuel (fst (snd p)) (fst (snd (snd p))) (snd (snd (snd p)))
        (unat (rc_seek (fst (snd (snd p))))) elem' (Suc i) left = Some q"
      unfolding elements.simps(2) [of fuel m con inp off] case_prod_beta c Option.bind.bind_lunit if_P [OF True] bind_eq_Some_conv
      by blast
    have "fst p = None \<or> typed_reply (the (fst p))" using yieldsD [OF parse p(1)] by (cases "fst p") auto
    from typed_slots_set [OF p(2) Suc.prems(1) this] show ?thesis by (rule Suc.IH [OF _ e])
  next
    case False
    with Suc.prems c show ?thesis by (auto simp: elements.simps(2) [of fuel m con inp off] intro: Suc.IH)
  qed
qed

lemma parse_array_typed: "yields typed_reply (parse_array fuel m con inp off)"
proof (induction fuel arbitrary: m con inp off)
  case 0
  show ?case by (subst parse_array.simps) simp
next
  case (Suc fuel)
  have slots: "fst (malloc_slots m' n) = Some elem \<Longrightarrow> typed_slots elem" for m' n and elem :: "ef_redis_reply slot list"
    by (auto simp: malloc_slots_def list_all_iff split: prod.splits if_splits)
  show ?case
    unfolding parse_array.simps [of "Suc fuel"] nat.case Let_def case_prod_beta
    by (intro yields_intros) (auto dest: elements_typed [OF Suc slots, rotated])
qed



end
