(* ===== verification/Spec2Isabelle.thy ===== *)
theory Spec2Isabelle
  imports EfUtil EfBasic EfList ByteSink EfVector EfHeadertab EfStringtab BufferioCorrect EventSource EfEpoll FiberSwitch EfCoroutine FrameworkProps FastcgiResponse RedisCorrect HttpCorrect FiberSwitch386 MainCorrect MainStart RedisTyped
begin

text \<open>
  A verification development for the EFramework: a C library that runs one routine per network
  connection, written as straight-line code over blocking-looking calls, on top of coroutines
  and a single event loop.  All paths below are relative to \<^verbatim>\<open>src/src\<close>.

  \<^bold>\<open>The program.\<close>  At the bottom are the data structures of \<^verbatim>\<open>structure\<close>: lists, strings, buffers,
  vectors, a hash table with two clients, and buffered input and output.  \<^verbatim>\<open>fiber.s\<close> switches
  between stacks, \<^verbatim>\<open>fiber.c\<close> gives fibers with stacks of their own, \<^verbatim>\<open>coroutine.c\<close> keeps a pool
  of them.  \<^verbatim>\<open>poll.c\<close>, \<^verbatim>\<open>epollet.c\<close>, \<^verbatim>\<open>epoll.c\<close> and \<^verbatim>\<open>port.c\<close> are four implementations of the
  interface \<^verbatim>\<open>poll.h\<close> to the kernel's event mechanisms.  \<^verbatim>\<open>framework.c\<close> puts the two together: the
  event loop accepts connections into queues, hands them to coroutines, and resumes a coroutine
  when an event arrives for the descriptor it waits for; the calls \<^verbatim>\<open>ef_routine_read\<close>,
  \<^verbatim>\<open>ef_routine_write\<close> and so on register a descriptor and yield.  \<^verbatim>\<open>redis.c\<close>, \<^verbatim>\<open>http.c\<close> and
  \<^verbatim>\<open>fastcgi.c\<close> are protocol clients and a server written on these calls, and \<^verbatim>\<open>main.c\<close> is a
  program that uses them.

  \<^bold>\<open>How C is modelled.\<close>  An operation is a function of the state it works on and returns the
  new one.  An \<^verbatim>\<open>option\<close> around the result is the definedness of the C code: \<^verbatim>\<open>None\<close> where it
  reads or writes outside an object, follows NULL or an uninitialised pointer, overflows a
  signed number, or has run out of the fuel given to it.  The error codes and NULL results of
  the code are values inside \<^verbatim>\<open>Some\<close>.  Sizes and counters that can wrap are words of their
  width; an \<^verbatim>\<open>int\<close> the code keeps small is an integer.  Memory is the list of bytes of a block;
  \<^verbatim>\<open>malloc\<close> answers from a script that may refuse each request and chooses what new memory holds
  (\<^verbatim>\<open>CMemory\<close>).  A descriptor is a script of responses, each some data, a partial write or an
  error.  A pointer that may be uninitialised is a \<^verbatim>\<open>slot\<close> with three cases.  Linked lists are a
  heap of links.  What the kernel returns is an argument of the operation that asks; in the
  event loop, where many calls follow one another, it is the record \<^verbatim>\<open>kernel\<close> of functions over
  a state of their own.  A function pointer is its address.

  \<^bold>\<open>The theories and the code.\<close>
  \<^item> \<^verbatim>\<open>Prelude\<close>: machine integers, guards and cells, rule collections.  \<^verbatim>\<open>CMemory\<close> and \<^verbatim>\<open>CStrings\<close>:
    what the code uses of the C library.
  \<^item> \<^verbatim>\<open>EfUtil\<close> (\<^verbatim>\<open>structure/util.h\<close>), \<^verbatim>\<open>EfList\<close> (\<^verbatim>\<open>structure/list.h\<close>), \<^verbatim>\<open>EfBasic\<close>
    (\<^verbatim>\<open>basic/basic.c\<close>), \<^verbatim>\<open>EfString\<close>, \<^verbatim>\<open>EfBuffer\<close>, \<^verbatim>\<open>EfVector\<close> (\<^verbatim>\<open>structure/string.c\<close>,
    \<^verbatim>\<open>structure/buffer.c\<close>, \<^verbatim>\<open>structure/vector.c\<close>).  \<^verbatim>\<open>ByteSink\<close>: the contract of the two
    operations that append bytes, with buffers and strings as its instances.
  \<^item> \<^verbatim>\<open>EfHashtable\<close> (\<^verbatim>\<open>structure/hashtable.c\<close> and \<^verbatim>\<open>structure/hashtable.h\<close>); \<^verbatim>\<open>HashtableInv\<close>: the
    invariant and the map it denotes; \<^verbatim>\<open>HashtableOps\<close>, \<^verbatim>\<open>HashtableUpdate\<close>, \<^verbatim>\<open>HashtableRemove\<close>:
    each operation against the map; \<^verbatim>\<open>HashtableDict\<close>: the dictionary interface, with the hash table as its
    instance.  \<^verbatim>\<open>EfStringtab\<close> and \<^verbatim>\<open>EfHeadertab\<close> (\<^verbatim>\<open>structure/stringtab.c\<close>,
    \<^verbatim>\<open>structure/headertab.c\<close>) are its clients.
  \<^item> \<^verbatim>\<open>EfBufferio\<close> (\<^verbatim>\<open>structure/bufferio.c\<close>) and \<^verbatim>\<open>BufferioCorrect\<close>.
  \<^item> \<^verbatim>\<open>EfPoll\<close> (\<^verbatim>\<open>poll.c\<close>), \<^verbatim>\<open>EfEpollet\<close> (\<^verbatim>\<open>epollet.c\<close>), \<^verbatim>\<open>EfEpoll\<close> (\<^verbatim>\<open>epoll.c\<close> and \<^verbatim>\<open>port.c\<close>);
    \<^verbatim>\<open>PollCorrect\<close>, \<^verbatim>\<open>EpolletCorrect\<close>, \<^verbatim>\<open>EpolletOps\<close>; \<^verbatim>\<open>EventSource\<close>: the interface \<^verbatim>\<open>poll.h\<close> and its
    laws, with the first two sources as instances.
  \<^item> \<^verbatim>\<open>FiberSwitch\<close> (\<^verbatim>\<open>amd64/fiber.s\<close>) and \<^verbatim>\<open>FiberSwitch386\<close> (\<^verbatim>\<open>i386/fiber.s\<close>): the assembly,
    instruction by instruction, on a machine of registers and memory.  \<^verbatim>\<open>EfFiber\<close> (\<^verbatim>\<open>fiber.c\<close>,
    \<^verbatim>\<open>fiber.h\<close>) and \<^verbatim>\<open>EfCoroutine\<close> (\<^verbatim>\<open>coroutine.c\<close>, \<^verbatim>\<open>coroutine.h\<close>).
  \<^item> \<^verbatim>\<open>EfRoutine\<close> (the calls of \<^verbatim>\<open>framework.c\<close>, from \<^verbatim>\<open>ef_routine_close\<close> on), \<^verbatim>\<open>RoutineWaits\<close>,
    \<^verbatim>\<open>RoutineSources\<close>: that a routine that has yielded is registered, for every source that
    satisfies the laws, and for both sources of the repository.
  \<^item> \<^verbatim>\<open>EfFramework\<close> (the event loop of \<^verbatim>\<open>framework.c\<close>); \<^verbatim>\<open>FrameworkCorrect\<close>, \<^verbatim>\<open>FrameworkServe\<close>,
    \<^verbatim>\<open>FrameworkLoop\<close>, \<^verbatim>\<open>FrameworkProps\<close>: its queues, its invariant, and its properties.
  \<^item> \<^verbatim>\<open>EfFastcgi\<close> (\<^verbatim>\<open>fastcgi.c\<close>, \<^verbatim>\<open>fastcgi.h\<close>); \<^verbatim>\<open>FastcgiParams\<close>, \<^verbatim>\<open>FastcgiRequest\<close>,
    \<^verbatim>\<open>FastcgiResponse\<close>: encodings of parameters, requests and responses.
  \<^item> \<^verbatim>\<open>EfRedis\<close> (\<^verbatim>\<open>redis.c\<close>, \<^verbatim>\<open>redis.h\<close>); \<^verbatim>\<open>RedisCorrect\<close>: the encoding of replies; \<^verbatim>\<open>RedisTyped\<close>:
    the type of replies.
  \<^item> \<^verbatim>\<open>EfHttp\<close> (\<^verbatim>\<open>http.c\<close>, \<^verbatim>\<open>http.h\<close>) and \<^verbatim>\<open>HttpCorrect\<close>.
  \<^item> \<^verbatim>\<open>EfMain\<close> and \<^verbatim>\<open>MainStart\<close> (\<^verbatim>\<open>main.c\<close>): the procedures it runs for a connection, and the
    program itself; \<^verbatim>\<open>MainCorrect\<close>: what the forwarding procedure passes on.

  A definition has the name of the function it models; the body of a loop that is a definition
  of its own has a descriptive name.  Where two C files define the same name, as \<^verbatim>\<open>epoll.c\<close> and
  \<^verbatim>\<open>epollet.c\<close> do, the one modelled second has a suffix.

  \<^bold>\<open>What the lemmas show.\<close>
  \<^item> Data structures.  The list operations are those of a deque and leave other lists of the
    same heap alone.  An append to a buffer or a string either adds exactly the data or changes
    nothing, whatever the allocator does.  After any history of insertions and removals the
    hash table denotes the map the same history builds, and the destructor has been called on
    exactly the values that have left it; string and header tables inherit this.  Buffered
    reading delivers the incoming stream in order, buffered writing puts its data on the wire
    in order.  Numbers written are read back.
  \<^item> Event sources.  Every sequence of operations keeps the arrays consistent, never faults and
    never reports the pointer of a descriptor that was closed; the edge-triggered source
    loses no event.
  \<^item> Fibers and coroutines.  A switch away and a switch back restore every register; the first
    switch enters the procedure and its return resumes the parent.  Resuming and yielding act as
    a stack of active fibers.  The coroutine pool keeps its counters and lists in agreement with
    the fibers that exist, and no operation faults in a reachable state.
  \<^item> Event loop.  A round keeps the invariant of the runtime; connections are queued and served
    first in, first out; a routine that has yielded is registered and is woken when its
    descriptor is ready; stopping empties the pool.  \<^verbatim>\<open>main\<close> enters the loop with the sockets
    registered or ends before it.
  \<^item> Protocols.  Requests, parameters, responses and replies are read back from, or written as,
    reference encodings given in the theories; replies are well typed for all input; the
    forwarding procedure relays in order.
  \<^item> Failures.  Where the code cannot do what it means to, the theorem states what it does: the
    vector that grows out of bounds, the connection taken for established too early, error
    replies that are written behind their block, split strings in arrays, chunked bodies
    that are never delivered, uninitialised pointers in \<^verbatim>\<open>fcgi_read_request\<close>, and the exit code
    of the 32-bit switch that takes the procedure's argument for the fiber.

  \<^bold>\<open>Interfaces.\<close>  Four locales state what one part promises another.  \<^verbatim>\<open>byte_sink\<close>: an append is
  defined, and atomic; \<^verbatim>\<open>buffer_sink\<close> and \<^verbatim>\<open>string_sink\<close> interpret it.  \<^verbatim>\<open>dict\<close>: insertion,
  lookup and removal act as on a map; \<^verbatim>\<open>hashtable\<close> interprets it and the two tables use it.
  \<^verbatim>\<open>source\<close>: what every event source does with registrations; \<^verbatim>\<open>poll\<close> and \<^verbatim>\<open>epollet\<close> interpret it.
  \<^verbatim>\<open>waiting\<close>: what the calls of a routine and the event loop need of a source; \<^verbatim>\<open>et\<close> and \<^verbatim>\<open>pl\<close>
  interpret it on the two sources, and the properties of the event loop rest on \<^verbatim>\<open>et\<close>.

  \<^bold>\<open>Fuel.\<close>  Loops that are bounded by their data are given enough and the bound is proved: a walk
  along a chain of the hash table has one step for each bucket and one more; an append and
  an allocation of a bucket repeat once after growing; a safe read or write takes at most one
  response of the script for each turn.  Loops that wait for input have the fuel as an
  argument, since nothing bounds how long a peer may send nothing: the theorems on them say how
  much is enough (the nesting of a reply, the length of what is sent plus that of the script),
  or that no amount is (\<^verbatim>\<open>ef_bio_reader_skip\<close> at the end of the input).  A request of the loop
  of \<^verbatim>\<open>fcgi_proc\<close> takes one element of the list of what its locals hold.  The event loop runs
  for a given number of rounds, each proved to return.  The walks over the lists of the
  runtime are partial functions, so that a walk that does not end has no value; that they end
  is proved with the invariant of the queues.

  \<^bold>\<open>Not modelled.\<close>  Freeing has no effect but the destructor calls, the count of blocks of a
  reply and the loss of what was freed; double freeing of the plain structures is not tracked.
  The event sources over \<^verbatim>\<open>epoll.c\<close> and \<^verbatim>\<open>port.c\<close> leave the registrations to the kernel, so only their operations are
  given.  \<^verbatim>\<open>printf\<close> is left out, as are the creation of sockets and the filling in of addresses,
  whose results are arguments.  The procedures of \<^verbatim>\<open>main.c\<close> run over scripts of responses: that
  a call of theirs yields to the loop in between is the matter of \<^verbatim>\<open>EfRoutine\<close> and \<^verbatim>\<open>EfFramework\<close>,
  where the procedures are arguments in turn.  Ports and fields that only the kernel reads are kept but not
  interpreted.  The commented-out part of \<^verbatim>\<open>redis_proc\<close> is not code.
\<close>

end
